(* ===== verification/Prelude.thy ===== *)
theory Prelude
  imports Main "HOL-Library.Word"
begin

text \<open>
  Shared vocabulary of the development: unsigned machine arithmetic written out on
  \<^typ>\<open>nat\<close>, ordered maps and sets (the model of Rust's \<^verbatim>\<open>BTreeMap\<close> and
  \<^verbatim>\<open>BTreeSet\<close>, and of \<^verbatim>\<open>HashMap\<close>/\<^verbatim>\<open>HashSet\<close> where only lookup matters)
  as strictly sorted lists, and the counting lemmas that the quorum arguments of the
  components share.
\<close>

named_theorems omap_simps \<open>lookup after an update of an ordered map\<close>
named_theorems oset_simps \<open>elements after an update of an ordered set\<close>
named_theorems order_intros \<open>operations keep maps and sets strictly sorted\<close>

section \<open>Unsigned machine arithmetic\<close>

text \<open>
  \<^verbatim>\<open>u64::saturating_sub\<close> is subtraction on \<^typ>\<open>nat\<close>. The remaining operations
  carry the width explicitly.
\<close>

definition u64_max :: nat where
  "u64_max = 2 ^ 64 - 1"

definition sat_add :: "nat \<Rightarrow> nat \<Rightarrow> nat" where
  "sat_add a b = min (a + b) u64_max"

definition wrap_sub64 :: "nat \<Rightarrow> nat \<Rightarrow> nat" where
  "wrap_sub64 a b = (a + 2 ^ 64 - b) mod 2 ^ 64"

definition div_ceil :: "nat \<Rightarrow> nat \<Rightarrow> nat" where
  "div_ceil a b = (a + b - 1) div b"

lemma wrap_sub_eq:
  fixes a b m :: nat
  assumes "b \<le> a" and "a < m"
  shows "(a + m - b) mod m = a - b"
proof -
  have eq: "a + m - b = (a - b) + m" and lt: "a - b < m"
    using assms by simp_all
  show ?thesis
    unfolding eq using lt by simp
qed

lemma wrap_sub64_eq: "b \<le> a \<Longrightarrow> a < 2 ^ 64 \<Longrightarrow> wrap_sub64 a b = a - b"
  unfolding wrap_sub64_def by (rule wrap_sub_eq)

lemma sat_add_le [simp]: "sat_add a b \<le> a + b"
  by (simp add: sat_add_def)

lemma sat_add_eq: "a + b \<le> u64_max \<Longrightarrow> sat_add a b = a + b"
  by (simp add: sat_add_def)

lemma sat_add_mono_left: "a \<le> u64_max \<Longrightarrow> a \<le> sat_add a b"
  by (simp add: sat_add_def)

section \<open>Ordered maps\<close>

type_synonym ('k, 'v) omap = "('k \<times> 'v) list"

text \<open>Lookup is \<^const>\<open>map_of\<close>; iteration in key order is the list itself.\<close>

definition omap_ok :: "('k::linorder, 'v) omap \<Rightarrow> bool" where
  "omap_ok m \<longleftrightarrow> sorted_wrt (<) (map fst m)"

fun om_put :: "'k::linorder \<Rightarrow> 'v \<Rightarrow> ('k, 'v) omap \<Rightarrow> ('k, 'v) omap" where
  "om_put k v [] = [(k, v)]"
| "om_put k v (e # m) =
     (if fst e < k then e # om_put k v m
      else if k < fst e then (k, v) # e # m
      else (k, v) # m)"

definition om_del :: "'k \<Rightarrow> ('k, 'v) omap \<Rightarrow> ('k, 'v) omap" where
  "om_del k m = filter (\<lambda>e. fst e \<noteq> k) m"

text \<open>\<^verbatim>\<open>BTreeMap::split_off\<close>: the part at and above a key.\<close>

definition om_from :: "'k::linorder \<Rightarrow> ('k, 'v) omap \<Rightarrow> ('k, 'v) omap" where
  "om_from k m = filter (\<lambda>e. k \<le> fst e) m"

definition om_has :: "('k, 'v) omap \<Rightarrow> 'k \<Rightarrow> bool" where
  "om_has m k \<longleftrightarrow> map_of m k \<noteq> None"

text \<open>\<^verbatim>\<open>entry(k).or_insert(d)\<close> followed by an in-place change of the value.\<close>

definition om_upd :: "'k::linorder \<Rightarrow> 'v \<Rightarrow> ('v \<Rightarrow> 'v) \<Rightarrow> ('k, 'v) omap \<Rightarrow> ('k, 'v) omap" where
  "om_upd k d f m = om_put k (f (case map_of m k of None \<Rightarrow> d | Some v \<Rightarrow> v)) m"

lemma map_of_om_put [omap_simps]: "map_of (om_put k v m) = (map_of m)(k \<mapsto> v)"
  by (induction m) (auto simp: fun_eq_iff)

lemma map_of_om_del [omap_simps]: "map_of (om_del k m) = (map_of m)(k := None)"
  by (induction m) (auto simp: om_del_def fun_eq_iff)

lemma map_of_om_from [omap_simps]:
  "map_of (om_from k m) x = (if k \<le> x then map_of m x else None)"
  by (induction m) (auto simp: om_from_def)

lemma map_of_om_upd [omap_simps]:
  "map_of (om_upd k d f m) =
     (map_of m)(k \<mapsto> f (case map_of m k of None \<Rightarrow> d | Some v \<Rightarrow> v))"
  by (simp add: om_upd_def map_of_om_put)

lemma om_has_put [omap_simps]: "om_has (om_put k v m) x \<longleftrightarrow> x = k \<or> om_has m x"
  by (simp add: om_has_def map_of_om_put)

lemma om_has_del [omap_simps]: "om_has (om_del k m) x \<longleftrightarrow> x \<noteq> k \<and> om_has m x"
  by (simp add: om_has_def map_of_om_del)

lemma om_has_Nil [simp]: "\<not> om_has [] k"
  by (simp add: om_has_def)

lemma keys_om_put: "fst ` set (om_put k v m) = insert k (fst ` set m)"
  by (induction m) (auto simp: image_iff not_less_iff_gr_or_eq)

lemma set_om_put_subset: "set (om_put k v m) \<subseteq> insert (k, v) (set m)"
  by (induction m) auto

lemma omap_ok_Nil [simp, order_intros]: "omap_ok []"
  by (simp add: omap_ok_def)

lemma omap_ok_Cons: "omap_ok (e # m) \<longleftrightarrow> (\<forall>k \<in> fst ` set m. fst e < k) \<and> omap_ok m"
  by (simp add: omap_ok_def)

lemma omap_ok_put [order_intros]: "omap_ok m \<Longrightarrow> omap_ok (om_put k v m)"
proof (induction m)
  case Nil
  then show ?case by (simp add: omap_ok_def)
next
  case (Cons e m)
  then have "omap_ok (om_put k v m)" and m: "\<forall>x \<in> fst ` set m. fst e < x"
    by (simp_all add: omap_ok_Cons)
  then show ?case
    using Cons.prems by (auto simp: omap_ok_Cons keys_om_put dest: set_om_put_subset [THEN subsetD])
qed

lemma omap_ok_filter [order_intros]: "omap_ok m \<Longrightarrow> omap_ok (filter P m)"
  by (induction m) (auto simp: omap_ok_Cons)

lemma omap_ok_del [order_intros]: "omap_ok m \<Longrightarrow> omap_ok (om_del k m)"
  by (simp add: om_del_def omap_ok_filter)

lemma omap_ok_from [order_intros]: "omap_ok m \<Longrightarrow> omap_ok (om_from k m)"
  by (simp add: om_from_def omap_ok_filter)

lemma omap_ok_upd [order_intros]: "omap_ok m \<Longrightarrow> omap_ok (om_upd k d f m)"
  by (simp add: om_upd_def omap_ok_put)

lemma omap_ok_distinct: "omap_ok m \<Longrightarrow> distinct (map fst m)"
  by (simp add: omap_ok_def strict_sorted_iff)

lemma omap_ok_map_of: "omap_ok m \<Longrightarrow> map_of m k = Some v \<longleftrightarrow> (k, v) \<in> set m"
  by (simp add: omap_ok_distinct map_of_eq_Some_iff)

lemma omap_length_card: "omap_ok m \<Longrightarrow> length m = card (dom (map_of m))"
proof -
  assume "omap_ok m"
  then have "distinct (map fst m)" by (rule omap_ok_distinct)
  then have "card (fst ` set m) = length m"
    using distinct_card [of "map fst m"] by simp
  then show ?thesis
    by (simp add: dom_map_of_conv_image_fst)
qed

lemma omap_by_keys: "omap_ok m \<Longrightarrow> m = map (\<lambda>k. (k, the (map_of m k))) (map fst m)"
proof -
  assume ok: "omap_ok m"
  have "map (\<lambda>e. (fst e, the (map_of m (fst e)))) m = map (\<lambda>e. e) m"
  proof (rule map_cong)
    fix e assume "e \<in> set m"
    then have "map_of m (fst e) = Some (snd e)"
      using ok by (simp add: omap_ok_map_of)
    then show "(fst e, the (map_of m (fst e))) = e" by simp
  qed simp
  then show ?thesis by (simp add: comp_def)
qed

text \<open>A strictly sorted map is determined by its lookups.\<close>

lemma omap_ext:
  assumes "omap_ok m" and "omap_ok m'" and "map_of m = map_of m'"
  shows "m = m'"
proof -
  have keys: "set (map fst m) = set (map fst m')"
    using assms(3) by (metis dom_map_of_conv_image_fst list.set_map)
  have "map fst m = map fst m'"
    using assms(1,2) keys by (intro strict_sorted_equal) (simp_all add: omap_ok_def)
  moreover have "m = map (\<lambda>k. (k, the (map_of m k))) (map fst m)"
    using assms(1) by (rule omap_by_keys)
  moreover have "m' = map (\<lambda>k. (k, the (map_of m' k))) (map fst m')"
    using assms(2) by (rule omap_by_keys)
  ultimately show ?thesis
    using assms(3) by simp
qed

section \<open>Ordered sets\<close>

type_synonym 'k oset = "'k list"

definition oset_ok :: "'k::linorder oset \<Rightarrow> bool" where
  "oset_ok s \<longleftrightarrow> sorted_wrt (<) s"

fun os_ins :: "'k::linorder \<Rightarrow> 'k oset \<Rightarrow> 'k oset" where
  "os_ins x [] = [x]"
| "os_ins x (y # s) = (if y < x then y # os_ins x s else if x < y then x # y # s else y # s)"

definition os_del :: "'k \<Rightarrow> 'k oset \<Rightarrow> 'k oset" where
  "os_del x s = filter (\<lambda>y. y \<noteq> x) s"

definition os_from :: "'k::linorder \<Rightarrow> 'k oset \<Rightarrow> 'k oset" where
  "os_from x s = filter (\<lambda>y. x \<le> y) s"

lemma set_os_ins [simp, oset_simps]: "set (os_ins x s) = insert x (set s)"
  by (induction s) (auto simp: not_less_iff_gr_or_eq)

lemma set_os_del [simp, oset_simps]: "set (os_del x s) = set s - {x}"
  by (auto simp: os_del_def)

lemma set_os_from [simp, oset_simps]: "set (os_from x s) = {y \<in> set s. x \<le> y}"
  by (simp add: os_from_def)

lemma oset_ok_Nil [simp, order_intros]: "oset_ok []"
  by (simp add: oset_ok_def)

lemma oset_ok_ins [order_intros]: "oset_ok s \<Longrightarrow> oset_ok (os_ins x s)"
  unfolding oset_ok_def by (induction s) auto

lemma oset_ok_filter: "oset_ok s \<Longrightarrow> oset_ok (filter P s)"
  unfolding oset_ok_def by (induction s) auto

lemma oset_ok_del [order_intros]: "oset_ok s \<Longrightarrow> oset_ok (os_del x s)"
  by (simp add: os_del_def oset_ok_filter)

lemma oset_ok_from [order_intros]: "oset_ok s \<Longrightarrow> oset_ok (os_from x s)"
  by (simp add: os_from_def oset_ok_filter)

lemma oset_length_card: "oset_ok s \<Longrightarrow> length s = card (set s)"
  by (simp add: oset_ok_def strict_sorted_iff distinct_card)

section \<open>Weights and counting\<close>

text \<open>
  The weight of a set of parties is a finite sum. Two parts of a finite set whose weights
  add up to more than the whole overlap by at least the excess.
\<close>

lemma sum_overlap:
  fixes w :: "'a \<Rightarrow> nat"
  assumes "finite S" and "A \<subseteq> S" and "B \<subseteq> S"
  shows "sum w A + sum w B \<le> sum w S + sum w (A \<inter> B)"
proof -
  have fin: "finite A" "finite B"
    using assms by (auto intro: finite_subset)
  have "sum w A + sum w B = sum w (A \<union> B) + sum w (A \<inter> B)"
    using fin by (simp add: sum.union_inter)
  also have "sum w (A \<union> B) \<le> sum w S"
    using assms by (intro sum_mono2) auto
  finally show ?thesis by simp
qed

lemma sum_omap:
  "omap_ok m \<Longrightarrow>
     sum_list (map (\<lambda>e. g (fst e) (snd e)) m)
       = (\<Sum>k \<in> dom (map_of m). g k (the (map_of m k)))"
proof -
  assume ok: "omap_ok m"
  then have inj: "inj_on fst (set m)" and d: "distinct m"
    using omap_ok_distinct [OF ok] by (simp_all add: distinct_map)
  have "sum_list (map (\<lambda>e. g (fst e) (snd e)) m) = (\<Sum>e \<in> set m. g (fst e) (snd e))"
    by (rule sum_list_distinct_conv_sum_set [OF d])
  also have "\<dots> = (\<Sum>e \<in> set m. g (fst e) (the (map_of m (fst e))))"
  proof (rule sum.cong)
    fix e assume "e \<in> set m"
    then have "map_of m (fst e) = Some (snd e)"
      using ok by (simp add: omap_ok_map_of)
    then show "g (fst e) (snd e) = g (fst e) (the (map_of m (fst e)))" by simp
  qed simp
  also have "\<dots> = (\<Sum>k \<in> fst ` set m. g k (the (map_of m k)))"
    by (simp add: sum.reindex [OF inj])
  finally show ?thesis
    by (simp add: dom_map_of_conv_image_fst)
qed

end
