(* ===== verification/Committee.thy ===== *)
theory Committee
  imports Prelude
begin

text \<open>
  Identities, the committee, its thresholds and the leader schedules:
  \<^verbatim>\<open>crypto/src/lib.rs\<close> (\<^verbatim>\<open>Digest\<close>, \<^verbatim>\<open>PublicKey\<close>), the committee part of
  \<^verbatim>\<open>config/src/lib.rs\<close>, \<^verbatim>\<open>primary/src/vantage/threshold.rs\<close> and
  \<^verbatim>\<open>primary/src/leader.rs\<close>. The locale \<^verbatim>\<open>quorum_system\<close> states what the protocol
  components need of a threshold; it is interpreted for the stake quorum and for the
  party-count quorum.
\<close>

section \<open>Digests and public keys\<close>

text \<open>
  Both are 32 bytes with the derived (lexicographic) order. Read as a big-endian number,
  32 bytes are a 256-bit word and the lexicographic order is the unsigned one.
\<close>

datatype digest = Digest "256 word"

datatype public_key = PublicKey "256 word"

instantiation digest :: linorder
begin

definition less_eq_digest :: "digest \<Rightarrow> digest \<Rightarrow> bool" where
  "less_eq_digest a b = (case (a, b) of (Digest x, Digest y) \<Rightarrow> x \<le> y)"

definition less_digest :: "digest \<Rightarrow> digest \<Rightarrow> bool" where
  "less_digest a b = (case (a, b) of (Digest x, Digest y) \<Rightarrow> x < y)"

instance
  by standard (auto simp: less_eq_digest_def less_digest_def split: digest.splits)

end

instantiation public_key :: linorder
begin

definition less_eq_public_key :: "public_key \<Rightarrow> public_key \<Rightarrow> bool" where
  "less_eq_public_key a b = (case (a, b) of (PublicKey x, PublicKey y) \<Rightarrow> x \<le> y)"

definition less_public_key :: "public_key \<Rightarrow> public_key \<Rightarrow> bool" where
  "less_public_key a b = (case (a, b) of (PublicKey x, PublicKey y) \<Rightarrow> x < y)"

instance
  by standard (auto simp: less_eq_public_key_def less_public_key_def split: public_key.splits)

end

lemma key_order_simps [simp]:
  "Digest x \<le> Digest y \<longleftrightarrow> x \<le> y" "Digest x < Digest y \<longleftrightarrow> x < y"
  "PublicKey p \<le> PublicKey q \<longleftrightarrow> p \<le> q" "PublicKey p < PublicKey q \<longleftrightarrow> p < q"
  by (simp_all add: less_eq_digest_def less_digest_def less_eq_public_key_def less_public_key_def)

type_synonym view = nat
type_synonym height = nat
type_synonym stake = nat
type_synonym worker_id = nat

section \<open>The committee\<close>

text \<open>
  Stakes are \<^verbatim>\<open>u32\<close>. Their sum and the doubling in the quorum threshold wrap at
  \<open>2 ^ 32\<close>, as in a release build.
\<close>

record authority =
  a_stake :: stake
  a_workers :: "worker_id list"

record committee =
  authorities :: "(public_key, authority) omap"

definition committee_size :: "committee \<Rightarrow> nat" where
  "committee_size c = length (authorities c)"

definition stake_of :: "committee \<Rightarrow> public_key \<Rightarrow> stake" where
  "stake_of c name = (case map_of (authorities c) name of None \<Rightarrow> 0 | Some x \<Rightarrow> a_stake x)"

definition total_votes :: "committee \<Rightarrow> stake" where
  "total_votes c = sum_list (map (\<lambda>e. a_stake (snd e)) (authorities c)) mod 2 ^ 32"

definition quorum_threshold :: "committee \<Rightarrow> stake" where
  "quorum_threshold c = (2 * total_votes c) mod 2 ^ 32 div 3 + 1"

definition validity_threshold :: "committee \<Rightarrow> stake" where
  "validity_threshold c = div_ceil (total_votes c) 3"

definition fast_threshold :: "committee \<Rightarrow> stake" where
  "fast_threshold c = total_votes c"

definition others_stake :: "committee \<Rightarrow> public_key \<Rightarrow> (public_key \<times> stake) list" where
  "others_stake c myself =
     map (\<lambda>e. (fst e, a_stake (snd e))) (filter (\<lambda>e. fst e \<noteq> myself) (authorities c))"

fun position :: "'a \<Rightarrow> 'a list \<Rightarrow> nat option" where
  "position x [] = None"
| "position x (y # ys) = (if y = x then Some 0 else map_option Suc (position x ys))"

definition committee_index_of :: "committee \<Rightarrow> public_key \<Rightarrow> nat option" where
  "committee_index_of c name = position name (map fst (authorities c))"

text \<open>\<^verbatim>\<open>Committee::worker(..).is_ok()\<close>; the addresses themselves are not modelled.\<close>

definition has_worker :: "committee \<Rightarrow> public_key \<Rightarrow> worker_id \<Rightarrow> bool" where
  "has_worker c to w =
     (case map_of (authorities c) to of None \<Rightarrow> False | Some a \<Rightarrow> w \<in> set (a_workers a))"

definition members :: "committee \<Rightarrow> public_key set" where
  "members c = fst ` set (authorities c)"

definition stake_sum :: "committee \<Rightarrow> public_key set \<Rightarrow> stake" where
  "stake_sum c A = (\<Sum>p \<in> A. stake_of c p)"

text \<open>
  A well-formed committee: \<^verbatim>\<open>BTreeMap\<close> order, at least one authority, and a total stake
  that keeps the doubling within \<^verbatim>\<open>u32\<close>.
\<close>

definition committee_ok :: "committee \<Rightarrow> bool" where
  "committee_ok c \<longleftrightarrow>
     omap_ok (authorities c) \<and> authorities c \<noteq> [] \<and>
     0 < sum_list (map (\<lambda>e. a_stake (snd e)) (authorities c)) \<and>
     sum_list (map (\<lambda>e. a_stake (snd e)) (authorities c)) < 2 ^ 31"

section \<open>Party-count thresholds\<close>

text \<open>\<^verbatim>\<open>n - 1\<close> and \<^verbatim>\<open>n - f\<close> are \<^verbatim>\<open>usize\<close> subtractions.\<close>

record thresholds =
  th_n :: nat
  f_parties :: nat
  f_plus_1_parties :: nat
  n_minus_f_parties :: nat

definition from_party_count :: "nat \<Rightarrow> thresholds" where
  "from_party_count n =
     (let f = wrap_sub64 n 1 div 3
      in \<lparr>th_n = n, f_parties = f, f_plus_1_parties = f + 1, n_minus_f_parties = wrap_sub64 n f\<rparr>)"

definition from_committee :: "committee \<Rightarrow> thresholds" where
  "from_committee c = from_party_count (committee_size c)"

section \<open>Leader schedules\<close>

text \<open>
  \<^verbatim>\<open>RoundRobin::new\<close> and \<^verbatim>\<open>wrapped_index\<close> assert a non-empty committee; a failed
  assertion is \<^const>\<open>None\<close>.
\<close>

definition round_robin_new :: "committee \<Rightarrow> public_key list option" where
  "round_robin_new c =
     (let keys = map fst (authorities c) in if keys = [] then None else Some keys)"

definition wrapped_index :: "nat \<Rightarrow> nat \<Rightarrow> nat option" where
  "wrapped_index count pos = (if count = 0 then None else Some (pos mod count))"

definition rr_at :: "public_key list \<Rightarrow> nat \<Rightarrow> public_key option" where
  "rr_at rr pos = map_option (\<lambda>i. rr ! i) (wrapped_index (length rr) pos)"

definition rr_one_based :: "public_key list \<Rightarrow> nat \<Rightarrow> public_key option" where
  "rr_one_based rr round = rr_at rr (round - 1)"

definition one_based_authority :: "committee \<Rightarrow> nat \<Rightarrow> public_key option" where
  "one_based_authority c round =
     map_option (\<lambda>i. map fst (authorities c) ! i) (wrapped_index (committee_size c) (round - 1))"

record leader_elector =
  le_leaders :: "public_key list"
  leader_count :: nat
  slot_offset :: nat

definition leader_elector_new :: "committee \<Rightarrow> leader_elector option" where
  "leader_elector_new c =
     map_option (\<lambda>rr. \<lparr>le_leaders = rr, leader_count = committee_size c,
                       slot_offset = (committee_size c - 1) div 3\<rparr>)
       (round_robin_new c)"

text \<open>The product and the sum are \<^verbatim>\<open>u64\<close> operations and wrap.\<close>

definition get_leader :: "leader_elector \<Rightarrow> nat \<Rightarrow> view \<Rightarrow> public_key option" where
  "get_leader e slot v =
     (let n = leader_count e
      in if n = 0 then None
         else let slot_shift = (slot mod n) * (slot_offset e mod n) mod 2 ^ 64 mod n;
                  pos = ((v mod n) + slot_shift) mod 2 ^ 64 mod n
              in rr_at (le_leaders e) pos)"

section \<open>Facts about the committee\<close>

lemma members_dom: "members c = dom (map_of (authorities c))"
  by (simp add: members_def dom_map_of_conv_image_fst)

lemma finite_members [simp]: "finite (members c)"
  by (simp add: members_def)

lemma stake_of_nonmember [simp]: "p \<notin> members c \<Longrightarrow> stake_of c p = 0"
  by (auto simp: stake_of_def members_dom split: option.splits)

lemma stake_sum_members:
  "committee_ok c \<Longrightarrow> stake_sum c (members c) = sum_list (map (\<lambda>e. a_stake (snd e)) (authorities c))"
proof -
  assume "committee_ok c"
  then have ok: "omap_ok (authorities c)" by (simp add: committee_ok_def)
  have "sum_list (map (\<lambda>e. a_stake (snd e)) (authorities c)) =
        (\<Sum>k \<in> dom (map_of (authorities c)). a_stake (the (map_of (authorities c) k)))"
    using sum_omap [OF ok, of "\<lambda>_. a_stake"] by simp
  also have "\<dots> = stake_sum c (members c)"
    unfolding stake_sum_def members_dom
    by (rule sum.cong) (auto simp: stake_of_def)
  finally show ?thesis by simp
qed

lemma total_votes_eq: "committee_ok c \<Longrightarrow> total_votes c = stake_sum c (members c)"
  by (simp add: total_votes_def stake_sum_members committee_ok_def)

lemma total_votes_bounds: "committee_ok c \<Longrightarrow> 0 < total_votes c \<and> total_votes c < 2 ^ 31"
  by (simp add: total_votes_def committee_ok_def)

lemma quorum_threshold_eq: "committee_ok c \<Longrightarrow> quorum_threshold c = 2 * total_votes c div 3 + 1"
  using total_votes_bounds [of c] by (simp add: quorum_threshold_def)

lemma quorum_threshold_pos [simp]: "0 < quorum_threshold c"
  by (simp add: quorum_threshold_def)

lemma stake_sum_mono: "A \<subseteq> B \<Longrightarrow> finite B \<Longrightarrow> stake_sum c A \<le> stake_sum c B"
  unfolding stake_sum_def by (rule sum_mono2) auto

lemma stake_sum_members_only: "finite A \<Longrightarrow> stake_sum c A = stake_sum c (A \<inter> members c)"
  unfolding stake_sum_def by (rule sum.mono_neutral_right) auto

lemma stake_sum_le_total: "committee_ok c \<Longrightarrow> finite A \<Longrightarrow> stake_sum c A \<le> total_votes c"
  using stake_sum_mono [of "A \<inter> members c" "members c" c]
  by (simp add: total_votes_eq stake_sum_members_only [of A])

lemma sum_list_units: "\<forall>x \<in> set xs. g x = (1::nat) \<Longrightarrow> sum_list (map g xs) = length xs"
  by (induction xs) auto

text \<open>Every window of \<open>n\<close> consecutive numbers has exactly one member of each residue.\<close>

lemma residue_in_window:
  assumes "i < (n::nat)"
  shows "\<exists>!w. a \<le> w \<and> w < a + n \<and> w mod n = i"
proof -
  obtain q r where a: "a = n * q + r" "r < n"
    using assms by (metis mod_less_divisor mult_div_mod_eq gr_zeroI less_zeroE)
  define w where "w = (if r \<le> i then n * q + i else n * q + n + i)"
  have range: "a \<le> w" "w < a + n"
    using assms a by (auto simp: w_def)
  have "w = i + n * (if r \<le> i then q else Suc q)"
    by (simp add: w_def)
  then have w: "w mod n = i"
    using assms by (simp only: mod_mult_self2 mod_less)
  have same: "u' = u" if "u \<le> u'" "u' < u + n" "u mod n = u' mod n" for u u'
    using that mod_eq_dvd_iff_nat [of u u' n] by (auto dest: dvd_imp_le)
  have uniq: "u = w" if "a \<le> u" "u < a + n" "u mod n = i" for u
    using same [of u w] same [of w u] that range w by linarith
  show ?thesis
    using range w uniq by blast
qed

lemma from_party_count_eq:
  assumes "1 \<le> n" and "n < 2 ^ 64"
  shows "from_party_count n =
    \<lparr>th_n = n, f_parties = (n - 1) div 3, f_plus_1_parties = (n - 1) div 3 + 1,
     n_minus_f_parties = n - (n - 1) div 3\<rparr>"
  using assms by (simp add: from_party_count_def wrap_sub64_eq Let_def)

section \<open>Quorum systems\<close>

text \<open>
  What the protocol needs of a threshold: two quorums overlap in more weight than the
  faulty parties have. The parameter \<open>c\<close> is the configuration the threshold is computed
  from.
\<close>

locale quorum_system =
  fixes valid :: "'c \<Rightarrow> bool"
    and parties :: "'c \<Rightarrow> 'p set"
    and weight :: "'c \<Rightarrow> 'p \<Rightarrow> nat"
    and quorum :: "'c \<Rightarrow> nat"
    and slack :: "'c \<Rightarrow> nat"
  assumes parties_finite: "valid c \<Longrightarrow> finite (parties c)"
    and quorum_overlap: "valid c \<Longrightarrow> sum (weight c) (parties c) + slack c < 2 * quorum c"
    and quorum_reachable: "valid c \<Longrightarrow> quorum c + slack c \<le> sum (weight c) (parties c)"
begin

lemma overlap_exceeds_slack:
  assumes "valid c" and "A \<subseteq> parties c" and "B \<subseteq> parties c"
    and "quorum c \<le> sum (weight c) A" and "quorum c \<le> sum (weight c) B"
  shows "slack c < sum (weight c) (A \<inter> B)"
  using sum_overlap [OF parties_finite [OF assms(1)] assms(2,3), of "weight c"]
    quorum_overlap [OF assms(1)] assms(4,5) by linarith

lemma common_correct:
  assumes "valid c" and "A \<subseteq> parties c" and "B \<subseteq> parties c"
    and "quorum c \<le> sum (weight c) A" and "quorum c \<le> sum (weight c) B"
    and "sum (weight c) F \<le> slack c" and "finite F"
  shows "\<exists>p. p \<in> A \<and> p \<in> B \<and> p \<notin> F"
proof (rule ccontr)
  assume "\<not> ?thesis"
  then have "A \<inter> B \<subseteq> F" by blast
  then have "sum (weight c) (A \<inter> B) \<le> sum (weight c) F"
    using assms(7) by (intro sum_mono2) auto
  with overlap_exceeds_slack [OF assms(1-5)] assms(6) show False by simp
qed

lemma correct_form_quorum:
  assumes "valid c" and "sum (weight c) F \<le> slack c" and "F \<subseteq> parties c"
  shows "quorum c \<le> sum (weight c) (parties c - F)"
proof -
  have "sum (weight c) (parties c - F) = sum (weight c) (parties c) - sum (weight c) F"
    using assms by (intro sum_diff_nat) (auto intro: finite_subset parties_finite)
  then show ?thesis
    using quorum_reachable [OF assms(1)] assms(2) by linarith
qed

end

text \<open>The stake quorum tolerates faulty stake up to \<open>(T - 1) div 3\<close> of the total \<open>T\<close>.\<close>

definition stake_slack :: "committee \<Rightarrow> stake" where
  "stake_slack c = (total_votes c - 1) div 3"

interpretation stake_q: quorum_system committee_ok members stake_of quorum_threshold stake_slack
proof unfold_locales
  fix c assume ok: "committee_ok c"
  show "finite (members c)" by simp
  have T: "sum (stake_of c) (members c) = total_votes c" and "0 < total_votes c"
    using ok total_votes_bounds [OF ok] by (simp_all add: total_votes_eq stake_sum_def)
  then show "sum (stake_of c) (members c) + stake_slack c < 2 * quorum_threshold c"
    and "quorum_threshold c + stake_slack c \<le> sum (stake_of c) (members c)"
    using quorum_threshold_eq [OF ok] unfolding stake_slack_def by presburger+
qed

text \<open>The party quorum \<open>Q = n - f\<close> over the positions \<open>0 ..< n\<close>.\<close>

definition party_count_ok :: "nat \<Rightarrow> bool" where
  "party_count_ok n \<longleftrightarrow> 1 \<le> n \<and> n < 2 ^ 64"

definition one_vote :: "nat \<Rightarrow> 'p \<Rightarrow> nat" where
  "one_vote n p = 1"

interpretation party_q: quorum_system party_count_ok "\<lambda>n. {..<n}" one_vote
  "\<lambda>n. n_minus_f_parties (from_party_count n)" "\<lambda>n. f_parties (from_party_count n)"
proof unfold_locales
  fix n assume "party_count_ok n"
  then have n: "1 \<le> n" and eq: "from_party_count n =
      \<lparr>th_n = n, f_parties = (n - 1) div 3, f_plus_1_parties = (n - 1) div 3 + 1,
       n_minus_f_parties = n - (n - 1) div 3\<rparr>"
    by (simp_all add: party_count_ok_def from_party_count_eq)
  show "finite {..<n}" by simp
  from n show "sum (one_vote n) {..<n} + f_parties (from_party_count n)
      < 2 * n_minus_f_parties (from_party_count n)"
    and "n_minus_f_parties (from_party_count n) + f_parties (from_party_count n)
      \<le> sum (one_vote n) {..<n}"
    unfolding eq one_vote_def by simp_all
qed

section \<open>Properties\<close>

text \<open>C8. Any two stake quorums of a well-formed committee share an authority outside every
  set of authorities that holds less than a third of the stake, a set of validity-threshold
  stake has one too, and the remaining authorities form a quorum by themselves.\<close>

theorem stake_quorums_intersect:
  assumes ok: "committee_ok c"
    and F: "F \<subseteq> members c" "3 * stake_sum c F < stake_sum c (members c)"
  shows "quorum_threshold c \<le> stake_sum c (members c - F)
    \<and> (\<forall>A B. A \<subseteq> members c \<longrightarrow> B \<subseteq> members c \<longrightarrow>
         quorum_threshold c \<le> stake_sum c A \<longrightarrow> quorum_threshold c \<le> stake_sum c B \<longrightarrow>
         (\<exists>p. p \<in> A \<and> p \<in> B \<and> p \<notin> F))
    \<and> (\<forall>A. A \<subseteq> members c \<longrightarrow> validity_threshold c \<le> stake_sum c A \<longrightarrow> (\<exists>p \<in> A. p \<notin> F))"
proof -
  have slack: "stake_sum c F \<le> stake_slack c"
    using F(2) total_votes_eq [OF ok] unfolding stake_slack_def by presburger
  have fin: "finite F" using F(1) finite_members by (rule finite_subset)
  have one: "quorum_threshold c \<le> stake_sum c (members c - F)"
    using stake_q.correct_form_quorum [OF ok _ F(1)] slack by (simp add: stake_sum_def)
  have two: "\<exists>p. p \<in> A \<and> p \<in> B \<and> p \<notin> F"
    if "A \<subseteq> members c" "B \<subseteq> members c"
      "quorum_threshold c \<le> stake_sum c A" "quorum_threshold c \<le> stake_sum c B" for A B
    using stake_q.common_correct [OF ok that(1,2), of F] that(3,4) slack fin
    by (simp add: stake_sum_def)
  have three: "\<exists>p \<in> A. p \<notin> F"
    if "A \<subseteq> members c" "validity_threshold c \<le> stake_sum c A" for A
  proof (rule ccontr)
    assume "\<not> ?thesis"
    then have "A \<subseteq> F" by blast
    then have "stake_sum c A \<le> stake_sum c F"
      using fin by (rule stake_sum_mono)
    then show False
      using that(2) F(2) total_votes_eq [OF ok]
      unfolding validity_threshold_def div_ceil_def by presburger
  qed
  show ?thesis using one two three by blast
qed

definition demo_committee :: committee where
  "demo_committee =
     \<lparr>authorities = map (\<lambda>i. (PublicKey (of_nat i), \<lparr>a_stake = 1, a_workers = [0]\<rparr>)) [1, 2, 3, 4]\<rparr>"

lemma demo_committee_ok: "committee_ok demo_committee"
  by (simp add: committee_ok_def demo_committee_def omap_ok_def)

lemma demo_members: "members demo_committee = {PublicKey 1, PublicKey 2, PublicKey 3, PublicKey 4}"
  by (simp add: members_def demo_committee_def)

lemma demo_stake_of:
  "stake_of demo_committee (PublicKey 1) = 1" "stake_of demo_committee (PublicKey 2) = 1"
  "stake_of demo_committee (PublicKey 3) = 1" "stake_of demo_committee (PublicKey 4) = 1"
  by (simp_all add: stake_of_def demo_committee_def)

theorem stake_quorums_intersect_witness:
  "quorum_threshold demo_committee
     \<le> stake_sum demo_committee (members demo_committee - {PublicKey 4})"
  using stake_quorums_intersect [OF demo_committee_ok, of "{PublicKey 4}"]
  by (simp add: demo_members stake_sum_def demo_stake_of)

text \<open>C37. With unit stakes the stake thresholds are the party-count thresholds: the quorum
  is \<open>Q = n - f\<close> and the validity threshold is \<open>f + 1\<close>.\<close>

theorem unit_stake_thresholds:
  assumes ok: "committee_ok c" and unit: "\<forall>e \<in> set (authorities c). a_stake (snd e) = 1"
  shows "quorum_threshold c = n_minus_f_parties (from_committee c)
    \<and> validity_threshold c = f_plus_1_parties (from_committee c)"
proof -
  have T: "total_votes c = committee_size c"
    and n: "1 \<le> committee_size c" "committee_size c < 2 ^ 64"
    using ok sum_list_units [OF unit]
    by (simp_all add: total_votes_def committee_ok_def committee_size_def Suc_le_eq)
  have "quorum_threshold c = n_minus_f_parties (from_committee c)"
    using n unfolding quorum_threshold_eq [OF ok] T from_committee_def from_party_count_eq [OF n]
    by simp
  moreover have "validity_threshold c = f_plus_1_parties (from_committee c)"
    using n unfolding validity_threshold_def T from_committee_def from_party_count_eq [OF n] div_ceil_def
    by simp
  ultimately show ?thesis ..
qed

theorem unit_stake_thresholds_witness:
  "quorum_threshold demo_committee = n_minus_f_parties (from_committee demo_committee)
   \<and> validity_threshold demo_committee = f_plus_1_parties (from_committee demo_committee)"
  by (rule unit_stake_thresholds [OF demo_committee_ok]) (simp add: demo_committee_def)

text \<open>Beyond the bound of \<^const>\<open>committee_ok\<close> the doubling wraps: a committee of total stake
  \<open>2 ^ 31\<close> has quorum threshold 1.\<close>

lemma quorum_threshold_wraps:
  "quorum_threshold \<lparr>authorities = [(PublicKey 1, \<lparr>a_stake = 2 ^ 31, a_workers = []\<rparr>)]\<rparr> = 1"
  by (simp add: quorum_threshold_def total_votes_def)

text \<open>C38. The cached round-robin schedule is the committee order that \<^const>\<open>one_based_authority\<close>
  walks, and in any window of \<open>n\<close> consecutive views every authority is the designated proposer
  of exactly one view.\<close>

theorem round_robin_fair:
  assumes ok: "committee_ok c" and rr: "round_robin_new c = Some rr" and v: "1 \<le> v"
  shows "rr_one_based rr v = one_based_authority c v
    \<and> (\<forall>p \<in> members c. \<exists>!w. v \<le> w \<and> w < v + committee_size c \<and> rr_one_based rr w = Some p)"
proof -
  let ?n = "committee_size c"
  have rr_eq: "rr = map fst (authorities c)" and n: "length rr = ?n" "0 < ?n"
    using rr by (auto simp: round_robin_new_def Let_def committee_size_def split: if_splits)
  have d: "distinct rr"
    using ok by (simp add: rr_eq committee_ok_def omap_ok_distinct)
  have at: "rr_one_based rr w = Some (rr ! ((w - 1) mod ?n))" for w
    using n by (simp add: rr_one_based_def rr_at_def wrapped_index_def)
  have "\<exists>!w. v \<le> w \<and> w < v + ?n \<and> rr_one_based rr w = Some p" if p: "p \<in> members c" for p
  proof -
    from p obtain i where i: "i < ?n" "rr ! i = p"
      using n(1) by (auto simp: members_def rr_eq in_set_conv_nth [of p "map fst (authorities c)", simplified])
    have iff: "rr_one_based rr w = Some p \<longleftrightarrow> (w - 1) mod ?n = i" for w
      using d i n at [of w] by (auto simp: nth_eq_iff_index_eq)
    from residue_in_window [OF i(1), of "v - 1"]
    obtain w where w: "v - 1 \<le> w \<and> w < v - 1 + ?n \<and> w mod ?n = i"
      and uniq: "\<forall>u. v - 1 \<le> u \<and> u < v - 1 + ?n \<and> u mod ?n = i \<longrightarrow> u = w"
      by (rule ex1E)
    have "v \<le> Suc w \<and> Suc w < v + ?n \<and> (Suc w - 1) mod ?n = i"
      using w v by auto
    moreover have "u = Suc w" if "v \<le> u \<and> u < v + ?n \<and> (u - 1) mod ?n = i" for u
      using uniq [rule_format, of "u - 1"] that v by linarith
    ultimately show ?thesis
      unfolding iff by blast
  qed
  moreover have "rr_one_based rr v = one_based_authority c v"
    using n by (simp add: rr_one_based_def rr_at_def one_based_authority_def rr_eq)
  ultimately show ?thesis by blast
qed

lemma demo_round_robin:
  "round_robin_new demo_committee = Some [PublicKey 1, PublicKey 2, PublicKey 3, PublicKey 4]"
  by (simp add: round_robin_new_def demo_committee_def)

theorem round_robin_fair_witness:
  "\<exists>!w. 6 \<le> w \<and> w < 6 + committee_size demo_committee
     \<and> rr_one_based [PublicKey 1, PublicKey 2, PublicKey 3, PublicKey 4] w = Some (PublicKey 1)"
  using round_robin_fair [OF demo_committee_ok demo_round_robin, of 6] by (simp add: demo_members)

text \<open>C39. Reducing the slot and the offset before multiplying keeps the schedule: for up to
  \<open>2 ^ 32\<close> leaders no \<^verbatim>\<open>u64\<close> operation of \<^const>\<open>get_leader\<close> overflows, for any slot and
  view, and the leader is the one at position \<open>view + slot * f\<close>.\<close>

theorem get_leader_schedule:
  assumes e: "leader_elector_new c = Some e" and n: "committee_size c \<le> 2 ^ 32"
  shows "get_leader e slot v = rr_at (le_leaders e) (v + slot * f_parties (from_committee c))"
proof -
  let ?n = "committee_size c"
  have fields: "leader_count e = ?n" "slot_offset e = (?n - 1) div 3" "length (le_leaders e) = ?n"
    and pos: "0 < ?n"
    using e by (auto simp: leader_elector_new_def round_robin_new_def Let_def committee_size_def
        split: if_splits)
  have f: "f_parties (from_committee c) = (?n - 1) div 3"
    using pos n by (simp add: from_committee_def from_party_count_eq)
  have "(slot mod ?n) * ((?n - 1) div 3 mod ?n) < 2 ^ 32 * 2 ^ 32"
    using pos n by (intro mult_strict_mono) (auto intro: less_le_trans [OF mod_less_divisor])
  then have prod: "(slot mod ?n) * ((?n - 1) div 3 mod ?n) mod 2 ^ 64 = (slot mod ?n) * ((?n - 1) div 3 mod ?n)"
    by simp
  have "v mod ?n + (slot mod ?n) * ((?n - 1) div 3 mod ?n) mod ?n < 2 ^ 32 + 2 ^ 32"
    using pos n by (intro add_strict_mono) (auto intro: less_le_trans [OF mod_less_divisor])
  then have total: "(v mod ?n + (slot mod ?n) * ((?n - 1) div 3 mod ?n) mod ?n) mod 2 ^ 64
      = v mod ?n + (slot mod ?n) * ((?n - 1) div 3 mod ?n) mod ?n"
    by simp
  have "get_leader e slot v = rr_at (le_leaders e)
      ((v mod ?n + (slot mod ?n) * ((?n - 1) div 3 mod ?n) mod ?n) mod ?n)"
    using pos unfolding get_leader_def fields Let_def prod total by simp
  then show ?thesis
    unfolding rr_at_def wrapped_index_def fields f using pos by (simp add: mod_simps)
qed

theorem get_leader_schedule_witness:
  "get_leader \<lparr>le_leaders = [PublicKey 1, PublicKey 2, PublicKey 3, PublicKey 4],
               leader_count = 4, slot_offset = 1\<rparr> (2 ^ 64 - 1) 7
   = rr_at [PublicKey 1, PublicKey 2, PublicKey 3, PublicKey 4]
       (7 + (2 ^ 64 - 1) * f_parties (from_committee demo_committee))"
proof -
  have e: "leader_elector_new demo_committee =
      Some \<lparr>le_leaders = [PublicKey 1, PublicKey 2, PublicKey 3, PublicKey 4],
            leader_count = 4, slot_offset = 1\<rparr>"
    unfolding leader_elector_new_def demo_round_robin
    by (simp add: committee_size_def demo_committee_def)
  show ?thesis
    using get_leader_schedule [OF e] by (simp add: committee_size_def demo_committee_def)
qed

end
