(* ===== verification/Member_Index.thy ===== *)
theory Member_Index
  imports Committee "HOL-Library.Product_Lexorder"
begin

text \<open>
  The committee-indexed containers of \<^verbatim>\<open>primary/src/vantage/index.rs\<close>: resolved slots,
  the bitmap \<^verbatim>\<open>MemberSet\<close>, \<^verbatim>\<open>SlotSet\<close>, and the tables \<^verbatim>\<open>ByAuthor\<close>, \<^verbatim>\<open>ByPair\<close>
  and \<^verbatim>\<open>ByRef\<close>. Two locales state what their clients rely on: a set whose updates report
  whether they changed anything, and a keyed table. Each container is interpreted.
\<close>

unbundle bit_operations_syntax

section \<open>Slots\<close>

record committee_index =
  ci_keys :: "public_key list"
  ci_stakes :: "stake list"
  ci_quorum :: stake
  ci_validity :: stake

definition committee_index_new :: "committee \<Rightarrow> committee_index" where
  "committee_index_new c =
     \<lparr>ci_keys = map fst (authorities c),
      ci_stakes = map (\<lambda>e. a_stake (snd e)) (authorities c),
      ci_quorum = quorum_threshold c,
      ci_validity = validity_threshold c\<rparr>"

definition ci_size :: "committee_index \<Rightarrow> nat" where
  "ci_size ci = length (ci_keys ci)"

record slot =
  sl_key :: public_key
  sl_index :: "nat option"

text \<open>
  \<^verbatim>\<open>binary_search(key).ok()\<close> over the strictly sorted keys is the position of the key. A
  checked indexing is \<open>nth_opt\<close>, with \<^const>\<open>None\<close> for the panic.
\<close>

definition nth_opt :: "'a list \<Rightarrow> nat \<Rightarrow> 'a option" where
  "nth_opt xs i = (if i < length xs then Some (xs ! i) else None)"

definition remove_at :: "nat \<Rightarrow> 'a list \<Rightarrow> 'a list" where
  "remove_at k xs = take k xs @ drop (Suc k) xs"

definition ci_slot :: "committee_index \<Rightarrow> public_key \<Rightarrow> slot" where
  "ci_slot ci key = \<lparr>sl_key = key, sl_index = position key (ci_keys ci)\<rparr>"

definition ci_at :: "committee_index \<Rightarrow> nat \<Rightarrow> slot option" where
  "ci_at ci i = map_option (\<lambda>k. \<lparr>sl_key = k, sl_index = Some i\<rparr>) (nth_opt (ci_keys ci) i)"

definition ci_is_member :: "committee_index \<Rightarrow> public_key \<Rightarrow> bool" where
  "ci_is_member ci key \<longleftrightarrow> position key (ci_keys ci) \<noteq> None"

definition ci_stake_at :: "committee_index \<Rightarrow> nat \<Rightarrow> stake option" where
  "ci_stake_at ci i = nth_opt (ci_stakes ci) i"

definition ci_stake_of :: "committee_index \<Rightarrow> slot \<Rightarrow> stake option" where
  "ci_stake_of ci s = (case sl_index s of None \<Rightarrow> Some 0 | Some i \<Rightarrow> ci_stake_at ci i)"

section \<open>Member bitmaps\<close>

record member_set =
  ms_words :: "64 word list"
  ms_overflow :: "nat list"

definition inline_members :: nat where
  "inline_members = 256"

definition ms_empty :: member_set where
  "ms_empty = \<lparr>ms_words = replicate (inline_members div 64) 0, ms_overflow = []\<rparr>"

definition ms_bit :: "nat \<Rightarrow> (nat \<times> 64 word) option" where
  "ms_bit i = (if i < inline_members then Some (i div 64, push_bit (i mod 64) 1) else None)"

definition ms_insert :: "nat \<Rightarrow> member_set \<Rightarrow> bool \<times> member_set" where
  "ms_insert i s =
     (case ms_bit i of
        None \<Rightarrow> if i \<in> set (ms_overflow s) then (False, s)
                else (True, s\<lparr>ms_overflow := ms_overflow s @ [i]\<rparr>)
      | Some (w, b) \<Rightarrow>
          (ms_words s ! w AND b = 0, s\<lparr>ms_words := (ms_words s)[w := ms_words s ! w OR b]\<rparr>))"

definition ms_remove :: "nat \<Rightarrow> member_set \<Rightarrow> bool \<times> member_set" where
  "ms_remove i s =
     (case ms_bit i of
        None \<Rightarrow> (case position i (ms_overflow s) of
                   None \<Rightarrow> (False, s)
                 | Some k \<Rightarrow> (True, s\<lparr>ms_overflow := remove_at k (ms_overflow s)\<rparr>))
      | Some (w, b) \<Rightarrow>
          (ms_words s ! w AND b \<noteq> 0, s\<lparr>ms_words := (ms_words s)[w := ms_words s ! w AND NOT b]\<rparr>))"

definition ms_contains :: "nat \<Rightarrow> member_set \<Rightarrow> bool" where
  "ms_contains i s =
     (case ms_bit i of
        None \<Rightarrow> i \<in> set (ms_overflow s)
      | Some (w, b) \<Rightarrow> ms_words s ! w AND b \<noteq> 0)"

text \<open>
  The iterator reads the lowest set bit of a word and clears it by \<^verbatim>\<open>rest &= rest - 1\<close>.
\<close>

definition trailing_zeros :: "64 word \<Rightarrow> nat" where
  "trailing_zeros r = (case find (bit r) [0..<64] of None \<Rightarrow> 64 | Some i \<Rightarrow> i)"

function word_members :: "64 word \<Rightarrow> nat list" where
  "word_members r = (if r = 0 then [] else trailing_zeros r # word_members (r AND (r - 1)))"
  by pat_completeness auto
termination
proof (relation "measure unat")
  fix r :: "64 word"
  assume "r \<noteq> 0"
  then have "unat (r - 1) < unat r" by (rule measure_unat)
  moreover have "unat (r AND (r - 1)) \<le> unat (r - 1)"
    by (rule word_and_le1 [THEN word_le_nat_alt [THEN iffD1]])
  ultimately show "(r AND (r - 1), r) \<in> measure unat" by simp
qed simp

declare word_members.simps [simp del]

definition ms_iter :: "member_set \<Rightarrow> nat list" where
  "ms_iter s =
     concat (map (\<lambda>(w, bits). map (\<lambda>b. w * 64 + b) (word_members bits)) (enumerate 0 (ms_words s)))
     @ ms_overflow s"

section \<open>Slot sets\<close>

record slot_set =
  ss_members :: member_set
  ss_outside :: "public_key list"

definition ss_empty :: slot_set where
  "ss_empty = \<lparr>ss_members = ms_empty, ss_outside = []\<rparr>"

definition ss_insert :: "slot \<Rightarrow> slot_set \<Rightarrow> bool \<times> slot_set" where
  "ss_insert sl s =
     (case sl_index sl of
        Some i \<Rightarrow> (case ms_insert i (ss_members s) of (added, ms) \<Rightarrow> (added, s\<lparr>ss_members := ms\<rparr>))
      | None \<Rightarrow> if sl_key sl \<in> set (ss_outside s) then (False, s)
                else (True, s\<lparr>ss_outside := ss_outside s @ [sl_key sl]\<rparr>))"

definition ss_remove :: "slot \<Rightarrow> slot_set \<Rightarrow> bool \<times> slot_set" where
  "ss_remove sl s =
     (case sl_index sl of
        Some i \<Rightarrow> (case ms_remove i (ss_members s) of (held, ms) \<Rightarrow> (held, s\<lparr>ss_members := ms\<rparr>))
      | None \<Rightarrow> (case position (sl_key sl) (ss_outside s) of
                   None \<Rightarrow> (False, s)
                 | Some k \<Rightarrow> (True, s\<lparr>ss_outside := remove_at k (ss_outside s)\<rparr>)))"

definition ss_iter :: "committee_index \<Rightarrow> slot_set \<Rightarrow> slot option list" where
  "ss_iter ci s =
     map (ci_at ci) (ms_iter (ss_members s)) @ map (\<lambda>k. Some (ci_slot ci k)) (ss_outside s)"

section \<open>Per-author and per-pair tables\<close>

text \<open>
  \<^verbatim>\<open>T::default()\<close> is the argument \<open>d\<close>; a mutable borrow returned by \<^verbatim>\<open>entry\<close> is the change
  \<open>f\<close> the caller makes through it. Out-of-range indices do not occur for slots of the index
  that sized a table (\<open>slot_of\<close> below), which is the rule the source states.
\<close>

record 't by_author =
  ba_dense :: "'t list"
  ba_outside :: "(public_key, 't) omap"

definition ba_new :: "committee_index \<Rightarrow> 't \<Rightarrow> 't by_author" where
  "ba_new ci d = \<lparr>ba_dense = replicate (ci_size ci) d, ba_outside = []\<rparr>"

definition ba_get :: "'t by_author \<Rightarrow> slot \<Rightarrow> 't option" where
  "ba_get t a = (case sl_index a of Some i \<Rightarrow> nth_opt (ba_dense t) i
                 | None \<Rightarrow> map_of (ba_outside t) (sl_key a))"

definition ba_entry :: "'t \<Rightarrow> slot \<Rightarrow> ('t \<Rightarrow> 't) \<Rightarrow> 't by_author \<Rightarrow> 't by_author" where
  "ba_entry d a f t =
     (case sl_index a of
        Some i \<Rightarrow> t\<lparr>ba_dense := (ba_dense t)[i := f (ba_dense t ! i)]\<rparr>
      | None \<Rightarrow> t\<lparr>ba_outside := om_upd (sl_key a) d f (ba_outside t)\<rparr>)"

definition ba_clear :: "'t \<Rightarrow> slot \<Rightarrow> 't by_author \<Rightarrow> 't by_author" where
  "ba_clear d a t =
     (case sl_index a of
        Some i \<Rightarrow> t\<lparr>ba_dense := (ba_dense t)[i := d]\<rparr>
      | None \<Rightarrow> t\<lparr>ba_outside := om_del (sl_key a) (ba_outside t)\<rparr>)"

definition ba_iter :: "committee_index \<Rightarrow> 't by_author \<Rightarrow> (slot option \<times> 't) list" where
  "ba_iter ci t =
     map (\<lambda>(i, v). (ci_at ci i, v)) (enumerate 0 (ba_dense t))
     @ map (\<lambda>(k, v). (Some (ci_slot ci k), v)) (ba_outside t)"

record 't by_pair =
  bp_width :: nat
  bp_rows :: "'t option list list"
  bp_outside :: "(public_key \<times> public_key, 't) omap"

definition bp_new :: "committee_index \<Rightarrow> 't by_pair" where
  "bp_new ci = \<lparr>bp_width = ci_size ci, bp_rows = replicate (ci_size ci) [], bp_outside = []\<rparr>"

definition bp_get :: "'t by_pair \<Rightarrow> slot \<Rightarrow> slot \<Rightarrow> 't option" where
  "bp_get t sender author =
     (case (sl_index sender, sl_index author) of
        (Some s, Some a) \<Rightarrow> Option.bind (nth_opt (bp_rows t ! a) s) (\<lambda>held. held)
      | _ \<Rightarrow> map_of (bp_outside t) (sl_key sender, sl_key author))"

definition bp_insert :: "slot \<Rightarrow> slot \<Rightarrow> 't \<Rightarrow> 't by_pair \<Rightarrow> 't by_pair" where
  "bp_insert sender author v t =
     (case (sl_index sender, sl_index author) of
        (Some s, Some a) \<Rightarrow>
          (let row = (if bp_rows t ! a = [] then replicate (bp_width t) None else bp_rows t ! a)
           in t\<lparr>bp_rows := (bp_rows t)[a := row[s := Some v]]\<rparr>)
      | _ \<Rightarrow> t\<lparr>bp_outside := om_put (sl_key sender, sl_key author) v (bp_outside t)\<rparr>)"

definition bp_remove :: "slot \<Rightarrow> slot \<Rightarrow> 't by_pair \<Rightarrow> 't by_pair" where
  "bp_remove sender author t =
     (case (sl_index sender, sl_index author) of
        (Some s, Some a) \<Rightarrow>
          (if s < length (bp_rows t ! a)
           then t\<lparr>bp_rows := (bp_rows t)[a := (bp_rows t ! a)[s := None]]\<rparr> else t)
      | _ \<Rightarrow> t\<lparr>bp_outside := om_del (sl_key sender, sl_key author) (bp_outside t)\<rparr>)"

definition bp_clear_author :: "slot \<Rightarrow> 't by_pair \<Rightarrow> 't by_pair" where
  "bp_clear_author author t =
     (let t1 = (case sl_index author of Some a \<Rightarrow> t\<lparr>bp_rows := (bp_rows t)[a := []]\<rparr> | None \<Rightarrow> t)
      in t1\<lparr>bp_outside := filter (\<lambda>e. snd (fst e) \<noteq> sl_key author) (bp_outside t1)\<rparr>)"

definition bp_row :: "committee_index \<Rightarrow> slot \<Rightarrow> 't by_pair \<Rightarrow> (slot option \<times> 't) list" where
  "bp_row ci author t =
     (case sl_index author of
        None \<Rightarrow> []
      | Some a \<Rightarrow> concat (map (\<lambda>(s, held). case held of None \<Rightarrow> [] | Some v \<Rightarrow> [(ci_at ci s, v)])
                          (enumerate 0 (bp_rows t ! a))))
     @ map (\<lambda>e. (Some (ci_slot ci (fst (fst e))), snd e))
         (filter (\<lambda>e. snd (fst e) = sl_key author) (bp_outside t))"

section \<open>Per-reference table\<close>

record 't ref_slot =
  rs_head :: digest
  rs_value :: 't
  rs_forks :: "(digest \<times> 't) list"

definition rs_get :: "'t ref_slot \<Rightarrow> digest \<Rightarrow> 't option" where
  "rs_get r d = (if rs_head r = d then Some (rs_value r) else map_of (rs_forks r) d)"

record 't by_ref =
  br_lanes :: "(height, 't ref_slot) omap list"
  br_outside :: "(public_key \<times> height \<times> digest, 't) omap"

definition br_new :: "committee_index \<Rightarrow> 't by_ref" where
  "br_new ci = \<lparr>br_lanes = replicate (ci_size ci) [], br_outside = []\<rparr>"

definition br_get :: "'t by_ref \<Rightarrow> slot \<Rightarrow> height \<Rightarrow> digest \<Rightarrow> 't option" where
  "br_get t a h d =
     (case sl_index a of
        Some i \<Rightarrow> Option.bind (map_of (br_lanes t ! i) h) (\<lambda>r. rs_get r d)
      | None \<Rightarrow> map_of (br_outside t) (sl_key a, h, d))"

text \<open>\<open>get_mut\<close> of a coordinate slot: the caller's change \<open>f\<close> to the value of one digest.\<close>

fun fork_update :: "digest \<Rightarrow> ('t \<Rightarrow> 't) \<Rightarrow> (digest \<times> 't) list \<Rightarrow> (digest \<times> 't) list" where
  "fork_update d f [] = []"
| "fork_update d f ((held, v) # fs) =
     (if held = d then (held, f v) # fs else (held, v) # fork_update d f fs)"

definition rs_get_mut :: "digest \<Rightarrow> ('t \<Rightarrow> 't) \<Rightarrow> 't ref_slot \<Rightarrow> 't ref_slot" where
  "rs_get_mut d f r =
     (if rs_head r = d then r\<lparr>rs_value := f (rs_value r)\<rparr>
      else r\<lparr>rs_forks := fork_update d f (rs_forks r)\<rparr>)"

definition br_get_mut :: "slot \<Rightarrow> height \<Rightarrow> digest \<Rightarrow> ('t \<Rightarrow> 't) \<Rightarrow> 't by_ref \<Rightarrow> 't by_ref" where
  "br_get_mut a h d f t =
     (case sl_index a of
        Some i \<Rightarrow> (case map_of (br_lanes t ! i) h of
                     None \<Rightarrow> t
                   | Some r \<Rightarrow> t\<lparr>br_lanes := (br_lanes t)[i := om_put h (rs_get_mut d f r) (br_lanes t ! i)]\<rparr>)
      | None \<Rightarrow> (case map_of (br_outside t) (sl_key a, h, d) of
                   None \<Rightarrow> t
                 | Some v \<Rightarrow> t\<lparr>br_outside := om_put (sl_key a, h, d) (f v) (br_outside t)\<rparr>))"

definition rs_entry :: "'t \<Rightarrow> digest \<Rightarrow> ('t \<Rightarrow> 't) \<Rightarrow> 't ref_slot \<Rightarrow> 't ref_slot \<times> bool" where
  "rs_entry dflt d f r =
     (if rs_head r = d then (r\<lparr>rs_value := f (rs_value r)\<rparr>, False)
      else if map_of (rs_forks r) d \<noteq> None then (r\<lparr>rs_forks := fork_update d f (rs_forks r)\<rparr>, False)
      else (r\<lparr>rs_forks := rs_forks r @ [(d, f dflt)]\<rparr>, True))"

definition br_entry :: "'t \<Rightarrow> slot \<Rightarrow> height \<Rightarrow> digest \<Rightarrow> ('t \<Rightarrow> 't) \<Rightarrow> 't by_ref \<Rightarrow> 't by_ref \<times> bool" where
  "br_entry dflt a h d f t =
     (case sl_index a of
        None \<Rightarrow>
          (t\<lparr>br_outside := om_upd (sl_key a, h, d) dflt f (br_outside t)\<rparr>,
           \<not> om_has (br_outside t) (sl_key a, h, d))
      | Some i \<Rightarrow>
          (case map_of (br_lanes t ! i) h of
             None \<Rightarrow>
               (t\<lparr>br_lanes := (br_lanes t)[i :=
                   om_put h \<lparr>rs_head = d, rs_value = f dflt, rs_forks = []\<rparr> (br_lanes t ! i)]\<rparr>, True)
           | Some r \<Rightarrow>
               (case rs_entry dflt d f r of (r', created) \<Rightarrow>
                 (t\<lparr>br_lanes := (br_lanes t)[i := om_put h r' (br_lanes t ! i)]\<rparr>, created))))"

definition br_drain_author :: "slot \<Rightarrow> 't by_ref \<Rightarrow> 't list \<times> 't by_ref" where
  "br_drain_author a t =
     (case sl_index a of
        Some i \<Rightarrow>
          (concat (map (\<lambda>(h, r). rs_value r # map snd (rs_forks r)) (br_lanes t ! i)),
           t\<lparr>br_lanes := (br_lanes t)[i := []]\<rparr>)
      | None \<Rightarrow>
          (map snd (filter (\<lambda>e. fst (fst e) = sl_key a) (br_outside t)),
           t\<lparr>br_outside := filter (\<lambda>e. fst (fst e) \<noteq> sl_key a) (br_outside t)\<rparr>))"

section \<open>Positions and bits\<close>

lemma position_None [simp]: "position x xs = None \<longleftrightarrow> x \<notin> set xs"
  by (induction xs) auto

lemma position_Some:
  "position x xs = Some i \<Longrightarrow> i < length xs \<and> xs ! i = x"
  by (induction xs arbitrary: i) (auto split: if_splits)

lemma remove_at_position: "position x xs = Some k \<Longrightarrow> remove_at k xs = remove1 x xs"
  by (induction xs arbitrary: k) (auto simp: remove_at_def split: if_splits)

lemma position_Some_in: "position x xs = Some i \<Longrightarrow> x \<in> set xs"
  by (auto dest: position_Some)

lemma position_nth: "distinct xs \<Longrightarrow> i < length xs \<Longrightarrow> position (xs ! i) xs = Some i"
proof (induction xs arbitrary: i)
  case (Cons x xs)
  then show ?case by (cases i) auto
qed simp

lemma clear_lowest_bit:
  fixes r :: "'a::len word"
  assumes k: "bit r k" and low: "\<And>n. bit r n \<Longrightarrow> k \<le> n"
  shows "bit (r AND (r - 1)) i \<longleftrightarrow> bit r i \<and> i \<noteq> k"
proof -
  define q where "q = drop_bit k r"
  have odd: "odd q" using k by (simp add: q_def even_drop_bit_iff_not_bit)
  have r: "r = push_bit k q"
  proof (rule bit_word_eqI)
    fix n assume "n < LENGTH('a)"
    then show "bit r n \<longleftrightarrow> bit (push_bit k q) n"
      using low [of n] by (cases "k \<le> n") (auto simp: q_def bit_push_bit_iff bit_drop_bit_eq)
  qed
  have sum: "r - 1 = push_bit k (q - 1) + mask k"
    unfolding r push_bit_eq_mult mask_eq_exp_minus_1 by (simp add: algebra_simps)
  also have "\<dots> = push_bit k (q - 1) OR mask k"
    by (rule disjunctive_add) (auto simp: bit_push_bit_iff bit_mask_iff)
  finally have pred: "bit (r - 1) i \<longleftrightarrow> bit (push_bit k (q - 1)) i \<or> bit (mask k :: 'a word) i"
    by (simp add: bit_or_iff)
  have "bit (r - 1) i \<longleftrightarrow> i \<noteq> k" if "bit r i"
  proof (cases "i = k")
    case True
    then show ?thesis
      using pred odd by (simp add: bit_push_bit_iff bit_mask_iff bit_0)
  next
    case False
    then have "bit q (i - k)" "i - k \<noteq> 0" "k \<le> i"
      using that low [OF that] by (auto simp: q_def bit_drop_bit_eq)
    then show ?thesis
      using pred odd_bit_iff_bit_pred [OF odd, of "i - k"] that False
      by (simp add: bit_push_bit_iff bit_imp_le_length)
  qed
  then show ?thesis by (auto simp: bit_and_iff)
qed

lemma trailing_zeros_lowest:
  assumes "r \<noteq> 0"
  shows "bit r (trailing_zeros r)" and "bit r n \<Longrightarrow> trailing_zeros r \<le> n"
proof -
  obtain b where b: "bit r b"
    using assms by (auto simp: bit_eq_iff)
  then have "b < 64" using bit_imp_le_length [of r b] by simp
  then obtain i where find: "find (bit r) [0..<64] = Some i"
    using b by (cases "find (bit r) [0..<64]") (auto simp: find_None_iff)
  then have tz: "trailing_zeros r = i"
    by (simp add: trailing_zeros_def)
  from find obtain k where k: "k < 64" "bit r k" "i = k" "\<forall>j<k. \<not> bit r j"
    by (auto simp: find_Some_iff)
  show "bit r (trailing_zeros r)" using k tz by simp
  show "trailing_zeros r \<le> n" if "bit r n"
    using k tz that by (auto simp: not_less [symmetric])
qed

lemma set_word_members: "set (word_members r) = {i. bit r i} \<and> distinct (word_members r)"
proof (induction r rule: word_members.induct)
  case (1 r)
  show ?case
  proof (cases "r = 0")
    case True
    then show ?thesis by (simp add: word_members.simps)
  next
    case False
    let ?k = "trailing_zeros r"
    have step: "bit (r AND (r - 1)) i \<longleftrightarrow> bit r i \<and> i \<noteq> ?k" for i
      by (rule clear_lowest_bit) (use trailing_zeros_lowest [OF False] in auto)
    have "word_members r = ?k # word_members (r AND (r - 1))"
      using False by (simp add: word_members.simps [of r])
    then show ?thesis
      using "1.IH" [OF False] trailing_zeros_lowest(1) [OF False] by (auto simp: step)
  qed
qed

section \<open>Sets that report whether they changed\<close>

text \<open>
  \<open>c\<close> is the committee index the elements were resolved with, \<open>elem_ok c x\<close> says that \<open>x\<close>
  was, and \<open>elems c s\<close> is the abstract content.
\<close>

locale flagged_set =
  fixes elem_ok :: "'c \<Rightarrow> 'x \<Rightarrow> bool"
    and key :: "'x \<Rightarrow> 'k"
    and ins :: "'x \<Rightarrow> 's \<Rightarrow> bool \<times> 's"
    and rem :: "'x \<Rightarrow> 's \<Rightarrow> bool \<times> 's"
    and elems :: "'c \<Rightarrow> 's \<Rightarrow> 'k set"
    and invar :: "'c \<Rightarrow> 's \<Rightarrow> bool"
  assumes ins_elems: "invar c s \<Longrightarrow> elem_ok c x \<Longrightarrow> elems c (snd (ins x s)) = insert (key x) (elems c s)"
    and ins_flag: "invar c s \<Longrightarrow> elem_ok c x \<Longrightarrow> fst (ins x s) \<longleftrightarrow> key x \<notin> elems c s"
    and ins_invar: "invar c s \<Longrightarrow> elem_ok c x \<Longrightarrow> invar c (snd (ins x s))"
    and rem_elems: "invar c s \<Longrightarrow> elem_ok c x \<Longrightarrow> elems c (snd (rem x s)) = elems c s - {key x}"
    and rem_flag: "invar c s \<Longrightarrow> elem_ok c x \<Longrightarrow> fst (rem x s) \<longleftrightarrow> key x \<in> elems c s"
    and rem_invar: "invar c s \<Longrightarrow> elem_ok c x \<Longrightarrow> invar c (snd (rem x s))"
begin

lemmas set_laws = ins_elems ins_flag ins_invar rem_elems rem_flag rem_invar

text \<open>A second insertion or removal of the same element reports no change.\<close>

lemma ins_once:
  assumes "invar c s" and "elem_ok c x"
  shows "\<not> fst (ins x (snd (ins x s)))"
  using assms ins_flag [OF ins_invar] ins_elems by blast

lemma rem_once:
  assumes "invar c s" and "elem_ok c x"
  shows "\<not> fst (rem x (snd (rem x s)))"
  using assms rem_flag [OF rem_invar] rem_elems by blast

text \<open>Counting the insertions that report a change counts distinct elements.\<close>

lemma fold_ins:
  assumes "invar c s" and "\<forall>x \<in> set xs. elem_ok c x"
  shows "invar c (fold (\<lambda>x s. snd (ins x s)) xs s)
    \<and> elems c (fold (\<lambda>x s. snd (ins x s)) xs s) = elems c s \<union> key ` set xs"
  using assms by (induction xs arbitrary: s) (auto simp: set_laws)

end

definition slot_of :: "committee_index \<Rightarrow> slot \<Rightarrow> bool" where
  "slot_of ci s \<longleftrightarrow> sl_index s = position (sl_key s) (ci_keys ci)"

definition ci_ok :: "committee_index \<Rightarrow> bool" where
  "ci_ok ci \<longleftrightarrow> distinct (ci_keys ci)"

definition ms_set :: "member_set \<Rightarrow> nat set" where
  "ms_set s = {i. i < inline_members \<and> bit (ms_words s ! (i div 64)) (i mod 64)} \<union> set (ms_overflow s)"

definition ms_ok :: "member_set \<Rightarrow> bool" where
  "ms_ok s \<longleftrightarrow> length (ms_words s) = inline_members div 64 \<and> distinct (ms_overflow s)
     \<and> (\<forall>i \<in> set (ms_overflow s). inline_members \<le> i)"

lemma inline_div: "i < inline_members \<Longrightarrow> i div 64 < inline_members div 64"
  by (simp add: inline_members_def)

lemma word_index_eq: "i div 64 = j div 64 \<Longrightarrow> i mod 64 = j mod 64 \<longleftrightarrow> i = (j::nat)"
  by (metis div_mod_decomp)

lemma ms_insert_set:
  assumes "ms_ok s"
  shows "ms_set (snd (ms_insert i s)) = insert i (ms_set s)"
    and "fst (ms_insert i s) \<longleftrightarrow> i \<notin> ms_set s"
    and "ms_ok (snd (ms_insert i s))"
proof -
  have "ms_set (snd (ms_insert i s)) = insert i (ms_set s)
    \<and> (fst (ms_insert i s) \<longleftrightarrow> i \<notin> ms_set s) \<and> ms_ok (snd (ms_insert i s))"
  proof (cases "i < inline_members")
    case True
    have w: "i div 64 < length (ms_words s)"
      using inline_div [OF True] assms by (simp add: ms_ok_def)
    have "i \<notin> set (ms_overflow s)"
      using True assms by (auto simp: ms_ok_def)
    moreover have "bit ((ms_words s)[i div 64 := ms_words s ! (i div 64) OR 2 ^ (i mod 64)] ! (j div 64)) (j mod 64)
        \<longleftrightarrow> j = i \<or> bit (ms_words s ! (j div 64)) (j mod 64)" for j
      using w by (cases "i div 64 = j div 64")
        (auto simp: bit_or_iff bit_exp_iff nth_list_update word_index_eq)
    ultimately show ?thesis
      using True assms by (auto simp: ms_insert_def ms_bit_def ms_set_def ms_ok_def and_exp_eq_0_iff_not_bit)
  next
    case False
    then show ?thesis
      using assms by (auto simp: ms_insert_def ms_bit_def ms_set_def ms_ok_def)
  qed
  then show "ms_set (snd (ms_insert i s)) = insert i (ms_set s)"
    and "fst (ms_insert i s) \<longleftrightarrow> i \<notin> ms_set s"
    and "ms_ok (snd (ms_insert i s))"
    by blast+
qed

lemma ms_remove_set:
  assumes "ms_ok s"
  shows "ms_set (snd (ms_remove i s)) = ms_set s - {i}"
    and "fst (ms_remove i s) \<longleftrightarrow> i \<in> ms_set s"
    and "ms_ok (snd (ms_remove i s))"
proof -
  have "ms_set (snd (ms_remove i s)) = ms_set s - {i}
    \<and> (fst (ms_remove i s) \<longleftrightarrow> i \<in> ms_set s) \<and> ms_ok (snd (ms_remove i s))"
  proof (cases "i < inline_members")
    case True
    have w: "i div 64 < length (ms_words s)"
      using inline_div [OF True] assms by (simp add: ms_ok_def)
    have "i \<notin> set (ms_overflow s)"
      using True assms by (auto simp: ms_ok_def)
    moreover have "bit ((ms_words s)[i div 64 := ms_words s ! (i div 64) AND NOT (2 ^ (i mod 64))] ! (j div 64)) (j mod 64)
        \<longleftrightarrow> j \<noteq> i \<and> bit (ms_words s ! (j div 64)) (j mod 64)" for j
      using w by (cases "i div 64 = j div 64")
        (auto simp: bit_and_iff bit_not_iff bit_exp_iff nth_list_update word_index_eq bit_imp_le_length)
    ultimately show ?thesis
      using True assms by (auto simp: ms_remove_def ms_bit_def ms_set_def ms_ok_def and_exp_eq_0_iff_not_bit)
  next
    case False
    then show ?thesis
      using assms by (auto simp: ms_remove_def ms_bit_def ms_set_def ms_ok_def
          remove_at_position position_Some_in split: option.splits dest: notin_set_remove1)
  qed
  then show "ms_set (snd (ms_remove i s)) = ms_set s - {i}"
    and "fst (ms_remove i s) \<longleftrightarrow> i \<in> ms_set s"
    and "ms_ok (snd (ms_remove i s))"
    by blast+
qed

interpretation mset_q: flagged_set "\<lambda>_::unit. \<lambda>_::nat. True" "\<lambda>i. i" ms_insert ms_remove
  "\<lambda>_. ms_set" "\<lambda>_. ms_ok"
  by unfold_locales (simp_all add: ms_insert_set ms_remove_set)

lemma ms_contains_set: "ms_ok s \<Longrightarrow> ms_contains i s \<longleftrightarrow> i \<in> ms_set s"
  by (auto simp: ms_contains_def ms_bit_def ms_set_def ms_ok_def and_exp_eq_0_iff_not_bit)

lemma word_offsets:
  fixes r :: "64 word"
  shows "set (map (\<lambda>b. w * 64 + b) (word_members r)) = {i. i div 64 = w \<and> bit r (i mod 64)}"
    and "distinct (map (\<lambda>b. w * 64 + b) (word_members r))"
proof -
  have b: "b < 64" if "bit r b" for b
    using bit_imp_le_length [OF that] by simp
  show "set (map (\<lambda>b. w * 64 + b) (word_members r)) = {i. i div 64 = w \<and> bit r (i mod 64)}"
  proof (rule set_eqI, rule iffI)
    fix i assume "i \<in> set (map (\<lambda>b. w * 64 + b) (word_members r))"
    then show "i \<in> {i. i div 64 = w \<and> bit r (i mod 64)}"
      using b by (auto simp: set_word_members)
  next
    fix i assume "i \<in> {i. i div 64 = w \<and> bit r (i mod 64)}"
    then have "i = w * 64 + i mod 64" and "bit r (i mod 64)"
      by auto
    then show "i \<in> set (map (\<lambda>b. w * 64 + b) (word_members r))"
      by (auto simp: set_word_members)
  qed
  show "distinct (map (\<lambda>b. w * 64 + b) (word_members r))"
    by (simp add: distinct_map set_word_members inj_on_def)
qed

lemma inline_iter:
  "set (concat (map (\<lambda>(w, bits). map (\<lambda>b. w * 64 + b) (word_members bits)) (enumerate k ws)))
     = {i. k \<le> i div 64 \<and> i div 64 < k + length ws \<and> bit (ws ! (i div 64 - k)) (i mod 64)}
   \<and> distinct (concat (map (\<lambda>(w, bits). map (\<lambda>b. w * 64 + b) (word_members bits)) (enumerate k ws)))"
proof (induction ws arbitrary: k)
  case (Cons r ws)
  have "{i. k \<le> i div 64 \<and> i div 64 < k + length (r # ws) \<and> bit ((r # ws) ! (i div 64 - k)) (i mod 64)}
      = {i. i div 64 = k \<and> bit r (i mod 64)}
        \<union> {i. Suc k \<le> i div 64 \<and> i div 64 < Suc k + length ws \<and> bit (ws ! (i div 64 - Suc k)) (i mod 64)}"
    by (auto simp: nth_Cons' Suc_le_eq)
  then show ?case
    using Cons.IH [of "Suc k"] word_offsets [of k r] by (simp add: del: set_map) auto
qed simp

lemma ms_iter_set:
  assumes "ms_ok s"
  shows "set (ms_iter s) = ms_set s" and "distinct (ms_iter s)"
proof -
  have "{i. i div 64 < length (ms_words s) \<and> bit (ms_words s ! (i div 64)) (i mod 64)}
      = {i. i < inline_members \<and> bit (ms_words s ! (i div 64)) (i mod 64)}"
    using assms by (auto simp: ms_ok_def inline_members_def)
  then show "set (ms_iter s) = ms_set s" and "distinct (ms_iter s)"
    using inline_iter [of 0 "ms_words s"] assms
    by (auto simp: ms_iter_def ms_set_def ms_ok_def)
qed

lemma ms_empty_ok: "ms_ok ms_empty" "ms_set ms_empty = {}"
  by (auto simp: ms_ok_def ms_empty_def ms_set_def nth_replicate [OF inline_div])

text \<open>The slot set adds the keys outside the committee.\<close>

definition ss_keys :: "committee_index \<Rightarrow> slot_set \<Rightarrow> public_key set" where
  "ss_keys ci s = {k. \<exists>i \<in> ms_set (ss_members s). position k (ci_keys ci) = Some i} \<union> set (ss_outside s)"

definition ss_ok :: "committee_index \<Rightarrow> slot_set \<Rightarrow> bool" where
  "ss_ok ci s \<longleftrightarrow> ci_ok ci \<and> ms_ok (ss_members s) \<and> (\<forall>i \<in> ms_set (ss_members s). i < ci_size ci)
     \<and> distinct (ss_outside s) \<and> set (ss_outside s) \<inter> set (ci_keys ci) = {}"

lemma position_inj: "position k xs = Some i \<Longrightarrow> position l xs = Some i \<Longrightarrow> k = l"
  by (auto dest!: position_Some)

lemma slot_outside: "slot_of ci x \<Longrightarrow> sl_index x = None \<Longrightarrow> sl_key x \<notin> set (ci_keys ci)"
  unfolding slot_of_def by (metis position_None)

lemma slot_inside:
  "slot_of ci x \<Longrightarrow> sl_index x = Some i \<Longrightarrow> position (sl_key x) (ci_keys ci) = Some i \<and> i < ci_size ci"
  unfolding slot_of_def ci_size_def by (metis position_Some)

lemma ss_insert_keys:
  assumes "ss_ok ci s" and "slot_of ci x"
  shows "ss_keys ci (snd (ss_insert x s)) = insert (sl_key x) (ss_keys ci s)
    \<and> (fst (ss_insert x s) \<longleftrightarrow> sl_key x \<notin> ss_keys ci s) \<and> ss_ok ci (snd (ss_insert x s))"
proof (cases "sl_index x")
  case None
  then show ?thesis
    using assms slot_outside [OF assms(2) None] by (auto simp: ss_insert_def ss_keys_def ss_ok_def dest: position_Some_in)
next
  case (Some i)
  then have pos: "position (sl_key x) (ci_keys ci) = Some i" and i: "i < ci_size ci"
    using slot_inside [OF assms(2)] by blast+
  have ms: "ms_ok (ss_members s)" using assms(1) by (simp add: ss_ok_def)
  have out: "sl_key x \<notin> set (ss_outside s)"
    using assms(1) pos by (auto simp: ss_ok_def dest: position_Some_in)
  have iff: "position k (ci_keys ci) = Some i \<longleftrightarrow> k = sl_key x" for k
    using pos position_inj [OF pos, of k] by auto
  have step: "ss_insert x s = (fst (ms_insert i (ss_members s)), s\<lparr>ss_members := snd (ms_insert i (ss_members s))\<rparr>)"
    by (simp add: ss_insert_def Some split_beta)
  have "ss_keys ci (snd (ss_insert x s)) = insert (sl_key x) (ss_keys ci s)"
    unfolding step ss_keys_def by (auto simp: ms_insert_set [OF ms] iff out)
  moreover have "fst (ss_insert x s) \<longleftrightarrow> i \<notin> ms_set (ss_members s)"
    unfolding step by (simp add: ms_insert_set [OF ms])
  moreover have "sl_key x \<in> ss_keys ci s \<longleftrightarrow> i \<in> ms_set (ss_members s)"
    by (simp add: ss_keys_def out pos)
  moreover have "ss_ok ci (snd (ss_insert x s))"
    using assms(1) i unfolding step ss_ok_def by (simp add: ms_insert_set [OF ms])
  ultimately show ?thesis by simp
qed

lemma ss_remove_keys:
  assumes "ss_ok ci s" and "slot_of ci x"
  shows "ss_keys ci (snd (ss_remove x s)) = ss_keys ci s - {sl_key x}
    \<and> (fst (ss_remove x s) \<longleftrightarrow> sl_key x \<in> ss_keys ci s) \<and> ss_ok ci (snd (ss_remove x s))"
proof (cases "sl_index x")
  case None
  then have "sl_key x \<notin> set (ci_keys ci)"
    by (rule slot_outside [OF assms(2)])
  then show ?thesis
    using assms(1) None
    by (auto simp: ss_remove_def ss_keys_def ss_ok_def remove_at_position position_Some_in
        dest: position_Some_in notin_set_remove1 split: option.splits)
next
  case (Some i)
  then have pos: "position (sl_key x) (ci_keys ci) = Some i" and i: "i < ci_size ci"
    using slot_inside [OF assms(2)] by blast+
  have ms: "ms_ok (ss_members s)" using assms(1) by (simp add: ss_ok_def)
  have out: "sl_key x \<notin> set (ss_outside s)"
    using assms(1) pos by (auto simp: ss_ok_def dest: position_Some_in)
  have iff: "position k (ci_keys ci) = Some i \<longleftrightarrow> k = sl_key x" for k
    using pos position_inj [OF pos, of k] by auto
  have step: "ss_remove x s = (fst (ms_remove i (ss_members s)), s\<lparr>ss_members := snd (ms_remove i (ss_members s))\<rparr>)"
    by (simp add: ss_remove_def Some split_beta)
  have "ss_keys ci (snd (ss_remove x s)) = ss_keys ci s - {sl_key x}"
    unfolding step ss_keys_def by (auto simp: ms_remove_set [OF ms] iff out pos)
  moreover have "fst (ss_remove x s) \<longleftrightarrow> i \<in> ms_set (ss_members s)"
    unfolding step by (simp add: ms_remove_set [OF ms])
  moreover have "sl_key x \<in> ss_keys ci s \<longleftrightarrow> i \<in> ms_set (ss_members s)"
    by (simp add: ss_keys_def out pos)
  moreover have "ss_ok ci (snd (ss_remove x s))"
    using assms(1) i unfolding step ss_ok_def by (simp add: ms_remove_set [OF ms])
  ultimately show ?thesis by simp
qed

interpretation sset_q: flagged_set slot_of sl_key ss_insert ss_remove ss_keys ss_ok
  by unfold_locales (simp_all add: ss_insert_keys ss_remove_keys)

section \<open>Keyed tables\<close>

text \<open>
  What a client reads back: a lookup sees the last write to its own key and no write to
  another. A table with an \<^verbatim>\<open>entry\<close> operation gives a plain table by writing a constant
  through the entry.
\<close>

locale keyed_table =
  fixes key_ok :: "'c \<Rightarrow> 'x \<Rightarrow> bool"
    and tkey :: "'x \<Rightarrow> 'k"
    and get :: "'t \<Rightarrow> 'x \<Rightarrow> 'v option"
    and put :: "'x \<Rightarrow> 'v \<Rightarrow> 't \<Rightarrow> 't"
    and content :: "'c \<Rightarrow> 't \<Rightarrow> 'k \<Rightarrow> 'v option"
    and tab_ok :: "'c \<Rightarrow> 't \<Rightarrow> bool"
  assumes get_content: "tab_ok c t \<Longrightarrow> key_ok c x \<Longrightarrow> get t x = content c t (tkey x)"
    and put_content: "tab_ok c t \<Longrightarrow> key_ok c x \<Longrightarrow> content c (put x v t) = (content c t)(tkey x \<mapsto> v)"
    and put_ok: "tab_ok c t \<Longrightarrow> key_ok c x \<Longrightarrow> tab_ok c (put x v t)"
begin

lemma get_put:
  assumes "tab_ok c t" and "key_ok c x" and "key_ok c y"
  shows "get (put x v t) y = (if tkey y = tkey x then Some v else get t y)"
  using assms get_content [OF put_ok] get_content put_content by (metis fun_upd_apply)

end

locale entry_table =
  fixes key_ok :: "'c \<Rightarrow> 'x \<Rightarrow> bool"
    and tkey :: "'x \<Rightarrow> 'k"
    and get :: "'t \<Rightarrow> 'x \<Rightarrow> 'v option"
    and entry :: "'v \<Rightarrow> 'x \<Rightarrow> ('v \<Rightarrow> 'v) \<Rightarrow> 't \<Rightarrow> 't"
    and content :: "'c \<Rightarrow> 't \<Rightarrow> 'k \<Rightarrow> 'v option"
    and tab_ok :: "'c \<Rightarrow> 't \<Rightarrow> bool"
  assumes get_content: "tab_ok c t \<Longrightarrow> key_ok c x \<Longrightarrow> get t x = content c t (tkey x)"
    and entry_content: "tab_ok c t \<Longrightarrow> key_ok c x \<Longrightarrow> content c (entry d x f t) =
      (content c t)(tkey x \<mapsto> f (case content c t (tkey x) of None \<Rightarrow> d | Some v \<Rightarrow> v))"
    and entry_ok: "tab_ok c t \<Longrightarrow> key_ok c x \<Longrightarrow> tab_ok c (entry d x f t)"

sublocale entry_table \<subseteq> tab: keyed_table key_ok tkey get "\<lambda>x v. entry v x (\<lambda>_. v)" content tab_ok
  by unfold_locales (simp_all add: get_content entry_content entry_ok)

text \<open>The abstract content of a table is what its lookup finds under the resolved key.\<close>

lemma slot_eq: "slot_of ci x \<Longrightarrow> x = ci_slot ci (sl_key x)"
  by (simp add: slot_of_def ci_slot_def)

lemma slot_of_ci_slot [simp]: "slot_of ci (ci_slot ci k)" "sl_key (ci_slot ci k) = k"
  by (simp_all add: slot_of_def ci_slot_def)

definition ba_map :: "committee_index \<Rightarrow> 't by_author \<Rightarrow> public_key \<Rightarrow> 't option" where
  "ba_map ci t k = ba_get t (ci_slot ci k)"

definition ba_ok :: "committee_index \<Rightarrow> 't by_author \<Rightarrow> bool" where
  "ba_ok ci t \<longleftrightarrow> ci_ok ci \<and> length (ba_dense t) = ci_size ci"

definition bp_map :: "committee_index \<Rightarrow> 't by_pair \<Rightarrow> public_key \<times> public_key \<Rightarrow> 't option" where
  "bp_map ci t p = bp_get t (ci_slot ci (fst p)) (ci_slot ci (snd p))"

definition bp_ok :: "committee_index \<Rightarrow> 't by_pair \<Rightarrow> bool" where
  "bp_ok ci t \<longleftrightarrow> ci_ok ci \<and> bp_width t = ci_size ci \<and> length (bp_rows t) = ci_size ci
     \<and> (\<forall>row \<in> set (bp_rows t). row = [] \<or> length row = ci_size ci)"

lemma ci_slot_index:
  "ci_ok ci \<Longrightarrow> sl_index (ci_slot ci k) = Some i \<Longrightarrow> i < ci_size ci \<and> ci_keys ci ! i = k"
  by (auto simp: ci_slot_def ci_size_def dest: position_Some)

lemma ci_slot_index_eq:
  assumes "sl_index (ci_slot ci k) = Some i" and "sl_index (ci_slot ci l) = Some j"
  shows "i = j \<longleftrightarrow> k = l"
  using assms by (auto simp: ci_slot_def dest: position_inj)

lemma ba_entry_content:
  assumes "ba_ok ci t"
  shows "ba_map ci (ba_entry d (ci_slot ci k) f t) =
    (ba_map ci t)(k \<mapsto> f (case ba_map ci t k of None \<Rightarrow> d | Some v \<Rightarrow> v))"
proof (rule ext)
  fix l
  show "ba_map ci (ba_entry d (ci_slot ci k) f t) l =
    ((ba_map ci t)(k \<mapsto> f (case ba_map ci t k of None \<Rightarrow> d | Some v \<Rightarrow> v))) l"
  proof (cases "sl_index (ci_slot ci k)")
    case None
    then show ?thesis
      by (cases "sl_index (ci_slot ci l)")
        (auto simp: ba_map_def ba_entry_def ba_get_def omap_simps)
  next
    case (Some i)
    then have "i < length (ba_dense t)"
      using assms ci_slot_index by (auto simp: ba_ok_def)
    with Some show ?thesis
      using ci_slot_index_eq [OF Some, of l]
      by (cases "sl_index (ci_slot ci l)")
        (auto simp: ba_map_def ba_entry_def ba_get_def nth_opt_def nth_list_update)
  qed
qed

interpretation author_tab: entry_table slot_of sl_key ba_get ba_entry ba_map ba_ok
proof unfold_locales
  fix ci :: committee_index and t :: "'a by_author" and x d f
  assume t: "ba_ok ci t" and x: "slot_of ci x"
  show "ba_get t x = ba_map ci t (sl_key x)"
    using slot_eq [OF x] by (simp add: ba_map_def)
  show "ba_map ci (ba_entry d x f t) =
      (ba_map ci t)(sl_key x \<mapsto> f (case ba_map ci t (sl_key x) of None \<Rightarrow> d | Some v \<Rightarrow> v))"
    using ba_entry_content [OF t, of d "sl_key x" f] slot_eq [OF x] by simp
  show "ba_ok ci (ba_entry d x f t)"
    using t by (auto simp: ba_ok_def ba_entry_def split: option.splits)
qed

lemma bp_insert_content:
  assumes "bp_ok ci t"
  shows "bp_map ci (bp_insert (ci_slot ci k) (ci_slot ci l) v t) = (bp_map ci t)((k, l) \<mapsto> v)"
proof (rule ext)
  fix p :: "public_key \<times> public_key"
  obtain k' l' where p: "p = (k', l')" by fastforce
  show "bp_map ci (bp_insert (ci_slot ci k) (ci_slot ci l) v t) p = ((bp_map ci t)((k, l) \<mapsto> v)) p"
  proof (cases "sl_index (ci_slot ci k) = None \<or> sl_index (ci_slot ci l) = None")
    case True
    then show ?thesis
      by (auto simp: p bp_map_def bp_insert_def bp_get_def omap_simps split: option.splits)
  next
    case False
    then obtain i j where ij: "sl_index (ci_slot ci k) = Some i" "sl_index (ci_slot ci l) = Some j"
      by auto
    then have b: "i < ci_size ci" "j < length (bp_rows t)"
      using assms ci_slot_index by (auto simp: bp_ok_def)
    then have "bp_rows t ! j = [] \<or> length (bp_rows t ! j) = ci_size ci"
      using assms by (simp add: bp_ok_def)
    then show ?thesis
      using ij b assms ci_slot_index_eq [OF ij(1), of k'] ci_slot_index_eq [OF ij(2), of l']
      by (cases "sl_index (ci_slot ci k')"; cases "sl_index (ci_slot ci l')")
        (auto simp: p bp_map_def bp_insert_def bp_get_def bp_ok_def nth_opt_def nth_list_update Let_def)
  qed
qed

lemma bp_insert_ok:
  assumes t: "bp_ok ci t" and a: "slot_of ci a"
  shows "bp_ok ci (bp_insert s a v t)"
proof (cases "sl_index a")
  case None
  then show ?thesis
    using t by (auto simp: bp_ok_def bp_insert_def split: option.splits)
next
  case (Some i)
  then have "i < length (bp_rows t)"
    using slot_inside [OF a] t by (auto simp: bp_ok_def)
  then have "bp_rows t ! i \<in> set (bp_rows t)"
    by simp
  then have row: "bp_rows t ! i = [] \<or> length (bp_rows t ! i) = ci_size ci"
    using t unfolding bp_ok_def by blast
  show ?thesis
    using t row unfolding bp_ok_def bp_insert_def Some Let_def
    by (auto split: option.splits dest!: set_update_subset_insert [THEN subsetD])
qed

interpretation pair_tab: keyed_table "\<lambda>ci p. slot_of ci (fst p) \<and> slot_of ci (snd p)"
  "\<lambda>p. (sl_key (fst p), sl_key (snd p))" "\<lambda>t p. bp_get t (fst p) (snd p)"
  "\<lambda>p. bp_insert (fst p) (snd p)" bp_map bp_ok
proof unfold_locales
  fix ci :: committee_index and t :: "'a by_pair" and x :: "slot \<times> slot" and v
  assume t: "bp_ok ci t" and x: "slot_of ci (fst x) \<and> slot_of ci (snd x)"
  then have eq: "fst x = ci_slot ci (sl_key (fst x))" "snd x = ci_slot ci (sl_key (snd x))"
    using slot_eq by auto
  show "bp_get t (fst x) (snd x) = bp_map ci t (sl_key (fst x), sl_key (snd x))"
    using eq by (simp add: bp_map_def)
  show "bp_map ci (bp_insert (fst x) (snd x) v t) = (bp_map ci t)((sl_key (fst x), sl_key (snd x)) \<mapsto> v)"
    using bp_insert_content [OF t, of "sl_key (fst x)" "sl_key (snd x)" v] eq by simp
  show "bp_ok ci (bp_insert (fst x) (snd x) v t)"
    using bp_insert_ok [OF t, of "snd x" "fst x" v] x by blast
qed

lemma ba_new_content: "ba_map ci (ba_new ci d) k = (if k \<in> set (ci_keys ci) then Some d else None)"
proof (cases "position k (ci_keys ci)")
  case None
  then show ?thesis
    by (simp add: ba_map_def ba_new_def ba_get_def ci_slot_def del: position_None) (metis position_None)
next
  case (Some i)
  then show ?thesis
    using position_Some [OF Some] position_Some_in [OF Some]
    by (simp add: ba_map_def ba_new_def ba_get_def ci_slot_def nth_opt_def ci_size_def)
qed

lemma ba_new_ok: "ci_ok ci \<Longrightarrow> ba_ok ci (ba_new ci d)"
  by (simp add: ba_ok_def ba_new_def)

lemma ba_entry_ok: "ba_ok ci t \<Longrightarrow> ba_ok ci (ba_entry d x f t)"
  by (auto simp: ba_ok_def ba_entry_def split: option.splits)

lemma ba_clear_content:
  assumes "ba_ok ci t"
  shows "ba_map ci (ba_clear d (ci_slot ci a) t) k =
    (if k = a then (if a \<in> set (ci_keys ci) then Some d else None) else ba_map ci t k)"
proof (cases "sl_index (ci_slot ci a)")
  case None
  then have "a \<notin> set (ci_keys ci)"
    by (simp add: ci_slot_def)
  then show ?thesis
    using None
    by (cases "sl_index (ci_slot ci k)") (auto simp: ba_map_def ba_clear_def ba_get_def omap_simps)
next
  case (Some i)
  then have "a \<in> set (ci_keys ci)" "i < length (ba_dense t)"
    using assms ci_slot_index [OF _ Some] by (auto simp: ba_ok_def ci_slot_def ci_size_def dest: position_Some_in)
  then show ?thesis
    using Some ci_slot_index_eq [OF Some, of k]
    by (cases "sl_index (ci_slot ci k)")
      (auto simp: ba_map_def ba_clear_def ba_get_def nth_opt_def nth_list_update)
qed

lemma ba_clear_ok: "ba_ok ci t \<Longrightarrow> ba_ok ci (ba_clear d x t)"
  by (auto simp: ba_ok_def ba_clear_def split: option.splits)

lemma bp_new_content: "bp_map ci (bp_new ci) p = None"
proof (cases "sl_index (ci_slot ci (snd p))")
  case (Some j)
  then have "j < ci_size ci"
    by (auto simp: ci_slot_def ci_size_def dest: position_Some)
  then show ?thesis
    using Some by (auto simp: bp_map_def bp_get_def nth_opt_def bp_new_def split: option.splits)
qed (auto simp: bp_map_def bp_get_def bp_new_def split: option.splits)

lemma bp_new_ok: "ci_ok ci \<Longrightarrow> bp_ok ci (bp_new ci)"
  by (simp add: bp_ok_def bp_new_def)

lemma bp_remove_content:
  assumes "bp_ok ci t"
  shows "bp_map ci (bp_remove (ci_slot ci k) (ci_slot ci l) t) = (bp_map ci t)((k, l) := None)"
proof (rule ext)
  fix p :: "public_key \<times> public_key"
  obtain k' l' where p: "p = (k', l')" by fastforce
  show "bp_map ci (bp_remove (ci_slot ci k) (ci_slot ci l) t) p = ((bp_map ci t)((k, l) := None)) p"
  proof (cases "sl_index (ci_slot ci k) = None \<or> sl_index (ci_slot ci l) = None")
    case True
    then show ?thesis
      by (auto simp: p bp_map_def bp_remove_def bp_get_def omap_simps split: option.splits)
  next
    case False
    then obtain i j where ij: "sl_index (ci_slot ci k) = Some i" "sl_index (ci_slot ci l) = Some j"
      by auto
    then have "j < length (bp_rows t)"
      using assms ci_slot_index by (auto simp: bp_ok_def)
    then show ?thesis
      using ij ci_slot_index_eq [OF ij(1), of k'] ci_slot_index_eq [OF ij(2), of l']
      by (cases "sl_index (ci_slot ci k')"; cases "sl_index (ci_slot ci l')")
        (auto simp: p bp_map_def bp_remove_def bp_get_def nth_opt_def nth_list_update)
  qed
qed

lemma bp_remove_ok:
  assumes t: "bp_ok ci t" and a: "slot_of ci a"
  shows "bp_ok ci (bp_remove s a t)"
proof (cases "sl_index a")
  case None
  then show ?thesis
    using t by (auto simp: bp_ok_def bp_remove_def split: option.splits)
next
  case (Some i)
  then have "i < length (bp_rows t)"
    using slot_inside [OF a] t by (auto simp: bp_ok_def)
  then have "bp_rows t ! i \<in> set (bp_rows t)"
    by simp
  then have row: "bp_rows t ! i = [] \<or> length (bp_rows t ! i) = ci_size ci"
    using t unfolding bp_ok_def by blast
  show ?thesis
    using t row unfolding bp_ok_def bp_remove_def Some
    by (auto split: option.splits dest!: set_update_subset_insert [THEN subsetD])
qed

lemma bp_clear_content:
  assumes "bp_ok ci t"
  shows "bp_map ci (bp_clear_author (ci_slot ci a) t) (k, l) = (if l = a then None else bp_map ci t (k, l))"
proof -
  have out: "map_of (filter (\<lambda>e. snd (fst e) \<noteq> a) m) (k, l) = (if l = a then None else map_of m (k, l))"
    for m :: "(public_key \<times> public_key, 'a) omap"
    by (induction m) auto
  show ?thesis
  proof (cases "sl_index (ci_slot ci a)")
    case None
    then show ?thesis
      using out by (auto simp: bp_map_def bp_clear_author_def bp_get_def Let_def split: option.splits)
  next
    case (Some i)
    then have "i < length (bp_rows t)"
      using assms ci_slot_index by (auto simp: bp_ok_def)
    then show ?thesis
      using Some out ci_slot_index_eq [OF Some, of l]
      by (auto simp: bp_map_def bp_clear_author_def bp_get_def nth_opt_def nth_list_update Let_def split: option.splits)
  qed
qed

lemma bp_clear_ok: "bp_ok ci t \<Longrightarrow> bp_ok ci (bp_clear_author x t)"
  by (auto simp: bp_ok_def bp_clear_author_def Let_def split: option.splits
      dest!: set_update_subset_insert [THEN subsetD])

lemmas table_oks = ba_new_ok ba_entry_ok ba_clear_ok bp_new_ok bp_insert_ok bp_remove_ok bp_clear_ok

text \<open>The per-reference table: one head and a list of forks at each coordinate.\<close>

definition br_map :: "committee_index \<Rightarrow> 't by_ref \<Rightarrow> public_key \<times> height \<times> digest \<Rightarrow> 't option" where
  "br_map ci t r = br_get t (ci_slot ci (fst r)) (fst (snd r)) (snd (snd r))"

definition ref_slot_ok :: "'t ref_slot \<Rightarrow> bool" where
  "ref_slot_ok r \<longleftrightarrow> distinct (rs_head r # map fst (rs_forks r))"

definition br_ok :: "committee_index \<Rightarrow> 't by_ref \<Rightarrow> bool" where
  "br_ok ci t \<longleftrightarrow> ci_ok ci \<and> length (br_lanes t) = ci_size ci \<and> omap_ok (br_outside t)
     \<and> (\<forall>lane \<in> set (br_lanes t). omap_ok lane \<and> (\<forall>e \<in> set lane. ref_slot_ok (snd e)))"

lemma fork_update_keys [simp]: "map fst (fork_update d f fs) = map fst fs"
  by (induction d f fs rule: fork_update.induct) auto

lemma map_of_fork_update: "map_of (fork_update d f fs) = (map_of fs)(d := map_option f (map_of fs d))"
  by (induction d f fs rule: fork_update.induct) (auto simp: fun_eq_iff)

lemma rs_entry_get:
  "rs_get (fst (rs_entry dflt d f r)) x =
     (if x = d then Some (f (case rs_get r d of None \<Rightarrow> dflt | Some v \<Rightarrow> v)) else rs_get r x)"
  by (cases "map_of (rs_forks r) d"; cases "map_of (rs_forks r) x")
    (auto simp: rs_entry_def rs_get_def map_of_fork_update map_add_def)

lemma rs_entry_created: "snd (rs_entry dflt d f r) \<longleftrightarrow> rs_get r d = None"
  by (auto simp: rs_entry_def rs_get_def)

lemma rs_entry_ok: "ref_slot_ok r \<Longrightarrow> ref_slot_ok (fst (rs_entry dflt d f r))"
  by (simp add: rs_entry_def ref_slot_ok_def map_of_eq_None_iff flip: set_map) blast

lemma rs_get_mut_get:
  "rs_get (rs_get_mut d f r) x = (if x = d then map_option f (rs_get r d) else rs_get r x)"
  by (auto simp: rs_get_mut_def rs_get_def map_of_fork_update)

lemma br_entry_content:
  assumes "br_ok ci t"
  shows "br_map ci (fst (br_entry dflt (ci_slot ci k) h d f t)) =
      (br_map ci t)((k, h, d) \<mapsto> f (case br_map ci t (k, h, d) of None \<Rightarrow> dflt | Some v \<Rightarrow> v))"
    and "snd (br_entry dflt (ci_slot ci k) h d f t) \<longleftrightarrow> br_map ci t (k, h, d) = None"
proof -
  show "br_map ci (fst (br_entry dflt (ci_slot ci k) h d f t)) =
      (br_map ci t)((k, h, d) \<mapsto> f (case br_map ci t (k, h, d) of None \<Rightarrow> dflt | Some v \<Rightarrow> v))"
  proof (rule ext)
    fix r :: "public_key \<times> height \<times> digest"
    obtain k' h' d' where r: "r = (k', h', d')" by (cases r) auto
    show "br_map ci (fst (br_entry dflt (ci_slot ci k) h d f t)) r =
      ((br_map ci t)((k, h, d) \<mapsto> f (case br_map ci t (k, h, d) of None \<Rightarrow> dflt | Some v \<Rightarrow> v))) r"
    proof (cases "sl_index (ci_slot ci k)")
      case None
      then show ?thesis
        by (auto simp: r br_map_def br_entry_def br_get_def omap_simps split: option.splits)
    next
      case (Some i)
      then have i: "i < length (br_lanes t)"
        using assms ci_slot_index by (auto simp: br_ok_def)
      show ?thesis
        using Some i ci_slot_index_eq [OF Some, of k'] rs_entry_get
        by (cases "sl_index (ci_slot ci k')"; cases "map_of (br_lanes t ! i) h")
          (auto simp: r br_map_def br_entry_def br_get_def nth_list_update omap_simps rs_entry_get
            split_beta rs_get_def [of "\<lparr>rs_head = d, rs_value = v, rs_forks = []\<rparr>" for v])
    qed
  qed
  show "snd (br_entry dflt (ci_slot ci k) h d f t) \<longleftrightarrow> br_map ci t (k, h, d) = None"
    by (auto simp: br_map_def br_entry_def br_get_def om_has_def rs_entry_created split_beta split: option.splits)
qed

lemma br_entry_ok:
  assumes t: "br_ok ci t" and a: "slot_of ci a"
  shows "br_ok ci (fst (br_entry dflt a h d f t))"
proof (cases "sl_index a")
  case None
  then show ?thesis
    using t by (simp add: br_ok_def br_entry_def order_intros)
next
  case (Some i)
  then have "i < length (br_lanes t)"
    using slot_inside [OF a] t by (auto simp: br_ok_def)
  then have "br_lanes t ! i \<in> set (br_lanes t)" by simp
  then have lane: "omap_ok (br_lanes t ! i)" "\<forall>e \<in> set (br_lanes t ! i). ref_slot_ok (snd e)"
    using t unfolding br_ok_def by blast+
  have put: "omap_ok (om_put h r (br_lanes t ! i)) \<and> (\<forall>e \<in> set (om_put h r (br_lanes t ! i)). ref_slot_ok (snd e))"
    if "ref_slot_ok r" for r
    using lane that set_om_put_subset [of h r "br_lanes t ! i"] by (auto intro: omap_ok_put)
  show ?thesis
  proof (cases "map_of (br_lanes t ! i) h")
    case None
    then show ?thesis
      using t put [of "\<lparr>rs_head = d, rs_value = f dflt, rs_forks = []\<rparr>"] unfolding br_ok_def br_entry_def Some
      by (auto simp: ref_slot_ok_def dest!: set_update_subset_insert [THEN subsetD])
  next
    case (Some r)
    then have "ref_slot_ok (fst (rs_entry dflt d f r))"
      using lane(2) by (force intro!: rs_entry_ok dest: map_of_SomeD)
    then show ?thesis
      using t put Some unfolding br_ok_def br_entry_def \<open>sl_index a = Some i\<close>
      by (auto simp: split_beta dest!: set_update_subset_insert [THEN subsetD])
  qed
qed

lemma br_get_mut_content:
  assumes "br_ok ci t"
  shows "br_map ci (br_get_mut (ci_slot ci k) h d f t) =
      (br_map ci t)((k, h, d) := map_option f (br_map ci t (k, h, d)))"
proof (rule ext)
  fix r :: "public_key \<times> height \<times> digest"
  obtain k' h' d' where r: "r = (k', h', d')" by (cases r) auto
  show "br_map ci (br_get_mut (ci_slot ci k) h d f t) r =
      ((br_map ci t)((k, h, d) := map_option f (br_map ci t (k, h, d)))) r"
  proof (cases "sl_index (ci_slot ci k)")
    case None
    then show ?thesis
      by (auto simp: r br_map_def br_get_mut_def br_get_def omap_simps split: option.splits)
  next
    case (Some i)
    then have i: "i < length (br_lanes t)"
      using assms ci_slot_index by (auto simp: br_ok_def)
    show ?thesis
      using Some i ci_slot_index_eq [OF Some, of k'] rs_get_mut_get
      by (cases "sl_index (ci_slot ci k')"; cases "map_of (br_lanes t ! i) h")
        (auto simp: r br_map_def br_get_mut_def br_get_def nth_list_update omap_simps rs_get_mut_get)
  qed
qed

lemma rs_get_mut_ok: "ref_slot_ok r \<Longrightarrow> ref_slot_ok (rs_get_mut d f r)"
  by (simp add: rs_get_mut_def ref_slot_ok_def flip: set_map) blast

lemma br_get_mut_ok:
  assumes t: "br_ok ci t"
  shows "br_ok ci (br_get_mut (ci_slot ci k) h d f t)"
proof (cases "sl_index (ci_slot ci k)")
  case None
  then show ?thesis
    using t by (auto simp: br_ok_def br_get_mut_def order_intros split: option.splits)
next
  case (Some i)
  then have "i < length (br_lanes t)"
    using t ci_slot_index by (auto simp: br_ok_def)
  then have "br_lanes t ! i \<in> set (br_lanes t)" by simp
  then have lane: "omap_ok (br_lanes t ! i)" "\<forall>e \<in> set (br_lanes t ! i). ref_slot_ok (snd e)"
    using t unfolding br_ok_def by blast+
  show ?thesis
  proof (cases "map_of (br_lanes t ! i) h")
    case None
    then show ?thesis using t Some by (simp add: br_get_mut_def)
  next
    case r: (Some r)
    then have "ref_slot_ok (rs_get_mut d f r)"
      using lane(2) by (force intro!: rs_get_mut_ok dest: map_of_SomeD)
    then have "omap_ok (om_put h (rs_get_mut d f r) (br_lanes t ! i))
        \<and> (\<forall>e \<in> set (om_put h (rs_get_mut d f r) (br_lanes t ! i)). ref_slot_ok (snd e))"
      using lane set_om_put_subset [of h "rs_get_mut d f r" "br_lanes t ! i"] by (auto intro: omap_ok_put)
    then show ?thesis
      using t r Some by (auto simp: br_get_mut_def br_ok_def dest!: set_update_subset_insert [THEN subsetD])
  qed
qed

interpretation ref_tab: entry_table "\<lambda>ci r. slot_of ci (fst r)" "\<lambda>r. (sl_key (fst r), snd r)"
  "\<lambda>t r. br_get t (fst r) (fst (snd r)) (snd (snd r))"
  "\<lambda>dflt r f t. fst (br_entry dflt (fst r) (fst (snd r)) (snd (snd r)) f t)" br_map br_ok
proof unfold_locales
  fix ci :: committee_index and t :: "'a by_ref" and x :: "slot \<times> height \<times> digest" and d f
  assume t: "br_ok ci t" and x: "slot_of ci (fst x)"
  show "br_get t (fst x) (fst (snd x)) (snd (snd x)) = br_map ci t (sl_key (fst x), snd x)"
    using slot_eq [OF x] by (simp add: br_map_def)
  show "br_map ci (fst (br_entry d (fst x) (fst (snd x)) (snd (snd x)) f t)) =
      (br_map ci t)((sl_key (fst x), snd x) \<mapsto>
        f (case br_map ci t (sl_key (fst x), snd x) of None \<Rightarrow> d | Some v \<Rightarrow> v))"
    using br_entry_content(1) [OF t, of d "sl_key (fst x)" "fst (snd x)" "snd (snd x)" f] slot_eq [OF x]
    by simp
  show "br_ok ci (fst (br_entry d (fst x) (fst (snd x)) (snd (snd x)) f t))"
    by (rule br_entry_ok [OF t x])
qed

lemma ref_slot_values:
  "ref_slot_ok r \<Longrightarrow> v \<in> set (rs_value r # map snd (rs_forks r)) \<longleftrightarrow> (\<exists>d. rs_get r d = Some v)"
proof -
  assume ok: "ref_slot_ok r"
  then have d: "distinct (map fst (rs_forks r))" "rs_head r \<notin> fst ` set (rs_forks r)"
    by (auto simp: ref_slot_ok_def)
  have "(\<exists>d. rs_get r d = Some v) \<longleftrightarrow>
      rs_get r (rs_head r) = Some v \<or> (\<exists>d. d \<noteq> rs_head r \<and> rs_get r d = Some v)"
    by metis
  also have "\<dots> \<longleftrightarrow> v = rs_value r \<or> (\<exists>d. d \<noteq> rs_head r \<and> (d, v) \<in> set (rs_forks r))"
  proof -
    have "rs_get r d = Some v \<longleftrightarrow> (d, v) \<in> set (rs_forks r)" if "d \<noteq> rs_head r" for d
      using that d(1) by (auto simp: rs_get_def map_of_eq_Some_iff)
    moreover have "rs_get r (rs_head r) = Some v \<longleftrightarrow> v = rs_value r"
      by (auto simp: rs_get_def)
    ultimately show ?thesis by metis
  qed
  also have "\<dots> \<longleftrightarrow> v = rs_value r \<or> (\<exists>d. (d, v) \<in> set (rs_forks r))"
    using d(2) by (metis image_eqI fst_conv)
  also have "\<dots> \<longleftrightarrow> v \<in> set (rs_value r # map snd (rs_forks r))"
    by force
  finally show ?thesis by blast
qed

section \<open>Draining an author\<close>

lemma drain_content:
  assumes t: "br_ok ci t"
  shows "br_map ci (snd (br_drain_author (ci_slot ci a) t)) r = (if fst r = a then None else br_map ci t r)"
proof (cases "sl_index (ci_slot ci a)")
  case None
  have filter: "map_of (filter (\<lambda>e. fst (fst e) \<noteq> a) m) r = (if fst r = a then None else map_of m r)"
    for m :: "(public_key \<times> height \<times> digest, 'a) omap"
    by (induction m) auto
  show ?thesis
  proof (cases "sl_index (ci_slot ci (fst r))")
    case outside: None
    then show ?thesis
      using None filter [of "br_outside t"]
      by (simp add: br_map_def br_drain_author_def br_get_def)
  next
    case (Some j)
    then have "fst r \<noteq> a"
      using None by auto
    then show ?thesis
      using Some None by (simp add: br_map_def br_drain_author_def br_get_def)
  qed
next
  case (Some i)
  then have i: "i < length (br_lanes t)"
    using ci_slot_index t by (auto simp: br_ok_def)
  show ?thesis
    using Some i ci_slot_index_eq [OF Some, of "fst r"]
    by (cases "sl_index (ci_slot ci (fst r))") (auto simp: br_map_def br_drain_author_def br_get_def nth_list_update)
qed

lemma drain_values:
  assumes t: "br_ok ci t"
  shows "v \<in> set (fst (br_drain_author (ci_slot ci a) t)) \<longleftrightarrow> (\<exists>h d. br_map ci t (a, h, d) = Some v)"
proof (cases "sl_index (ci_slot ci a)")
  case None
  have "set (map snd (filter (\<lambda>e. fst (fst e) = a) m)) = {v. \<exists>h d. ((a, h, d), v) \<in> set m}"
    for m :: "(public_key \<times> height \<times> digest, 'a) omap"
    by force
  then show ?thesis
    using t None by (simp add: br_map_def br_drain_author_def br_get_def br_ok_def omap_ok_map_of)
next
  case (Some i)
  then have "i < length (br_lanes t)"
    using ci_slot_index t by (auto simp: br_ok_def)
  then have "br_lanes t ! i \<in> set (br_lanes t)" by simp
  then have lane: "omap_ok (br_lanes t ! i)" "\<forall>e \<in> set (br_lanes t ! i). ref_slot_ok (snd e)"
    using t unfolding br_ok_def by blast+
  have "v \<in> set (fst (br_drain_author (ci_slot ci a) t)) \<longleftrightarrow>
      (\<exists>h r. (h, r) \<in> set (br_lanes t ! i) \<and> v \<in> set (rs_value r # map snd (rs_forks r)))"
    using Some by (auto simp: br_drain_author_def)
  also have "\<dots> \<longleftrightarrow> (\<exists>h r. (h, r) \<in> set (br_lanes t ! i) \<and> (\<exists>d. rs_get r d = Some v))"
  proof -
    have "v \<in> set (rs_value r # map snd (rs_forks r)) \<longleftrightarrow> (\<exists>d. rs_get r d = Some v)"
      if "(h, r) \<in> set (br_lanes t ! i)" for h r
      using lane(2) that by (intro ref_slot_values) auto
    then show ?thesis by blast
  qed
  finally show ?thesis
    using Some lane(1) by (auto simp: br_map_def br_get_def omap_ok_map_of bind_eq_Some_conv)
qed

lemma drain_ok: "br_ok ci t \<Longrightarrow> br_ok ci (snd (br_drain_author x t))"
  by (auto simp: br_ok_def br_drain_author_def order_intros split: option.splits
      dest!: set_update_subset_insert [THEN subsetD])

section \<open>Properties\<close>

text \<open>C35. The committee bitmap is a set of positions, also beyond the 256 inline ones: insertion
  and removal report exactly whether they changed the set, membership agrees with it, and the
  bit-clearing iterator yields every position exactly once.\<close>

theorem member_set_refines_set:
  assumes ok: "ms_ok s"
  shows "(ms_contains i s \<longleftrightarrow> i \<in> ms_set s)
    \<and> (fst (ms_insert i s) \<longleftrightarrow> i \<notin> ms_set s) \<and> ms_set (snd (ms_insert i s)) = insert i (ms_set s)
    \<and> (fst (ms_remove i s) \<longleftrightarrow> i \<in> ms_set s) \<and> ms_set (snd (ms_remove i s)) = ms_set s - {i}
    \<and> ms_ok (snd (ms_insert i s)) \<and> ms_ok (snd (ms_remove i s))
    \<and> set (ms_iter s) = ms_set s \<and> distinct (ms_iter s)"
  using mset_q.set_laws [of s i] ms_contains_set [OF ok, of i] ms_iter_set [OF ok] ok by blast

theorem member_set_refines_set_witness:
  "fst (ms_insert 300 (snd (ms_insert 70 ms_empty))) \<longleftrightarrow> 300 \<notin> ms_set (snd (ms_insert 70 ms_empty))"
  using member_set_refines_set [OF ms_insert_set(3) [OF ms_empty_ok(1)], of 300 70] by simp

text \<open>C34. The per-reference table is a map on (author, height, digest), forks and outside authors
  included: an entry is created exactly when the reference is new, changes that reference and no
  other, and draining an author returns exactly its values and leaves every other author alone.\<close>

theorem by_ref_refines_map:
  assumes t: "br_ok ci t" and a: "slot_of ci a" and b: "slot_of ci b"
  shows "(snd (br_entry dflt a h d f t) \<longleftrightarrow> br_get t a h d = None)
    \<and> br_get (fst (br_entry dflt a h d f t)) b h' d' =
        (if (sl_key b, h', d') = (sl_key a, h, d)
         then Some (f (case br_get t a h d of None \<Rightarrow> dflt | Some v \<Rightarrow> v)) else br_get t b h' d')
    \<and> set (fst (br_drain_author a t)) = {v. \<exists>h d. br_get t a h d = Some v}
    \<and> br_get (snd (br_drain_author a t)) b h' d' =
        (if sl_key b = sl_key a then None else br_get t b h' d')"
proof -
  have slots: "ci_slot ci (sl_key a) = a" "ci_slot ci (sl_key b) = b"
    using slot_eq [OF a] slot_eq [OF b] by simp_all
  have read: "br_get u a h d = br_map ci u (sl_key a, h, d)" "br_get u b h d = br_map ci u (sl_key b, h, d)"
    for u :: "'a by_ref" and h d
    by (simp_all add: br_map_def slots)
  show ?thesis
    using br_entry_content [OF t, of dflt "sl_key a" h d f] drain_values [OF t, of _ "sl_key a"]
      drain_content [OF t, of "sl_key a" "(sl_key b, h', d')"]
    unfolding read slots by auto
qed

lemma br_new_ok: "ci_ok ci \<Longrightarrow> br_ok ci (br_new ci)"
  by (simp add: br_ok_def br_new_def)

lemma committee_index_new_ok: "committee_ok c \<Longrightarrow> ci_ok (committee_index_new c)"
  by (simp add: ci_ok_def committee_index_new_def committee_ok_def omap_ok_distinct)

theorem by_ref_refines_map_witness:
  "let ci = committee_index_new demo_committee; a = ci_slot ci (PublicKey 2)
   in br_get (fst (br_entry 0 a 1 (Digest 7) (\<lambda>n. n + (1::nat)) (br_new ci))) a 1 (Digest 7) = Some 1"
  using by_ref_refines_map [OF br_new_ok [OF committee_index_new_ok [OF demo_committee_ok]]
      slot_of_ci_slot(1) slot_of_ci_slot(1),
      of 0 "PublicKey 2" 1 "Digest 7" "\<lambda>n. n + (1::nat)" "PublicKey 2" 1 "Digest 7"]
  by (simp add: Let_def br_get_def br_new_def ci_slot_def committee_index_new_def demo_committee_def ci_size_def)

end
