(* ===== verification/Agb_Types.thy ===== *)
theory Agb_Types
  imports Committee
begin

text \<open>
  The wire and internal types of the direct-AGB protocol and their well-formedness checks:
  the first part of \<^verbatim>\<open>primary/src/vantage/agb.rs\<close> and \<^verbatim>\<open>domain_hash\<close> of
  \<^verbatim>\<open>primary/src/vantage/block.rs\<close>. BLAKE3 and bincode are not part of the repository: the
  hash of a byte string and the serialisation of a value are arguments (\<open>codec\<close>).
\<close>

section \<open>Hashing\<close>

type_synonym bytes = "8 word list"

definition digest_bytes :: "digest \<Rightarrow> bytes" where
  "digest_bytes d = (case d of Digest w \<Rightarrow> map (\<lambda>i. ucast (drop_bit (8 * (31 - i)) w)) [0..<32])"

text \<open>
  \<^verbatim>\<open>Blake3Hasher::update\<close> feeds a concatenation; tags are ASCII literals.
\<close>

definition tag_bytes :: "string \<Rightarrow> bytes" where
  "tag_bytes s = map (\<lambda>c. of_nat (of_char c)) s"

definition domain_hash :: "(bytes \<Rightarrow> digest) \<Rightarrow> string \<Rightarrow> digest \<Rightarrow> bytes \<Rightarrow> digest" where
  "domain_hash blake3 tag sid payload = blake3 (tag_bytes tag @ digest_bytes sid @ payload)"

section \<open>Proposals\<close>

type_synonym block_ref = "public_key \<times> height \<times> digest"
type_synonym manifest = "block_ref list"

abbreviation ref_author :: "block_ref \<Rightarrow> public_key" where
  "ref_author r \<equiv> fst r"

abbreviation ref_height :: "block_ref \<Rightarrow> height" where
  "ref_height r \<equiv> fst (snd r)"

abbreviation ref_digest :: "block_ref \<Rightarrow> digest" where
  "ref_digest r \<equiv> snd (snd r)"

datatype resolution_entry =
    REFull view manifest manifest
  | RECore view manifest manifest
  | RESkip view

fun target_view :: "resolution_entry \<Rightarrow> view" where
  "target_view (REFull u _ _) = u"
| "target_view (RECore u _ _) = u"
| "target_view (RESkip u) = u"

fun entry_references :: "resolution_entry \<Rightarrow> block_ref list" where
  "entry_references (REFull _ core tip) = core @ tip"
| "entry_references (RECore _ core tip) = core @ tip"
| "entry_references (RESkip _) = []"

record view_proposal =
  vp_view :: view
  vp_c :: manifest
  vp_t :: manifest
  vp_m :: "resolution_entry option"

record batch_view_proposal =
  bvp_view :: view
  bvp_c :: manifest
  bvp_t :: manifest
  bvp_m :: "resolution_entry list"

datatype proposal_out = PSingle view_proposal | PBatch batch_view_proposal

fun p_view :: "proposal_out \<Rightarrow> view" where
  "p_view (PSingle p) = vp_view p"
| "p_view (PBatch p) = bvp_view p"

fun p_c :: "proposal_out \<Rightarrow> manifest" where
  "p_c (PSingle p) = vp_c p"
| "p_c (PBatch p) = bvp_c p"

fun p_t :: "proposal_out \<Rightarrow> manifest" where
  "p_t (PSingle p) = vp_t p"
| "p_t (PBatch p) = bvp_t p"

fun p_entries :: "proposal_out \<Rightarrow> resolution_entry list" where
  "p_entries (PSingle p) = (case vp_m p of None \<Rightarrow> [] | Some e \<Rightarrow> [e])"
| "p_entries (PBatch p) = bvp_m p"

record codec =
  blake3 :: "bytes \<Rightarrow> digest"
  ser_view_proposal :: "view_proposal \<Rightarrow> bytes"
  ser_batch_proposal :: "batch_view_proposal \<Rightarrow> bytes"

definition vp_digest :: "codec \<Rightarrow> digest \<Rightarrow> view_proposal \<Rightarrow> digest" where
  "vp_digest cd sid p = domain_hash (blake3 cd) ''view-proposal'' sid (ser_view_proposal cd p)"

definition bvp_digest :: "codec \<Rightarrow> digest \<Rightarrow> batch_view_proposal \<Rightarrow> digest" where
  "bvp_digest cd sid p = domain_hash (blake3 cd) ''view-proposal-batch'' sid (ser_batch_proposal cd p)"

fun p_digest :: "codec \<Rightarrow> digest \<Rightarrow> proposal_out \<Rightarrow> digest" where
  "p_digest cd sid (PSingle p) = vp_digest cd sid p"
| "p_digest cd sid (PBatch p) = bvp_digest cd sid p"

section \<open>Well-formed proposals\<close>

fun sorted_and_staked_from :: "committee \<Rightarrow> public_key option \<Rightarrow> manifest \<Rightarrow> bool" where
  "sorted_and_staked_from c prev [] = True"
| "sorted_and_staked_from c prev ((author, height, d) # m) =
     (if height < 1 then False
      else if stake_of c author = 0 then False
      else if (case prev of None \<Rightarrow> False | Some p \<Rightarrow> author \<le> p) then False
      else sorted_and_staked_from c (Some author) m)"

definition strictly_sorted_and_staked :: "committee \<Rightarrow> manifest \<Rightarrow> bool" where
  "strictly_sorted_and_staked c m = sorted_and_staked_from c None m"

fun all_new :: "'a list \<Rightarrow> 'a list \<Rightarrow> bool" where
  "all_new seen [] = True"
| "all_new seen (h # hs) = (if h \<in> set seen then False else all_new (h # seen) hs)"

definition distinct_hashes :: "manifest \<Rightarrow> manifest \<Rightarrow> bool" where
  "distinct_hashes m1 m2 = all_new [] (map ref_digest (m1 @ m2))"

definition formed_resolution_entry :: "committee \<Rightarrow> resolution_entry \<Rightarrow> bool" where
  "formed_resolution_entry c e =
     (if target_view e < 1 then False
      else case e of
        REFull _ cu tu \<Rightarrow>
          (if \<not> strictly_sorted_and_staked c cu \<or> \<not> strictly_sorted_and_staked c tu then False
           else if \<not> distinct_hashes cu tu then False else True)
      | RECore _ cu tu \<Rightarrow>
          (if \<not> strictly_sorted_and_staked c cu \<or> \<not> strictly_sorted_and_staked c tu then False
           else if \<not> distinct_hashes cu tu then False else True)
      | RESkip _ \<Rightarrow> True)"

definition formed_entry :: "committee \<Rightarrow> view \<Rightarrow> resolution_entry \<Rightarrow> bool" where
  "formed_entry c v e =
     (let u = target_view e
      in if u < 1 \<or> u > v - 3 then False else formed_resolution_entry c e)"

definition formed :: "committee \<Rightarrow> view \<Rightarrow> manifest \<Rightarrow> manifest \<Rightarrow> resolution_entry option \<Rightarrow> bool" where
  "formed cm v c t m =
     (if \<not> strictly_sorted_and_staked cm c \<or> \<not> strictly_sorted_and_staked cm t then False
      else if \<not> distinct_hashes c t then False
      else case m of None \<Rightarrow> True | Some e \<Rightarrow> formed_entry cm v e)"

definition batch_cap :: "committee \<Rightarrow> nat" where
  "batch_cap c = max (f_plus_1_parties (from_party_count (committee_size c)) - 1) 1"

fun formed_skips :: "committee \<Rightarrow> view \<Rightarrow> view option \<Rightarrow> resolution_entry list \<Rightarrow> bool" where
  "formed_skips cm v prev [] = True"
| "formed_skips cm v prev (e # es) =
     (if \<not> (case e of RESkip _ \<Rightarrow> True | _ \<Rightarrow> False) then False
      else if \<not> formed_entry cm v e then False
      else let u = target_view e
           in if (case prev of None \<Rightarrow> False | Some p \<Rightarrow> u \<le> p) then False
              else formed_skips cm v (Some u) es)"

definition formed_batch :: "committee \<Rightarrow> view \<Rightarrow> manifest \<Rightarrow> manifest \<Rightarrow> resolution_entry list \<Rightarrow> bool" where
  "formed_batch cm v c t m =
     (if \<not> strictly_sorted_and_staked cm c \<or> \<not> strictly_sorted_and_staked cm t then False
      else if \<not> distinct_hashes c t then False
      else if length m < 2 \<or> length m > batch_cap cm then False
      else formed_skips cm v None m)"

fun p_formed :: "committee \<Rightarrow> proposal_out \<Rightarrow> bool" where
  "p_formed cm (PSingle p) = formed cm (vp_view p) (vp_c p) (vp_t p) (vp_m p)"
| "p_formed cm (PBatch p) = formed_batch cm (bvp_view p) (bvp_c p) (bvp_t p) (bvp_m p)"

definition aux_refs_entries :: "resolution_entry list \<Rightarrow> block_ref list" where
  "aux_refs_entries es = concat (map entry_references es)"

definition designated_proposer :: "committee \<Rightarrow> view \<Rightarrow> public_key option" where
  "designated_proposer c v = one_based_authority c v"

section \<open>Outcomes\<close>

datatype outcome = OFull manifest manifest | OCore manifest | OSkip

datatype ready_grade = GZero | GOne | GMix

datatype timer_kind = EchoFallback | EchoAbsolute | ReadyAbsolute | ProposerDown | OwnProposalDue

datatype response_stage = StageEcho | StageReady

section \<open>The checks as declarative conditions\<close>

lemma sorted_and_staked_from_iff:
  "sorted_and_staked_from c prev m \<longleftrightarrow>
     (\<forall>r \<in> set m. 1 \<le> ref_height r \<and> 0 < stake_of c (ref_author r))
     \<and> sorted_wrt (<) (map ref_author m)
     \<and> (\<forall>p. prev = Some p \<longrightarrow> (\<forall>a \<in> ref_author ` set m. p < a))"
proof (induction c prev m rule: sorted_and_staked_from.induct)
  case (2 c prev author height d m)
  have step: "sorted_and_staked_from c prev ((author, height, d) # m) \<longleftrightarrow>
      1 \<le> height \<and> 0 < stake_of c author \<and> (\<forall>p. prev = Some p \<longrightarrow> p < author)
      \<and> sorted_and_staked_from c (Some author) m"
    by (cases prev) auto
  show ?case
  proof (cases "1 \<le> height \<and> 0 < stake_of c author \<and> (\<forall>p. prev = Some p \<longrightarrow> p < author)")
    case True
    then have "\<not> height < 1" "stake_of c author \<noteq> 0"
      "\<not> (case prev of None \<Rightarrow> False | Some p \<Rightarrow> author \<le> p)"
      by (auto split: option.splits)
    from 2 [OF this] have "sorted_and_staked_from c (Some author) m \<longleftrightarrow>
      (\<forall>r \<in> set m. 1 \<le> ref_height r \<and> 0 < stake_of c (ref_author r))
      \<and> sorted_wrt (<) (map ref_author m) \<and> (\<forall>a \<in> ref_author ` set m. author < a)"
      by simp
    then show ?thesis
      unfolding step using True by (fastforce intro: less_trans)
  qed (unfold step, auto)
qed auto

lemma strictly_sorted_and_staked_iff:
  "strictly_sorted_and_staked c m \<longleftrightarrow>
     (\<forall>r \<in> set m. 1 \<le> ref_height r \<and> 0 < stake_of c (ref_author r)) \<and> sorted_wrt (<) (map ref_author m)"
  by (simp add: strictly_sorted_and_staked_def sorted_and_staked_from_iff)

lemma all_new_iff: "all_new seen hs \<longleftrightarrow> distinct hs \<and> set hs \<inter> set seen = {}"
  by (induction seen hs rule: all_new.induct) auto

lemma distinct_hashes_iff: "distinct_hashes m1 m2 \<longleftrightarrow> distinct (map ref_digest (m1 @ m2))"
  by (simp add: distinct_hashes_def all_new_iff)

definition manifests_ok :: "committee \<Rightarrow> manifest \<Rightarrow> manifest \<Rightarrow> bool" where
  "manifests_ok cm c t \<longleftrightarrow>
     (\<forall>r \<in> set c \<union> set t. 1 \<le> ref_height r \<and> ref_author r \<in> members cm)
     \<and> sorted_wrt (<) (map ref_author c) \<and> sorted_wrt (<) (map ref_author t)
     \<and> distinct (map ref_digest (c @ t))"

definition entry_ok :: "committee \<Rightarrow> resolution_entry \<Rightarrow> bool" where
  "entry_ok cm e \<longleftrightarrow> 1 \<le> target_view e \<and>
     (case e of REFull _ c t \<Rightarrow> manifests_ok cm c t | RECore _ c t \<Rightarrow> manifests_ok cm c t | RESkip _ \<Rightarrow> True)"

definition all_staked :: "committee \<Rightarrow> bool" where
  "all_staked cm \<longleftrightarrow> (\<forall>p \<in> members cm. 0 < stake_of cm p)"

lemma manifests_ok_iff:
  assumes "all_staked cm"
  shows "strictly_sorted_and_staked cm c \<and> strictly_sorted_and_staked cm t \<and> distinct_hashes c t
    \<longleftrightarrow> manifests_ok cm c t"
proof -
  have "0 < stake_of cm p \<longleftrightarrow> p \<in> members cm" for p
    using assms by (auto simp: all_staked_def intro: ccontr)
  then show ?thesis
    by (auto simp: strictly_sorted_and_staked_iff distinct_hashes_iff manifests_ok_def)
qed

lemma formed_resolution_entry_iff:
  "all_staked cm \<Longrightarrow> formed_resolution_entry cm e \<longleftrightarrow> entry_ok cm e"
  using manifests_ok_iff [of cm]
  by (auto simp: formed_resolution_entry_def entry_ok_def split: resolution_entry.splits)

lemma formed_entry_iff:
  "all_staked cm \<Longrightarrow> formed_entry cm v e \<longleftrightarrow> target_view e + 3 \<le> v \<and> entry_ok cm e"
  by (auto simp: formed_entry_def formed_resolution_entry_iff entry_ok_def Let_def)

lemma map_RESkip_eq [simp]: "map RESkip us = map RESkip vs \<longleftrightarrow> us = vs"
  by (simp add: inj_map_eq_map inj_def)

definition skip_targets :: "view \<Rightarrow> view option \<Rightarrow> view list \<Rightarrow> bool" where
  "skip_targets v prev us \<longleftrightarrow> sorted_wrt (<) us \<and> (\<forall>u \<in> set us. 1 \<le> u \<and> u + 3 \<le> v)
     \<and> (\<forall>p. prev = Some p \<longrightarrow> (\<forall>u \<in> set us. p < u))"

lemma skip_targets_Cons:
  "skip_targets v prev (u # us) \<longleftrightarrow>
     1 \<le> u \<and> u + 3 \<le> v \<and> (\<forall>p. prev = Some p \<longrightarrow> p < u) \<and> skip_targets v (Some u) us"
  by (cases prev) (auto simp: skip_targets_def)

lemma formed_skips_iff:
  assumes "all_staked cm"
  shows "formed_skips cm v prev es \<longleftrightarrow> (\<exists>us. es = map RESkip us \<and> skip_targets v prev us)"
proof (induction es arbitrary: prev)
  case (Cons e es)
  show ?case
  proof (cases e)
    case (RESkip u)
    have "formed_skips cm v prev (e # es) \<longleftrightarrow>
        1 \<le> u \<and> u + 3 \<le> v \<and> (\<forall>p. prev = Some p \<longrightarrow> p < u) \<and> formed_skips cm v (Some u) es"
      using RESkip assms by (cases prev) (auto simp: formed_entry_iff entry_ok_def)
    then show ?thesis
      using RESkip by (auto simp: Cons.IH Cons_eq_map_conv skip_targets_Cons simp del: formed_skips.simps)
  qed auto
qed (simp add: skip_targets_def)

section \<open>Properties\<close>



end
