(* ===== verification/Messages.thy ===== *)
theory Messages
  imports Agb_Types
begin

text \<open>
  Headers and the messages they may carry (\<^verbatim>\<open>primary/src/messages.rs\<close>), their digests, and
  the validity check of Vantage blocks (\<^verbatim>\<open>primary/src/vantage/block.rs\<close>). BLAKE3 and bincode are
  the fields of \<^typ>\<open>codec\<close> and the argument \<open>blake3\<close>. A memoised digest is the digest.
  The main fact is that the identifier of a valid block binds its author, height, payload and
  predecessor unless two byte strings with the same hash are exhibited.
\<close>

section \<open>Data\<close>

type_synonym slot_no = nat

datatype consensus_signature = Ed25519 bytes | PostQuantum bytes

record certificate =
  cert_author :: public_key
  cert_header_digest :: digest
  cert_height :: height
  cert_votes :: "(public_key \<times> consensus_signature) list"

record proposal =
  pr_header_digest :: digest
  pr_height :: height
  pr_poa :: "certificate option"

type_synonym cut = "(public_key, proposal) omap"

record qc =
  qc_id :: digest
  qc_votes :: "(public_key \<times> consensus_signature) list"

record commit_qc =
  cq_slot :: slot_no
  cq_view :: view
  cq_qc :: qc
  cq_proposals :: cut

datatype consensus_message =
    Prepare slot_no view "tc option" "commit_qc option" cut
  | Confirm slot_no view qc cut
  | Commit slot_no view qc cut
and timeout =
    Timeout slot_no view "consensus_message option" "consensus_message option" public_key consensus_signature
and tc =
    TC slot_no view "timeout list"

record header =
  h_author :: public_key
  h_height :: height
  h_payload :: "(digest, worker_id) omap"
  h_parent_cert :: certificate
  h_id :: digest
  h_signature :: "consensus_signature option"
  h_sid :: "digest option"
  h_consensus_messages :: "(digest, consensus_message) omap"
  h_num_active_instances :: nat
  h_special :: bool

record ack =
  ack_author :: public_key
  ack_height :: height
  ack_digest :: digest
  ack_sender :: public_key

definition ack_new :: "public_key \<Rightarrow> height \<Rightarrow> digest \<Rightarrow> public_key \<Rightarrow> ack" where
  "ack_new a h d s = \<lparr>ack_author = a, ack_height = h, ack_digest = d, ack_sender = s\<rparr>"

definition ack_reference :: "ack \<Rightarrow> block_ref" where
  "ack_reference a = (ack_author a, ack_height a, ack_digest a)"

section \<open>Digests\<close>

definition key_bytes :: "public_key \<Rightarrow> bytes" where
  "key_bytes k = (case k of PublicKey w \<Rightarrow> digest_bytes (Digest w))"

definition le_bytes :: "nat \<Rightarrow> nat \<Rightarrow> bytes" where
  "le_bytes n x = map (\<lambda>i. of_nat (x div 256 ^ i)) [0..<n]"

fun to_canonical_bytes :: "consensus_signature \<Rightarrow> bytes" where
  "to_canonical_bytes (Ed25519 b) = 0 # b"
| "to_canonical_bytes (PostQuantum b) = 1 # b"

definition car_vote_digest :: "(bytes \<Rightarrow> digest) \<Rightarrow> public_key \<Rightarrow> height \<Rightarrow> digest \<Rightarrow> digest" where
  "car_vote_digest b3 a h d =
     b3 (tag_bytes ''autobahn-car-vote-v1'' @ key_bytes a @ le_bytes 8 h @ digest_bytes d)"

definition cert_digest :: "(bytes \<Rightarrow> digest) \<Rightarrow> certificate \<Rightarrow> digest" where
  "cert_digest b3 c = car_vote_digest b3 (cert_author c) (cert_height c) (cert_header_digest c)"

definition vote_bytes :: "(public_key \<times> consensus_signature) list \<Rightarrow> bytes" where
  "vote_bytes vs = concat (map (\<lambda>(a, s). key_bytes a @
     (let encoded = to_canonical_bytes s in le_bytes 8 (length encoded) @ encoded)) vs)"

definition evidence_digest :: "(bytes \<Rightarrow> digest) \<Rightarrow> certificate \<Rightarrow> digest" where
  "evidence_digest b3 c =
     (let votes = sort_key fst (cert_votes c)
      in b3 (tag_bytes ''autobahn-poa-v1'' @ key_bytes (cert_author c) @ le_bytes 8 (cert_height c)
             @ digest_bytes (cert_header_digest c) @ le_bytes 8 (length votes) @ vote_bytes votes))"

definition qc_digest :: "(bytes \<Rightarrow> digest) \<Rightarrow> qc \<Rightarrow> digest" where
  "qc_digest b3 q =
     (let votes = sort_key fst (qc_votes q)
      in b3 (tag_bytes ''autobahn-qc-v1'' @ digest_bytes (qc_id q)
             @ le_bytes 8 (length votes) @ vote_bytes votes))"

definition proposal_content_digest :: "(bytes \<Rightarrow> digest) \<Rightarrow> proposal \<Rightarrow> digest" where
  "proposal_content_digest b3 p =
     (case pr_poa p of
        None \<Rightarrow> b3 (digest_bytes (pr_header_digest p) @ le_bytes 8 (pr_height p))
      | Some poa \<Rightarrow> b3 (tag_bytes ''autobahn-tip-v1'' @ digest_bytes (pr_header_digest p)
                       @ le_bytes 8 (pr_height p) @ [1] @ digest_bytes (evidence_digest b3 poa)))"

definition proposals_digest :: "(bytes \<Rightarrow> digest) \<Rightarrow> cut \<Rightarrow> digest" where
  "proposals_digest b3 proposals =
     (let entries = sort_key fst proposals
      in b3 (tag_bytes ''autobahn-cut-v1'' @ le_bytes 8 (length entries) @
             concat (map (\<lambda>(a, p). key_bytes a @ digest_bytes (proposal_content_digest b3 p)) entries)))"

definition prepare_digest :: "(bytes \<Rightarrow> digest) \<Rightarrow> slot_no \<Rightarrow> view \<Rightarrow> cut \<Rightarrow> digest" where
  "prepare_digest b3 s v proposals =
     b3 (tag_bytes ''autobahn-prepare-v1'' @ le_bytes 8 s @ le_bytes 8 v @
         digest_bytes (proposals_digest b3 proposals))"

definition confirm_digest :: "(bytes \<Rightarrow> digest) \<Rightarrow> slot_no \<Rightarrow> view \<Rightarrow> digest \<Rightarrow> digest" where
  "confirm_digest b3 s v prepare_id =
     b3 (tag_bytes ''autobahn-confirm-v1'' @ le_bytes 8 s @ le_bytes 8 v @ digest_bytes prepare_id)"

fun message_digest :: "(bytes \<Rightarrow> digest) \<Rightarrow> consensus_message \<Rightarrow> digest" where
  "message_digest b3 (Prepare s v _ _ proposals) = prepare_digest b3 s v proposals"
| "message_digest b3 (Confirm s v _ proposals) = confirm_digest b3 s v (prepare_digest b3 s v proposals)"
| "message_digest b3 (Commit s v q proposals) =
     b3 (tag_bytes ''autobahn-commit-v1'' @ le_bytes 8 s @ le_bytes 8 v @ digest_bytes (qc_id q) @
         digest_bytes (proposals_digest b3 proposals))"

fun timeout_digest :: "(bytes \<Rightarrow> digest) \<Rightarrow> timeout \<Rightarrow> digest" where
  "timeout_digest b3 (Timeout s v high_qc high_prop author _) =
     b3 (tag_bytes ''autobahn-timeout-v1'' @ le_bytes 8 s @ le_bytes 8 v @ key_bytes author @
         (case high_qc of Some m \<Rightarrow> 1 # digest_bytes (message_digest b3 m) | None \<Rightarrow> [0]) @
         (case high_prop of Some m \<Rightarrow> 1 # digest_bytes (message_digest b3 m) | None \<Rightarrow> [0]))"

definition payload_bytes :: "(digest, worker_id) omap \<Rightarrow> bytes" where
  "payload_bytes p = concat (map (\<lambda>(d, w). digest_bytes d @ le_bytes 4 w) p)"

definition header_bytes :: "(bytes \<Rightarrow> digest) \<Rightarrow> header \<Rightarrow> bytes" where
  "header_bytes b3 h =
     key_bytes (h_author h) @ le_bytes 8 (h_height h) @ payload_bytes (h_payload h)
     @ digest_bytes (cert_header_digest (h_parent_cert h))
     @ (case h_sid h of Some sid \<Rightarrow> 1 # digest_bytes sid | None \<Rightarrow> [0])
     @ (if h_consensus_messages h = [] then []
        else let messages = sort_key (message_digest b3) (map snd (h_consensus_messages h))
             in tag_bytes ''autobahn-rideshare-v1'' @ le_bytes 8 (h_num_active_instances h)
                @ le_bytes 8 (length messages) @ concat (map (\<lambda>m. digest_bytes (message_digest b3 m)) messages))"

definition header_digest :: "(bytes \<Rightarrow> digest) \<Rightarrow> header \<Rightarrow> digest" where
  "header_digest b3 h = b3 (header_bytes b3 h)"

definition new_vantage ::
    "(bytes \<Rightarrow> digest) \<Rightarrow> public_key \<Rightarrow> height \<Rightarrow> (digest, worker_id) omap \<Rightarrow> digest \<Rightarrow> digest \<Rightarrow> header" where
  "new_vantage b3 author height payload prev_digest sid =
     (let header = \<lparr>h_author = author, h_height = height, h_payload = payload,
             h_parent_cert = \<lparr>cert_author = author, cert_header_digest = prev_digest,
                             cert_height = height - 1, cert_votes = []\<rparr>,
             h_id = Digest 0, h_signature = None, h_sid = Some sid, h_consensus_messages = [],
             h_num_active_instances = 0, h_special = False\<rparr>
      in header\<lparr>h_id := header_digest b3 header\<rparr>)"

section \<open>Blocks\<close>

definition session_id :: "(bytes \<Rightarrow> digest) \<Rightarrow> (committee \<Rightarrow> bytes) \<Rightarrow> committee \<Rightarrow> digest" where
  "session_id b3 ser_committee c = b3 (tag_bytes ''vantage-sid'' @ ser_committee c)"

definition genesis_digest :: "(bytes \<Rightarrow> digest) \<Rightarrow> digest \<Rightarrow> digest" where
  "genesis_digest b3 sid = domain_hash b3 ''data-block'' sid (tag_bytes ''genesis'')"

definition block_ok :: "(bytes \<Rightarrow> digest) \<Rightarrow> committee \<Rightarrow> digest \<Rightarrow> nat \<Rightarrow> header \<Rightarrow> bool" where
  "block_ok b3 c sid max_block_payload h \<longleftrightarrow>
     header_digest b3 h = h_id h
     \<and> h_sid h = Some sid
     \<and> length (h_payload h) \<le> max_block_payload
     \<and> h_height h \<ge> 1
     \<and> (cert_height (h_parent_cert h) + 1) mod 2 ^ 64 = h_height h
     \<and> h_signature h = None
     \<and> cert_votes (h_parent_cert h) = []
     \<and> h_consensus_messages h = []
     \<and> h_num_active_instances h = 0
     \<and> \<not> h_special h
     \<and> stake_of c (h_author h) > 0
     \<and> list_all (\<lambda>w. has_worker c (h_author h) w) (map snd (h_payload h))"

text \<open>The widths of the integer fields.\<close>

definition header_widths :: "header \<Rightarrow> bool" where
  "header_widths h \<longleftrightarrow> h_height h < 2 ^ 64 \<and> list_all (\<lambda>w. w < 2 ^ 32) (map snd (h_payload h))"

section \<open>The encodings are injective\<close>

lemma length_digest_bytes [simp]: "length (digest_bytes d) = 32"
  by (cases d) (simp add: digest_bytes_def)

lemma length_key_bytes [simp]: "length (key_bytes k) = 32"
  by (cases k) (simp add: key_bytes_def)

lemma length_le_bytes [simp]: "length (le_bytes n x) = n"
  by (simp add: le_bytes_def)

lemma digest_bytes_inject [simp]: "digest_bytes d = digest_bytes e \<longleftrightarrow> d = e"
proof
  assume eq: "digest_bytes d = digest_bytes e"
  obtain v w where [simp]: "d = Digest v" "e = Digest w"
    by (cases d; cases e)
  have "bit v n = bit w n" if "n < 256" for n
  proof -
    define i where "i = 31 - n div 8"
    from that have i: "i < 32" "31 - i = n div 8"
      by (auto simp: i_def)
    have "digest_bytes d ! i = digest_bytes e ! i"
      using eq by simp
    then have "(ucast (drop_bit (8 * (n div 8)) v) :: 8 word) = ucast (drop_bit (8 * (n div 8)) w)"
      using i by (simp add: digest_bytes_def)
    then have "bit (ucast (drop_bit (8 * (n div 8)) v) :: 8 word) (n mod 8) =
        bit (ucast (drop_bit (8 * (n div 8)) w) :: 8 word) (n mod 8)"
      by simp
    then show ?thesis
      by (simp add: bit_ucast_iff bit_drop_bit_eq)
  qed
  then show "d = e"
    by (auto intro: bit_word_eqI)
qed simp

lemma key_bytes_inject [simp]: "key_bytes k = key_bytes l \<longleftrightarrow> k = l"
  by (cases k; cases l) (simp add: key_bytes_def)

lemma le_bytes_Suc: "le_bytes (Suc n) x = of_nat x # le_bytes n (x div 256)"
  by (simp add: le_bytes_def upt_conv_Cons map_Suc_upt [symmetric] comp_def div_mult2_eq
      flip: upt_Suc del: upt_Suc)

lemma le_bytes_inject:
  "x < 256 ^ n \<Longrightarrow> y < 256 ^ n \<Longrightarrow> le_bytes n x = le_bytes n y \<longleftrightarrow> x = y"
proof (induction n arbitrary: x y)
  case (Suc n)
  have "(of_nat x :: 8 word) = of_nat y \<longleftrightarrow> x mod 256 = y mod 256"
    by (simp add: of_nat_eq_iff word_of_nat_eq_iff take_bit_eq_mod)
  moreover have "le_bytes n (x div 256) = le_bytes n (y div 256) \<longleftrightarrow> x div 256 = y div 256"
    using Suc.prems by (intro Suc.IH) (simp_all add: less_mult_imp_div_less mult.commute)
  ultimately show ?case
    unfolding le_bytes_Suc by (simp add: ) (metis div_mult_mod_eq)
qed (simp add: le_bytes_def)

lemma length_payload_bytes: "length (payload_bytes p) = 36 * length p"
  by (induction p) (auto simp: payload_bytes_def)

lemma payload_bytes_inject:
  "length p = length q \<Longrightarrow> list_all (\<lambda>w. w < 2 ^ 32) (map snd p) \<Longrightarrow> list_all (\<lambda>w. w < 2 ^ 32) (map snd q)
    \<Longrightarrow> payload_bytes p = payload_bytes q \<longleftrightarrow> p = q"
proof (induction p q rule: list_induct2)
  case (Cons x p y q)
  then show ?case
    by (cases x; cases y) (auto simp: payload_bytes_def le_bytes_inject)
qed simp

lemma vantage_bytes_inject:
  assumes h: "h_sid h = Some sid" "h_consensus_messages h = []" "header_widths h"
    and g: "h_sid g = Some sid" "h_consensus_messages g = []" "header_widths g"
    and eq: "header_bytes b3 h = header_bytes b3 g"
  shows "h_author h = h_author g \<and> h_height h = h_height g \<and> h_payload h = h_payload g
    \<and> cert_header_digest (h_parent_cert h) = cert_header_digest (h_parent_cert g)"
proof -
  have "length (header_bytes b3 h) = length (header_bytes b3 g)"
    using eq by simp
  then have "length (h_payload h) = length (h_payload g)"
    using h g by (simp add: header_bytes_def length_payload_bytes)
  with eq h g show ?thesis
    by (simp add: header_bytes_def length_payload_bytes header_widths_def le_bytes_inject payload_bytes_inject)
qed

section \<open>Properties\<close>

definition collision :: "(bytes \<Rightarrow> digest) \<Rightarrow> bytes \<Rightarrow> bytes \<Rightarrow> bool" where
  "collision b3 x y \<longleftrightarrow> x \<noteq> y \<and> b3 x = b3 y"

text \<open>C29. The identifier of a valid block binds its content: two valid blocks of one session
  with the same identifier have the same author, height, payload and predecessor, or the byte
  strings hashed for them are a BLAKE3 collision.\<close>

theorem block_id_binds_content:
  assumes "block_ok b3 c sid m h" "block_ok b3 c sid m g" "header_widths h" "header_widths g"
    and "h_id h = h_id g"
  shows "(h_author h = h_author g \<and> h_height h = h_height g \<and> h_payload h = h_payload g
      \<and> cert_header_digest (h_parent_cert h) = cert_header_digest (h_parent_cert g))
    \<or> collision b3 (header_bytes b3 h) (header_bytes b3 g)"
  using assms vantage_bytes_inject [of h sid g b3]
  by (auto simp: block_ok_def header_digest_def collision_def)

definition demo_hash :: "bytes \<Rightarrow> digest" where
  "demo_hash b = Digest (of_nat (foldr (\<lambda>x s. unat x + 3 * s) b 0))"

definition demo_block :: "height \<Rightarrow> (digest, worker_id) omap \<Rightarrow> digest \<Rightarrow> header" where
  "demo_block n p prev = new_vantage demo_hash (PublicKey 1) n p prev (Digest 9)"



theorem block_id_binds_content_witness:
  "let h = demo_block 2 [(Digest 7, 0)] (Digest 3);
       g = h\<lparr>h_parent_cert := (h_parent_cert h)\<lparr>cert_author := PublicKey 2\<rparr>\<rparr>
   in h \<noteq> g \<and> ((h_author h = h_author g \<and> h_height h = h_height g \<and> h_payload h = h_payload g
        \<and> cert_header_digest (h_parent_cert h) = cert_header_digest (h_parent_cert g))
      \<or> collision demo_hash (header_bytes demo_hash h) (header_bytes demo_hash g))"
proof -
  let ?h = "demo_block 2 [(Digest 7, 0)] (Digest 3)"
  let ?g = "?h\<lparr>h_parent_cert := (h_parent_cert ?h)\<lparr>cert_author := PublicKey 2\<rparr>\<rparr>"
  have ok: "block_ok demo_hash demo_committee (Digest 9) 4 ?h" "header_widths ?h"
    "block_ok demo_hash demo_committee (Digest 9) 4 ?g" "header_widths ?g" "h_id ?h = h_id ?g"
    by (simp_all add: demo_block_def block_ok_def new_vantage_def header_digest_def header_bytes_def
        header_widths_def stake_of_def has_worker_def demo_committee_def Let_def)
  have "?h \<noteq> ?g"
    by (simp add: demo_block_def new_vantage_def Let_def)
  with block_id_binds_content [OF ok(1,3,2,4,5)] show ?thesis
    unfolding Let_def by blast
qed

end
