(* ===== verification/Claims.thy ===== *)
theory Claims
  imports Agb_Types "HOL-Library.Word"
begin

text \<open>
  Positional availability claims (\<^verbatim>\<open>primary/src/vantage/claim.rs\<close>): a bit map over the
  references of a proposal and a list of shorter-prefix claims, the validation that turns a
  received claim into statements, and the construction of a node's own claim
  (\<^verbatim>\<open>build_avail_claim_for_refs\<close> of \<^verbatim>\<open>lanes.rs\<close>).
\<close>

unbundle bit_operations_syntax

section \<open>Data\<close>

record short_claim =
  sc_lane :: "16 word"
  sc_delta :: height

datatype claim_ref = Exact block_ref | Ancestor block_ref height

record avail_claim =
  at_tip :: "64 word list"
  short :: "short_claim list"

section \<open>Operations\<close>

definition with_capacity :: "nat \<Rightarrow> avail_claim" where
  "with_capacity len = \<lparr>at_tip = replicate (div_ceil len 64) 0, short = []\<rparr>"

definition set_at_tip :: "nat \<Rightarrow> avail_claim \<Rightarrow> avail_claim" where
  "set_at_tip lane a =
     (let w = lane div 64; b = lane mod 64
      in if w < length (at_tip a)
         then a\<lparr>at_tip := (at_tip a)[w := at_tip a ! w OR push_bit b 1]\<rparr>
         else a)"

definition is_at_tip :: "avail_claim \<Rightarrow> nat \<Rightarrow> bool" where
  "is_at_tip a lane =
     (let w = lane div 64; b = lane mod 64
      in if w < length (at_tip a) then at_tip a ! w AND push_bit b 1 \<noteq> 0 else False)"

definition push_short :: "nat \<Rightarrow> height \<Rightarrow> avail_claim \<Rightarrow> avail_claim \<times> bool" where
  "push_short lane delta a =
     (if delta = 0 \<or> is_at_tip a lane \<or> lane > 65535
         \<or> list_ex (\<lambda>s. unat (sc_lane s) = lane) (short a)
      then (a, False)
      else (a\<lparr>short := short a @ [\<lparr>sc_lane = of_nat lane, sc_delta = delta\<rparr>]\<rparr>, True))"

definition count_ones :: "64 word \<Rightarrow> nat" where
  "count_ones w = length (filter (bit w) [0..<64])"

definition claimed :: "avail_claim \<Rightarrow> nat" where
  "claimed a = sum_list (map count_ones (at_tip a)) + length (short a)"

fun short_statements :: "avail_claim \<Rightarrow> block_ref list \<Rightarrow> nat list \<Rightarrow> short_claim list \<Rightarrow> claim_ref list" where
  "short_statements a refs seen [] = []"
| "short_statements a refs seen (s # ss) =
     (let j = unat (sc_lane s)
      in if j < length refs
         then let r = refs ! j
              in if is_at_tip a j then short_statements a refs seen ss
                 else if j \<in> set seen then short_statements a refs seen ss
                 else if sc_delta s = 0 \<or> sc_delta s \<ge> ref_height r
                 then short_statements a refs (j # seen) ss
                 else Ancestor r (sc_delta s) # short_statements a refs (j # seen) ss
         else short_statements a refs seen ss)"

definition statements :: "avail_claim \<Rightarrow> block_ref list \<Rightarrow> claim_ref list" where
  "statements a refs =
     (let words = div_ceil (length refs) 64
      in if length (at_tip a) \<noteq> words \<or> length (short a) > length refs then []
         else if at_tip a \<noteq> [] \<and> length refs mod 64 \<noteq> 0
                 \<and> last (at_tip a) AND push_bit (length refs mod 64) (NOT 0) \<noteq> 0 then []
         else map (\<lambda>j. Exact (refs ! j)) (filter (is_at_tip a) [0..<length refs])
                @ short_statements a refs [] (short a))"

definition manifest_refs :: "view_proposal \<Rightarrow> block_ref list" where
  "manifest_refs p = vp_c p @ vp_t p @
     (case vp_m p of
        None \<Rightarrow> []
      | Some (REFull _ c t) \<Rightarrow> c @ t
      | Some (RECore _ c t) \<Rightarrow> c @ t
      | Some (RESkip _) \<Rightarrow> [])"

definition batch_manifest_refs :: "batch_view_proposal \<Rightarrow> block_ref list" where
  "batch_manifest_refs p = bvp_c p @ bvp_t p"

text \<open>
  The claim a node builds over a reference vector, from the two queries it makes of its lanes:
  whether a reference was received directly and its greatest directly received ancestor.
\<close>

fun build_claim_from ::
    "(block_ref \<Rightarrow> bool) \<Rightarrow> (block_ref \<Rightarrow> block_ref option) \<Rightarrow> nat \<Rightarrow> block_ref list \<Rightarrow> avail_claim \<Rightarrow> avail_claim"
where
  "build_claim_from direct ancestor j [] a = a"
| "build_claim_from direct ancestor j (r # rs) a =
     build_claim_from direct ancestor (Suc j) rs
       (if direct r then set_at_tip j a
        else case ancestor r of
               Some r' \<Rightarrow> fst (push_short j (ref_height r - ref_height r') a)
             | None \<Rightarrow> a)"

definition build_claim ::
    "(block_ref \<Rightarrow> bool) \<Rightarrow> (block_ref \<Rightarrow> block_ref option) \<Rightarrow> block_ref list \<Rightarrow> avail_claim" where
  "build_claim direct ancestor refs = build_claim_from direct ancestor 0 refs (with_capacity (length refs))"

section \<open>Bits\<close>

lemma is_at_tip_iff_bit:
  "is_at_tip a lane \<longleftrightarrow> lane div 64 < length (at_tip a) \<and> bit (at_tip a ! (lane div 64)) (lane mod 64)"
proof -
  have "w AND push_bit b 1 \<noteq> 0 \<longleftrightarrow> bit w b" if "b < 64" for w :: "64 word" and b
  proof -
    have "bit (w AND push_bit b 1) n \<longleftrightarrow> n = b \<and> bit w b" for n
      using that by (auto simp: bit_and_iff bit_exp_iff)
    then show ?thesis
      by (metis bit_0_eq bot_apply bot_bool_def bit_eqI)
  qed
  then show ?thesis
    by (simp add: is_at_tip_def Let_def)
qed

lemma is_at_tip_set:
  assumes "lane div 64 < length (at_tip a)"
  shows "is_at_tip (set_at_tip lane a) l \<longleftrightarrow> l = lane \<or> is_at_tip a l"
proof -
  have "l = lane \<longleftrightarrow> l div 64 = lane div 64 \<and> l mod 64 = lane mod 64"
    by (metis div_mult_mod_eq)
  moreover have "bit (w OR push_bit b 1) n \<longleftrightarrow> bit w n \<or> n = b" if "b < 64" for w :: "64 word" and b n
    using that by (auto simp: bit_or_iff bit_exp_iff)
  ultimately show ?thesis
    using assms by (auto simp: is_at_tip_iff_bit set_at_tip_def Let_def nth_list_update)
qed

lemma set_at_tip_simps [simp]:
  "length (at_tip (set_at_tip lane a)) = length (at_tip a)"
  "short (set_at_tip lane a) = short a"
  by (simp_all add: set_at_tip_def Let_def)

lemma at_tip_push_short [simp]: "at_tip (fst (push_short lane d a)) = at_tip a"
  by (simp add: push_short_def)

lemma is_at_tip_cong: "at_tip a = at_tip b \<Longrightarrow> is_at_tip a = is_at_tip b"
  by (rule ext) (simp add: is_at_tip_def)

lemma is_at_tip_push_short [simp]: "is_at_tip (fst (push_short lane d a)) = is_at_tip a"
  by (rule is_at_tip_cong) simp

lemma not_at_tip_with_capacity [simp]: "\<not> is_at_tip (with_capacity n) l"
  by (simp add: is_at_tip_iff_bit with_capacity_def)

lemma div_ceil_index: "j < n \<Longrightarrow> j div 64 < div_ceil n 64"
  by (simp add: div_ceil_def)

section \<open>Soundness of validation\<close>

fun claim_anchor :: "claim_ref \<Rightarrow> block_ref" where
  "claim_anchor (Exact r) = r"
| "claim_anchor (Ancestor r d) = r"

fun claim_height :: "claim_ref \<Rightarrow> height" where
  "claim_height (Exact r) = ref_height r"
| "claim_height (Ancestor r d) = ref_height r - d"

fun claim_delta_ok :: "claim_ref \<Rightarrow> bool" where
  "claim_delta_ok (Exact r) = True"
| "claim_delta_ok (Ancestor r d) = (0 < d \<and> d < ref_height r)"

lemma short_statements_index:
  "\<exists>js. distinct js \<and> set js \<inter> set seen = {} \<and> (\<forall>j \<in> set js. j < length refs \<and> \<not> is_at_tip a j)
     \<and> map claim_anchor (short_statements a refs seen ss) = map ((!) refs) js
     \<and> list_all claim_delta_ok (short_statements a refs seen ss)"
proof (induction ss arbitrary: seen)
  case (Cons s ss)
  let ?j = "unat (sc_lane s)"
  show ?case
  proof (cases "?j < length refs \<and> \<not> is_at_tip a ?j \<and> ?j \<notin> set seen")
    case True
    from Cons.IH [of "?j # seen"] obtain js where js: "distinct js" "set js \<inter> set (?j # seen) = {}"
      "\<forall>j \<in> set js. j < length refs \<and> \<not> is_at_tip a j"
      "map claim_anchor (short_statements a refs (?j # seen) ss) = map ((!) refs) js"
      "list_all claim_delta_ok (short_statements a refs (?j # seen) ss)"
      by blast
    show ?thesis
    proof (cases "sc_delta s = 0 \<or> sc_delta s \<ge> ref_height (refs ! ?j)")
      case drop: True
      then show ?thesis
        using True js by (intro exI [of _ js]) (auto simp: Let_def)
    next
      case keep: False
      then show ?thesis
        using True js by (intro exI [of _ "?j # js"]) (auto simp: Let_def)
    qed
  next
    case False
    then have "short_statements a refs seen (s # ss) = short_statements a refs seen ss"
      by (auto simp: Let_def)
    then show ?thesis
      using Cons.IH [of seen] by simp
  qed
qed (auto intro: exI [of _ "[]"])

section \<open>Building and validating\<close>

definition short_of ::
    "(block_ref \<Rightarrow> bool) \<Rightarrow> (block_ref \<Rightarrow> block_ref option) \<Rightarrow> nat \<times> block_ref \<Rightarrow> short_claim list" where
  "short_of direct ancestor jr = (case jr of (j, r) \<Rightarrow>
     (if direct r then []
      else case ancestor r of
             Some r' \<Rightarrow> [\<lparr>sc_lane = of_nat j, sc_delta = ref_height r - ref_height r'\<rparr>]
           | None \<Rightarrow> []))"

definition prefix_statement ::
    "(block_ref \<Rightarrow> bool) \<Rightarrow> (block_ref \<Rightarrow> block_ref option) \<Rightarrow> block_ref \<Rightarrow> claim_ref list" where
  "prefix_statement direct ancestor r =
     (if direct r then []
      else case ancestor r of
             Some r' \<Rightarrow> [Ancestor r (ref_height r - ref_height r')]
           | None \<Rightarrow> [])"

definition proper_ancestors :: "(block_ref \<Rightarrow> block_ref option) \<Rightarrow> bool" where
  "proper_ancestors ancestor \<longleftrightarrow>
     (\<forall>r r'. ancestor r = Some r' \<longrightarrow> 0 < ref_height r' \<and> ref_height r' < ref_height r)"

lemma proper_ancestorsD:
  "proper_ancestors ancestor \<Longrightarrow> ancestor r = Some r' \<Longrightarrow> 0 < ref_height r' \<and> ref_height r' < ref_height r"
  unfolding proper_ancestors_def by blast

lemma unat_lane: "j < 65536 \<Longrightarrow> unat (of_nat j :: 16 word) = j"
  by (simp add: unat_of_nat)

lemma build_claim_from_spec:
  assumes "proper_ancestors ancestor" "j + length rs \<le> 65536"
    and "\<forall>i < j + length rs. i div 64 < length (at_tip a)"
    and "\<forall>l \<ge> j. \<not> is_at_tip a l" "\<forall>s \<in> set (short a). unat (sc_lane s) < j"
  shows "length (at_tip (build_claim_from direct ancestor j rs a)) = length (at_tip a)
    \<and> (\<forall>l. is_at_tip (build_claim_from direct ancestor j rs a) l \<longleftrightarrow>
          is_at_tip a l \<or> (j \<le> l \<and> l < j + length rs \<and> direct (rs ! (l - j))))
    \<and> short (build_claim_from direct ancestor j rs a) =
          short a @ concat (map (short_of direct ancestor) (enumerate j rs))"
  using assms
proof (induction rs arbitrary: j a)
  case (Cons r rs)
  define b where "b = (if direct r then set_at_tip j a
        else case ancestor r of
               Some r' \<Rightarrow> fst (push_short j (ref_height r - ref_height r') a)
             | None \<Rightarrow> a)"
  have fresh: "\<not> list_ex (\<lambda>s. unat (sc_lane s) = j) (short a)"
    using Cons.prems(5) by (auto simp: list_ex_iff)
  have len: "length (at_tip b) = length (at_tip a)"
    by (simp add: b_def split: option.splits)
  have tip: "is_at_tip b l \<longleftrightarrow> is_at_tip a l \<or> (l = j \<and> direct r)" for l
    using Cons.prems(3) by (auto simp: b_def is_at_tip_set split: option.splits)
  have sh: "short b = short a @ short_of direct ancestor (j, r)"
    using Cons.prems(2,4) fresh proper_ancestorsD [OF Cons.prems(1), of r]
    by (cases "ancestor r") (auto simp: b_def short_of_def push_short_def simp del: split_paired_All)
  have lanes: "\<forall>s \<in> set (short b). unat (sc_lane s) < Suc j"
    using Cons.prems(2,5) by (auto simp: sh short_of_def unat_lane less_Suc_eq split: option.splits if_splits)
  have IH: "length (at_tip (build_claim_from direct ancestor (Suc j) rs b)) = length (at_tip b)
    \<and> (\<forall>l. is_at_tip (build_claim_from direct ancestor (Suc j) rs b) l \<longleftrightarrow>
          is_at_tip b l \<or> (Suc j \<le> l \<and> l < Suc j + length rs \<and> direct (rs ! (l - Suc j))))
    \<and> short (build_claim_from direct ancestor (Suc j) rs b) =
          short b @ concat (map (short_of direct ancestor) (enumerate (Suc j) rs))"
    using Cons.prems(1-4) by (intro Cons.IH lanes) (auto simp: len tip)
  have unf: "build_claim_from direct ancestor j (r # rs) a = build_claim_from direct ancestor (Suc j) rs b"
    by (simp add: b_def)
  have nth: "(j \<le> l \<and> l < j + length (r # rs) \<and> direct ((r # rs) ! (l - j))) \<longleftrightarrow>
      (l = j \<and> direct r) \<or> (Suc j \<le> l \<and> l < Suc j + length rs \<and> direct (rs ! (l - Suc j)))" for l
  proof (cases "l \<le> j")
    case False
    then have "l - j = Suc (l - Suc j)"
      by simp
    with False show ?thesis
      by (auto simp: nth_Cons')
  qed auto
  show ?case
    unfolding unf using IH len tip nth by (auto simp: sh)
qed auto

lemma length_concat_short_of: "length (concat (map (short_of d an) xs)) \<le> length xs"
  by (induction xs) (auto simp: short_of_def split: option.splits)

lemma short_statements_build:
  assumes "proper_ancestors ancestor" "length refs \<le> 65536"
    and tip: "\<forall>l. is_at_tip a l \<longleftrightarrow> l < length refs \<and> direct (refs ! l)"
    and "refs = pre @ rs" "\<forall>x \<in> set seen. x < length pre"
  shows "short_statements a refs seen
      (concat (map (short_of direct ancestor) (enumerate (length pre) rs)))
    = concat (map (prefix_statement direct ancestor) rs)"
  using assms(4,5)
proof (induction rs arbitrary: pre seen)
  case (Cons r rs)
  let ?j = "length pre"
  have j: "?j < length refs" "refs ! ?j = r" "?j < 65536"
    using Cons.prems(1) assms(2) by auto
  have IH: "short_statements a refs seen'
      (concat (map (short_of direct ancestor) (enumerate (Suc ?j) rs)))
    = concat (map (prefix_statement direct ancestor) rs)" if "\<forall>x \<in> set seen'. x < length (pre @ [r])" for seen'
    using Cons.IH [of "pre @ [r]" seen'] Cons.prems(1) that by simp
  have seen: "\<forall>x \<in> set (?j # seen). x < length (pre @ [r])" "\<forall>x \<in> set seen. x < length (pre @ [r])" "?j \<notin> set seen"
    using Cons.prems(2) by auto
  show ?case
  proof (cases "direct r \<or> ancestor r = None")
    case True
    then have "short_of direct ancestor (?j, r) = []" "prefix_statement direct ancestor r = []"
      by (auto simp: short_of_def prefix_statement_def)
    then show ?thesis
      using IH [OF seen(2)] by simp
  next
    case False
    then obtain r' where r': "ancestor r = Some r'" "\<not> direct r"
      by auto
    with assms(1) have "0 < ref_height r'" "ref_height r' < ref_height r"
      using proper_ancestorsD by blast+
    moreover have "short_of direct ancestor (?j, r) = [\<lparr>sc_lane = of_nat ?j, sc_delta = ref_height r - ref_height r'\<rparr>]"
      "prefix_statement direct ancestor r = [Ancestor r (ref_height r - ref_height r')]"
      using r' by (simp_all add: short_of_def prefix_statement_def)
    ultimately show ?thesis
      using IH [OF seen(1)] seen(3) j tip r' by (simp add: unat_lane Let_def)
  qed
qed auto

lemma div_ceil_mod: "n mod 64 \<noteq> 0 \<Longrightarrow> div_ceil n 64 = Suc (n div 64)"
proof -
  assume "n mod 64 \<noteq> 0"
  define q r where "q = n div 64" and "r = n mod 64"
  have "n = 64 * q + r" "0 < r" "r < 64"
    using \<open>n mod 64 \<noteq> 0\<close> by (simp_all add: q_def r_def)
  then have "n + 64 - 1 = 64 * Suc q + (r - 1)" "r - 1 < 64"
    by simp_all
  then show ?thesis
    unfolding div_ceil_def q_def [symmetric] by simp
qed

lemma at_tip_padding:
  assumes "length (at_tip a) = div_ceil n 64" "n mod 64 \<noteq> 0" "\<forall>l \<ge> n. \<not> is_at_tip a l"
  shows "last (at_tip a) AND push_bit (n mod 64) (NOT 0) = 0"
proof (rule bit_eqI)
  fix i
  assume "possible_bit TYPE(64 word) i"
  then have "i < 64"
    by (simp add: possible_bit_word)
  have len: "length (at_tip a) = Suc (n div 64)"
    using assms(1,2) by (simp add: div_ceil_mod)
  then have last: "last (at_tip a) = at_tip a ! (n div 64)"
    by (subst last_conv_nth) auto
  have "\<not> bit (at_tip a ! (n div 64)) i" if "n mod 64 \<le> i"
  proof -
    have "n \<le> n div 64 * 64 + i"
      using that by (metis add_le_cancel_left div_mult_mod_eq)
    then show ?thesis
      using assms(3) \<open>i < 64\<close> len by (auto simp: is_at_tip_iff_bit dest!: spec [of _ "n div 64 * 64 + i"])
  qed
  then show "bit (last (at_tip a) AND push_bit (n mod 64) (NOT 0)) i = bit 0 i"
    by (cases "n mod 64 \<le> i") (auto simp: last bit_and_iff bit_push_bit_iff bit_not_iff bit_mask_iff)
qed

section \<open>Properties\<close>

text \<open>C32. Whatever claim a peer sends, the statements credited from it name references of the
  proposal, each position at most once, and an ancestor statement stays strictly below its anchor
  and above height zero.\<close>

theorem claim_statements_sound:
  "\<exists>js. distinct js \<and> set js \<subseteq> {..<length refs}
     \<and> map claim_anchor (statements a refs) = map ((!) refs) js
     \<and> list_all claim_delta_ok (statements a refs)"
proof -
  from short_statements_index [of "[]" refs a "short a"] obtain js where js: "distinct js"
    "\<forall>j \<in> set js. j < length refs \<and> \<not> is_at_tip a j"
    "map claim_anchor (short_statements a refs [] (short a)) = map ((!) refs) js"
    "list_all claim_delta_ok (short_statements a refs [] (short a))"
    by auto
  let ?is = "filter (is_at_tip a) [0..<length refs]"
  consider "statements a refs = []"
    | "statements a refs = map (\<lambda>j. Exact (refs ! j)) ?is @ short_statements a refs [] (short a)"
    unfolding statements_def Let_def by presburger
  then show ?thesis
  proof cases
    case 1
    then show ?thesis
      by (intro exI [of _ "[]"]) simp
  next
    case 2
    have "list_all claim_delta_ok (map (\<lambda>j. Exact (refs ! j)) ?is)"
      by (simp add: list_all_iff)
    with js show ?thesis
      unfolding 2 by (intro exI [of _ "?is @ js"]) (auto simp: comp_def)
  qed
qed

text \<open>C33. A claim that an honest node builds over at most \<open>2 ^ 16\<close> references passes the
  validation of its receivers unchanged: they read back exactly the directly received references
  and, for every other one, its greatest directly received proper ancestor.\<close>

theorem claim_round_trip:
  assumes "proper_ancestors ancestor" and "length refs \<le> 65536"
  shows "statements (build_claim direct ancestor refs) refs =
     map Exact (filter direct refs) @ concat (map (prefix_statement direct ancestor) refs)"
proof -
  let ?a = "build_claim direct ancestor refs"
  have cap: "length (at_tip (with_capacity (length refs))) = div_ceil (length refs) 64"
    "short (with_capacity (length refs)) = []"
    by (simp_all add: with_capacity_def)
  have spec: "length (at_tip ?a) = div_ceil (length refs) 64
    \<and> (\<forall>l. is_at_tip ?a l \<longleftrightarrow> l < length refs \<and> direct (refs ! l))
    \<and> short ?a = concat (map (short_of direct ancestor) (enumerate 0 refs))"
    using build_claim_from_spec [OF assms(1), of 0 refs "with_capacity (length refs)" direct] assms(2)
    by (simp add: build_claim_def cap div_ceil_index)
  have "short_statements ?a refs [] (short ?a) = concat (map (prefix_statement direct ancestor) refs)"
    using short_statements_build [OF assms, of ?a direct "[]" refs "[]"] spec by simp
  moreover have "length (short ?a) \<le> length refs"
    using spec length_concat_short_of [of direct ancestor "enumerate 0 refs"] by simp
  moreover have "map (\<lambda>j. Exact (refs ! j)) (filter (is_at_tip ?a) [0..<length refs]) = map Exact (filter direct refs)"
  proof -
    have "filter (is_at_tip ?a) [0..<length refs] = filter (direct \<circ> (!) refs) [0..<length refs]"
      by (rule filter_cong [OF refl]) (simp add: spec)
    moreover have "filter direct (map ((!) refs) [0..<length refs]) = map ((!) refs) (filter (direct \<circ> (!) refs) [0..<length refs])"
      by (rule filter_map)
    ultimately show ?thesis
      unfolding map_nth by (simp only: map_map comp_def)
  qed
  moreover have "length refs mod 64 \<noteq> 0 \<Longrightarrow> last (at_tip ?a) AND push_bit (length refs mod 64) (NOT 0) = 0"
    by (rule at_tip_padding) (simp_all add: spec)
  moreover have "length (at_tip ?a) = div_ceil (length refs) 64"
    using spec by blast
  ultimately show ?thesis
    unfolding statements_def Let_def by (metis leD)
qed

theorem claim_round_trip_witness:
  "statements (build_claim (\<lambda>r. ref_height r = 4)
       (\<lambda>r. if ref_height r = 9 then Some (ref_author r, 5, Digest 0) else None)
       [(PublicKey 1, 4, Digest 1), (PublicKey 2, 9, Digest 2), (PublicKey 3, 3, Digest 3)])
     [(PublicKey 1, 4, Digest 1), (PublicKey 2, 9, Digest 2), (PublicKey 3, 3, Digest 3)]
   = [Exact (PublicKey 1, 4, Digest 1), Ancestor (PublicKey 2, 9, Digest 2) 4]"
proof -
  have "proper_ancestors (\<lambda>r. if ref_height r = 9 then Some (ref_author r, 5, Digest 0) else None)"
    by (simp add: proper_ancestors_def)
  then show ?thesis
    by (subst claim_round_trip) (simp_all add: prefix_statement_def)
qed

end
