(* ===== verification/Effects.thy ===== *)
theory Effects
  imports Messages Claims
begin

text \<open>
  The echo and ready messages of \<^verbatim>\<open>primary/src/vantage/agb.rs\<close>, the canonical outcome of a view
  (\<^verbatim>\<open>primary/src/vantage/sequence.rs\<close>) and the effects that the Vantage state machines hand to the
  runtime (\<^verbatim>\<open>primary/src/vantage/mod.rs\<close>). An absolute deadline (\<^verbatim>\<open>Instant\<close>) is a number of
  milliseconds. The effects of the target-local resolver and of the resumption protocol are added
  with those components.
\<close>

section \<open>Echo and ready messages\<close>

text \<open>A grade is a \<^verbatim>\<open>u8\<close>; only 0 and 1 are accepted by the receivers.\<close>

type_synonym grade = nat

record echo =
  e_proposal :: view_proposal
  e_grade :: grade
  e_sender :: public_key
  e_wish :: view
  e_origin :: "grade option"
  e_avail :: "avail_claim option"

record echo_digest =
  ed_view :: view
  ed_digest :: digest
  ed_grade :: grade
  ed_sender :: public_key
  ed_wish :: view
  ed_origin :: "grade option"
  ed_avail :: "avail_claim option"

definition echo_to_digest :: "codec \<Rightarrow> digest \<Rightarrow> echo \<Rightarrow> echo_digest" where
  "echo_to_digest cd sid e =
     \<lparr>ed_view = vp_view (e_proposal e), ed_digest = vp_digest cd sid (e_proposal e), ed_grade = e_grade e,
      ed_sender = e_sender e, ed_wish = e_wish e, ed_origin = e_origin e, ed_avail = e_avail e\<rparr>"

record echo_batch =
  eb_proposal :: batch_view_proposal
  eb_grade :: grade
  eb_sender :: public_key
  eb_wish :: view
  eb_avail :: "avail_claim option"

datatype echo_out = EchoSingle echo | EchoBatchOut echo_batch

fun echo_proposal_view :: "echo_out \<Rightarrow> view" where
  "echo_proposal_view (EchoSingle e) = vp_view (e_proposal e)"
| "echo_proposal_view (EchoBatchOut e) = bvp_view (eb_proposal e)"

fun echo_grade :: "echo_out \<Rightarrow> grade" where
  "echo_grade (EchoSingle e) = e_grade e"
| "echo_grade (EchoBatchOut e) = eb_grade e"

fun echo_sender :: "echo_out \<Rightarrow> public_key" where
  "echo_sender (EchoSingle e) = e_sender e"
| "echo_sender (EchoBatchOut e) = eb_sender e"

fun echo_wish :: "echo_out \<Rightarrow> view" where
  "echo_wish (EchoSingle e) = e_wish e"
| "echo_wish (EchoBatchOut e) = eb_wish e"

fun echo_set_wish :: "view \<Rightarrow> echo_out \<Rightarrow> echo_out" where
  "echo_set_wish w (EchoSingle e) = EchoSingle (e\<lparr>e_wish := w\<rparr>)"
| "echo_set_wish w (EchoBatchOut e) = EchoBatchOut (e\<lparr>eb_wish := w\<rparr>)"

fun origin_vec :: "echo_out \<Rightarrow> grade option list" where
  "origin_vec (EchoSingle e) = (if vp_m (e_proposal e) \<noteq> None then [e_origin e] else [])"
| "origin_vec (EchoBatchOut e) = []"

fun echo_into_proposal :: "echo_out \<Rightarrow> proposal_out" where
  "echo_into_proposal (EchoSingle e) = PSingle (e_proposal e)"
| "echo_into_proposal (EchoBatchOut e) = PBatch (eb_proposal e)"

record ready =
  r_proposal :: view_proposal
  r_grade :: ready_grade
  r_sender :: public_key
  r_wish :: view

record ready_digest =
  rd_view :: view
  rd_digest :: digest
  rd_grade :: ready_grade
  rd_sender :: public_key
  rd_wish :: view

definition ready_to_digest :: "codec \<Rightarrow> digest \<Rightarrow> ready \<Rightarrow> ready_digest" where
  "ready_to_digest cd sid r =
     \<lparr>rd_view = vp_view (r_proposal r), rd_digest = vp_digest cd sid (r_proposal r),
      rd_grade = r_grade r, rd_sender = r_sender r, rd_wish = r_wish r\<rparr>"

record ready_batch =
  rb_proposal :: batch_view_proposal
  rb_grade :: ready_grade
  rb_sender :: public_key
  rb_wish :: view

datatype ready_out = ReadySingle ready | ReadyBatchOut ready_batch

fun ready_sender :: "ready_out \<Rightarrow> public_key" where
  "ready_sender (ReadySingle r) = r_sender r"
| "ready_sender (ReadyBatchOut r) = rb_sender r"

fun ready_wish :: "ready_out \<Rightarrow> view" where
  "ready_wish (ReadySingle r) = r_wish r"
| "ready_wish (ReadyBatchOut r) = rb_wish r"

fun ready_set_wish :: "view \<Rightarrow> ready_out \<Rightarrow> ready_out" where
  "ready_set_wish w (ReadySingle r) = ReadySingle (r\<lparr>r_wish := w\<rparr>)"
| "ready_set_wish w (ReadyBatchOut r) = ReadyBatchOut (r\<lparr>rb_wish := w\<rparr>)"

fun ready_proposal_view :: "ready_out \<Rightarrow> view" where
  "ready_proposal_view (ReadySingle r) = vp_view (r_proposal r)"
| "ready_proposal_view (ReadyBatchOut r) = bvp_view (rb_proposal r)"

fun ready_out_grade :: "ready_out \<Rightarrow> ready_grade" where
  "ready_out_grade (ReadySingle r) = r_grade r"
| "ready_out_grade (ReadyBatchOut r) = rb_grade r"

fun ready_into_proposal :: "ready_out \<Rightarrow> proposal_out" where
  "ready_into_proposal (ReadySingle r) = PSingle (r_proposal r)"
| "ready_into_proposal (ReadyBatchOut r) = PBatch (rb_proposal r)"

section \<open>Outcomes of views\<close>

datatype sequence_outcome = SFull manifest manifest | SCore manifest | SSkip

fun sequence_outcome_of :: "outcome \<Rightarrow> sequence_outcome" where
  "sequence_outcome_of (OFull c t) = SFull c t"
| "sequence_outcome_of (OCore c) = SCore c"
| "sequence_outcome_of OSkip = SSkip"

section \<open>Effects\<close>

type_synonym instant = nat

datatype effect =
    BroadcastPublish header
  | BroadcastAck ack
  | SyncBatches public_key digest "(digest \<times> worker_id) list"
  | RequestTo public_key digest
  | ServeTo public_key header
  | BlockCached digest
  | BroadcastPropose proposal_out
  | BroadcastEcho echo_out
  | BroadcastEchoSkip view
  | QuarantineTips manifest
  | BroadcastReady ready_out
  | BroadcastNoReady view
  | BroadcastSkipVote view
  | FixedProposal view bool
  | Completed view manifest manifest
  | Sealed view outcome
  | ArmTimer view timer_kind instant
  | NotifyCommitted nat "(worker_id \<times> digest list) list" "header list"
  | BroadcastWish view
  | Enter view
  | RaiseWish view
  | SequenceFinalized view sequence_outcome "digest list"
  | RecoverOwnLane header
  | BodyFetchTo public_key view digest
  | BodyServeTo public_key view view_proposal
  | AvailClaimed public_key "claim_ref list"

text \<open>The views entered by a list of effects, in order.\<close>

fun entered :: "effect list \<Rightarrow> view list" where
  "entered [] = []"
| "entered (Enter v # es) = v # entered es"
| "entered (_ # es) = entered es"

lemma entered_append [simp]: "entered (xs @ ys) = entered xs @ entered ys"
  by (induction xs rule: entered.induct) auto

lemma entered_map_Enter [simp]: "entered (map Enter vs) = vs"
  by (induction vs) auto

text \<open>The digest form of an echo keeps every field that is counted, and converting commutes with
  rewriting the wish.\<close>

lemma echo_to_digest_wish:
  "echo_to_digest cd sid (e\<lparr>e_wish := w\<rparr>) = (echo_to_digest cd sid e)\<lparr>ed_wish := w\<rparr>"
  by (simp add: echo_to_digest_def)

end
