(* ===== verification/Ack_Aggregator.thy ===== *)
theory Ack_Aggregator
  imports Member_Index Effects
begin

text \<open>
  The acknowledgement aggregator (\<^verbatim>\<open>primary/src/vantage/lanes.rs\<close>, \<^verbatim>\<open>AckAggregator\<close>): per exact block
  reference it counts each committee sender once and reports the validity threshold and the quorum
  threshold when their stake is reached. A run over any acknowledgements and lane resets reports
  what the set of live acknowledgements says, each threshold once.
\<close>

section \<open>Thresholds\<close>

datatype ack_threshold = Validity | Quorum

instantiation ack_threshold :: linorder
begin

definition less_eq_ack_threshold :: "ack_threshold \<Rightarrow> ack_threshold \<Rightarrow> bool" where
  "less_eq_ack_threshold a b \<longleftrightarrow> a = Validity \<or> b = Quorum"

definition less_ack_threshold :: "ack_threshold \<Rightarrow> ack_threshold \<Rightarrow> bool" where
  "less_ack_threshold a b \<longleftrightarrow> a = Validity \<and> b = Quorum"

instance
proof
  fix x y z :: ack_threshold
  show "x < y \<longleftrightarrow> x \<le> y \<and> \<not> y \<le> x"
    by (cases x; cases y) (simp_all add: less_eq_ack_threshold_def less_ack_threshold_def)
  show "x \<le> x"
    by (cases x) (simp_all add: less_eq_ack_threshold_def)
  show "x \<le> y \<Longrightarrow> y \<le> z \<Longrightarrow> x \<le> z"
    by (cases x; cases y; cases z) (simp_all add: less_eq_ack_threshold_def)
  show "x \<le> y \<Longrightarrow> y \<le> x \<Longrightarrow> x = y"
    by (cases x; cases y) (simp_all add: less_eq_ack_threshold_def)
  show "x \<le> y \<or> y \<le> x"
    by (cases x; cases y) (simp_all add: less_eq_ack_threshold_def)
qed

end

lemmas ack_threshold_less = less_eq_ack_threshold_def less_ack_threshold_def

record ack_availability =
  aa_reference :: block_ref
  aa_threshold :: ack_threshold

record ack_aggregation_result =
  ar_accepted :: bool
  ar_availability :: "ack_availability option"

section \<open>The aggregator\<close>

record ack_census =
  ac_senders :: member_set
  ac_weight :: stake

record ack_position =
  ap_census :: "ack_census option"
  ap_emitted :: "ack_threshold option"

record ack_aggregator =
  ag_index :: committee_index
  ag_positions :: "ack_position by_ref"
  ag_tracked :: nat
  ag_retired :: nat

definition ack_census_default :: ack_census where
  "ack_census_default = \<lparr>ac_senders = ms_empty, ac_weight = 0\<rparr>"

definition ack_position_default :: ack_position where
  "ack_position_default = \<lparr>ap_census = None, ap_emitted = None\<rparr>"

definition ack_aggregator_new :: "committee \<Rightarrow> ack_aggregator" where
  "ack_aggregator_new c =
     (let index = committee_index_new c
      in \<lparr>ag_index = index, ag_positions = br_new index, ag_tracked = 0, ag_retired = 0\<rparr>)"

text \<open>
  What one acknowledgement of the member at position \<open>i\<close> does to the position of its reference:
  the new position, the threshold to report, and whether a census was opened.
\<close>

definition ack_step ::
    "committee_index \<Rightarrow> nat \<Rightarrow> ack_position \<Rightarrow> ack_position \<times> ack_threshold option \<times> bool" where
  "ack_step ci i p =
     (if ap_emitted p = Some Quorum then (p, None, False)
      else
        let opened = (ap_census p = None);
            census = (case ap_census p of None \<Rightarrow> ack_census_default | Some cs \<Rightarrow> cs);
            (fresh, senders) = ms_insert i (ac_senders census)
        in if \<not> fresh then (p\<lparr>ap_census := Some census\<rparr>, None, False)
           else
             let census = census\<lparr>ac_senders := senders, ac_weight := ac_weight census + ci_stakes ci ! i\<rparr>;
                 crossed = (if ac_weight census \<ge> ci_quorum ci then Some Quorum
                            else if ac_weight census \<ge> ci_validity ci then Some Validity else None);
                 emit = (case crossed of
                           None \<Rightarrow> None
                         | Some t \<Rightarrow> if (case ap_emitted p of None \<Rightarrow> True | Some old \<Rightarrow> old < t) then Some t else None);
                 p = p\<lparr>ap_census := Some census\<rparr>
             in (case emit of
                   None \<Rightarrow> p
                 | Some t \<Rightarrow> p\<lparr>ap_emitted := Some t, ap_census := if t = Quorum then None else ap_census p\<rparr>,
                 emit, opened))"

definition record_ack ::
    "public_key \<Rightarrow> block_ref \<Rightarrow> ack_aggregator \<Rightarrow> ack_aggregator \<times> ack_aggregation_result" where
  "record_ack sender r ag =
     (case sl_index (ci_slot (ag_index ag) sender) of
        None \<Rightarrow> (ag, \<lparr>ar_accepted = False, ar_availability = None\<rparr>)
      | Some i \<Rightarrow>
          (let author = ci_slot (ag_index ag) (ref_author r);
               p = (case br_get (ag_positions ag) author (ref_height r) (ref_digest r) of
                      None \<Rightarrow> ack_position_default | Some p \<Rightarrow> p);
               (p', emit, opened) = ack_step (ag_index ag) i p
           in (ag\<lparr>ag_positions := fst (br_entry ack_position_default author (ref_height r) (ref_digest r)
                                      (\<lambda>_. p') (ag_positions ag)),
                  ag_tracked := ag_tracked ag + (if opened then 1 else 0) - (if emit = Some Quorum then 1 else 0),
                  ag_retired := ag_retired ag + (if emit \<noteq> None \<and> ap_emitted p = None then 1 else 0)\<rparr>,
               \<lparr>ar_accepted = True,
                ar_availability = map_option (\<lambda>t. \<lparr>aa_reference = r, aa_threshold = t\<rparr>) emit\<rparr>)))"

definition will_count :: "public_key \<Rightarrow> block_ref \<Rightarrow> ack_aggregator \<Rightarrow> bool" where
  "will_count sender r ag =
     (case sl_index (ci_slot (ag_index ag) sender) of
        None \<Rightarrow> False
      | Some i \<Rightarrow>
          (case br_get (ag_positions ag) (ci_slot (ag_index ag) (ref_author r)) (ref_height r) (ref_digest r) of
             None \<Rightarrow> True
           | Some p \<Rightarrow> ap_emitted p \<noteq> Some Quorum
               \<and> \<not> (case ap_census p of None \<Rightarrow> False | Some cs \<Rightarrow> ms_contains i (ac_senders cs))))"

definition is_at_quorum :: "block_ref \<Rightarrow> ack_aggregator \<Rightarrow> bool" where
  "is_at_quorum r ag =
     (case br_get (ag_positions ag) (ci_slot (ag_index ag) (ref_author r)) (ref_height r) (ref_digest r) of
        None \<Rightarrow> False | Some p \<Rightarrow> ap_emitted p = Some Quorum)"

definition ag_reset_author :: "public_key \<Rightarrow> ack_aggregator \<Rightarrow> ack_aggregator" where
  "ag_reset_author author ag =
     (let (drained, positions) = br_drain_author (ci_slot (ag_index ag) author) (ag_positions ag)
      in ag\<lparr>ag_positions := positions,
            ag_tracked := ag_tracked ag - length (filter (\<lambda>p. ap_census p \<noteq> None) drained),
            ag_retired := ag_retired ag - length (filter (\<lambda>p. ap_emitted p \<noteq> None) drained)\<rparr>)"

definition aggregate_received_ack :: "ack \<Rightarrow> ack_aggregator \<Rightarrow> ack_aggregator \<times> ack_availability option" where
  "aggregate_received_ack a ag =
     (let (ag, result) = record_ack (ack_sender a) (ack_reference a) ag
      in (ag, if ar_accepted result then ar_availability result else None))"

section \<open>What the live acknowledgements say\<close>

datatype ack_event = AckFrom public_key block_ref | ResetLane public_key

fun ack_apply :: "ack_event \<Rightarrow> ack_aggregator \<Rightarrow> ack_aggregator" where
  "ack_apply (AckFrom s r) ag = fst (record_ack s r ag)"
| "ack_apply (ResetLane a) ag = ag_reset_author a ag"

definition aggregator_after :: "committee \<Rightarrow> ack_event list \<Rightarrow> ack_aggregator" where
  "aggregator_after c evs = fold ack_apply evs (ack_aggregator_new c)"

text \<open>An acknowledgement is live until the lane of its reference is reset.\<close>

fun live_step :: "ack_event \<Rightarrow> (public_key \<times> block_ref) set \<Rightarrow> (public_key \<times> block_ref) set" where
  "live_step (AckFrom s r) L = insert (s, r) L"
| "live_step (ResetLane a) L = {(s, r) \<in> L. ref_author r \<noteq> a}"

definition acked_by :: "committee \<Rightarrow> ack_event list \<Rightarrow> block_ref \<Rightarrow> public_key set" where
  "acked_by c evs r = {s \<in> members c. (s, r) \<in> fold live_step evs {}}"

lemma finite_acked_by [simp]: "finite (acked_by c evs r)"
  by (rule finite_subset [of _ "members c"]) (auto simp: acked_by_def)

lemma acked_by_snoc:
  "acked_by c (evs @ [AckFrom s r]) x = (if x = r \<and> s \<in> members c then insert s (acked_by c evs x) else acked_by c evs x)"
  "acked_by c (evs @ [ResetLane a]) x = (if ref_author x = a then {} else acked_by c evs x)"
  by (auto simp: acked_by_def)

definition member_index :: "committee \<Rightarrow> public_key \<Rightarrow> nat option" where
  "member_index c s = position s (ci_keys (committee_index_new c))"

lemma member_index_iff: "member_index c s \<noteq> None \<longleftrightarrow> s \<in> members c"
  by (simp add: member_index_def committee_index_new_def members_def)

lemma member_index_stake:
  assumes ok: "committee_ok c" and i: "member_index c s = Some i"
  shows "ci_stakes (committee_index_new c) ! i = stake_of c s"
proof -
  let ?as = "authorities c"
  have i': "i < length ?as" "fst (?as ! i) = s"
    using i position_Some [of s "map fst ?as" i] by (auto simp: member_index_def committee_index_new_def)
  then have "(s, snd (?as ! i)) \<in> set ?as"
    by (metis nth_mem prod.collapse)
  then have "map_of ?as s = Some (snd (?as ! i))"
    using ok by (simp add: committee_ok_def omap_ok_map_of)
  then show ?thesis
    using i'(1) by (simp add: stake_of_def committee_index_new_def)
qed

lemma member_index_inj: "member_index c s = Some i \<Longrightarrow> member_index c t = Some i \<Longrightarrow> s = t"
  unfolding member_index_def by (rule position_inj)

text \<open>The threshold that a stake has reached.\<close>

definition reached :: "committee \<Rightarrow> stake \<Rightarrow> ack_threshold option" where
  "reached c w = (if quorum_threshold c \<le> w then Some Quorum
                  else if validity_threshold c \<le> w then Some Validity else None)"

lemma validity_le_quorum: "committee_ok c \<Longrightarrow> 0 < validity_threshold c \<and> validity_threshold c \<le> quorum_threshold c"
  using total_votes_bounds [of c] unfolding validity_threshold_def div_ceil_def
  by (simp add: quorum_threshold_eq del: One_nat_def) presburger

definition pos_ok :: "committee \<Rightarrow> public_key set \<Rightarrow> ack_position \<Rightarrow> bool" where
  "pos_ok c S p \<longleftrightarrow>
     ap_emitted p = reached c (stake_sum c S)
     \<and> (case ap_census p of
          None \<Rightarrow> quorum_threshold c \<le> stake_sum c S \<or> S = {}
        | Some cs \<Rightarrow> stake_sum c S < quorum_threshold c \<and> ms_ok (ac_senders cs)
            \<and> ms_set (ac_senders cs) = {i. \<exists>s \<in> S. member_index c s = Some i} \<and> ac_weight cs = stake_sum c S)"

lemma pos_ok_default: "committee_ok c \<Longrightarrow> pos_ok c {} ack_position_default"
  using validity_le_quorum [of c]
  by (simp add: pos_ok_def ack_position_default_def reached_def stake_sum_def)

lemma stake_sum_insert: "finite S \<Longrightarrow> s \<notin> S \<Longrightarrow> stake_sum c (insert s S) = stake_sum c S + stake_of c s"
  by (simp add: stake_sum_def)

lemma ack_step_terminal: "ap_emitted p = Some Quorum \<Longrightarrow> ack_step ci i p = (p, None, False)"
  by (simp add: ack_step_def)

lemma ack_step_fresh:
  assumes "ap_emitted p \<noteq> Some Quorum" and "i \<notin> ms_set (ac_senders cs)" "ms_ok (ac_senders cs)"
    and "cs = (case ap_census p of None \<Rightarrow> ack_census_default | Some cs \<Rightarrow> cs)"
    and w: "w = ac_weight cs + ci_stakes ci ! i"
    and e: "emit = (if w \<ge> ci_quorum ci then Some Quorum
                    else if w \<ge> ci_validity ci \<and> ap_emitted p = None then Some Validity else None)"
    and cs': "cs' = cs\<lparr>ac_senders := snd (ms_insert i (ac_senders cs)), ac_weight := w\<rparr>"
  shows "ack_step ci i p =
    (p\<lparr>ap_census := if emit = Some Quorum then None else Some cs',
       ap_emitted := if emit = None then ap_emitted p else emit\<rparr>, emit, ap_census p = None)"
proof -
  obtain senders where fresh: "ms_insert i (ac_senders cs) = (True, senders)"
    using assms(2) ms_insert_set(2) [OF assms(3), of i] by (cases "ms_insert i (ac_senders cs)") auto
  consider "ap_emitted p = None" | "ap_emitted p = Some Validity"
    using assms(1) by (cases "ap_emitted p") (auto intro: ack_threshold.exhaust)
  then show ?thesis
    unfolding ack_step_def assms(4) [symmetric] e cs' w fresh Let_def
    by cases (simp_all add: ack_threshold_less)
qed

lemma ack_step_duplicate:
  assumes "ap_emitted p \<noteq> Some Quorum" "ap_census p = Some cs" "ms_ok (ac_senders cs)" "i \<in> ms_set (ac_senders cs)"
  shows "ack_step ci i p = (p, None, False)"
proof -
  obtain senders where "ms_insert i (ac_senders cs) = (False, senders)"
    using assms(4) ms_insert_set(2) [OF assms(3), of i] by (cases "ms_insert i (ac_senders cs)") auto
  then show ?thesis
    using assms(1,2) by (simp add: ack_step_def)
qed

text \<open>The threshold that is crossed by one more acknowledgement.\<close>

definition crossing :: "committee \<Rightarrow> stake \<Rightarrow> stake \<Rightarrow> ack_threshold option" where
  "crossing c w w' = (if reached c w = reached c w' then None else reached c w')"

lemma ack_step_ok:
  assumes ok: "committee_ok c" and fin: "finite S" and p: "pos_ok c S p" and i: "member_index c s = Some i"
    and step: "ack_step (committee_index_new c) i p = (p', emit, opened)"
  shows "pos_ok c (insert s S) p' \<and> emit = crossing c (stake_sum c S) (stake_sum c (insert s S))"
proof (cases "quorum_threshold c \<le> stake_sum c S")
  case True
  moreover have "stake_sum c S \<le> stake_sum c (insert s S)"
    using fin by (intro stake_sum_mono) auto
  ultimately have "quorum_threshold c \<le> stake_sum c (insert s S)"
    by (rule order_trans)
  then show ?thesis
    using p step True ack_step_terminal [of p]
    by (auto simp: pos_ok_def reached_def crossing_def split: option.splits)
next
  case low: False
  define cs where "cs = (case ap_census p of None \<Rightarrow> ack_census_default | Some cs \<Rightarrow> cs)"
  have emitted: "ap_emitted p = (if validity_threshold c \<le> stake_sum c S then Some Validity else None)"
    using p low by (simp add: pos_ok_def reached_def)
  have cs: "ms_ok (ac_senders cs)" "ms_set (ac_senders cs) = {i. \<exists>s \<in> S. member_index c s = Some i}"
      "ac_weight cs = stake_sum c S"
    using p low ms_empty_ok
    by (auto simp: pos_ok_def cs_def ack_census_default_def stake_sum_def split: option.splits)
  have mem: "i \<in> ms_set (ac_senders cs) \<longleftrightarrow> s \<in> S"
    unfolding cs(2) using i member_index_inj by blast
  show ?thesis
  proof (cases "s \<in> S")
    case True
    then obtain cs0 where "ap_census p = Some cs0" "cs0 = cs"
      using p low by (auto simp: pos_ok_def cs_def split: option.splits)
    then have "ack_step (committee_index_new c) i p = (p, None, False)"
      using emitted cs mem True by (intro ack_step_duplicate) auto
    then show ?thesis
      using step p True by (simp add: insert_absorb crossing_def)
  next
    case False
    define w where "w = stake_sum c (insert s S)"
    have w: "w = ac_weight cs + ci_stakes (committee_index_new c) ! i"
      unfolding w_def using stake_sum_insert [OF fin False] cs(3) member_index_stake [OF ok i] by simp
    have th: "ci_quorum (committee_index_new c) = quorum_threshold c" "ci_validity (committee_index_new c) = validity_threshold c"
      by (simp_all add: committee_index_new_def)
    have le: "stake_sum c S \<le> w"
      using w cs(3) by simp
    define e where "e = (if w \<ge> quorum_threshold c then Some Quorum
                    else if w \<ge> validity_threshold c \<and> ap_emitted p = None then Some Validity else None)"
    have "ack_step (committee_index_new c) i p =
        (p\<lparr>ap_census := if e = Some Quorum then None
             else Some (cs\<lparr>ac_senders := snd (ms_insert i (ac_senders cs)), ac_weight := w\<rparr>),
           ap_emitted := if e = None then ap_emitted p else e\<rparr>, e, ap_census p = None)"
      using emitted mem False cs(1) by (intro ack_step_fresh [where cs = cs]) (auto simp: cs_def w e_def th)
    then have p': "p' = p\<lparr>ap_census := if e = Some Quorum then None
             else Some (cs\<lparr>ac_senders := snd (ms_insert i (ac_senders cs)), ac_weight := w\<rparr>),
           ap_emitted := if e = None then ap_emitted p else e\<rparr>" and emit: "emit = e"
      using step by simp_all
    have "ms_set (snd (ms_insert i (ac_senders cs))) = {j. \<exists>t \<in> insert s S. member_index c t = Some j}"
      unfolding ms_insert_set(1) [OF cs(1)] cs(2) using i by auto
    then have "pos_ok c (insert s S) p'"
      unfolding pos_ok_def p' w_def [symmetric] e_def using emitted le low ms_insert_set(3) [OF cs(1), of i]
      by (auto simp: reached_def)
    moreover have "emit = crossing c (stake_sum c S) w"
      unfolding emit e_def crossing_def reached_def using emitted low le by auto
    ultimately show ?thesis
      by (simp add: w_def)
  qed
qed

definition aggregator_inv :: "committee \<Rightarrow> ack_event list \<Rightarrow> ack_aggregator \<Rightarrow> bool" where
  "aggregator_inv c evs ag \<longleftrightarrow>
     ag_index ag = committee_index_new c \<and> br_ok (committee_index_new c) (ag_positions ag)
     \<and> (\<forall>r. pos_ok c (acked_by c evs r)
          (case br_map (committee_index_new c) (ag_positions ag) r of None \<Rightarrow> ack_position_default | Some p \<Rightarrow> p))"

lemma aggregator_inv_pos:
  "aggregator_inv c evs ag \<Longrightarrow> pos_ok c (acked_by c evs r)
     (case br_map (committee_index_new c) (ag_positions ag) r of None \<Rightarrow> ack_position_default | Some p \<Rightarrow> p)"
  unfolding aggregator_inv_def by blast

lemma br_new_empty: "br_map ci (br_new ci) r = None"
proof (cases "sl_index (ci_slot ci (fst r))")
  case (Some i)
  then have "i < ci_size ci"
    by (auto simp: ci_slot_def ci_size_def dest: position_Some)
  then show ?thesis
    using Some by (simp add: br_map_def br_get_def br_new_def)
qed (simp add: br_map_def br_get_def br_new_def)

lemma br_get_map: "br_get t (ci_slot ci (ref_author r)) (ref_height r) (ref_digest r) = br_map ci t r"
  by (simp add: br_map_def)

lemma record_ack_inv:
  assumes ok: "committee_ok c" and inv: "aggregator_inv c evs ag"
  shows "aggregator_inv c (evs @ [AckFrom s r]) (fst (record_ack s r ag))
    \<and> snd (record_ack s r ag) =
        (if s \<in> members c
         then \<lparr>ar_accepted = True, ar_availability = map_option (\<lambda>t. \<lparr>aa_reference = r, aa_threshold = t\<rparr>)
                (crossing c (stake_sum c (acked_by c evs r)) (stake_sum c (insert s (acked_by c evs r))))\<rparr>
         else \<lparr>ar_accepted = False, ar_availability = None\<rparr>)"
proof (cases "member_index c s")
  case None
  then have "s \<notin> members c"
    using member_index_iff [of c s] by simp
  moreover have "sl_index (ci_slot (ag_index ag) s) = None"
    using inv None unfolding aggregator_inv_def member_index_def ci_slot_def by simp
  then have "record_ack s r ag = (ag, \<lparr>ar_accepted = False, ar_availability = None\<rparr>)"
    by (simp add: record_ack_def)
  ultimately show ?thesis
    using inv by (simp add: aggregator_inv_def acked_by_snoc)
next
  case (Some i)
  let ?ci = "committee_index_new c"
  have s: "s \<in> members c"
    using member_index_iff [of c s] Some by simp
  have ag: "ag_index ag = ?ci" "br_ok ?ci (ag_positions ag)"
    using inv by (simp_all add: aggregator_inv_def)
  define p where "p = (case br_map ?ci (ag_positions ag) r of None \<Rightarrow> ack_position_default | Some p \<Rightarrow> p)"
  have p: "pos_ok c (acked_by c evs r) p"
    unfolding p_def by (rule aggregator_inv_pos [OF inv])
  obtain p' emit opened where step: "ack_step ?ci i p = (p', emit, opened)"
    by (cases "ack_step ?ci i p") auto
  have step_ok: "pos_ok c (insert s (acked_by c evs r)) p'"
      "emit = crossing c (stake_sum c (acked_by c evs r)) (stake_sum c (insert s (acked_by c evs r)))"
    using ack_step_ok [OF ok finite_acked_by p Some step] by simp_all
  have idx: "sl_index (ci_slot ?ci s) = Some i"
    using Some by (simp add: member_index_def ci_slot_def)
  have rec: "ag_positions (fst (record_ack s r ag)) = fst (br_entry ack_position_default (ci_slot ?ci (ref_author r))
        (ref_height r) (ref_digest r) (\<lambda>_. p') (ag_positions ag))"
      "ag_index (fst (record_ack s r ag)) = ?ci"
      "snd (record_ack s r ag) = \<lparr>ar_accepted = True, ar_availability = map_option (\<lambda>t. \<lparr>aa_reference = r, aa_threshold = t\<rparr>) emit\<rparr>"
    using idx step by (simp_all add: record_ack_def ag(1) br_get_map p_def [symmetric] Let_def)
  have map: "br_map ?ci (ag_positions (fst (record_ack s r ag))) = (br_map ?ci (ag_positions ag))(r \<mapsto> p')"
    unfolding rec(1) br_entry_content(1) [OF ag(2)] by simp
  have "pos_ok c (acked_by c (evs @ [AckFrom s r]) x)
      (case br_map ?ci (ag_positions (fst (record_ack s r ag))) x of None \<Rightarrow> ack_position_default | Some p \<Rightarrow> p)" for x
    using aggregator_inv_pos [OF inv, of x] step_ok(1) s unfolding map by (simp add: acked_by_snoc)
  moreover have "br_ok ?ci (ag_positions (fst (record_ack s r ag)))"
    unfolding rec(1) by (rule br_entry_ok [OF ag(2)]) simp
  ultimately show ?thesis
    using rec(2,3) step_ok(2) s by (simp add: aggregator_inv_def)
qed

lemma reset_inv:
  assumes ok: "committee_ok c" and inv: "aggregator_inv c evs ag"
  shows "aggregator_inv c (evs @ [ResetLane a]) (ag_reset_author a ag)"
proof -
  let ?ci = "committee_index_new c" and ?t = "snd (br_drain_author (ci_slot (committee_index_new c) a) (ag_positions ag))"
  have ag: "ag_index ag = ?ci" "br_ok ?ci (ag_positions ag)"
    using inv by (simp_all add: aggregator_inv_def)
  have "ag_positions (ag_reset_author a ag) = ?t" "ag_index (ag_reset_author a ag) = ?ci"
    by (simp_all add: ag_reset_author_def ag(1) case_prod_beta Let_def)
  moreover have "br_map ?ci ?t x = (if ref_author x = a then None else br_map ?ci (ag_positions ag) x)" for x
    using drain_content [OF ag(2), of a x] .
  moreover have "br_ok ?ci ?t"
    by (rule drain_ok [OF ag(2)])
  ultimately show ?thesis
    using inv pos_ok_default [OF ok] by (simp add: aggregator_inv_def acked_by_snoc)
qed

lemma aggregator_after_inv: "committee_ok c \<Longrightarrow> aggregator_inv c evs (aggregator_after c evs)"
proof (induction evs rule: rev_induct)
  case Nil
  then show ?case
    using br_new_ok [OF committee_index_new_ok] pos_ok_default
    by (simp add: aggregator_inv_def aggregator_after_def ack_aggregator_new_def Let_def acked_by_def br_new_empty)
next
  case (snoc e evs)
  have "aggregator_after c (evs @ [e]) = ack_apply e (aggregator_after c evs)"
    by (simp add: aggregator_after_def)
  then show ?case
    using snoc record_ack_inv reset_inv by (cases e) auto
qed

section \<open>Properties\<close>

text \<open>C23. After any acknowledgements and lane resets, one more acknowledgement is accepted exactly
  from members and reports exactly the threshold that the stake of the distinct live members for
  that reference crosses by it; the quorum and the duplicate queries agree with that stake.\<close>

theorem ack_thresholds_exact:
  assumes ok: "committee_ok c"
  shows "let ag = aggregator_after c evs; S = acked_by c evs r; w = stake_sum c S
    in snd (record_ack s r ag) =
        (if s \<in> members c
         then \<lparr>ar_accepted = True, ar_availability = map_option (\<lambda>t. \<lparr>aa_reference = r, aa_threshold = t\<rparr>)
                (crossing c w (stake_sum c (insert s S)))\<rparr>
         else \<lparr>ar_accepted = False, ar_availability = None\<rparr>)
      \<and> (is_at_quorum r ag \<longleftrightarrow> quorum_threshold c \<le> w)
      \<and> (will_count s r ag \<longleftrightarrow> s \<in> members c \<and> s \<notin> S \<and> w < quorum_threshold c)"
proof -
  let ?ag = "aggregator_after c evs" and ?S = "acked_by c evs r" and ?ci = "committee_index_new c"
  have inv: "aggregator_inv c evs ?ag"
    by (rule aggregator_after_inv [OF ok])
  then have ci: "ag_index ?ag = ?ci"
    by (simp add: aggregator_inv_def)
  define p where "p = (case br_map ?ci (ag_positions ?ag) r of None \<Rightarrow> ack_position_default | Some p \<Rightarrow> p)"
  have p: "pos_ok c ?S p"
    unfolding p_def by (rule aggregator_inv_pos [OF inv])
  have "is_at_quorum r ?ag \<longleftrightarrow> ap_emitted p = Some Quorum"
    unfolding is_at_quorum_def ci br_get_map p_def by (simp add: ack_position_default_def split: option.splits)
  then have quorum: "is_at_quorum r ?ag \<longleftrightarrow> quorum_threshold c \<le> stake_sum c ?S"
    using p by (simp add: pos_ok_def reached_def)
  have count: "will_count s r ?ag \<longleftrightarrow> s \<in> members c \<and> s \<notin> ?S \<and> stake_sum c ?S < quorum_threshold c"
  proof (cases "member_index c s")
    case None
    then show ?thesis
      using member_index_iff [of c s] by (simp add: will_count_def ci ci_slot_def member_index_def del: position_None)
  next
    case (Some i)
    then have "will_count s r ?ag \<longleftrightarrow> ap_emitted p \<noteq> Some Quorum
        \<and> \<not> (case ap_census p of None \<Rightarrow> False | Some cs \<Rightarrow> ms_contains i (ac_senders cs))"
      unfolding will_count_def ci br_get_map p_def
      by (auto simp: ci_slot_def member_index_def ack_position_default_def split: option.splits)
    moreover have "(case ap_census p of None \<Rightarrow> False | Some cs \<Rightarrow> ms_contains i (ac_senders cs)) \<longleftrightarrow> s \<in> ?S"
      if "stake_sum c ?S < quorum_threshold c"
      using p that Some member_index_inj by (auto simp: pos_ok_def ms_contains_set split: option.splits) 
    ultimately show ?thesis
      using p member_index_iff [of c s] Some by (auto simp: pos_ok_def reached_def split: if_splits)
  qed
  show ?thesis
    using record_ack_inv [OF ok inv, of s r] quorum count unfolding Let_def by blast
qed

theorem ack_thresholds_exact_witness:
  "let r = (PublicKey 1, 1, Digest 5); evs = [AckFrom (PublicKey 1) r, AckFrom (PublicKey 1) r, AckFrom (PublicKey 9) r]
   in acked_by demo_committee evs r = {PublicKey 1}
    \<and> snd (record_ack (PublicKey 2) r (aggregator_after demo_committee evs)) =
        \<lparr>ar_accepted = True, ar_availability = Some \<lparr>aa_reference = r, aa_threshold = Validity\<rparr>\<rparr>"
proof -
  let ?r = "(PublicKey 1, 1, Digest 5)"
  let ?evs = "[AckFrom (PublicKey 1) ?r, AckFrom (PublicKey 1) ?r, AckFrom (PublicKey 9) ?r]"
  have S: "acked_by demo_committee ?evs ?r = {PublicKey 1}"
    by (auto simp: acked_by_def demo_members)
  have th: "quorum_threshold demo_committee = 3" "validity_threshold demo_committee = 2"
    by (simp_all add: quorum_threshold_def validity_threshold_def total_votes_def demo_committee_def div_ceil_def)
  have "crossing demo_committee (stake_sum demo_committee {PublicKey 1}) (stake_sum demo_committee {PublicKey 2, PublicKey 1})
      = Some Validity"
    by (simp add: crossing_def reached_def th stake_sum_def demo_stake_of)
  then show ?thesis
    using ack_thresholds_exact [OF demo_committee_ok, of ?evs ?r "PublicKey 2"] S
    by (simp add: Let_def demo_members)
qed

end
