(* ===== verification/Block_Cache.thy ===== *)
theory Block_Cache
  imports Effects "HOL-Library.Product_Lexorder"
begin

text \<open>
  The digest-keyed block cache of \<^verbatim>\<open>primary/src/vantage/lanes.rs\<close> and the walks over it: direct
  prefixes, verified prefixes, suffixes above a watermark and ancestors of an anchor. Step and
  failure counters and the clock around the chain walk are metrics and not part of the state.
  A \<^verbatim>\<open>HashSet\<close> of digests is an ordered set, so the arbitrary choice of
  \<^verbatim>\<open>author_block_at\<close> is the least digest.
\<close>

section \<open>State\<close>

record block_entry =
  be_block :: header
  be_direct :: bool
  be_repaired :: bool
  be_retained :: bool
  be_payload_ok :: bool
  be_direct_prefix_verified :: bool
  be_chain_verified :: bool
  be_block_ok_verified :: bool

definition pinned_at :: "block_entry \<Rightarrow> public_key \<Rightarrow> height \<Rightarrow> bool" where
  "pinned_at e author expected_height \<longleftrightarrow>
     h_author (be_block e) = author \<and> h_height (be_block e) = expected_height"

definition parent_of :: "block_entry \<Rightarrow> digest" where
  "parent_of e = cert_header_digest (h_parent_cert (be_block e))"

record block_cache =
  by_digest :: "(digest, block_entry) omap"
  bc_by_author :: "(public_key, (height, digest oset) omap) omap"
  missing_parents :: "block_ref oset"

datatype direct_prefix_check = DPVerified | DPGate digest | DPFailed

abbreviation missing_parents_cap :: nat where
  "missing_parents_cap \<equiv> 64"

definition bc_new :: block_cache where
  "bc_new = \<lparr>by_digest = [], bc_by_author = [], missing_parents = []\<rparr>"

definition bc_get :: "block_cache \<Rightarrow> digest \<Rightarrow> block_entry option" where
  "bc_get b h = map_of (by_digest b) h"

section \<open>Updates\<close>

definition note_missing_parent :: "public_key \<Rightarrow> height \<Rightarrow> digest \<Rightarrow> block_cache \<Rightarrow> block_cache" where
  "note_missing_parent author height d b =
     (if length (missing_parents b) \<ge> missing_parents_cap then b
      else b\<lparr>missing_parents := os_ins (author, height, d) (missing_parents b)\<rparr>)"

definition bc_take_missing_parents :: "nat \<Rightarrow> block_cache \<Rightarrow> block_cache \<times> block_ref list" where
  "bc_take_missing_parents cap b =
     (b\<lparr>missing_parents := drop cap (missing_parents b)\<rparr>, take cap (missing_parents b))"

definition remove_digests :: "digest list \<Rightarrow> (digest, block_entry) omap \<Rightarrow> (digest, block_entry) omap \<times> nat" where
  "remove_digests ds m = foldl (\<lambda>(m, dropped) d. (om_del d m, if om_has m d then dropped + 1 else dropped)) (m, 0) ds"

definition evict_author_below :: "public_key \<Rightarrow> height \<Rightarrow> block_cache \<Rightarrow> block_cache \<times> nat" where
  "evict_author_below author height b =
     (case map_of (bc_by_author b) author of
        None \<Rightarrow> (b, 0)
      | Some by_height \<Rightarrow>
          let keep = om_from height by_height;
              below = filter (\<lambda>e. fst e < height) by_height;
              (digests, dropped) = remove_digests (concat (map snd below)) (by_digest b)
          in (b\<lparr>by_digest := digests,
                bc_by_author := (if keep = [] then om_del author (bc_by_author b)
                                 else om_put author keep (bc_by_author b))\<rparr>, dropped))"

definition upsert :: "header \<Rightarrow> bool \<Rightarrow> bool \<Rightarrow> bool \<Rightarrow> bool \<Rightarrow> block_cache \<Rightarrow> block_cache" where
  "upsert block direct repaired payload_ok block_ok_verified b =
     (let digest = h_id block; author = h_author block; height = h_height block;
          entry = (case bc_get b digest of
             None \<Rightarrow> \<lparr>be_block = block, be_direct = direct, be_repaired = repaired, be_retained = False,
                      be_payload_ok = payload_ok, be_direct_prefix_verified = False,
                      be_chain_verified = False, be_block_ok_verified = block_ok_verified\<rparr>
           | Some e \<Rightarrow> e\<lparr>be_direct := be_direct e \<or> direct, be_repaired := be_repaired e \<or> repaired,
                         be_payload_ok := be_payload_ok e \<or> payload_ok,
                         be_block_ok_verified := be_block_ok_verified e \<or> block_ok_verified,
                         be_block := block\<rparr>)
      in b\<lparr>bc_by_author := om_upd author [] (om_upd height [] (os_ins digest)) (bc_by_author b),
           by_digest := om_put digest entry (by_digest b)\<rparr>)"

definition bc_modify :: "digest \<Rightarrow> (block_entry \<Rightarrow> block_entry) \<Rightarrow> block_cache \<Rightarrow> block_cache" where
  "bc_modify d f b = (case bc_get b d of None \<Rightarrow> b | Some e \<Rightarrow> b\<lparr>by_digest := om_put d (f e) (by_digest b)\<rparr>)"

definition anchor_entry :: "block_entry \<Rightarrow> block_entry" where
  "anchor_entry e = e\<lparr>be_chain_verified := True, be_direct_prefix_verified := True, be_retained := True\<rparr>"

definition seed_own_anchor :: "header \<Rightarrow> block_cache \<Rightarrow> block_cache" where
  "seed_own_anchor block b = bc_modify (h_id block) anchor_entry (upsert block True False True True b)"

definition seed_recovered_own_anchor :: "header \<Rightarrow> block_cache \<Rightarrow> block_cache" where
  "seed_recovered_own_anchor block b =
     bc_modify (h_id block) anchor_entry (upsert block False True False True b)"

definition mark_retained :: "digest \<Rightarrow> block_cache \<Rightarrow> block_cache \<times> bool" where
  "mark_retained h b =
     (case bc_get b h of
        Some e \<Rightarrow> if \<not> be_retained e then (bc_modify h (\<lambda>e. e\<lparr>be_retained := True\<rparr>) b, True) else (b, False)
      | None \<Rightarrow> (b, False))"

definition set_payload_ok :: "digest \<Rightarrow> bool \<Rightarrow> block_cache \<Rightarrow> block_cache \<times> bool" where
  "set_payload_ok h ok b =
     (case bc_get b h of
        Some e \<Rightarrow> if ok \<and> \<not> be_payload_ok e then (bc_modify h (\<lambda>e. e\<lparr>be_payload_ok := True\<rparr>) b, True) else (b, False)
      | None \<Rightarrow> (b, False))"

section \<open>Queries\<close>

definition direct_gate_ready :: "block_cache \<Rightarrow> digest \<Rightarrow> bool" where
  "direct_gate_ready b h = (case bc_get b h of None \<Rightarrow> False | Some e \<Rightarrow> be_direct e \<and> be_payload_ok e)"

definition bc_author_block_at :: "block_cache \<Rightarrow> public_key \<Rightarrow> height \<Rightarrow> header option" where
  "bc_author_block_at b author height =
     (case map_of (bc_by_author b) author of
        None \<Rightarrow> None
      | Some hs \<Rightarrow> (case map_of hs height of
          None \<Rightarrow> None
        | Some [] \<Rightarrow> None
        | Some (d # _) \<Rightarrow> map_option be_block (bc_get b d)))"

definition earliest_height :: "block_cache \<Rightarrow> public_key \<Rightarrow> height option" where
  "earliest_height b author =
     (case map_of (bc_by_author b) author of
        None \<Rightarrow> None
      | Some [] \<Rightarrow> None
      | Some ((h, _) # _) \<Rightarrow> Some h)"

definition author_refs :: "block_cache \<Rightarrow> public_key \<Rightarrow> block_ref list" where
  "author_refs b author =
     (case map_of (bc_by_author b) author of
        None \<Rightarrow> []
      | Some hs \<Rightarrow> concat (map (\<lambda>(h, ds). map (\<lambda>d. (author, h, d)) ds) hs))"

section \<open>Walks\<close>

text \<open>
  The direct walk: the digests newly walked on success, the gate that stopped it, or the failure
  with the coordinate that was missing.
\<close>

datatype walk = WOk "digest list" | WGate digest | WMissing block_ref | WBad

fun direct_walk :: "block_cache \<Rightarrow> digest \<Rightarrow> public_key \<Rightarrow> height \<Rightarrow> digest \<Rightarrow> digest list \<Rightarrow> walk" where
  "direct_walk b genesis author 0 cur newly = (if cur = genesis then WOk newly else WBad)"
| "direct_walk b genesis author (Suc h) cur newly =
     (if cur = genesis then WBad
      else case bc_get b cur of
             None \<Rightarrow> WMissing (author, Suc h, cur)
           | Some e \<Rightarrow>
               if \<not> pinned_at e author (Suc h) then WBad
               else if be_direct_prefix_verified e then WOk newly
               else if \<not> (be_direct e \<and> be_payload_ok e) then WGate cur
               else direct_walk b genesis author h (parent_of e) (newly @ [cur]))"

definition mark_all :: "(block_entry \<Rightarrow> block_entry) \<Rightarrow> digest list \<Rightarrow> block_cache \<Rightarrow> block_cache" where
  "mark_all f ds b = foldl (\<lambda>b d. bc_modify d f b) b ds"

definition set_direct :: "block_entry \<Rightarrow> block_entry" where
  "set_direct e = e\<lparr>be_direct_prefix_verified := True\<rparr>"

definition set_chain :: "block_entry \<Rightarrow> block_entry" where
  "set_chain e = e\<lparr>be_chain_verified := True\<rparr>"

definition direct_prefix_check :: "digest \<Rightarrow> digest \<Rightarrow> block_cache \<Rightarrow> block_cache \<times> direct_prefix_check" where
  "direct_prefix_check genesis h b =
     (case bc_get b h of
        None \<Rightarrow> (b, DPFailed)
      | Some start \<Rightarrow>
          if be_direct_prefix_verified start then (b, DPVerified)
          else (case direct_walk b genesis (h_author (be_block start)) (h_height (be_block start)) h [] of
                 WOk newly \<Rightarrow> (mark_all set_direct newly b, DPVerified)
               | WGate d \<Rightarrow> (b, DPGate d)
               | WMissing (a, n, d) \<Rightarrow> (note_missing_parent a n d b, DPFailed)
               | WBad \<Rightarrow> (b, DPFailed)))"

fun chain_walk :: "block_cache \<Rightarrow> digest \<Rightarrow> public_key \<Rightarrow> height \<Rightarrow> digest \<Rightarrow> digest list \<Rightarrow> walk" where
  "chain_walk b genesis author 0 cur newly = (if cur = genesis then WOk newly else WBad)"
| "chain_walk b genesis author (Suc h) cur newly =
     (if cur = genesis then WBad
      else case bc_get b cur of
             None \<Rightarrow> WMissing (author, Suc h, cur)
           | Some e \<Rightarrow>
               if \<not> pinned_at e author (Suc h) then WBad
               else if \<not> be_block_ok_verified e then WGate cur
               else if be_chain_verified e then WOk newly
               else chain_walk b genesis author h (parent_of e) (newly @ [cur]))"

definition verified_prefix_through_genesis :: "digest \<Rightarrow> digest \<Rightarrow> block_cache \<Rightarrow> block_cache \<times> bool" where
  "verified_prefix_through_genesis genesis h b =
     (case bc_get b h of
        None \<Rightarrow> (b, False)
      | Some start \<Rightarrow>
          if be_chain_verified start then (b, True)
          else (case chain_walk b genesis (h_author (be_block start)) (h_height (be_block start)) h [] of
                 WOk newly \<Rightarrow> (mark_all set_chain newly b, True)
               | WMissing (a, n, d) \<Rightarrow> (note_missing_parent a n d b, False)
               | _ \<Rightarrow> (b, False)))"

fun collect_walk :: "(header \<Rightarrow> bool) \<Rightarrow> block_cache \<Rightarrow> digest \<Rightarrow> public_key \<Rightarrow> height \<Rightarrow> digest \<Rightarrow> digest list \<Rightarrow> digest list option" where
  "collect_walk ok b genesis author 0 cur chain =
     (if cur = genesis then Some (rev (chain @ [genesis])) else None)"
| "collect_walk ok b genesis author (Suc h) cur chain =
     (if cur = genesis then None
      else case bc_get b cur of
             None \<Rightarrow> None
           | Some e \<Rightarrow>
               if \<not> pinned_at e author (Suc h) then None
               else if \<not> ok (be_block e) then None
               else collect_walk ok b genesis author h (parent_of e) (chain @ [cur]))"

definition collect_verified_chain ::
    "(bytes \<Rightarrow> digest) \<Rightarrow> committee \<Rightarrow> digest \<Rightarrow> nat \<Rightarrow> digest \<Rightarrow> digest \<Rightarrow> block_cache \<Rightarrow> digest list option" where
  "collect_verified_chain b3 c sid max_block_payload genesis h b =
     (case bc_get b h of
        None \<Rightarrow> None
      | Some start \<Rightarrow> collect_walk (block_ok b3 c sid max_block_payload) b genesis
                        (h_author (be_block start)) (h_height (be_block start)) h [])"

datatype suffix_walk = SWReady "digest list" | SWPending | SWForked

fun suffix_walk_from :: "block_cache \<Rightarrow> height \<Rightarrow> digest \<Rightarrow> public_key \<Rightarrow> height \<Rightarrow> digest \<Rightarrow> digest list \<Rightarrow> suffix_walk" where
  "suffix_walk_from b stop_height stop_digest author 0 cur chain =
     (if 0 = stop_height then if cur \<noteq> stop_digest then SWForked else SWReady (rev chain)
      else SWForked)"
| "suffix_walk_from b stop_height stop_digest author (Suc h) cur chain =
     (if Suc h = stop_height then if cur \<noteq> stop_digest then SWForked else SWReady (rev chain)
      else case bc_get b cur of
             None \<Rightarrow> SWPending
           | Some e \<Rightarrow>
               if \<not> pinned_at e author (Suc h) then SWPending
               else if \<not> be_block_ok_verified e then SWPending
               else suffix_walk_from b stop_height stop_digest author h (parent_of e) (chain @ [cur]))"

definition classify_suffix :: "height \<Rightarrow> digest \<Rightarrow> digest \<Rightarrow> block_cache \<Rightarrow> suffix_walk" where
  "classify_suffix stop_height stop_digest h b =
     (case bc_get b h of
        None \<Rightarrow> SWPending
      | Some start \<Rightarrow> suffix_walk_from b stop_height stop_digest
                        (h_author (be_block start)) (h_height (be_block start)) h [])"

definition collect_verified_suffix :: "height \<Rightarrow> digest \<Rightarrow> digest \<Rightarrow> block_cache \<Rightarrow> digest list option" where
  "collect_verified_suffix stop_height stop_digest h b =
     (case classify_suffix stop_height stop_digest h b of SWReady chain \<Rightarrow> Some chain | _ \<Rightarrow> None)"

datatype ancestor_walk = AWReady block_ref | AWPending | AWForked

text \<open>
  The walk starts above the target height and stops at it, so the case of height zero below the
  target does not occur.
\<close>

fun ancestor_walk_from :: "block_cache \<Rightarrow> height \<Rightarrow> public_key \<Rightarrow> height \<Rightarrow> digest \<Rightarrow> ancestor_walk" where
  "ancestor_walk_from b target author expected cur =
     (case bc_get b cur of
        None \<Rightarrow> AWPending
      | Some e \<Rightarrow>
          if \<not> pinned_at e author expected then AWForked
          else if \<not> be_block_ok_verified e then AWPending
          else if expected = target then AWReady (author, target, cur)
          else if expected = 0 then AWForked
          else ancestor_walk_from b target author (expected - 1) (parent_of e))"

definition resolve_verified_ancestor :: "block_ref \<Rightarrow> height \<Rightarrow> block_cache \<Rightarrow> ancestor_walk" where
  "resolve_verified_ancestor anchor delta b =
     (if delta = 0 \<or> delta \<ge> ref_height anchor then AWForked
      else ancestor_walk_from b (ref_height anchor - delta) (ref_author anchor) (ref_height anchor) (ref_digest anchor))"

section \<open>Lookup after the updates\<close>

lemma bc_get_modify: "bc_get (bc_modify d f b) x = (if x = d then map_option f (bc_get b x) else bc_get b x)"
  by (auto simp: bc_get_def bc_modify_def omap_simps split: option.splits)

lemma bc_get_note_missing [simp]: "bc_get (note_missing_parent a n d b) = bc_get b"
  by (rule ext) (simp add: note_missing_parent_def bc_get_def)

lemma bc_get_mark_all:
  assumes "\<And>e. f (f e) = f e"
  shows "bc_get (mark_all f ds b) x = (if x \<in> set ds then map_option f (bc_get b x) else bc_get b x)"
proof (induction ds arbitrary: b)
  case (Cons d ds)
  have "mark_all f (d # ds) b = mark_all f ds (bc_modify d f b)"
    by (simp add: mark_all_def)
  then show ?case
    using Cons.IH [of "bc_modify d f b"] assms
    by (cases "bc_get b x") (auto simp: bc_get_modify)
qed (simp add: mark_all_def)

lemma bc_get_upsert:
  "bc_get (upsert block direct repaired payload_ok okv b) x =
     (if x = h_id block
      then Some (case bc_get b x of
             None \<Rightarrow> \<lparr>be_block = block, be_direct = direct, be_repaired = repaired, be_retained = False,
                      be_payload_ok = payload_ok, be_direct_prefix_verified = False,
                      be_chain_verified = False, be_block_ok_verified = okv\<rparr>
           | Some e \<Rightarrow> e\<lparr>be_direct := be_direct e \<or> direct, be_repaired := be_repaired e \<or> repaired,
                         be_payload_ok := be_payload_ok e \<or> payload_ok,
                         be_block_ok_verified := be_block_ok_verified e \<or> okv,
                         be_block := block\<rparr>)
      else bc_get b x)"
  by (auto simp: upsert_def bc_get_def omap_simps Let_def)

section \<open>Reference chains\<close>

text \<open>
  The reference for both memoised walks: a chain of cached blocks of one author, pinned at
  consecutive heights, each passing \<open>gate\<close>, down to genesis or to an anchor in \<open>A\<close> (a restored
  block, or one whose predecessors were evicted after they had been checked).
\<close>

fun chain_ok :: "(block_entry \<Rightarrow> bool) \<Rightarrow> digest set \<Rightarrow> digest \<Rightarrow> block_cache \<Rightarrow> public_key \<Rightarrow> height \<Rightarrow> digest \<Rightarrow> bool" where
  "chain_ok gate A genesis b author 0 d = (d = genesis)"
| "chain_ok gate A genesis b author (Suc h) d =
     (d \<noteq> genesis \<and> (case bc_get b d of
        None \<Rightarrow> False
      | Some e \<Rightarrow> pinned_at e author (Suc h) \<and>
          (d \<in> A \<or> gate e \<and> chain_ok gate A genesis b author h (parent_of e))))"

lemma chain_ok_note [simp]:
  "chain_ok gate A g (note_missing_parent x n y b) a h d = chain_ok gate A g b a h d"
  by (induction h arbitrary: d) (auto split: option.splits)

text \<open>What a memo flag means locally: an anchor, or a gate passed and a flagged predecessor.\<close>

definition link_ok :: "(block_entry \<Rightarrow> bool) \<Rightarrow> digest \<Rightarrow> block_cache \<Rightarrow> public_key \<Rightarrow> height \<Rightarrow> digest \<Rightarrow> bool" where
  "link_ok flag genesis b author h d \<longleftrightarrow>
     (h = 0 \<and> d = genesis) \<or>
     (0 < h \<and> d \<noteq> genesis \<and> (\<exists>e. bc_get b d = Some e \<and> pinned_at e author h \<and> flag e))"

definition memo_ok ::
    "(block_entry \<Rightarrow> bool) \<Rightarrow> (block_entry \<Rightarrow> bool) \<Rightarrow> (block_entry \<Rightarrow> bool) \<Rightarrow> digest set \<Rightarrow> digest \<Rightarrow> block_cache \<Rightarrow> bool" where
  "memo_ok flag sound gate A genesis b \<longleftrightarrow>
     (\<forall>d e. bc_get b d = Some e \<longrightarrow> flag e \<longrightarrow>
        sound e \<and> d \<noteq> genesis \<and> 0 < h_height (be_block e) \<and>
        (d \<in> A \<or> gate e \<and> link_ok flag genesis b (h_author (be_block e)) (h_height (be_block e) - 1) (parent_of e)))
     \<and> (\<forall>d \<in> A. \<forall>e. bc_get b d = Some e \<longrightarrow> flag e)"

lemma memo_okD:
  assumes "memo_ok flag sound gate A genesis b" "bc_get b d = Some e" "flag e"
  shows "sound e" "d \<noteq> genesis" "0 < h_height (be_block e)"
    "d \<in> A \<or> gate e \<and> link_ok flag genesis b (h_author (be_block e)) (h_height (be_block e) - 1) (parent_of e)"
  using assms by (auto simp: memo_ok_def)

lemma memo_ok_anchor: "memo_ok flag sound gate A genesis b \<Longrightarrow> d \<in> A \<Longrightarrow> bc_get b d = Some e \<Longrightarrow> flag e"
  by (auto simp: memo_ok_def)

lemma pinned_self: "pinned_at e (h_author (be_block e)) (h_height (be_block e))"
  by (simp add: pinned_at_def)

lemma pinned_eq: "pinned_at e a h \<Longrightarrow> h_author (be_block e) = a \<and> h_height (be_block e) = h"
  by (simp add: pinned_at_def)

lemma flag_chain_ok:
  assumes memo: "memo_ok flag sound gate A genesis b"
  shows "link_ok flag genesis b author h d \<Longrightarrow> chain_ok gate A genesis b author h d"
proof (induction h arbitrary: d)
  case (Suc h)
  then obtain e where e: "d \<noteq> genesis" "bc_get b d = Some e" "pinned_at e author (Suc h)" "flag e"
    by (auto simp: link_ok_def)
  from memo_okD(4) [OF memo e(2,4)] pinned_eq [OF e(3)]
  have "d \<in> A \<or> gate e \<and> link_ok flag genesis b author h (parent_of e)"
    by simp
  with e Suc.IH show ?case by auto
qed (simp add: link_ok_def)

text \<open>
  The interface of a memoised walk: where it stops, steps and fails, and what marking does.
\<close>

locale memo_walk =
  fixes flag sound gate :: "block_entry \<Rightarrow> bool"
    and mark :: "block_entry \<Rightarrow> block_entry"
    and run :: "block_cache \<Rightarrow> digest \<Rightarrow> public_key \<Rightarrow> height \<Rightarrow> digest \<Rightarrow> digest list \<Rightarrow> walk"
  assumes run_zero: "run b g a 0 cur newly = (if cur = g then WOk newly else WBad)"
    and run_genesis: "run b g a (Suc h) g newly = WBad"
    and run_missing: "cur \<noteq> g \<Longrightarrow> bc_get b cur = None \<Longrightarrow> run b g a (Suc h) cur newly = WMissing (a, Suc h, cur)"
    and run_unpinned: "cur \<noteq> g \<Longrightarrow> bc_get b cur = Some e \<Longrightarrow> \<not> pinned_at e a (Suc h) \<Longrightarrow> run b g a (Suc h) cur newly = WBad"
    and run_stop: "cur \<noteq> g \<Longrightarrow> bc_get b cur = Some e \<Longrightarrow> pinned_at e a (Suc h) \<Longrightarrow> flag e \<Longrightarrow> sound e
          \<Longrightarrow> run b g a (Suc h) cur newly = WOk newly"
    and run_step: "cur \<noteq> g \<Longrightarrow> bc_get b cur = Some e \<Longrightarrow> pinned_at e a (Suc h) \<Longrightarrow> \<not> flag e \<Longrightarrow> gate e
          \<Longrightarrow> run b g a (Suc h) cur newly = run b g a h (parent_of e) (newly @ [cur])"
    and run_gate: "cur \<noteq> g \<Longrightarrow> bc_get b cur = Some e \<Longrightarrow> pinned_at e a (Suc h) \<Longrightarrow> \<not> flag e \<Longrightarrow> \<not> gate e
          \<Longrightarrow> run b g a (Suc h) cur newly = WGate cur"
    and mark_flag: "flag (mark e)"
    and mark_keeps: "be_block (mark e) = be_block e" "gate (mark e) = gate e" "sound (mark e) = sound e"
    and mark_idem: "mark (mark e) = mark e"
    and gate_sound: "gate e \<Longrightarrow> sound e"
begin

lemma run_iff:
  assumes memo: "memo_ok flag sound gate A g b"
  shows "(\<exists>n. run b g a h d newly = WOk n) \<longleftrightarrow> chain_ok gate A g b a h d"
proof (induction h arbitrary: d newly)
  case (Suc h)
  consider "d = g" | "d \<noteq> g" "bc_get b d = None"
    | e where "d \<noteq> g" "bc_get b d = Some e" "\<not> pinned_at e a (Suc h)"
    | e where "d \<noteq> g" "bc_get b d = Some e" "pinned_at e a (Suc h)" by blast
  then show ?case
  proof cases
    case (4 e)
    show ?thesis
    proof (cases "flag e")
      case True
      have "chain_ok gate A g b a (Suc h) d"
        using 4 True by (intro flag_chain_ok [OF memo]) (auto simp: link_ok_def)
      then show ?thesis
        using run_stop [OF 4 True] memo_okD(1) [OF memo 4(2) True] by blast
    next
      case False
      then have "d \<notin> A"
        using memo_ok_anchor [OF memo _ 4(2)] by blast
      then have "chain_ok gate A g b a (Suc h) d \<longleftrightarrow> gate e \<and> chain_ok gate A g b a h (parent_of e)"
        using 4 by simp
      then show ?thesis
        using run_step [OF 4 False] run_gate [OF 4 False] Suc.IH by (cases "gate e") auto
    qed
  qed (simp_all add: run_genesis run_missing run_unpinned)
qed (simp add: run_zero)

fun linked :: "block_cache \<Rightarrow> digest \<Rightarrow> public_key \<Rightarrow> height \<Rightarrow> digest \<Rightarrow> digest list \<Rightarrow> bool" where
  "linked b g a h d [] = link_ok flag g b a h d"
| "linked b g a h d (x # xs) =
     (x = d \<and> d \<noteq> g \<and> 0 < h \<and> (\<exists>e. bc_get b d = Some e \<and> pinned_at e a h \<and> gate e \<and> linked b g a (h - 1) (parent_of e) xs))"

lemma run_linked:
  assumes memo: "memo_ok flag sound gate A g b"
  shows "run b g a h d newly = WOk n \<Longrightarrow> \<exists>ds. n = newly @ ds \<and> linked b g a h d ds"
proof (induction h arbitrary: d newly)
  case 0
  then show ?case
    by (intro exI [of _ "[]"]) (auto simp: run_zero link_ok_def split: if_splits)
next
  case (Suc h)
  have "d \<noteq> g"
    using Suc.prems by (auto simp: run_genesis)
  moreover obtain e where e: "bc_get b d = Some e"
    using Suc.prems run_missing [OF \<open>d \<noteq> g\<close>] by (cases "bc_get b d") auto
  moreover have p: "pinned_at e a (Suc h)"
    using Suc.prems run_unpinned [OF \<open>d \<noteq> g\<close> e] by fastforce
  ultimately show ?case
  proof (cases "flag e")
    case True
    then have "n = newly" "link_ok flag g b a (Suc h) d"
      using Suc.prems run_stop [OF \<open>d \<noteq> g\<close> e p True memo_okD(1) [OF memo e True]] e p \<open>d \<noteq> g\<close>
      by (auto simp: link_ok_def)
    then show ?thesis
      by (intro exI [of _ "[]"]) simp
  next
    case False
    then have gate: "gate e"
      using Suc.prems run_gate [OF \<open>d \<noteq> g\<close> e p False] by (cases "gate e") auto
    with Suc.prems run_step [OF \<open>d \<noteq> g\<close> e p False]
    have "run b g a h (parent_of e) (newly @ [d]) = WOk n"
      by simp
    from Suc.IH [OF this] obtain ds where "n = newly @ d # ds" "linked b g a h (parent_of e) ds"
      by auto
    then show ?thesis
      using e p gate \<open>d \<noteq> g\<close> by (intro exI [of _ "d # ds"]) auto
  qed
qed

lemma get_marked:
  "bc_get (mark_all mark ds b) x = (if x \<in> set ds then map_option mark (bc_get b x) else bc_get b x)"
  by (rule bc_get_mark_all) (rule mark_idem)

lemma link_marked: "link_ok flag g b a h d \<Longrightarrow> link_ok flag g (mark_all mark ds b) a h d"
  by (auto simp: link_ok_def get_marked mark_flag mark_keeps pinned_at_def)

lemma linked_marked:
  "linked b g a h d ds \<Longrightarrow> set ds \<subseteq> set all \<Longrightarrow>
     link_ok flag g (mark_all mark all b) a h d
     \<and> (\<forall>x \<in> set ds. \<exists>e k. bc_get b x = Some e \<and> pinned_at e a (Suc k) \<and> gate e \<and> x \<noteq> g
          \<and> link_ok flag g (mark_all mark all b) a k (parent_of e))"
proof (induction ds arbitrary: h d)
  case Nil
  then show ?case
    by (simp add: link_marked)
next
  case (Cons x xs)
  then obtain e k where e: "x = d" "d \<noteq> g" "h = Suc k" "bc_get b d = Some e" "pinned_at e a (Suc k)" "gate e"
      "linked b g a k (parent_of e) xs"
    by (cases h) auto
  note IH = Cons.IH [OF e(7)]
  have "link_ok flag g (mark_all mark all b) a h d"
    using e Cons.prems(2) by (auto simp: link_ok_def get_marked mark_flag mark_keeps pinned_at_def)
  with e IH Cons.prems(2) show ?case by auto
qed

lemma memo_ok_marked:
  assumes memo: "memo_ok flag sound gate A g b" and linked: "linked b g a h d ds"
  shows "memo_ok flag sound gate A g (mark_all mark ds b)"
proof -
  let ?b = "mark_all mark ds b"
  note marked = linked_marked [OF linked order_refl]
  have parent: "parent_of (mark e) = parent_of e" for e
    by (simp add: parent_of_def mark_keeps)
  have "sound e \<and> x \<noteq> g \<and> 0 < h_height (be_block e) \<and>
      (x \<in> A \<or> gate e \<and> link_ok flag g ?b (h_author (be_block e)) (h_height (be_block e) - 1) (parent_of e))"
    if x: "bc_get ?b x = Some e" "flag e" for x e
  proof (cases "x \<in> set ds")
    case True
    then obtain e0 k where e0: "bc_get b x = Some e0" "pinned_at e0 a (Suc k)" "gate e0" "x \<noteq> g"
        "link_ok flag g ?b a k (parent_of e0)"
      using marked by blast
    then have "e = mark e0"
      using x(1) True by (simp add: get_marked)
    then show ?thesis
      using e0 pinned_eq [OF e0(2)] by (simp add: mark_keeps parent gate_sound)
  next
    case False
    then have "bc_get b x = Some e"
      using x(1) by (simp add: get_marked)
    from memo_okD [OF memo this x(2)] show ?thesis
      using link_marked by blast
  qed
  moreover have "flag e" if "x \<in> A" "bc_get ?b x = Some e" for x e
    using that memo_ok_anchor [OF memo that(1)] by (auto simp: get_marked mark_flag split: if_splits)
  ultimately show ?thesis
    unfolding memo_ok_def by blast
qed

lemma chain_marked: "chain_ok gate A g (mark_all mark ds b) a h d = chain_ok gate A g b a h d"
proof (induction h arbitrary: d)
  case (Suc h)
  then show ?case
    by (cases "bc_get b d") (auto simp: get_marked mark_keeps pinned_at_def parent_of_def)
qed simp

end

definition direct_gate :: "block_entry \<Rightarrow> bool" where
  "direct_gate e \<longleftrightarrow> be_direct e \<and> be_payload_ok e"

interpretation direct: memo_walk be_direct_prefix_verified "\<lambda>_. True" direct_gate set_direct direct_walk
  by unfold_locales (auto simp: set_direct_def direct_gate_def)

interpretation verified: memo_walk be_chain_verified be_block_ok_verified be_block_ok_verified
  set_chain chain_walk
  by unfold_locales (auto simp: set_chain_def)

section \<open>The cache invariant\<close>

abbreviation direct_memo :: "digest set \<Rightarrow> digest \<Rightarrow> block_cache \<Rightarrow> bool" where
  "direct_memo \<equiv> memo_ok be_direct_prefix_verified (\<lambda>_. True) direct_gate"

abbreviation chain_memo :: "digest set \<Rightarrow> digest \<Rightarrow> block_cache \<Rightarrow> bool" where
  "chain_memo \<equiv> memo_ok be_chain_verified be_block_ok_verified be_block_ok_verified"

definition cached :: "block_cache \<Rightarrow> digest set" where
  "cached b = dom (bc_get b)"

text \<open>Anchors \<open>A\<close> of the verified prefixes and \<open>D\<close> of the direct prefixes.\<close>

definition cache_ok :: "digest \<Rightarrow> digest set \<Rightarrow> digest set \<Rightarrow> block_cache \<Rightarrow> bool" where
  "cache_ok genesis A D b \<longleftrightarrow>
     (\<forall>d e. bc_get b d = Some e \<longrightarrow> h_id (be_block e) = d)
     \<and> chain_memo A genesis b \<and> direct_memo D genesis b"

lemma cache_ok_new: "cache_ok genesis {} {} bc_new"
  by (simp add: cache_ok_def memo_ok_def bc_new_def bc_get_def)

text \<open>The part of an entry that the walks read.\<close>

definition same_position :: "block_entry \<Rightarrow> block_entry \<Rightarrow> bool" where
  "same_position e e' \<longleftrightarrow> h_author (be_block e') = h_author (be_block e)
     \<and> h_height (be_block e') = h_height (be_block e) \<and> parent_of e' = parent_of e"

text \<open>Growing a cache: entries keep their position and flags, gates only open, and new entries
  carry no memo.\<close>

definition grows ::
    "(block_entry \<Rightarrow> bool) \<Rightarrow> (block_entry \<Rightarrow> bool) \<Rightarrow> (block_entry \<Rightarrow> bool) \<Rightarrow> block_cache \<Rightarrow> block_cache \<Rightarrow> bool" where
  "grows flag sound gate b b' \<longleftrightarrow>
     (\<forall>d e. bc_get b d = Some e \<longrightarrow> (\<exists>e'. bc_get b' d = Some e' \<and> same_position e e'
         \<and> flag e' = flag e \<and> (sound e \<longrightarrow> sound e') \<and> (gate e \<longrightarrow> gate e')))
     \<and> (\<forall>d e'. bc_get b d = None \<longrightarrow> bc_get b' d = Some e' \<longrightarrow> \<not> flag e')"

lemma memo_ok_grows:
  assumes memo: "memo_ok flag sound gate A g b" and grows: "grows flag sound gate b b'"
  shows "memo_ok flag sound gate (A \<inter> cached b) g b'"
proof -
  have old: "\<exists>e. bc_get b d = Some e \<and> same_position e e' \<and> flag e = flag e' \<and> (sound e \<longrightarrow> sound e') \<and> (gate e \<longrightarrow> gate e')"
    if "bc_get b' d = Some e'" "flag e'" for d e'
    using grows that unfolding grows_def by (cases "bc_get b d") fastforce+
  have link: "link_ok flag g b' a h d" if "link_ok flag g b a h d" for a h d
    using that grows unfolding link_ok_def grows_def same_position_def pinned_at_def by metis
  have "sound e' \<and> d \<noteq> g \<and> 0 < h_height (be_block e') \<and>
        (d \<in> A \<inter> cached b \<or> gate e' \<and> link_ok flag g b' (h_author (be_block e')) (h_height (be_block e') - 1) (parent_of e'))"
    if e': "bc_get b' d = Some e'" "flag e'" for d e'
  proof -
    obtain e where e: "bc_get b d = Some e" "same_position e e'" "flag e" "sound e \<longrightarrow> sound e'" "gate e \<longrightarrow> gate e'"
      using old [OF e'] e'(2) by blast
    from memo_okD [OF memo e(1,3)] show ?thesis
      using e link by (auto simp: same_position_def cached_def)
  qed
  moreover have "flag e'" if anchor: "d \<in> A \<inter> cached b" "bc_get b' d = Some e'" for d e'
  proof -
    obtain e where "bc_get b d = Some e"
      using anchor(1) by (auto simp: cached_def)
    with memo_ok_anchor [OF memo _ this] anchor grows show ?thesis
      by (fastforce simp: grows_def)
  qed
  ultimately show ?thesis
    unfolding memo_ok_def by blast
qed

text \<open>A header may replace a cached one with the same identifier only in its position.\<close>

definition stable :: "header \<Rightarrow> block_cache \<Rightarrow> bool" where
  "stable block b \<longleftrightarrow> (\<forall>e. bc_get b (h_id block) = Some e \<longrightarrow> same_position e (e\<lparr>be_block := block\<rparr>))"

lemma upsert_grows:
  assumes "stable block b"
  shows "grows be_chain_verified be_block_ok_verified be_block_ok_verified b (upsert block direct repaired pok okv b)"
    and "grows be_direct_prefix_verified (\<lambda>_. True) direct_gate b (upsert block direct repaired pok okv b)"
  using assms
  by (auto simp: grows_def bc_get_upsert stable_def same_position_def parent_of_def direct_gate_def)

lemma upsert_cache_ok:
  assumes "cache_ok g A D b" "stable block b"
  shows "cache_ok g (A \<inter> cached b) (D \<inter> cached b) (upsert block direct repaired pok okv b)"
  using assms memo_ok_grows [OF _ upsert_grows(1) [OF assms(2)]] memo_ok_grows [OF _ upsert_grows(2) [OF assms(2)]]
  by (auto simp: cache_ok_def bc_get_upsert split: option.splits)

lemma modify_grows:
  assumes "\<And>e. be_block (f e) = be_block e" "\<And>e. flag (f e) = flag e" "\<And>e. sound e \<Longrightarrow> sound (f e)"
    "\<And>e. gate e \<Longrightarrow> gate (f e)"
  shows "grows flag sound gate b (bc_modify d f b)"
  using assms by (auto simp: grows_def bc_get_modify same_position_def parent_of_def)

lemma cached_modify [simp]: "cached (bc_modify d f b) = cached b"
  by (auto simp: cached_def bc_get_modify dom_def)

lemma memo_ok_subset: "memo_ok flag sound gate (A \<inter> cached b) g b' \<Longrightarrow> cached b' = cached b \<Longrightarrow> memo_ok flag sound gate A g b'"
  unfolding memo_ok_def cached_def by blast

lemma modify_cache_ok:
  assumes ok: "cache_ok g A D b"
    and f: "\<And>e. be_block (f e) = be_block e" "\<And>e. be_chain_verified (f e) = be_chain_verified e"
    "\<And>e. be_direct_prefix_verified (f e) = be_direct_prefix_verified e"
    "\<And>e. be_block_ok_verified (f e) = be_block_ok_verified e" "\<And>e. direct_gate e \<Longrightarrow> direct_gate (f e)"
  shows "cache_ok g A D (bc_modify d f b)"
proof -
  have "chain_memo (A \<inter> cached b) g (bc_modify d f b)"
    using ok by (intro memo_ok_grows modify_grows) (auto simp: cache_ok_def f)
  moreover have "direct_memo (D \<inter> cached b) g (bc_modify d f b)"
    using ok by (intro memo_ok_grows modify_grows) (auto simp: cache_ok_def f)
  ultimately show ?thesis
    using ok memo_ok_subset [OF _ cached_modify] by (auto simp: cache_ok_def bc_get_modify f)
qed

lemma set_payload_ok_cache_ok: "cache_ok g A D b \<Longrightarrow> cache_ok g A D (fst (set_payload_ok h ok b))"
  by (auto simp: set_payload_ok_def direct_gate_def intro!: modify_cache_ok split: option.splits)

lemma mark_retained_cache_ok: "cache_ok g A D b \<Longrightarrow> cache_ok g A D (fst (mark_retained h b))"
  by (auto simp: mark_retained_def direct_gate_def intro!: modify_cache_ok split: option.splits)

lemma cached_mark_all: "(\<And>e. f (f e) = f e) \<Longrightarrow> cached (mark_all f ds b) = cached b"
  by (auto simp: cached_def bc_get_mark_all dom_def)

lemma keyed_mark_all:
  assumes "\<And>e. f (f e) = f e" "\<And>e. be_block (f e) = be_block e"
    and "\<forall>d e. bc_get b d = Some e \<longrightarrow> h_id (be_block e) = d"
  shows "\<forall>d e. bc_get (mark_all f ds b) d = Some e \<longrightarrow> h_id (be_block e) = d"
  using assms(2,3) unfolding bc_get_mark_all [OF assms(1)] by auto

lemma mark_all_grows:
  assumes "\<And>e. f (f e) = f e"
    and "\<And>e. be_block (f e) = be_block e" "\<And>e. flag (f e) = flag e" "\<And>e. sound e \<Longrightarrow> sound (f e)"
    "\<And>e. gate e \<Longrightarrow> gate (f e)"
  shows "grows flag sound gate b (mark_all f ds b)"
  using assms by (auto simp: grows_def bc_get_mark_all same_position_def parent_of_def)

lemma set_direct_keeps_chain_memo: "chain_memo A g b \<Longrightarrow> chain_memo A g (mark_all set_direct ds b)"
  by (rule memo_ok_subset [OF memo_ok_grows cached_mark_all]) (auto intro!: mark_all_grows simp: set_direct_def)

lemma set_chain_keeps_direct_memo: "direct_memo D g b \<Longrightarrow> direct_memo D g (mark_all set_chain ds b)"
  by (rule memo_ok_subset [OF memo_ok_grows cached_mark_all])
    (auto intro!: mark_all_grows simp: set_chain_def direct_gate_def)

lemma memo_ok_note [simp]:
  "memo_ok flag sound gate A g (note_missing_parent a n d b) = memo_ok flag sound gate A g b"
  by (simp add: memo_ok_def link_ok_def)

lemma cache_ok_note [simp]: "cache_ok g A D (note_missing_parent a n d b) = cache_ok g A D b"
  by (simp add: cache_ok_def)

text \<open>Restoring an anchor.\<close>

lemma memo_ok_seed:
  assumes memo: "memo_ok flag sound gate A g b" and d: "bc_get b d = Some e0" "d \<noteq> g" "0 < h_height (be_block e0)"
    and f: "\<And>e. be_block (f e) = be_block e" "\<And>e. flag (f e)" "\<And>e. sound e \<Longrightarrow> sound (f e)"
      "\<And>e. gate e \<Longrightarrow> gate (f e)" and "sound e0"
  shows "memo_ok flag sound gate (insert d A) g (bc_modify d f b)"
proof -
  have link: "link_ok flag g (bc_modify d f b) a h x" if "link_ok flag g b a h x" for a h x
    using that f by (auto simp: link_ok_def bc_get_modify pinned_at_def)
  have "sound e \<and> x \<noteq> g \<and> 0 < h_height (be_block e) \<and>
      (x \<in> insert d A \<or> gate e \<and> link_ok flag g (bc_modify d f b) (h_author (be_block e)) (h_height (be_block e) - 1) (parent_of e))"
    if x: "bc_get (bc_modify d f b) x = Some e" "flag e" for x e
  proof (cases "x = d")
    case True
    then show ?thesis
      using x d f \<open>sound e0\<close> by (auto simp: bc_get_modify)
  next
    case False
    then have "bc_get b x = Some e"
      using x by (simp add: bc_get_modify)
    from memo_okD [OF memo this x(2)] show ?thesis
      using link by blast
  qed
  moreover have "flag e" if "x \<in> insert d A" "bc_get (bc_modify d f b) x = Some e" for x e
    using that memo_ok_anchor [OF memo] f(2) by (auto simp: bc_get_modify split: if_splits)
  ultimately show ?thesis
    unfolding memo_ok_def by blast
qed

lemma seed_cache_ok:
  assumes ok: "cache_ok g A D b" and st: "stable block b" and id: "h_id block \<noteq> g" "0 < h_height block"
  shows "cache_ok g (insert (h_id block) (A \<inter> cached b)) (insert (h_id block) (D \<inter> cached b))
           (bc_modify (h_id block) anchor_entry (upsert block direct repaired pok True b))"
proof -
  let ?b = "upsert block direct repaired pok True b"
  have up: "cache_ok g (A \<inter> cached b) (D \<inter> cached b) ?b"
    by (rule upsert_cache_ok [OF ok st])
  obtain e0 where e0: "bc_get ?b (h_id block) = Some e0" "be_block e0 = block" "be_block_ok_verified e0"
    by (cases "bc_get b (h_id block)") (auto simp: bc_get_upsert)
  have "chain_memo (insert (h_id block) (A \<inter> cached b)) g (bc_modify (h_id block) anchor_entry ?b)"
    using up id e0 by (intro memo_ok_seed [of _ _ _ _ _ _ _ e0]) (auto simp: cache_ok_def anchor_entry_def)
  moreover have "direct_memo (insert (h_id block) (D \<inter> cached b)) g (bc_modify (h_id block) anchor_entry ?b)"
    using up id e0 by (intro memo_ok_seed [of _ _ _ _ _ _ _ e0]) (auto simp: cache_ok_def anchor_entry_def direct_gate_def)
  ultimately show ?thesis
    using up by (auto simp: cache_ok_def bc_get_modify anchor_entry_def)
qed

text \<open>Eviction: a flagged block whose predecessor is removed becomes an anchor.\<close>

definition evicts :: "digest set \<Rightarrow> block_cache \<Rightarrow> block_cache \<Rightarrow> bool" where
  "evicts R b b' \<longleftrightarrow> (\<forall>d. bc_get b' d = (if d \<in> R then None else bc_get b d))"

definition frontier_anchors :: "(block_entry \<Rightarrow> bool) \<Rightarrow> digest set \<Rightarrow> block_cache \<Rightarrow> digest set" where
  "frontier_anchors flag R b = {d. \<exists>e. bc_get b d = Some e \<and> flag e \<and> parent_of e \<in> R}"

lemma memo_ok_evicts:
  assumes memo: "memo_ok flag sound gate A g b" and ev: "evicts R b b'"
  shows "memo_ok flag sound gate (A \<union> frontier_anchors flag R b) g b'"
proof -
  have get: "bc_get b' d = Some e \<Longrightarrow> bc_get b d = Some e" for d e
    using ev by (auto simp: evicts_def split: if_splits)
  have link: "link_ok flag g b' a h d" if "link_ok flag g b a h d" "d \<notin> R" for a h d
    using that ev by (auto simp: link_ok_def evicts_def)
  show ?thesis
    unfolding memo_ok_def
  proof (intro conjI allI impI ballI)
    fix d e
    assume e: "bc_get b' d = Some e" "flag e"
    from memo_okD [OF memo get [OF e(1)] e(2)] link [of _ _ "parent_of e"] get [OF e(1)] e(2)
    show "sound e" "d \<noteq> g" "0 < h_height (be_block e)"
      "d \<in> A \<union> frontier_anchors flag R b \<or>
         gate e \<and> link_ok flag g b' (h_author (be_block e)) (h_height (be_block e) - 1) (parent_of e)"
      by (auto simp: frontier_anchors_def)
  next
    fix d e
    assume "d \<in> A \<union> frontier_anchors flag R b" "bc_get b' d = Some e"
    then show "flag e"
      using memo_ok_anchor [OF memo] get by (auto simp: frontier_anchors_def)
  qed
qed

lemma remove_digests_get: "map_of (fst (remove_digests ds m)) d = (if d \<in> set ds then None else map_of m d)"
proof -
  have "map_of (fst (foldl (\<lambda>(m, dropped) d. (om_del d m, if om_has m d then dropped + 1 else dropped)) (m, k) ds)) d
      = (if d \<in> set ds then None else map_of m d)" for k
    by (induction ds arbitrary: m k) (auto simp: omap_simps)
  from this [of 0] show ?thesis
    unfolding remove_digests_def .
qed

definition author_below :: "public_key \<Rightarrow> height \<Rightarrow> block_cache \<Rightarrow> digest set" where
  "author_below author height b =
     (case map_of (bc_by_author b) author of
        None \<Rightarrow> {}
      | Some by_height \<Rightarrow> \<Union> (set ` snd ` set (filter (\<lambda>e. fst e < height) by_height)))"

lemma evict_evicts: "evicts (author_below author height b) b (fst (evict_author_below author height b))"
proof (cases "map_of (bc_by_author b) author")
  case (Some hs)
  let ?ds = "concat (map snd (filter (\<lambda>e. fst e < height) hs))"
  have "by_digest (fst (evict_author_below author height b)) = fst (remove_digests ?ds (by_digest b))"
    by (simp add: evict_author_below_def Some Let_def case_prod_beta)
  moreover have "set ?ds = author_below author height b"
    by (auto simp: author_below_def Some)
  ultimately show ?thesis
    by (simp add: evicts_def bc_get_def remove_digests_get)
qed (simp add: evicts_def author_below_def evict_author_below_def)

section \<open>Suffixes\<close>

text \<open>The digests from \<open>(h, d)\<close> down to, and without, the coordinate \<open>(h', d')\<close>.\<close>

fun descends :: "block_cache \<Rightarrow> public_key \<Rightarrow> height \<Rightarrow> digest \<Rightarrow> digest list \<Rightarrow> height \<Rightarrow> digest \<Rightarrow> bool" where
  "descends b a h d [] h' d' = (h = h' \<and> d = d')"
| "descends b a h d (x # xs) h' d' =
     (x = d \<and> h' < h \<and> (\<exists>e. bc_get b d = Some e \<and> pinned_at e a h \<and> be_block_ok_verified e
        \<and> descends b a (h - 1) (parent_of e) xs h' d'))"

lemma suffix_walk_ready:
  assumes "stop \<le> h"
  shows "suffix_walk_from b stop sd a h cur chain = SWReady xs \<longleftrightarrow>
    (\<exists>ds. xs = rev (chain @ ds) \<and> descends b a h cur ds stop sd)"
  using assms
proof (induction h arbitrary: cur chain)
  case 0
  have "(\<exists>ds. xs = rev (chain @ ds) \<and> descends b a 0 cur ds 0 sd) \<longleftrightarrow> xs = rev chain \<and> cur = sd"
  proof -
    have "descends b a 0 cur ds 0 sd \<longleftrightarrow> ds = [] \<and> cur = sd" for ds
      by (cases ds) auto
    then show ?thesis by auto
  qed
  with 0 show ?case by auto
next
  case (Suc h)
  show ?case
  proof (cases "Suc h = stop")
    case True
    then have stop: "stop = Suc h" by simp
    have "descends b a (Suc h) cur ds (Suc h) sd \<longleftrightarrow> ds = [] \<and> cur = sd" for ds
      by (cases ds) auto
    then show ?thesis
      unfolding stop by (auto simp del: descends.simps)
  next
    case False
    with Suc.prems have le: "stop \<le> h" by simp
    have un: "descends b a (Suc h) cur ds stop sd \<longleftrightarrow> (\<exists>xs e. ds = cur # xs \<and> bc_get b cur = Some e
        \<and> pinned_at e a (Suc h) \<and> be_block_ok_verified e \<and> descends b a h (parent_of e) xs stop sd)" for ds
      using False le by (cases ds) auto
    have ex: "(\<exists>ds. xs = rev (chain @ ds) \<and> descends b a (Suc h) cur ds stop sd) \<longleftrightarrow>
        (\<exists>ys. xs = rev (chain @ cur # ys) \<and> descends b a (Suc h) cur (cur # ys) stop sd)"
      using un by blast
    show ?thesis
      unfolding ex
    proof (cases "bc_get b cur")
      case (Some e)
      then show "(suffix_walk_from b stop sd a (Suc h) cur chain = SWReady xs) =
          (\<exists>ys. xs = rev (chain @ cur # ys) \<and> descends b a (Suc h) cur (cur # ys) stop sd)"
        using False le Suc.IH [OF le, of "parent_of e" "chain @ [cur]"]
        by (cases "pinned_at e a (Suc h) \<and> be_block_ok_verified e") auto
    qed (use False in auto)
  qed
qed

lemma descends_length: "descends b a h d ds h' d' \<Longrightarrow> h = h' + length ds"
proof (induction ds arbitrary: h d)
  case (Cons x xs)
  then obtain e where "h' < h" "descends b a (h - 1) (parent_of e) xs h' d'"
    by auto
  with Cons.IH [OF this(2)] show ?case by simp
qed simp

text \<open>Two caches that agree on the position of every block that both hold.\<close>

definition compatible :: "block_cache \<Rightarrow> block_cache \<Rightarrow> bool" where
  "compatible b b' \<longleftrightarrow> (\<forall>d e e'. bc_get b d = Some e \<longrightarrow> bc_get b' d = Some e' \<longrightarrow> same_position e e')"

lemma same_position_pinned: "same_position e e' \<Longrightarrow> pinned_at e a h = pinned_at e' a h"
  by (auto simp: same_position_def pinned_at_def)

lemma suffix_walk_agrees:
  assumes "compatible b b'"
    and "suffix_walk_from b stop sd a h cur chain \<noteq> SWPending"
    and "suffix_walk_from b' stop sd a h cur chain \<noteq> SWPending"
  shows "suffix_walk_from b stop sd a h cur chain = suffix_walk_from b' stop sd a h cur chain"
  using assms(2,3)
proof (induction h arbitrary: cur chain)
  case (Suc h)
  show ?case
  proof (cases "Suc h = stop")
    case False
    obtain e e' where e: "bc_get b cur = Some e" "bc_get b' cur = Some e'"
      using Suc.prems False by (cases "bc_get b cur"; cases "bc_get b' cur") auto
    then have parent: "parent_of e' = parent_of e"
      using assms(1) unfolding compatible_def same_position_def by blast
    have ok: "pinned_at e a (Suc h)" "be_block_ok_verified e" "pinned_at e' a (Suc h)" "be_block_ok_verified e'"
      using Suc.prems False e by (auto split: if_splits)
    show ?thesis
      using Suc.prems Suc.IH [of "parent_of e" "chain @ [cur]"] by (simp add: False e ok parent)
  next
    case True
    then have "stop = Suc h" by simp
    then show ?thesis by simp
  qed
qed simp

lemma direct_walk_gate:
  "direct_walk b g a h d newly = WGate x \<Longrightarrow> x \<in> cached b \<and> \<not> direct_gate_ready b x"
proof (induction h arbitrary: d newly)
  case (Suc h)
  then show ?case
    by (cases "bc_get b d") (auto simp: cached_def direct_gate_ready_def split: if_splits)
qed (simp split: if_splits)

text \<open>A node's cache holds nothing that \<open>W\<close> does not hold at the same position.\<close>

definition known :: "block_cache \<Rightarrow> block_cache \<Rightarrow> bool" where
  "known b W \<longleftrightarrow> (\<forall>d e. bc_get b d = Some e \<longrightarrow>
     (\<exists>e'. bc_get W d = Some e' \<and> same_position e e' \<and> (be_block_ok_verified e \<longrightarrow> be_block_ok_verified e')))"

lemma suffix_walk_known:
  assumes "known b W" and "suffix_walk_from b stop sd a h cur chain \<noteq> SWPending"
  shows "suffix_walk_from W stop sd a h cur chain = suffix_walk_from b stop sd a h cur chain"
  using assms(2)
proof (induction h arbitrary: cur chain)
  case (Suc h)
  show ?case
  proof (cases "Suc h = stop")
    case True
    then have "stop = Suc h" by simp
    then show ?thesis by simp
  next
    case False
    obtain e where e: "bc_get b cur = Some e" "pinned_at e a (Suc h)" "be_block_ok_verified e"
      using Suc.prems False by (cases "bc_get b cur") (auto split: if_splits)
    then obtain e' where e': "bc_get W cur = Some e'" "same_position e e'" "be_block_ok_verified e'"
      using assms(1) unfolding known_def by blast
    have "pinned_at e' a (Suc h)" "parent_of e' = parent_of e"
      using e(2) e'(2) by (auto simp: same_position_def pinned_at_def)
    then show ?thesis
      using Suc.prems Suc.IH [of "parent_of e" "chain @ [cur]"] by (simp add: False e e')
  qed
qed simp

lemma classify_known:
  assumes "known b W" "classify_suffix n w d b \<noteq> SWPending"
  shows "classify_suffix n w d W = classify_suffix n w d b"
proof -
  obtain e where e: "bc_get b d = Some e"
    using assms(2) by (cases "bc_get b d") (auto simp: classify_suffix_def)
  then obtain e' where e': "bc_get W d = Some e'" "same_position e e'"
    using assms(1) unfolding known_def by blast
  then show ?thesis
    using assms(2) suffix_walk_known [OF assms(1)] e
    by (simp add: classify_suffix_def same_position_def)
qed

section \<open>The memoised walks decide the reference conditions\<close>

lemma verified_prefix_spec:
  assumes ok: "cache_ok g A D b" and res: "verified_prefix_through_genesis g d b = (b', r)"
  shows "(r \<longleftrightarrow> (\<exists>e. bc_get b d = Some e
        \<and> chain_ok be_block_ok_verified A g b (h_author (be_block e)) (h_height (be_block e)) d))
    \<and> cache_ok g A D b'
    \<and> chain_ok be_block_ok_verified A g b' = chain_ok be_block_ok_verified A g b"
proof (cases "bc_get b d")
  case None
  then show ?thesis
    using res ok by (auto simp: verified_prefix_through_genesis_def)
next
  case (Some e)
  let ?a = "h_author (be_block e)" and ?h = "h_height (be_block e)"
  have memo: "chain_memo A g b" and dmemo: "direct_memo D g b"
    using ok by (simp_all add: cache_ok_def)
  show ?thesis
  proof (cases "be_chain_verified e")
    case True
    then have "chain_ok be_block_ok_verified A g b ?a ?h d"
      using Some memo_okD [OF memo Some True]
      by (intro flag_chain_ok [OF memo]) (auto simp: link_ok_def pinned_self)
    then show ?thesis
      using res ok Some True by (auto simp: verified_prefix_through_genesis_def)
  next
    case False
    note iff = verified.run_iff [OF memo, of ?a ?h d "[]"]
    show ?thesis
    proof (cases "chain_walk b g ?a ?h d []")
      case (WOk newly)
      then have "verified.linked b g ?a ?h d newly"
        using verified.run_linked [OF memo WOk] by auto
      from verified.memo_ok_marked [OF memo this] set_chain_keeps_direct_memo [OF dmemo]
      have "cache_ok g A D (mark_all set_chain newly b)"
        using keyed_mark_all [OF verified.mark_idem verified.mark_keeps(1)] ok unfolding cache_ok_def by blast
      then show ?thesis
        using WOk res Some False iff verified.chain_marked [of A g newly b]
        by (auto simp: verified_prefix_through_genesis_def fun_eq_iff)
    next
      case (WMissing r)
      then show ?thesis
        using res Some False iff ok
        by (cases r) (auto simp: verified_prefix_through_genesis_def fun_eq_iff)
    qed (use res Some False iff ok in \<open>auto simp: verified_prefix_through_genesis_def\<close>)
  qed
qed

lemma direct_prefix_spec:
  assumes ok: "cache_ok g A D b" and res: "direct_prefix_check g d b = (b', r)"
  shows "(r = DPVerified \<longleftrightarrow> (\<exists>e. bc_get b d = Some e
        \<and> chain_ok direct_gate D g b (h_author (be_block e)) (h_height (be_block e)) d))
    \<and> (\<forall>x. r = DPGate x \<longrightarrow> x \<in> cached b \<and> \<not> direct_gate_ready b x)
    \<and> cache_ok g A D b'"
proof (cases "bc_get b d")
  case None
  then show ?thesis
    using res ok by (auto simp: direct_prefix_check_def)
next
  case (Some e)
  let ?a = "h_author (be_block e)" and ?h = "h_height (be_block e)"
  have memo: "chain_memo A g b" and dmemo: "direct_memo D g b"
    using ok by (simp_all add: cache_ok_def)
  show ?thesis
  proof (cases "be_direct_prefix_verified e")
    case True
    then have "chain_ok direct_gate D g b ?a ?h d"
      using Some memo_okD [OF dmemo Some True]
      by (intro flag_chain_ok [OF dmemo]) (auto simp: link_ok_def pinned_self)
    then show ?thesis
      using res ok Some True by (auto simp: direct_prefix_check_def)
  next
    case False
    note iff = direct.run_iff [OF dmemo, of ?a ?h d "[]"]
    show ?thesis
    proof (cases "direct_walk b g ?a ?h d []")
      case (WOk newly)
      then have "direct.linked b g ?a ?h d newly"
        using direct.run_linked [OF dmemo WOk] by auto
      from direct.memo_ok_marked [OF dmemo this] set_direct_keeps_chain_memo [OF memo]
      have "cache_ok g A D (mark_all set_direct newly b)"
        using keyed_mark_all [OF direct.mark_idem direct.mark_keeps(1)] ok unfolding cache_ok_def by blast
      then show ?thesis
        using WOk res Some False iff by (auto simp: direct_prefix_check_def)
    next
      case (WGate x)
      then show ?thesis
        using direct_walk_gate [OF WGate] res Some False iff ok by (auto simp: direct_prefix_check_def)
    next
      case (WMissing r)
      then show ?thesis
        using res Some False iff ok by (cases r) (auto simp: direct_prefix_check_def)
    qed (use res Some False iff ok in \<open>auto simp: direct_prefix_check_def\<close>)
  qed
qed

section \<open>Reachable caches\<close>

text \<open>
  The caches a node can have, with the anchors of both memos: blocks are inserted in the position
  their identifier determines, payloads arrive, prefixes are checked and retained, own anchors are
  restored and old blocks evicted.
\<close>

inductive cache_run :: "digest \<Rightarrow> digest set \<Rightarrow> digest set \<Rightarrow> block_cache \<Rightarrow> bool" for g where
  run_new: "cache_run g {} {} bc_new"
| run_upsert: "cache_run g A D b \<Longrightarrow> stable block b \<Longrightarrow>
    cache_run g (A \<inter> cached b) (D \<inter> cached b) (upsert block direct repaired pok okv b)"
| run_seed: "cache_run g A D b \<Longrightarrow> stable block b \<Longrightarrow> h_id block \<noteq> g \<Longrightarrow> 0 < h_height block \<Longrightarrow>
    cache_run g (insert (h_id block) (A \<inter> cached b)) (insert (h_id block) (D \<inter> cached b)) (seed_own_anchor block b)"
| run_recover: "cache_run g A D b \<Longrightarrow> stable block b \<Longrightarrow> h_id block \<noteq> g \<Longrightarrow> 0 < h_height block \<Longrightarrow>
    cache_run g (insert (h_id block) (A \<inter> cached b)) (insert (h_id block) (D \<inter> cached b)) (seed_recovered_own_anchor block b)"
| run_payload: "cache_run g A D b \<Longrightarrow> cache_run g A D (fst (set_payload_ok d ok b))"
| run_retain: "cache_run g A D b \<Longrightarrow> cache_run g A D (fst (mark_retained d b))"
| run_verify: "cache_run g A D b \<Longrightarrow> cache_run g A D (fst (verified_prefix_through_genesis g d b))"
| run_direct: "cache_run g A D b \<Longrightarrow> cache_run g A D (fst (direct_prefix_check g d b))"
| run_take: "cache_run g A D b \<Longrightarrow> cache_run g A D (fst (bc_take_missing_parents n b))"
| run_evict: "cache_run g A D b \<Longrightarrow>
    cache_run g (A \<union> frontier_anchors be_chain_verified (author_below a n b) b)
      (D \<union> frontier_anchors be_direct_prefix_verified (author_below a n b) b) (fst (evict_author_below a n b))"


inductive_cases cache_run_newE: "cache_run g A D bc_new"

lemma fst_take_missing [simp]: "bc_get (fst (bc_take_missing_parents n b)) = bc_get b"
  by (rule ext) (simp add: bc_take_missing_parents_def bc_get_def)

lemma cache_ok_cong: "bc_get b' = bc_get b \<Longrightarrow> cache_ok g A D b' = cache_ok g A D b"
  by (simp only: cache_ok_def memo_ok_def link_ok_def)

lemma evict_cache_ok:
  assumes "cache_ok g A D b"
  shows "cache_ok g (A \<union> frontier_anchors be_chain_verified (author_below a n b) b)
      (D \<union> frontier_anchors be_direct_prefix_verified (author_below a n b) b) (fst (evict_author_below a n b))"
proof -
  note ev = evict_evicts [of a n b]
  have "\<forall>d e. bc_get (fst (evict_author_below a n b)) d = Some e \<longrightarrow> h_id (be_block e) = d"
    using ev assms unfolding evicts_def cache_ok_def by (auto split: if_splits)
  with memo_ok_evicts [OF _ ev] assms show ?thesis
    unfolding cache_ok_def by blast
qed

lemma cache_run_ok: "cache_run g A D b \<Longrightarrow> cache_ok g A D b"
proof (induction rule: cache_run.induct)
  case (run_verify A D b d)
  then show ?case
    using verified_prefix_spec [OF run_verify.IH, of d] by (cases "verified_prefix_through_genesis g d b") simp
next
  case (run_direct A D b d)
  then show ?case
    using direct_prefix_spec [OF run_direct.IH, of d] by (cases "direct_prefix_check g d b") simp
next
  case (run_take A D b n)
  then show ?case
    using cache_ok_cong [OF fst_take_missing] by blast
qed (simp_all add: cache_ok_new upsert_cache_ok set_payload_ok_cache_ok mark_retained_cache_ok evict_cache_ok
      seed_own_anchor_def seed_recovered_own_anchor_def seed_cache_ok)

section \<open>The author index\<close>

definition indexed :: "block_cache \<Rightarrow> public_key \<Rightarrow> height \<Rightarrow> digest set" where
  "indexed b a h =
     (case map_of (bc_by_author b) a of
        None \<Rightarrow> {}
      | Some hs \<Rightarrow> (case map_of hs h of None \<Rightarrow> {} | Some ds \<Rightarrow> set ds))"

definition index_ok :: "block_cache \<Rightarrow> bool" where
  "index_ok b \<longleftrightarrow>
     omap_ok (by_digest b) \<and> omap_ok (bc_by_author b) \<and> (\<forall>a hs. map_of (bc_by_author b) a = Some hs \<longrightarrow> omap_ok hs)
     \<and> (\<forall>a h d. d \<in> indexed b a h \<longleftrightarrow> (\<exists>e. bc_get b d = Some e \<and> pinned_at e a h))"

lemma indexed_upsert:
  "indexed (upsert block direct repaired pok okv b) a h =
     (if a = h_author block \<and> h = h_height block then insert (h_id block) (indexed b a h) else indexed b a h)"
  by (auto simp: indexed_def upsert_def Let_def omap_simps split: option.splits)

lemma index_ok_upsert:
  assumes ok: "index_ok b" and st: "stable block b"
  shows "index_ok (upsert block direct repaired pok okv b)"
proof -
  let ?b = "upsert block direct repaired pok okv b"
  have "omap_ok (by_digest ?b)" "omap_ok (bc_by_author ?b)"
    using ok by (auto simp: index_ok_def upsert_def Let_def intro: order_intros)
  moreover have "\<forall>a hs. map_of (bc_by_author ?b) a = Some hs \<longrightarrow> omap_ok hs"
    using ok by (auto simp: index_ok_def upsert_def Let_def omap_simps intro!: omap_ok_upd split: if_splits option.splits)
  moreover have "d \<in> indexed ?b a h \<longleftrightarrow> (\<exists>e. bc_get ?b d = Some e \<and> pinned_at e a h)" for a h d
  proof (cases "d = h_id block")
    case False
    then show ?thesis
      using ok by (auto simp: indexed_upsert bc_get_upsert index_ok_def)
  next
    case True
    obtain e where e: "bc_get ?b d = Some e" "be_block e = block"
      using True by (auto simp: bc_get_upsert split: option.splits)
    have old: "d \<in> indexed b a h \<Longrightarrow> a = h_author block \<and> h = h_height block"
      using ok st True by (auto simp: index_ok_def stable_def same_position_def pinned_at_def)
    have "(\<exists>e. bc_get ?b d = Some e \<and> pinned_at e a h) \<longleftrightarrow> a = h_author block \<and> h = h_height block"
      using e by (auto simp: pinned_at_def)
    moreover have "d \<in> indexed ?b a h \<longleftrightarrow> a = h_author block \<and> h = h_height block"
      unfolding indexed_upsert using True old by (cases "a = h_author block \<and> h = h_height block") auto
    ultimately show ?thesis by simp
  qed
  ultimately show ?thesis
    unfolding index_ok_def by blast
qed

lemma index_ok_same:
  assumes "index_ok b" "bc_by_author b' = bc_by_author b" "omap_ok (by_digest b')"
    and "\<And>d. map_option be_block (bc_get b' d) = map_option be_block (bc_get b d)"
  shows "index_ok b'"
proof -
  have "(\<exists>e. bc_get b' d = Some e \<and> pinned_at e a h) \<longleftrightarrow> (\<exists>e. bc_get b d = Some e \<and> pinned_at e a h)" for a h d
    using assms(4) [of d] by (cases "bc_get b' d"; cases "bc_get b d") (auto simp: pinned_at_def)
  then show ?thesis
    using assms(1-3) by (simp add: index_ok_def indexed_def)
qed

lemma index_ok_modify:
  assumes "index_ok b" "\<And>e. be_block (f e) = be_block e"
  shows "index_ok (bc_modify d f b)"
proof (rule index_ok_same [OF assms(1)])
  show "omap_ok (by_digest (bc_modify d f b))"
    using assms(1) by (auto simp: bc_modify_def index_ok_def intro: order_intros split: option.splits)
  show "map_option be_block (bc_get (bc_modify d f b) x) = map_option be_block (bc_get b x)" for x
    using assms(2) by (cases "bc_get b x") (auto simp: bc_get_modify)
qed (simp add: bc_modify_def split: option.splits)

lemma index_ok_mark_all: "index_ok b \<Longrightarrow> (\<And>e. be_block (f e) = be_block e) \<Longrightarrow> index_ok (mark_all f ds b)"
  unfolding mark_all_def by (induction ds arbitrary: b) (auto simp: index_ok_modify)

lemma note_missing_fields [simp]:
  "bc_by_author (note_missing_parent a n d b) = bc_by_author b"
  "by_digest (note_missing_parent a n d b) = by_digest b"
  by (simp_all add: note_missing_parent_def)

lemma index_ok_note: "index_ok b \<Longrightarrow> index_ok (note_missing_parent a n d b)"
  by (rule index_ok_same [of b]) (simp_all add: index_ok_def)

lemma omap_ok_remove_digests: "omap_ok m \<Longrightarrow> omap_ok (fst (remove_digests ds m))"
proof -
  have "omap_ok m \<Longrightarrow> omap_ok (fst (foldl (\<lambda>(m, dropped) d. (om_del d m, if om_has m d then dropped + 1 else dropped)) (m, k) ds))" for k
    by (induction ds arbitrary: m k) (auto intro: order_intros)
  then show "omap_ok m \<Longrightarrow> omap_ok (fst (remove_digests ds m))"
    unfolding remove_digests_def .
qed

lemma remove_digests_count: "omap_ok m \<Longrightarrow> snd (remove_digests ds m) = card (set ds \<inter> dom (map_of m))"
proof -
  have "omap_ok m \<Longrightarrow> snd (foldl (\<lambda>(m, dropped) d. (om_del d m, if om_has m d then dropped + 1 else dropped)) (m, k) ds)
      = k + card (set ds \<inter> dom (map_of m))" for k
  proof (induction ds arbitrary: m k)
    case (Cons d ds)
    let ?m = "om_del d m"
    have "omap_ok ?m"
      using Cons.prems by (rule omap_ok_del)
    moreover have "set (d # ds) \<inter> dom (map_of m) =
        (if om_has m d then insert d (set ds \<inter> dom (map_of ?m)) else set ds \<inter> dom (map_of ?m))"
      by (auto simp: omap_simps om_has_def dom_def)
    moreover have "d \<notin> set ds \<inter> dom (map_of ?m)"
      by (auto simp: omap_simps)
    ultimately show ?case
      using Cons.IH [of ?m] by (simp add: finite_dom_map_of)
  qed simp
  from this [of 0] show "omap_ok m \<Longrightarrow> snd (remove_digests ds m) = card (set ds \<inter> dom (map_of m))"
    unfolding remove_digests_def by simp
qed

lemma author_below_iff:
  assumes "index_ok b"
  shows "d \<in> author_below a n b \<longleftrightarrow> (\<exists>e h. bc_get b d = Some e \<and> pinned_at e a h \<and> h < n)"
proof -
  have "d \<in> author_below a n b \<longleftrightarrow> (\<exists>h < n. d \<in> indexed b a h)"
  proof (cases "map_of (bc_by_author b) a")
    case (Some hs)
    then have "omap_ok hs"
      using assms by (simp add: index_ok_def)
    note mem = omap_ok_map_of [OF this]
    have "d \<in> author_below a n b \<longleftrightarrow> (\<exists>h ds. (h, ds) \<in> set hs \<and> h < n \<and> d \<in> set ds)"
      by (auto simp: author_below_def Some)
    also have "\<dots> \<longleftrightarrow> (\<exists>h < n. \<exists>ds. map_of hs h = Some ds \<and> d \<in> set ds)"
      unfolding mem by blast
    also have "\<dots> \<longleftrightarrow> (\<exists>h < n. d \<in> indexed b a h)"
    proof -
      have "d \<in> indexed b a h \<longleftrightarrow> (\<exists>ds. map_of hs h = Some ds \<and> d \<in> set ds)" for h
        by (cases "map_of hs h") (simp_all add: indexed_def Some)
      then show ?thesis by blast
    qed
    finally show ?thesis .
  qed (simp add: author_below_def indexed_def)
  then show ?thesis
    using assms by (auto simp: index_ok_def)
qed

lemma indexed_evict:
  assumes "index_ok b"
  shows "indexed (fst (evict_author_below a n b)) x h = (if x = a \<and> h < n then {} else indexed b x h)"
proof (cases "map_of (bc_by_author b) a")
  case (Some hs)
  have idx: "bc_by_author (fst (evict_author_below a n b)) =
      (if om_from n hs = [] then om_del a (bc_by_author b) else om_put a (om_from n hs) (bc_by_author b))"
    by (simp add: evict_author_below_def Some Let_def case_prod_beta)
  have hs: "map_of (om_from n hs) h = (if n \<le> h then map_of hs h else None)"
    by (simp add: omap_simps)
  show ?thesis
  proof (cases "om_from n hs = []")
    case True
    with hs have "n \<le> h \<Longrightarrow> map_of hs h = None" by simp
    then show ?thesis
      using True Some by (auto simp: indexed_def idx omap_simps)
  next
    case False
    then show ?thesis
      using Some hs by (auto simp: indexed_def idx omap_simps)
  qed
qed (simp add: indexed_def evict_author_below_def)

lemma evict_get:
  assumes "index_ok b"
  shows "bc_get (fst (evict_author_below a n b)) d =
     (case bc_get b d of
        None \<Rightarrow> None
      | Some e \<Rightarrow> if h_author (be_block e) = a \<and> h_height (be_block e) < n then None else Some e)"
  using evict_evicts [of a n b] author_below_iff [OF assms, of d a n]
  by (auto simp: evicts_def pinned_at_def split: option.splits)

lemma index_ok_evict:
  assumes ok: "index_ok b"
  shows "index_ok (fst (evict_author_below a n b))"
proof -
  let ?b = "fst (evict_author_below a n b)"
  have "omap_ok (by_digest ?b)" "omap_ok (bc_by_author ?b)"
    using ok by (auto simp: evict_author_below_def index_ok_def case_prod_beta Let_def omap_ok_remove_digests
        intro: order_intros split: option.splits)
  moreover have "omap_ok hs" if "map_of (bc_by_author ?b) x = Some hs" for x hs
    using that ok by (auto simp: evict_author_below_def index_ok_def case_prod_beta Let_def omap_simps
        intro: order_intros split: option.splits if_splits)
  moreover have "d \<in> indexed ?b x h \<longleftrightarrow> (\<exists>e. bc_get ?b d = Some e \<and> pinned_at e x h)" for x h d
    using ok by (auto simp: indexed_evict [OF ok] evict_get [OF ok] index_ok_def pinned_at_def split: option.splits if_splits)
  ultimately show ?thesis
    unfolding index_ok_def by blast
qed

lemma index_ok_verify: "index_ok b \<Longrightarrow> index_ok (fst (verified_prefix_through_genesis g d b))"
  by (auto simp: verified_prefix_through_genesis_def set_chain_def intro: index_ok_mark_all index_ok_note
      split: option.split walk.split)

lemma index_ok_direct: "index_ok b \<Longrightarrow> index_ok (fst (direct_prefix_check g d b))"
  by (auto simp: direct_prefix_check_def set_direct_def intro: index_ok_mark_all index_ok_note
      split: option.split walk.split)

lemma cache_run_index_ok: "cache_run g A D b \<Longrightarrow> index_ok b"
proof (induction rule: cache_run.induct)
  case run_new
  then show ?case
    by (simp add: index_ok_def bc_new_def indexed_def bc_get_def)
next
  case (run_take A D b n)
  have "omap_ok (by_digest b)"
    using run_take.IH by (simp add: index_ok_def)
  then show ?case
    by (intro index_ok_same [OF run_take.IH]) (simp_all add: bc_take_missing_parents_def bc_get_def)
next
  case (run_payload A D b d ok)
  then show ?case
    by (auto simp: set_payload_ok_def intro: index_ok_modify split: option.split)
next
  case (run_retain A D b d)
  then show ?case
    by (auto simp: mark_retained_def intro: index_ok_modify split: option.split)
qed (simp_all add: index_ok_upsert index_ok_modify index_ok_verify index_ok_direct index_ok_evict
      seed_own_anchor_def seed_recovered_own_anchor_def anchor_entry_def)

section \<open>Properties\<close>

text \<open>C20. In every reachable cache the memoised check of a verified prefix decides the reference
  condition: it succeeds exactly when the block is cached and a chain of validated blocks of its
  author leads from it at consecutive heights to genesis or to an anchor, and it changes no later
  answer.\<close>

theorem verified_prefix_matches_reference:
  assumes "cache_run g A D b" and "verified_prefix_through_genesis g d b = (b', r)"
  shows "(r \<longleftrightarrow> (\<exists>e. bc_get b d = Some e
        \<and> chain_ok be_block_ok_verified A g b (h_author (be_block e)) (h_height (be_block e)) d))
    \<and> chain_ok be_block_ok_verified A g b' = chain_ok be_block_ok_verified A g b"
  using verified_prefix_spec [OF cache_run_ok [OF assms(1)] assms(2)] by blast

text \<open>C21. In every reachable cache the memoised check of a direct prefix decides its reference
  condition: every block down to genesis or an anchor was received from its author and has its
  payload. If it reports a gate, that block is cached and indeed not ready.\<close>

theorem direct_prefix_matches_reference:
  assumes "cache_run g A D b" and "direct_prefix_check g d b = (b', r)"
  shows "(r = DPVerified \<longleftrightarrow> (\<exists>e. bc_get b d = Some e
        \<and> chain_ok direct_gate D g b (h_author (be_block e)) (h_height (be_block e)) d))
    \<and> (\<forall>x. r = DPGate x \<longrightarrow> x \<in> cached b \<and> \<not> direct_gate_ready b x)"
  using direct_prefix_spec [OF cache_run_ok [OF assms(1)] assms(2)] by blast

text \<open>C22. Nodes agree on lane suffixes: if two caches hold every common block at the same
  position and neither answer is pending, both classify the suffix above a watermark alike, with
  the same digests. A ready suffix consists of one validated block per height above the watermark
  and ends in the requested block.\<close>

theorem suffix_classification_agrees:
  assumes "compatible b b'" "classify_suffix n w d b \<noteq> SWPending" "classify_suffix n w d b' \<noteq> SWPending"
  shows "classify_suffix n w d b = classify_suffix n w d b'
    \<and> (\<forall>xs e. classify_suffix n w d b = SWReady xs \<longrightarrow> bc_get b d = Some e \<longrightarrow> n \<le> h_height (be_block e) \<longrightarrow>
         length xs = h_height (be_block e) - n \<and> (xs \<noteq> [] \<longrightarrow> last xs = d)
         \<and> descends b (h_author (be_block e)) (h_height (be_block e)) d (rev xs) n w)"
proof -
  obtain e e' where e: "bc_get b d = Some e" "bc_get b' d = Some e'"
    using assms(2,3) by (cases "bc_get b d"; cases "bc_get b' d") (auto simp: classify_suffix_def)
  have pos: "h_author (be_block e') = h_author (be_block e)" "h_height (be_block e') = h_height (be_block e)"
    using assms(1) e unfolding compatible_def same_position_def by blast+
  have "classify_suffix n w d b = classify_suffix n w d b'"
    using suffix_walk_agrees [OF assms(1), of n w "h_author (be_block e)" "h_height (be_block e)" d "[]"] assms(2,3)
    by (simp add: classify_suffix_def e pos)
  moreover have "length xs = h_height (be_block e) - n \<and> (xs \<noteq> [] \<longrightarrow> last xs = d)
         \<and> descends b (h_author (be_block e)) (h_height (be_block e)) d (rev xs) n w"
    if ready: "classify_suffix n w d b = SWReady xs" "n \<le> h_height (be_block e)" for xs
  proof -
    obtain ds where ds: "xs = rev ds" "descends b (h_author (be_block e)) (h_height (be_block e)) d ds n w"
      using suffix_walk_ready [OF ready(2)] ready(1) by (auto simp: classify_suffix_def e)
    then have "length xs = h_height (be_block e) - n"
      using descends_length by fastforce
    moreover have "xs \<noteq> [] \<longrightarrow> last xs = d"
      using ds by (cases ds) auto
    ultimately show ?thesis
      using ds by simp
  qed
  ultimately show ?thesis
    using e(1) by auto
qed

text \<open>C36. Eviction deletes exactly the author's blocks below the floor from a reachable cache,
  keeps every other entry unchanged and returns the number of blocks deleted.\<close>

theorem eviction_exact:
  assumes "cache_run g A D b"
  shows "(\<forall>d. bc_get (fst (evict_author_below a n b)) d =
       (case bc_get b d of
          None \<Rightarrow> None
        | Some e \<Rightarrow> if h_author (be_block e) = a \<and> h_height (be_block e) < n then None else Some e))
    \<and> snd (evict_author_below a n b) =
       card {d. \<exists>e. bc_get b d = Some e \<and> h_author (be_block e) = a \<and> h_height (be_block e) < n}"
proof -
  have ok: "index_ok b"
    by (rule cache_run_index_ok [OF assms])
  have below: "author_below a n b = {d. \<exists>e. bc_get b d = Some e \<and> h_author (be_block e) = a \<and> h_height (be_block e) < n}"
    using author_below_iff [OF ok, of _ a n] by (auto simp: pinned_at_def)
  have "snd (evict_author_below a n b) = card (author_below a n b)"
  proof (cases "map_of (bc_by_author b) a")
    case (Some hs)
    let ?ds = "concat (map snd (filter (\<lambda>e. fst e < n) hs))"
    have ds: "set ?ds = author_below a n b"
      by (auto simp: author_below_def Some)
    have "snd (evict_author_below a n b) = snd (remove_digests ?ds (by_digest b))"
      by (simp add: evict_author_below_def Some Let_def case_prod_beta)
    also have "\<dots> = card (author_below a n b \<inter> dom (map_of (by_digest b)))"
      using ok by (subst remove_digests_count, simp add: index_ok_def) (simp only: ds)
    also have "author_below a n b \<inter> dom (map_of (by_digest b)) = author_below a n b"
      unfolding below by (auto simp: bc_get_def)
    finally show ?thesis .
  qed (simp add: evict_author_below_def author_below_def)
  then show ?thesis
    using evict_get [OF ok] unfolding below by simp
qed

definition demo_header :: "height \<Rightarrow> digest \<Rightarrow> digest \<Rightarrow> header" where
  "demo_header n d prev = (new_vantage demo_hash (PublicKey 1) n [] prev (Digest 9))\<lparr>h_id := d\<rparr>"

definition demo_cache :: block_cache where
  "demo_cache = upsert (demo_header (Suc (Suc 0)) (Digest 12) (Digest 11)) True False True True
     (upsert (demo_header (Suc 0) (Digest 11) (Digest 0)) True False True True bc_new)"

lemmas demo_cache_simps = demo_cache_def demo_header_def new_vantage_def upsert_def bc_new_def bc_get_def
  om_upd_def Let_def pinned_at_def parent_of_def

lemma demo_cache_run: "cache_run (Digest 0) {} {} demo_cache"
proof -
  let ?b = "upsert (demo_header (Suc 0) (Digest 11) (Digest 0)) True False True True bc_new"
  have "stable (demo_header (Suc 0) (Digest 11) (Digest 0)) bc_new"
    by (simp add: stable_def bc_new_def bc_get_def)
  from run_upsert [OF run_new this] have "cache_run (Digest 0) {} {} ?b"
    by simp
  moreover have "stable (demo_header (Suc (Suc 0)) (Digest 12) (Digest 11)) ?b"
    by (simp add: stable_def demo_cache_simps)
  ultimately show ?thesis
    using run_upsert [of "Digest 0" "{}" "{}" ?b] unfolding demo_cache_def by simp
qed

lemma demo_verify: "snd (verified_prefix_through_genesis (Digest 0) (Digest 12) demo_cache)"
  by (simp add: verified_prefix_through_genesis_def demo_cache_simps)

lemma demo_direct: "snd (direct_prefix_check (Digest 0) (Digest 12) demo_cache) = DPVerified"
  by (simp add: direct_prefix_check_def demo_cache_simps)

theorem verified_prefix_matches_reference_witness:
  "\<exists>e. bc_get demo_cache (Digest 12) = Some e
     \<and> chain_ok be_block_ok_verified {} (Digest 0) demo_cache (h_author (be_block e)) (h_height (be_block e)) (Digest 12)"
  using verified_prefix_matches_reference [OF demo_cache_run surjective_pairing [of "verified_prefix_through_genesis (Digest 0) (Digest 12) demo_cache"]] demo_verify
  by blast

theorem direct_prefix_matches_reference_witness:
  "\<exists>e. bc_get demo_cache (Digest 12) = Some e
     \<and> chain_ok direct_gate {} (Digest 0) demo_cache (h_author (be_block e)) (h_height (be_block e)) (Digest 12)"
  using direct_prefix_matches_reference [OF demo_cache_run surjective_pairing [of "direct_prefix_check (Digest 0) (Digest 12) demo_cache"]] demo_direct
  by blast

theorem eviction_exact_witness: "bc_get (fst (evict_author_below (PublicKey 1) 2 demo_cache)) (Digest 11) = None"
  using eviction_exact [OF demo_cache_run, of "PublicKey 1" 2] by (simp add: demo_cache_simps)

theorem suffix_classification_agrees_witness:
  "classify_suffix 1 (Digest 11) (Digest 12) demo_cache =
   classify_suffix 1 (Digest 11) (Digest 12) (fst (evict_author_below (PublicKey 1) 2 demo_cache))"
proof -
  let ?b = "fst (evict_author_below (PublicKey 1) 2 demo_cache)"
  have "compatible demo_cache ?b"
    using evict_get [OF cache_run_index_ok [OF demo_cache_run], of "PublicKey 1" 2]
    by (auto simp: compatible_def same_position_def split: option.splits if_splits)
  moreover have "classify_suffix 1 (Digest 11) (Digest 12) demo_cache \<noteq> SWPending"
    by (simp add: classify_suffix_def demo_cache_simps)
  moreover have "classify_suffix 1 (Digest 11) (Digest 12) ?b \<noteq> SWPending"
    by (simp add: classify_suffix_def evict_author_below_def remove_digests_def om_from_def om_del_def om_has_def demo_cache_simps)
  ultimately show ?thesis
    using suffix_classification_agrees by blast
qed

end
