(* ===== verification/Avail.thy ===== *)
theory Avail
  imports Ack_Aggregator Block_Cache "HOL-Library.Product_Lexorder"
begin

text \<open>
  The availability resolver (\<^verbatim>\<open>primary/src/vantage/avail.rs\<close>): it turns height claims of peers
  into exact block references, crediting a verified suffix above the floor of each (sender, author)
  pair, and memoises verified chain segments and derived ancestors per author. The shared block
  cache is an argument; the walk counters and metrics are left out. A \<^verbatim>\<open>HashSet\<close> that is only
  iterated is kept in ascending order.
\<close>

section \<open>Chain segments\<close>

record avail_entry =
  ae_author :: public_key
  ae_height :: height
  ae_head :: digest

type_synonym chain_segment = "(height, digest) omap"

abbreviation at_quorum_heights :: nat where
  "at_quorum_heights \<equiv> 1024"

abbreviation chain_segment_heights :: height where
  "chain_segment_heights \<equiv> 256"

abbreviation relative_anchor_heights :: height where
  "relative_anchor_heights \<equiv> 32"

abbreviation relative_targets_max :: nat where
  "relative_targets_max \<equiv> 1024"

definition digest_at :: "chain_segment \<Rightarrow> height \<Rightarrow> digest option" where
  "digest_at seg h = map_of seg h"

definition seg_suffix :: "chain_segment \<Rightarrow> height \<Rightarrow> digest \<Rightarrow> height \<Rightarrow> digest \<Rightarrow> digest list option" where
  "seg_suffix seg floor_height floor_digest height head =
     (if digest_at seg floor_height \<noteq> Some floor_digest \<or> digest_at seg height \<noteq> Some head then None
      else let sfx = map snd (filter (\<lambda>e. floor_height < fst e \<and> fst e \<le> height) seg)
           in if length sfx = height - floor_height then Some sfx else None)"

definition seg_ancestor :: "chain_segment \<Rightarrow> height \<Rightarrow> digest \<Rightarrow> height \<Rightarrow> digest option" where
  "seg_ancestor seg height digest target_height =
     (if digest_at seg height \<noteq> Some digest then None
      else case digest_at seg target_height of
             None \<Rightarrow> None
           | Some target \<Rightarrow>
               if length (filter (\<lambda>e. target_height \<le> fst e \<and> fst e \<le> height) seg) = height - target_height + 1
               then Some target else None)"

definition shared_height :: "chain_segment \<Rightarrow> height \<Rightarrow> height \<Rightarrow> height option" where
  "shared_height seg lo hi =
     (if seg = [] then None
      else let base = fst (hd seg); top = fst (last seg); shared = min top hi
           in if max base lo \<le> shared then Some shared else None)"

definition prune_below_window :: "chain_segment \<Rightarrow> chain_segment" where
  "prune_below_window seg =
     (if seg = [] \<or> fst (last seg) < chain_segment_heights then seg
      else om_from (fst (last seg) - chain_segment_heights) seg)"

section \<open>The resolver\<close>

type_synonym pending_relative_claim = "public_key \<times> block_ref \<times> height"

type_synonym relative_targets = "(height \<times> digest \<times> height, block_ref) omap"

record claim_credits =
  cr_references :: "block_ref list"
  cr_newly_exact_quorum :: "block_ref list"

record avail_resolver =
  av_index :: committee_index
  av_genesis :: digest
  av_credited_floor :: "(height \<times> digest) by_pair"
  av_pending_avail :: "avail_entry by_pair"
  av_pending_by_author :: "slot_set by_author"
  av_pending_relative :: "pending_relative_claim oset"
  av_pending_relative_by_author :: "(public_key, pending_relative_claim oset) omap"
  av_at_quorum :: "(height \<times> digest) oset by_author"
  av_claimed :: "(height \<times> digest) by_pair"
  av_exact_claims :: ack_aggregator
  av_segments :: "chain_segment by_author"
  av_relative :: "relative_targets by_author"

definition avail_resolver_new :: "committee \<Rightarrow> digest \<Rightarrow> avail_resolver" where
  "avail_resolver_new c genesis =
     (let index = committee_index_new c
      in \<lparr>av_index = index, av_genesis = genesis, av_credited_floor = bp_new index, av_pending_avail = bp_new index,
          av_pending_by_author = ba_new index ss_empty, av_pending_relative = [], av_pending_relative_by_author = [],
          av_at_quorum = ba_new index [], av_claimed = bp_new index, av_exact_claims = ack_aggregator_new c,
          av_segments = ba_new index [], av_relative = ba_new index []\<rparr>)"

text \<open>Every position below the committee size resolves, so the option of \<^const>\<open>ci_at\<close> is present.\<close>

definition av_reset_author :: "public_key \<Rightarrow> block_ref \<Rightarrow> avail_resolver \<Rightarrow> avail_resolver" where
  "av_reset_author author anchor av =
     (let lane = ci_slot (av_index av) author; mark = (ref_height anchor, ref_digest anchor)
      in av\<lparr>av_credited_floor :=
              fold (\<lambda>k. bp_insert (ci_slot (av_index av) k) lane mark) (ci_keys (av_index av))
                (bp_clear_author lane (av_credited_floor av)),
            av_pending_avail := bp_clear_author lane (av_pending_avail av),
            av_pending_by_author := ba_clear ss_empty lane (av_pending_by_author av),
            av_pending_relative := filter (\<lambda>(_, a, _). ref_author a \<noteq> author) (av_pending_relative av),
            av_pending_relative_by_author := om_del author (av_pending_relative_by_author av),
            av_at_quorum := ba_entry [] lane (\<lambda>_. [mark]) (av_at_quorum av),
            av_claimed := bp_clear_author lane (av_claimed av),
            av_exact_claims := ag_reset_author author (av_exact_claims av),
            av_segments := ba_clear [] lane (av_segments av),
            av_relative := ba_clear [] lane (av_relative av)\<rparr>)"

definition note_exact_claim :: "public_key \<Rightarrow> block_ref \<Rightarrow> avail_resolver \<Rightarrow> avail_resolver \<times> bool" where
  "note_exact_claim sender r av =
     (let (ag, result) = record_ack sender r (av_exact_claims av)
      in (av\<lparr>av_exact_claims := ag\<rparr>,
          (case ar_availability result of None \<Rightarrow> False | Some a \<Rightarrow> aa_threshold a = Quorum)))"

definition is_exact_quorum :: "block_ref \<Rightarrow> avail_resolver \<Rightarrow> bool" where
  "is_exact_quorum r av = is_at_quorum r (av_exact_claims av)"

definition lane_at_quorum :: "avail_resolver \<Rightarrow> slot \<Rightarrow> height \<Rightarrow> digest \<Rightarrow> bool" where
  "lane_at_quorum av lane height digest =
     (case ba_get (av_at_quorum av) lane of None \<Rightarrow> False | Some s \<Rightarrow> (height, digest) \<in> set s)"

definition av_is_at_quorum :: "avail_resolver \<Rightarrow> block_ref \<Rightarrow> bool" where
  "av_is_at_quorum av r = lane_at_quorum av (ci_slot (av_index av) (ref_author r)) (ref_height r) (ref_digest r)"

definition note_threshold :: "block_ref \<Rightarrow> ack_threshold \<Rightarrow> avail_resolver \<Rightarrow> avail_resolver" where
  "note_threshold r threshold av =
     (if threshold \<noteq> Quorum then av
      else av\<lparr>av_at_quorum := ba_entry [] (ci_slot (av_index av) (ref_author r))
             (\<lambda>s. let s = os_ins (ref_height r, ref_digest r) s
                  in if length s > at_quorum_heights
                     then os_from (fst (s ! (length s - at_quorum_heights)), Digest 0) s else s)
             (av_at_quorum av)\<rparr>)"

section \<open>Verified segments\<close>

definition walked_at :: "height \<Rightarrow> digest \<Rightarrow> digest list \<Rightarrow> height \<Rightarrow> digest" where
  "walked_at floor_height floor_digest sfx height =
     (if height = floor_height then floor_digest else sfx ! (height - floor_height - 1))"

definition segment_agrees :: "height \<Rightarrow> digest \<Rightarrow> digest list \<Rightarrow> chain_segment \<Rightarrow> bool" where
  "segment_agrees floor_height floor_digest sfx seg =
     (case shared_height seg floor_height (floor_height + length sfx) of
        None \<Rightarrow> False
      | Some height \<Rightarrow> digest_at seg height = Some (walked_at floor_height floor_digest sfx height))"

text \<open>The coordinates of a walked run, ascending.\<close>

definition run_coords :: "height \<Rightarrow> digest \<Rightarrow> digest list \<Rightarrow> (height \<times> digest) list" where
  "run_coords floor_height floor_digest sfx =
     zip [floor_height..<floor_height + length sfx + 1] (floor_digest # sfx)"

definition merge_segment :: "height \<Rightarrow> digest \<Rightarrow> digest list \<Rightarrow> chain_segment \<Rightarrow> chain_segment" where
  "merge_segment floor_height floor_digest sfx seg =
     prune_below_window
       (fold (\<lambda>(h, d). om_put h d) (run_coords floor_height floor_digest sfx)
         (if segment_agrees floor_height floor_digest sfx seg then seg else []))"

definition memoize_segment :: "slot \<Rightarrow> height \<Rightarrow> digest \<Rightarrow> digest list \<Rightarrow> avail_resolver \<Rightarrow> avail_resolver" where
  "memoize_segment lane floor_height floor_digest sfx av =
     (if sfx = [] then av
      else av\<lparr>av_segments := ba_entry [] lane (merge_segment floor_height floor_digest sfx) (av_segments av)\<rparr>)"

definition verified_segment ::
    "block_cache \<Rightarrow> slot \<Rightarrow> avail_entry \<Rightarrow> height \<Rightarrow> digest \<Rightarrow> avail_resolver \<Rightarrow> avail_resolver \<times> digest list option" where
  "verified_segment b lane e floor_height floor_digest av =
     (case Option.bind (ba_get (av_segments av) lane)
             (\<lambda>seg. seg_suffix seg floor_height floor_digest (ae_height e) (ae_head e)) of
        Some sfx \<Rightarrow> (av, Some sfx)
      | None \<Rightarrow>
          (case collect_verified_suffix floor_height floor_digest (ae_head e) b of
             Some sfx \<Rightarrow> (memoize_segment lane floor_height floor_digest sfx av, Some sfx)
           | None \<Rightarrow> (av, None)))"

text \<open>The references of a suffix that are not known to be at quorum.\<close>

definition credit_refs :: "avail_resolver \<Rightarrow> slot \<Rightarrow> public_key \<Rightarrow> height \<Rightarrow> digest list \<Rightarrow> block_ref list" where
  "credit_refs av lane author floor_height sfx =
     List.map_filter (\<lambda>(i, d).
       if lane_at_quorum av lane (floor_height + 1 + i) d then None else Some (author, floor_height + 1 + i, d))
       (enumerate 0 sfx)"

definition resolve_one ::
    "block_cache \<Rightarrow> slot \<Rightarrow> slot \<Rightarrow> avail_entry \<Rightarrow> avail_resolver \<Rightarrow> avail_resolver \<times> block_ref list" where
  "resolve_one b sender lane e av =
     (let flr = bp_get (av_credited_floor av) sender lane;
          floor_height = (case flr of None \<Rightarrow> 0 | Some (h, _) \<Rightarrow> h)
      in if ae_height e \<le> floor_height then (av, [])
         else
           let floor_digest = (case flr of None \<Rightarrow> av_genesis av | Some (_, d) \<Rightarrow> d)
           in case verified_segment b lane e floor_height floor_digest av of
                (av, Some sfx) \<Rightarrow>
                  (let refs = credit_refs av lane (ae_author e) floor_height sfx;
                       av = (if sfx = [] then av
                             else av\<lparr>av_credited_floor := bp_insert sender lane (floor_height + length sfx, last sfx)
                                    (av_credited_floor av)\<rparr>)
                   in (av\<lparr>av_pending_avail := bp_remove sender lane (av_pending_avail av),
                          av_pending_by_author := ba_entry ss_empty lane (\<lambda>s. snd (ss_remove sender s)) (av_pending_by_author av)\<rparr>,
                       refs))
              | (av, None) \<Rightarrow>
                  (av\<lparr>av_pending_by_author := ba_entry ss_empty lane (\<lambda>s. snd (ss_insert sender s)) (av_pending_by_author av),
                      av_pending_avail := bp_insert sender lane e (av_pending_avail av)\<rparr>,
                   if lane_at_quorum av lane (ae_height e) (ae_head e) then []
                   else [(ae_author e, ae_height e, ae_head e)]))"

fun resolve_entries :: "block_cache \<Rightarrow> slot \<Rightarrow> avail_entry list \<Rightarrow> avail_resolver \<Rightarrow> avail_resolver \<times> block_ref list" where
  "resolve_entries b sender [] av = (av, [])"
| "resolve_entries b sender (e # es) av =
     (let (av, refs) = resolve_one b sender (ci_slot (av_index av) (ae_author e)) e av;
          (av, refs') = resolve_entries b sender es av
      in (av, refs @ refs'))"

definition resolve_watermark :: "block_cache \<Rightarrow> public_key \<Rightarrow> avail_entry list \<Rightarrow> avail_resolver \<Rightarrow> avail_resolver \<times> block_ref list" where
  "resolve_watermark b sender entries av = resolve_entries b (ci_slot (av_index av) sender) entries av"

section \<open>Positional claims\<close>

definition cached_relative :: "block_ref \<Rightarrow> height \<Rightarrow> avail_resolver \<Rightarrow> block_ref option" where
  "cached_relative anchor delta av =
     (let target_height = ref_height anchor - delta; lane = ci_slot (av_index av) (ref_author anchor)
      in case Option.bind (ba_get (av_segments av) lane)
                (\<lambda>seg. seg_ancestor seg (ref_height anchor) (ref_digest anchor) target_height) of
           Some digest \<Rightarrow> Some (ref_author anchor, target_height, digest)
         | None \<Rightarrow> Option.bind (ba_get (av_relative av) lane)
                     (\<lambda>memo. map_of memo (ref_height anchor, ref_digest anchor, delta)))"

definition relative_insert :: "block_ref \<Rightarrow> height \<Rightarrow> block_ref \<Rightarrow> relative_targets \<Rightarrow> relative_targets" where
  "relative_insert anchor delta target memo =
     (let memo = om_put (ref_height anchor, ref_digest anchor, delta) target memo;
          top = fst (fst (last memo));
          memo = (if top < relative_anchor_heights then memo
                  else om_from (top - relative_anchor_heights, Digest 0, 0) memo)
      in if length memo > relative_targets_max then [] else memo)"

definition memoize_relative :: "block_ref \<Rightarrow> height \<Rightarrow> block_ref \<Rightarrow> avail_resolver \<Rightarrow> avail_resolver" where
  "memoize_relative anchor delta target av =
     av\<lparr>av_relative := ba_entry [] (ci_slot (av_index av) (ref_author anchor)) (relative_insert anchor delta target)
          (av_relative av)\<rparr>"

definition resolve_relative :: "block_cache \<Rightarrow> block_ref \<Rightarrow> height \<Rightarrow> avail_resolver \<Rightarrow> avail_resolver \<times> ancestor_walk" where
  "resolve_relative b anchor delta av =
     (case (if 0 < delta \<and> delta < ref_height anchor then cached_relative anchor delta av else None) of
        Some r \<Rightarrow> (av, AWReady r)
      | None \<Rightarrow>
          (case resolve_verified_ancestor anchor delta b of
             AWReady r \<Rightarrow> (memoize_relative anchor delta r av, AWReady r)
           | walked \<Rightarrow> (av, walked)))"

definition credit_claim_prefix :: "block_cache \<Rightarrow> slot \<Rightarrow> block_ref \<Rightarrow> avail_resolver \<Rightarrow> avail_resolver \<times> block_ref list" where
  "credit_claim_prefix b sender r av =
     (let lane = ci_slot (av_index av) (ref_author r);
          av = (if (case bp_get (av_claimed av) sender lane of None \<Rightarrow> True | Some (h, _) \<Rightarrow> h < ref_height r)
                then av\<lparr>av_claimed := bp_insert sender lane (ref_height r, ref_digest r) (av_claimed av)\<rparr> else av)
      in resolve_one b sender lane \<lparr>ae_author = ref_author r, ae_height = ref_height r, ae_head = ref_digest r\<rparr> av)"

definition remember_relative :: "public_key \<Rightarrow> block_ref \<Rightarrow> height \<Rightarrow> avail_resolver \<Rightarrow> avail_resolver" where
  "remember_relative sender anchor delta av =
     (let pending = (sender, anchor, delta)
      in if pending \<in> set (av_pending_relative av) then av
         else av\<lparr>av_pending_relative := os_ins pending (av_pending_relative av),
                 av_pending_relative_by_author :=
                   om_upd (ref_author anchor) [] (os_ins pending) (av_pending_relative_by_author av)\<rparr>)"

definition remove_relative :: "pending_relative_claim \<Rightarrow> avail_resolver \<Rightarrow> avail_resolver" where
  "remove_relative pending av =
     (let author = ref_author (fst (snd pending));
          av = av\<lparr>av_pending_relative := os_del pending (av_pending_relative av)\<rparr>
      in case map_of (av_pending_relative_by_author av) author of
           None \<Rightarrow> av
         | Some claims \<Rightarrow>
             (let claims = os_del pending claims
              in av\<lparr>av_pending_relative_by_author :=
                   (if claims = [] then om_del author (av_pending_relative_by_author av)
                    else om_put author claims (av_pending_relative_by_author av))\<rparr>))"

definition credit_relative_target :: "block_cache \<Rightarrow> slot \<Rightarrow> block_ref \<Rightarrow> avail_resolver \<Rightarrow> avail_resolver \<times> block_ref list" where
  "credit_relative_target b sender r av =
     (let (av, credited) = credit_claim_prefix b sender r av
      in (av, if r \<notin> set credited \<and> \<not> av_is_at_quorum av r then credited @ [r] else credited))"

definition note_exact :: "block_cache \<Rightarrow> public_key \<Rightarrow> block_ref \<Rightarrow> avail_resolver \<Rightarrow> avail_resolver \<times> claim_credits" where
  "note_exact b sender r av =
     (let newly_counted = will_count sender r (av_exact_claims av);
          (av, crossed) = note_exact_claim sender r av;
          (av, credited) = credit_claim_prefix b (ci_slot (av_index av) sender) r av;
          credited = (if newly_counted \<and> r \<notin> set credited \<and> \<not> av_is_at_quorum av r then credited @ [r] else credited)
      in (av, \<lparr>cr_references = credited, cr_newly_exact_quorum = if crossed then [r] else []\<rparr>))"

definition note_ancestor ::
    "block_cache \<Rightarrow> public_key \<Rightarrow> block_ref \<Rightarrow> height \<Rightarrow> avail_resolver \<Rightarrow> avail_resolver \<times> claim_credits" where
  "note_ancestor b sender anchor delta av =
     (if delta = 0 \<or> delta \<ge> ref_height anchor then (av, \<lparr>cr_references = [], cr_newly_exact_quorum = []\<rparr>)
      else case resolve_relative b anchor delta av of
             (av, AWReady r) \<Rightarrow>
               (let (av, credited) = credit_relative_target b (ci_slot (av_index av) sender) r av
                in (av, \<lparr>cr_references = credited, cr_newly_exact_quorum = []\<rparr>))
           | (av, AWPending) \<Rightarrow>
               (remember_relative sender anchor delta av, \<lparr>cr_references = [], cr_newly_exact_quorum = []\<rparr>)
           | (av, AWForked) \<Rightarrow> (av, \<lparr>cr_references = [], cr_newly_exact_quorum = []\<rparr>))"

fun note_claims :: "block_cache \<Rightarrow> public_key \<Rightarrow> claim_ref list \<Rightarrow> avail_resolver \<Rightarrow> avail_resolver \<times> claim_credits" where
  "note_claims b sender [] av = (av, \<lparr>cr_references = [], cr_newly_exact_quorum = []\<rparr>)"
| "note_claims b sender (claim # claims) av =
     (let (av, out) = (case claim of
                         Exact r \<Rightarrow> note_exact b sender r av
                       | Ancestor anchor delta \<Rightarrow> note_ancestor b sender anchor delta av);
          (av, outs) = note_claims b sender claims av
      in (av, \<lparr>cr_references = cr_references out @ cr_references outs,
              cr_newly_exact_quorum = cr_newly_exact_quorum out @ cr_newly_exact_quorum outs\<rparr>))"

definition av_note_claim :: "block_cache \<Rightarrow> public_key \<Rightarrow> claim_ref list \<Rightarrow> avail_resolver \<Rightarrow> avail_resolver \<times> claim_credits" where
  "av_note_claim b sender claims av =
     (if \<not> ci_is_member (av_index av) sender then (av, \<lparr>cr_references = [], cr_newly_exact_quorum = []\<rparr>)
      else note_claims b sender claims av)"

section \<open>Retrying and the available height\<close>

fun retry_senders ::
    "block_cache \<Rightarrow> slot \<Rightarrow> slot list \<Rightarrow> avail_resolver \<Rightarrow> avail_resolver \<times> (public_key \<times> block_ref) list" where
  "retry_senders b lane [] av = (av, [])"
| "retry_senders b lane (sender # senders) av =
     (case bp_get (av_pending_avail av) sender lane of
        None \<Rightarrow> retry_senders b lane senders av
      | Some e \<Rightarrow>
          (let (av, refs) = resolve_one b sender lane e av;
               (av, out) = retry_senders b lane senders av
           in (av, map (\<lambda>r. (sl_key sender, r)) refs @ out)))"

fun retry_relative ::
    "block_cache \<Rightarrow> pending_relative_claim list \<Rightarrow> avail_resolver \<Rightarrow> avail_resolver \<times> (public_key \<times> block_ref) list" where
  "retry_relative b [] av = (av, [])"
| "retry_relative b ((sender, anchor, delta) # ps) av =
     (if (sender, anchor, delta) \<notin> set (av_pending_relative av) then retry_relative b ps av
      else case resolve_relative b anchor delta av of
             (av, AWReady r) \<Rightarrow>
               (let av = remove_relative (sender, anchor, delta) av;
                    (av, credited) = credit_relative_target b (ci_slot (av_index av) sender) r av;
                    (av, out) = retry_relative b ps av
                in (av, map (\<lambda>r. (sender, r)) credited @ out))
           | (av, AWPending) \<Rightarrow> retry_relative b ps av
           | (av, AWForked) \<Rightarrow> retry_relative b ps (remove_relative (sender, anchor, delta) av))"

definition av_retry_pending_avail ::
    "block_cache \<Rightarrow> digest \<Rightarrow> avail_resolver \<Rightarrow> avail_resolver \<times> (public_key \<times> block_ref) list" where
  "av_retry_pending_avail b digest av =
     (case bc_get b digest of
        None \<Rightarrow> (av, [])
      | Some e \<Rightarrow>
          (let author = h_author (be_block e); lane = ci_slot (av_index av) author;
               senders = (case ba_get (av_pending_by_author av) lane of
                            None \<Rightarrow> [] | Some s \<Rightarrow> List.map_filter id (ss_iter (av_index av) s));
               (av, out) = retry_senders b lane senders av;
               (av, out') = retry_relative b
                 (case map_of (av_pending_relative_by_author av) author of None \<Rightarrow> [] | Some ps \<Rightarrow> ps) av
           in (av, out @ out')))"

text \<open>The height at which the accumulated stake of the claims, from the highest down, reaches quorum.\<close>

fun quorum_height :: "stake \<Rightarrow> stake \<Rightarrow> (height \<times> stake) list \<Rightarrow> height" where
  "quorum_height q acc [] = 0"
| "quorum_height q acc ((h, w) # hs) = (if acc + w \<ge> q then h else quorum_height q (acc + w) hs)"

definition avail_height :: "public_key \<Rightarrow> avail_resolver \<Rightarrow> height" where
  "avail_height author av =
     (let lane = ci_slot (av_index av) author;
          by_height = map (\<lambda>(sender, (h, _)). (h, case Option.bind sender (ci_stake_of (av_index av)) of None \<Rightarrow> 0 | Some w \<Rightarrow> w))
                        (bp_row (av_index av) lane (av_claimed av))
      in quorum_height (ci_quorum (av_index av)) 0 (rev (sort_key fst by_height)))"

section \<open>Segments are verified runs\<close>

text \<open>A link of a lane: the block of \<open>d'\<close> is the verified block of \<open>a\<close> at \<open>h\<close> whose parent is \<open>d\<close>.\<close>

definition lane_link :: "block_cache \<Rightarrow> public_key \<Rightarrow> height \<Rightarrow> digest \<Rightarrow> digest \<Rightarrow> bool" where
  "lane_link W a h d d' \<longleftrightarrow> (\<exists>e. bc_get W d' = Some e \<and> pinned_at e a h \<and> be_block_ok_verified e \<and> parent_of e = d)"

definition lane_run :: "block_cache \<Rightarrow> public_key \<Rightarrow> height \<Rightarrow> digest \<Rightarrow> digest list \<Rightarrow> bool" where
  "lane_run W a f fd sfx \<longleftrightarrow> (\<forall>i < length sfx. lane_link W a (f + Suc i) ((fd # sfx) ! i) (sfx ! i))"

lemma lane_run_snoc:
  "lane_run W a f fd (sfx @ [x]) \<longleftrightarrow>
     lane_run W a f fd sfx \<and> lane_link W a (f + Suc (length sfx)) (last (fd # sfx)) x"
proof -
  have "(fd # sfx @ [x]) ! i = (fd # sfx) ! i" if "i < Suc (length sfx)" for i
    using that by (auto simp: nth_Cons nth_append split: nat.splits)
  then have "lane_run W a f fd (sfx @ [x]) \<longleftrightarrow>
      (\<forall>i < Suc (length sfx). lane_link W a (f + Suc i) ((fd # sfx) ! i) ((sfx @ [x]) ! i))"
    by (simp add: lane_run_def)
  also have "\<dots> \<longleftrightarrow> lane_run W a f fd sfx \<and> lane_link W a (f + Suc (length sfx)) ((fd # sfx) ! length sfx) x"
    by (auto simp: lane_run_def less_Suc_eq nth_append)
  finally show ?thesis
    by (simp add: last_conv_nth)
qed

lemma lane_link_known: "known b W \<Longrightarrow> lane_link b a h d d' \<Longrightarrow> lane_link W a h d d'"
  unfolding lane_link_def known_def same_position_def pinned_at_def parent_of_def by fastforce

lemma lane_run_known: "known b W \<Longrightarrow> lane_run b a f fd sfx \<Longrightarrow> lane_run W a f fd sfx"
  by (simp add: lane_run_def lane_link_known)

lemma descends_run: "descends b a h d ds f fd \<longleftrightarrow> h = f + length ds \<and> d = last (fd # rev ds) \<and> lane_run b a f fd (rev ds)"
proof (induction ds arbitrary: h d)
  case Nil
  then show ?case
    by (auto simp: lane_run_def)
next
  case (Cons x ds)
  have "descends b a h d (x # ds) f fd \<longleftrightarrow>
      x = d \<and> h = f + length (x # ds) \<and> (\<exists>e. bc_get b d = Some e \<and> pinned_at e a h \<and> be_block_ok_verified e
        \<and> parent_of e = last (fd # rev ds)) \<and> lane_run b a f fd (rev ds)"
    unfolding descends.simps Cons.IH by auto
  also have "\<dots> \<longleftrightarrow> h = f + length (x # ds) \<and> d = last (fd # rev (x # ds)) \<and> lane_run b a f fd (rev (x # ds))"
    by (auto simp: lane_run_snoc lane_link_def)
  finally show ?case .
qed

lemma pinned_unique: "pinned_at e a h \<Longrightarrow> pinned_at e a' h' \<Longrightarrow> a = a' \<and> h = h'"
  by (simp add: pinned_at_def)

text \<open>A walk finds exactly the verified runs above the floor.\<close>

lemma suffix_walk_below: "n < f \<Longrightarrow> suffix_walk_from b f fd a n h chain \<noteq> SWReady xs"
  by (induction n arbitrary: h chain) (auto split: option.splits)

lemma collect_suffix_run:
  assumes "collect_verified_suffix f fd h b = Some sfx" "bc_get b h = Some e"
  shows "h = last (fd # sfx) \<and> lane_run b (h_author (be_block e)) f fd sfx \<and> h_height (be_block e) = f + length sfx"
proof -
  let ?a = "h_author (be_block e)" and ?n = "h_height (be_block e)"
  have r: "suffix_walk_from b f fd ?a ?n h [] = SWReady sfx"
    using assms by (simp add: collect_verified_suffix_def classify_suffix_def split: suffix_walk.splits)
  then have "f \<le> ?n"
    using suffix_walk_below [of ?n f] by (metis not_le)
  then obtain ds where "sfx = rev ds" "descends b ?a ?n h ds f fd"
    using r suffix_walk_ready [of f ?n b fd ?a h "[]" sfx] by auto
  then show ?thesis
    by (simp add: descends_run)
qed

lemma run_collect:
  assumes run: "lane_run b a f fd sfx" and "sfx \<noteq> []"
  shows "collect_verified_suffix f fd (last sfx) b = Some sfx"
proof -
  obtain ys x where sfx: "sfx = ys @ [x]"
    using assms(2) by (cases sfx rule: rev_cases) auto
  then obtain e where e: "bc_get b x = Some e" "pinned_at e a (f + length sfx)"
    using run by (auto simp: lane_run_snoc lane_link_def)
  have "descends b a (f + length sfx) x (rev sfx) f fd"
    using run sfx by (simp add: descends_run)
  then have "suffix_walk_from b f fd a (f + length sfx) x [] = SWReady sfx"
    by (simp add: suffix_walk_ready) (metis rev_rev_ident)
  then show ?thesis
    using e sfx by (simp add: collect_verified_suffix_def classify_suffix_def pinned_at_def)
qed

text \<open>A segment is a run without gaps on the lane of one author.\<close>

definition seg_ok :: "block_cache \<Rightarrow> public_key \<Rightarrow> chain_segment \<Rightarrow> bool" where
  "seg_ok W a seg \<longleftrightarrow>
     omap_ok seg
     \<and> (\<forall>h h' k. h \<le> k \<longrightarrow> k \<le> h' \<longrightarrow> digest_at seg h \<noteq> None \<longrightarrow> digest_at seg h' \<noteq> None \<longrightarrow> digest_at seg k \<noteq> None)
     \<and> (\<forall>h d d'. digest_at seg h = Some d \<longrightarrow> digest_at seg (Suc h) = Some d' \<longrightarrow> lane_link W a (Suc h) d d')"

lemma seg_ok_Nil [simp]: "seg_ok W a []"
  by (simp add: seg_ok_def omap_ok_def digest_at_def)

lemma seg_suffix_nth:
  assumes ok: "omap_ok seg" and sfx: "seg_suffix seg f fd h hd' = Some sfx"
  shows "length sfx = h - f" "digest_at seg f = Some fd" "digest_at seg h = Some hd'"
    and "\<And>i. i < length sfx \<Longrightarrow> digest_at seg (f + Suc i) = Some (sfx ! i)"
proof -
  let ?P = "\<lambda>e. f < fst e \<and> fst e \<le> h"
  show len: "length sfx = h - f" and "digest_at seg f = Some fd" "digest_at seg h = Some hd'"
    using sfx by (auto simp: seg_suffix_def Let_def split: if_splits)
  have eq: "sfx = map snd (filter ?P seg)"
    using sfx by (auto simp: seg_suffix_def Let_def split: if_splits)
  let ?ks = "map fst (filter ?P seg)"
  have sorted: "sorted_wrt (<) ?ks"
    using ok sorted_wrt_filter [of _ seg] by (simp add: omap_ok_def sorted_wrt_map)
  have sub: "set ?ks \<subseteq> {f<..h}"
    by auto
  have "distinct ?ks"
    using sorted unfolding strict_sorted_iff by blast
  from distinct_card [OF this] have "card (set ?ks) = h - f"
    unfolding length_map using len eq by (metis length_map)
  then have set: "set ?ks = set [Suc f..<Suc h]"
    using card_subset_eq [OF _ sub] by auto
  have ks: "?ks = [Suc f..<Suc h]"
    using sorted set by (intro sorted_distinct_set_unique) (auto simp: strict_sorted_iff simp del: upt_Suc)
  fix i assume i: "i < length sfx"
  have len': "i < length (filter ?P seg)"
    using i eq by simp
  have "(filter ?P seg ! i) \<in> set seg"
    using nth_mem [OF len'] by auto
  moreover have "fst (filter ?P seg ! i) = f + Suc i"
    using arg_cong [OF ks, of "\<lambda>l. l ! i"] i len len' by (simp del: upt_Suc)
  moreover have "snd (filter ?P seg ! i) = sfx ! i"
    using len' eq by simp
  ultimately have "(f + Suc i, sfx ! i) \<in> set seg"
    by (metis prod.collapse)
  then show "digest_at seg (f + Suc i) = Some (sfx ! i)"
    using ok by (simp add: digest_at_def omap_ok_map_of)
qed

lemma seg_suffix_run:
  assumes ok: "seg_ok W a seg" and sfx: "seg_suffix seg f fd h hd' = Some sfx"
  shows "lane_run W a f fd sfx"
  unfolding lane_run_def
proof (intro allI impI)
  fix i assume i: "i < length sfx"
  have o: "omap_ok seg"
    using ok by (simp add: seg_ok_def)
  note s = seg_suffix_nth [OF o sfx]
  have "digest_at seg (f + i) = Some ((fd # sfx) ! i)"
    using s(2) s(4) [of "i - 1"] i by (cases i) auto
  moreover have "digest_at seg (Suc (f + i)) = Some (sfx ! i)"
    using s(4) [OF i] by simp
  ultimately show "lane_link W a (f + Suc i) ((fd # sfx) ! i) (sfx ! i)"
    using ok unfolding seg_ok_def by simp
qed

lemma fold_put_lookup:
  "map_of (fold (\<lambda>(h, d). om_put h d) cs m) k = (case map_of (rev cs) k of None \<Rightarrow> map_of m k | Some d \<Rightarrow> Some d)"
  by (induction cs arbitrary: m) (auto simp: omap_simps map_add_def split: option.splits)

lemma fold_put_ok: "omap_ok m \<Longrightarrow> omap_ok (fold (\<lambda>(h, d). om_put h d) cs m)"
  by (induction cs arbitrary: m) (auto simp: order_intros)

lemma run_coords_lookup:
  "map_of (rev (run_coords f fd sfx)) k =
     (if f \<le> k \<and> k \<le> f + length sfx then Some (walked_at f fd sfx k) else None)"
proof -
  let ?cs = "run_coords f fd sfx"
  have nth: "?cs ! i = (f + i, walked_at f fd sfx (f + i))" if "i \<le> length sfx" for i
    using that by (cases i) (auto simp: run_coords_def walked_at_def simp del: upt_Suc)
  have len: "length ?cs = Suc (length sfx)"
    by (simp add: run_coords_def)
  have set: "(k, d) \<in> set ?cs \<longleftrightarrow> f \<le> k \<and> k \<le> f + length sfx \<and> d = walked_at f fd sfx k" for d
  proof
    assume "(k, d) \<in> set ?cs"
    then obtain i where "i \<le> length sfx" "?cs ! i = (k, d)"
      using len by (auto simp: in_set_conv_nth less_Suc_eq_le)
    then show "f \<le> k \<and> k \<le> f + length sfx \<and> d = walked_at f fd sfx k"
      using nth [of i] by auto
  next
    assume r: "f \<le> k \<and> k \<le> f + length sfx \<and> d = walked_at f fd sfx k"
    then have "?cs ! (k - f) = (k, d)"
      using nth [of "k - f"] by auto
    then show "(k, d) \<in> set ?cs"
      using r len by (metis add_diff_inverse_nat nth_mem not_less le_imp_less_Suc nat_add_left_cancel_le)
  qed
  have "distinct (map fst ?cs)"
    by (simp add: run_coords_def del: upt_Suc)
  then have "map_of (rev ?cs) k = Some d \<longleftrightarrow> (k, d) \<in> set ?cs" for d
    by (metis distinct_rev map_of_eq_Some_iff rev_map set_rev)
  then show ?thesis
    using set by (metis not_None_eq)
qed

lemma omap_ends:
  assumes "omap_ok m" "(k, v) \<in> set m"
  shows "fst (hd m) \<le> k" "k \<le> fst (last m)"
proof -
  obtain i where i: "i < length m" "m ! i = (k, v)"
    using assms(2) by (auto simp: in_set_conv_nth)
  have le: "fst (m ! i) \<le> fst (m ! j)" if "i \<le> j" "j < length m" for i j
    using sorted_wrt_nth_less [of "(<)" "map fst m" i j] assms(1) that by (cases "i = j") (auto simp: omap_ok_def less_imp_le)
  show "fst (hd m) \<le> k"
    using le [of 0 i] i by (cases m) auto
  show "k \<le> fst (last m)"
    using le [of i "length m - 1"] i by (cases "m = []") (auto simp: last_conv_nth)
qed

lemma digest_at_bounds:
  assumes "omap_ok seg" "digest_at seg k = Some d"
  shows "fst (hd seg) \<le> k" "k \<le> fst (last seg)"
  using assms omap_ends [of seg k d] by (auto simp: digest_at_def dest: map_of_SomeD)

lemma digest_at_ends:
  assumes "omap_ok seg" "seg \<noteq> []"
  shows "digest_at seg (fst (hd seg)) \<noteq> None" "digest_at seg (fst (last seg)) \<noteq> None"
  using assms omap_ok_map_of [OF assms(1)] hd_in_set last_in_set
  by (metis digest_at_def option.distinct(1) prod.collapse)+

text \<open>Two runs that agree at one height agree below it.\<close>

lemma runs_agree_below:
  assumes ok: "seg_ok W a seg" and run: "lane_run W a f fd sfx"
    and s: "s \<le> f + length sfx" "digest_at seg s = Some (walked_at f fd sfx s)"
    and k: "f \<le> k" "k \<le> s" "digest_at seg k \<noteq> None"
  shows "digest_at seg k = Some (walked_at f fd sfx k)"
  using k(2,1,3)
proof (induction "s - k" arbitrary: k)
  case 0
  then show ?case
    using s(2) by simp
next
  case (Suc n)
  have "digest_at seg (Suc k) \<noteq> None"
    using ok s(2) Suc.prems Suc.hyps(2) unfolding seg_ok_def by (metis Suc_leI diff_is_0_eq le_SucI not_less_eq_eq option.distinct(1) zero_less_Suc zero_less_diff)
  then have above: "digest_at seg (Suc k) = Some (walked_at f fd sfx (Suc k))"
    using Suc by (intro Suc.hyps(1)) auto
  obtain d where d: "digest_at seg k = Some d"
    using Suc.prems by auto
  have "lane_link W a (Suc k) d (walked_at f fd sfx (Suc k))"
    using ok d above unfolding seg_ok_def by blast
  moreover have "lane_link W a (Suc k) (walked_at f fd sfx k) (walked_at f fd sfx (Suc k))"
  proof -
    have "k - f < length sfx"
      using Suc.hyps(2) Suc.prems s(1) by auto
    then show ?thesis
      using run Suc.prems unfolding lane_run_def walked_at_def
      by (cases "k = f") (auto simp: nth_Cons' Suc_diff_le dest!: spec [of _ "k - f"])
  qed
  ultimately show ?case
    using d by (auto simp: lane_link_def)
qed

lemma merge_lookup:
  "digest_at (fold (\<lambda>(h, d). om_put h d) (run_coords f fd sfx) seg) k =
     (if f \<le> k \<and> k \<le> f + length sfx then Some (walked_at f fd sfx k) else digest_at seg k)"
  unfolding digest_at_def fold_put_lookup run_coords_lookup by simp

lemma lane_run_at:
  assumes "lane_run W a f fd sfx" "f \<le> k" "k < f + length sfx"
  shows "lane_link W a (Suc k) (walked_at f fd sfx k) (walked_at f fd sfx (Suc k))"
  using assms unfolding lane_run_def walked_at_def
  by (cases "k = f") (auto simp: nth_Cons' Suc_diff_le dest!: spec [of _ "k - f"])

lemma om_from_lookup: "digest_at (om_from c seg) k = (if c \<le> k then digest_at seg k else None)"
  by (simp add: digest_at_def omap_simps)

lemma prune_ok: "seg_ok W a seg \<Longrightarrow> seg_ok W a (prune_below_window seg)"
  unfolding prune_below_window_def
  by (auto simp: seg_ok_def om_from_lookup order_intros split: if_splits)

text \<open>A segment that a walked run meets, if it is not empty, and agrees with where they overlap.\<close>

definition overlaps :: "height \<Rightarrow> digest \<Rightarrow> digest list \<Rightarrow> chain_segment \<Rightarrow> bool" where
  "overlaps f fd sfx m \<longleftrightarrow>
     (\<forall>k. f \<le> k \<longrightarrow> k \<le> f + length sfx \<longrightarrow> digest_at m k \<noteq> None \<longrightarrow> digest_at m k = Some (walked_at f fd sfx k))
     \<and> (\<forall>k. digest_at m k \<noteq> None \<longrightarrow> (\<exists>s. f \<le> s \<and> s \<le> f + length sfx \<and> digest_at m s \<noteq> None))"

lemma agreeing_overlaps:
  assumes ok: "seg_ok W a seg" and run: "lane_run W a f fd sfx" and agr: "segment_agrees f fd sfx seg"
  shows "overlaps f fd sfx seg"
proof -
  let ?t = "f + length sfx" and ?s = "min (fst (last seg)) (f + length sfx)"
  have s: "f \<le> ?s" "digest_at seg ?s = Some (walked_at f fd sfx ?s)"
    using agr by (auto simp: segment_agrees_def shared_height_def Let_def split: option.splits if_splits)
  have "digest_at seg k = Some (walked_at f fd sfx k)" if k: "f \<le> k" "k \<le> ?t" "digest_at seg k \<noteq> None" for k
  proof -
    have "k \<le> fst (last seg)"
      using digest_at_bounds(2) [of seg k] k(3) ok by (auto simp: seg_ok_def)
    then show ?thesis
      using k by (intro runs_agree_below [OF ok run _ s(2)]) auto
  qed
  moreover have "?s \<le> ?t" "digest_at seg ?s \<noteq> None"
    using s(2) by auto
  ultimately show ?thesis
    using s(1) unfolding overlaps_def by blast
qed

lemma overlay_between:
  assumes ok: "seg_ok W a m" and ov: "overlaps f fd sfx m"
    and D: "\<And>k. D k = (if f \<le> k \<and> k \<le> f + length sfx then Some (walked_at f fd sfx k) else digest_at m k)"
    and "h \<le> k" "k \<le> h'" "D h \<noteq> None" "D h' \<noteq> None"
  shows "D k \<noteq> None"
proof (cases "f \<le> k \<and> k \<le> f + length sfx")
  case False
  have between: "digest_at m k \<noteq> None" if "digest_at m i \<noteq> None" "digest_at m j \<noteq> None" "i \<le> k" "k \<le> j" for i j
    using ok that unfolding seg_ok_def by blast
  have "digest_at m k \<noteq> None"
  proof (cases "k < f")
    case True
    then have h: "digest_at m h \<noteq> None"
      using assms(4,6) by (simp add: D split: if_splits)
    with ov obtain s where "f \<le> s" "digest_at m s \<noteq> None"
      unfolding overlaps_def by blast
    then show ?thesis
      using between [OF h] True assms(4) by simp
  next
    case above: False
    then have h': "digest_at m h' \<noteq> None"
      using assms(5,7) False by (simp add: D split: if_splits)
    with ov obtain s where "s \<le> f + length sfx" "digest_at m s \<noteq> None"
      unfolding overlaps_def by blast
    then show ?thesis
      using between [OF _ h'] above False assms(5) by simp
  qed
  then show ?thesis
    using False by (simp add: D)
qed (simp add: D)

lemma overlay_link:
  assumes ok: "seg_ok W a m" and run: "lane_run W a f fd sfx" and ov: "overlaps f fd sfx m"
    and D: "\<And>k. D k = (if f \<le> k \<and> k \<le> f + length sfx then Some (walked_at f fd sfx k) else digest_at m k)"
    and d: "D h = Some d" "D (Suc h) = Some d'"
  shows "lane_link W a (Suc h) d d'"
proof (cases "f \<le> h \<and> Suc h \<le> f + length sfx")
  case True
  then show ?thesis
    using d lane_run_at [OF run, of h] by (simp add: D)
next
  case False
  have keep: "digest_at m k = D k" if "digest_at m k \<noteq> None" for k
    using ov that unfolding overlaps_def D by auto
  have "digest_at m h = Some d \<and> digest_at m (Suc h) = Some d'"
  proof (cases "digest_at m h = None \<or> digest_at m (Suc h) = None")
    case True
    then have "digest_at m (if digest_at m h = None then Suc h else h) \<noteq> None"
      using d False by (auto simp: D split: if_splits)
    with ov obtain s where s: "f \<le> s" "s \<le> f + length sfx" "digest_at m s \<noteq> None"
      unfolding overlaps_def by blast
    have between: "digest_at m k \<noteq> None" if "digest_at m i \<noteq> None" "digest_at m j \<noteq> None" "i \<le> k" "k \<le> j" for i j k
      using ok that unfolding seg_ok_def by blast
    show ?thesis
      using True d False s between [of h s "Suc h"] between [of s "Suc h" h] by (auto simp: D split: if_splits)
  next
    case False
    then show ?thesis
      using keep d by auto
  qed
  then show ?thesis
    using ok unfolding seg_ok_def by blast
qed

lemma merge_ok:
  assumes ok: "seg_ok W a seg" and run: "lane_run W a f fd sfx"
  shows "seg_ok W a (merge_segment f fd sfx seg)"
proof -
  define m where "m = (if segment_agrees f fd sfx seg then seg else [])"
  have m: "seg_ok W a m"
    using ok by (simp add: m_def)
  have "overlaps f fd sfx []"
    by (simp add: overlaps_def digest_at_def)
  then have ov: "overlaps f fd sfx m"
    using agreeing_overlaps [OF ok run] by (simp add: m_def)
  have "seg_ok W a (fold (\<lambda>(h, d). om_put h d) (run_coords f fd sfx) m)"
    unfolding seg_ok_def
    using overlay_between [OF m ov merge_lookup] overlay_link [OF m run ov merge_lookup] m
    by (simp add: seg_ok_def fold_put_ok)
  then show ?thesis
    unfolding merge_segment_def m_def [symmetric] by (rule prune_ok)
qed

section \<open>The resolver answers as the walk does\<close>

text \<open>
  \<open>W\<close> holds every block that was ever cached. A coordinate is labelled when the block of its digest,
  if there is one, is by the author it is filed under.
\<close>

definition label :: "block_cache \<Rightarrow> public_key \<Rightarrow> digest \<Rightarrow> bool" where
  "label W a d \<longleftrightarrow> (\<forall>e. bc_get W d = Some e \<longrightarrow> h_author (be_block e) = a)"

lemma lane_link_label: "lane_link W a h d d' \<Longrightarrow> label W a d'"
  by (auto simp: lane_link_def label_def pinned_at_def)

lemma lane_run_label: "lane_run W a f fd sfx \<Longrightarrow> d \<in> set sfx \<Longrightarrow> label W a d"
  unfolding lane_run_def in_set_conv_nth using lane_link_label by blast

lemma collect_known: "known b W \<Longrightarrow> collect_verified_suffix f fd h b = Some sfx \<Longrightarrow> collect_verified_suffix f fd h W = Some sfx"
  using classify_known [of b W f fd h] by (simp add: collect_verified_suffix_def split: suffix_walk.splits)

lemma collect_labelled:
  assumes "collect_verified_suffix f fd h W = Some sfx" "label W a h"
  shows "lane_run W a f fd sfx"
proof -
  obtain e where e: "bc_get W h = Some e"
    using assms(1) by (cases "bc_get W h") (auto simp: collect_verified_suffix_def classify_suffix_def)
  then show ?thesis
    using collect_suffix_run [OF assms(1) e] assms(2) by (simp add: label_def)
qed

definition lane_seg_ok :: "block_cache \<Rightarrow> public_key \<Rightarrow> chain_segment \<Rightarrow> bool" where
  "lane_seg_ok W a seg \<longleftrightarrow> seg_ok W a seg \<and> (\<forall>h d. digest_at seg h = Some d \<longrightarrow> label W a d)"

lemma lane_seg_ok_Nil [simp]: "lane_seg_ok W a []"
  by (simp add: lane_seg_ok_def digest_at_def)

lemma prune_lookup: "digest_at (prune_below_window seg) h = Some d \<Longrightarrow> digest_at seg h = Some d"
  by (auto simp: prune_below_window_def om_from_lookup split: if_splits)

lemma merge_lane_ok:
  assumes seg: "lane_seg_ok W a seg" and run: "lane_run W a f fd sfx" and fd: "label W a fd"
  shows "lane_seg_ok W a (merge_segment f fd sfx seg)"
proof -
  have "label W a d" if d: "digest_at (merge_segment f fd sfx seg) h = Some d" for h d
  proof -
    define m where "m = (if segment_agrees f fd sfx seg then seg else [])"
    have "digest_at (fold (\<lambda>(h, d). om_put h d) (run_coords f fd sfx) m) h = Some d"
      by (rule prune_lookup) (use d in \<open>simp only: merge_segment_def m_def\<close>)
    then have d: "(if f \<le> h \<and> h \<le> f + length sfx then Some (walked_at f fd sfx h) else digest_at m h) = Some d"
      unfolding merge_lookup .
    show ?thesis
    proof (cases "f \<le> h \<and> h \<le> f + length sfx")
      case True
      then have "d = fd \<or> d \<in> set sfx"
        using d by (auto simp: walked_at_def)
      then show ?thesis
        using fd lane_run_label [OF run] by blast
    next
      case False
      then show ?thesis
        using seg d by (simp add: m_def lane_seg_ok_def digest_at_def split: if_splits)
    qed
  qed
  then show ?thesis
    using merge_ok [OF _ run] seg by (simp add: lane_seg_ok_def)
qed

definition segments_ok :: "block_cache \<Rightarrow> avail_resolver \<Rightarrow> bool" where
  "segments_ok W av \<longleftrightarrow> ba_ok (av_index av) (av_segments av)
     \<and> (\<forall>a seg. ba_map (av_index av) (av_segments av) a = Some seg \<longrightarrow> lane_seg_ok W a seg)"

text \<open>Everything but the segments.\<close>

definition av_rest :: "avail_resolver \<Rightarrow> avail_resolver" where
  "av_rest av = av\<lparr>av_segments := \<lparr>ba_dense = [], ba_outside = []\<rparr>\<rparr>"

lemma av_rest_memoize: "av_rest (memoize_segment lane f fd sfx av) = av_rest av"
  by (simp add: av_rest_def memoize_segment_def)

lemma av_rest_eqD:
  assumes "av_rest av' = av_rest av"
  shows "av_index av' = av_index av" "av_genesis av' = av_genesis av" "av_credited_floor av' = av_credited_floor av"
    "av_pending_avail av' = av_pending_avail av" "av_relative av' = av_relative av" "av_at_quorum av' = av_at_quorum av"
  using assms by (cases av; cases av'; simp add: av_rest_def)+

lemma verified_segment_exact:
  assumes ok: "segments_ok W av" and kn: "known b W" and lab: "label W a (ae_head e)" "label W a fd"
    and up: "f < ae_height e"
    and vs: "verified_segment b (ci_slot (av_index av) a) e f fd av = (av', r)"
  shows "segments_ok W av' \<and> av_rest av' = av_rest av
    \<and> (\<forall>sfx. r = Some sfx \<longrightarrow> collect_verified_suffix f fd (ae_head e) W = Some sfx)
    \<and> (\<forall>sfx. collect_verified_suffix f fd (ae_head e) b = Some sfx \<longrightarrow> r = Some sfx)"
proof (cases "Option.bind (ba_map (av_index av) (av_segments av) a) (\<lambda>seg. seg_suffix seg f fd (ae_height e) (ae_head e))")
  case None
  let ?m = "memoize_segment (ci_slot (av_index av) a) f fd"
  have seg: "lane_seg_ok W a (case ba_map (av_index av) (av_segments av) a of None \<Rightarrow> [] | Some v \<Rightarrow> v)"
    using ok by (auto simp: segments_ok_def split: option.splits)
  have "segments_ok W (?m sfx av)" if sfx: "collect_verified_suffix f fd (ae_head e) b = Some sfx" for sfx
  proof -
    have "lane_run W a f fd sfx"
      using collect_labelled [OF collect_known [OF kn sfx] lab(1)] .
    then show ?thesis
      using ok merge_lane_ok [OF seg _ lab(2)]
      by (auto simp: segments_ok_def memoize_segment_def ba_entry_content table_oks)
  qed
  moreover have "av_rest (?m sfx av) = av_rest av" for sfx
    by (rule av_rest_memoize)
  ultimately show ?thesis
    using vs ok None collect_known [OF kn]
    by (cases "collect_verified_suffix f fd (ae_head e) b") (auto simp: verified_segment_def ba_map_def)
next
  case (Some sfx)
  then obtain seg where seg: "ba_map (av_index av) (av_segments av) a = Some seg"
      "seg_suffix seg f fd (ae_height e) (ae_head e) = Some sfx"
    by (auto simp: bind_eq_Some_conv)
  have "seg_ok W a seg"
    using ok seg(1) by (simp add: segments_ok_def lane_seg_ok_def)
  then have run: "lane_run W a f fd sfx" and o: "omap_ok seg"
    using seg_suffix_run [OF _ seg(2)] by (auto simp: seg_ok_def)
  note n = seg_suffix_nth [OF o seg(2)]
  have "sfx \<noteq> []"
    using n(1) up by auto
  moreover have "last sfx = ae_head e"
    using n(1) n(3) n(4) [of "length sfx - 1"] up \<open>sfx \<noteq> []\<close> by (simp add: last_conv_nth)
  ultimately have "collect_verified_suffix f fd (ae_head e) W = Some sfx"
    using run_collect [OF run] by simp
  moreover have "av' = av" "r = Some sfx"
    using vs Some by (simp_all add: verified_segment_def ba_map_def)
  ultimately show ?thesis
    using ok collect_known [OF kn] by fastforce
qed

section \<open>The resolver invariant\<close>

definition avail_entry_ok :: "block_cache \<Rightarrow> avail_entry \<Rightarrow> bool" where
  "avail_entry_ok W e \<longleftrightarrow> label W (ae_author e) (ae_head e)"

definition floors_ok :: "block_cache \<Rightarrow> avail_resolver \<Rightarrow> bool" where
  "floors_ok W av \<longleftrightarrow> bp_ok (av_index av) (av_credited_floor av) \<and> (\<forall>a. label W a (av_genesis av))
     \<and> (\<forall>s a f d. bp_map (av_index av) (av_credited_floor av) (s, a) = Some (f, d) \<longrightarrow> label W a d)"

definition pending_ok :: "block_cache \<Rightarrow> avail_resolver \<Rightarrow> bool" where
  "pending_ok W av \<longleftrightarrow> bp_ok (av_index av) (av_pending_avail av)
     \<and> (\<forall>s a e. bp_map (av_index av) (av_pending_avail av) (s, a) = Some e \<longrightarrow> ae_author e = a \<and> avail_entry_ok W e)"

definition ref_ok :: "block_cache \<Rightarrow> block_ref \<Rightarrow> bool" where
  "ref_ok W r \<longleftrightarrow> label W (ref_author r) (ref_digest r)"

definition targets_ok :: "block_cache \<Rightarrow> relative_targets \<Rightarrow> bool" where
  "targets_ok W memo \<longleftrightarrow> list_all (ref_ok W) (map snd memo)"

definition relative_ok :: "block_cache \<Rightarrow> avail_resolver \<Rightarrow> bool" where
  "relative_ok W av \<longleftrightarrow> ba_ok (av_index av) (av_relative av)
     \<and> (\<forall>a memo. ba_map (av_index av) (av_relative av) a = Some memo \<longrightarrow> targets_ok W memo)"

definition resolver_inv :: "block_cache \<Rightarrow> avail_resolver \<Rightarrow> bool" where
  "resolver_inv W av \<longleftrightarrow> segments_ok W av \<and> floors_ok W av \<and> pending_ok W av \<and> relative_ok W av"

lemmas resolver_invs = resolver_inv_def segments_ok_def floors_ok_def pending_ok_def relative_ok_def

text \<open>The floor of a pair, genesis when nothing was credited.\<close>

definition floor_of :: "avail_resolver \<Rightarrow> slot \<Rightarrow> slot \<Rightarrow> height \<times> digest" where
  "floor_of av sender lane = (case bp_get (av_credited_floor av) sender lane of None \<Rightarrow> (0, av_genesis av) | Some fl \<Rightarrow> fl)"

lemma floor_label:
  assumes "floors_ok W av" "floor_of av (ci_slot (av_index av) s) (ci_slot (av_index av) a) = (f, fd)"
  shows "label W a fd"
  using assms
  by (cases "bp_get (av_credited_floor av) (ci_slot (av_index av) s) (ci_slot (av_index av) a)")
    (auto simp: floors_ok_def floor_of_def bp_map_def)

lemma resolve_one_alt:
  assumes "floor_of av sender lane = (f, fd)"
  shows "resolve_one b sender lane e av =
    (if ae_height e \<le> f then (av, [])
     else case verified_segment b lane e f fd av of
            (av, Some sfx) \<Rightarrow>
              (av\<lparr>av_credited_floor := (if sfx = [] then av_credited_floor av
                    else bp_insert sender lane (f + length sfx, last sfx) (av_credited_floor av)),
                  av_pending_avail := bp_remove sender lane (av_pending_avail av),
                  av_pending_by_author := ba_entry ss_empty lane (\<lambda>s. snd (ss_remove sender s)) (av_pending_by_author av)\<rparr>,
               credit_refs av lane (ae_author e) f sfx)
          | (av, None) \<Rightarrow>
              (av\<lparr>av_pending_by_author := ba_entry ss_empty lane (\<lambda>s. snd (ss_insert sender s)) (av_pending_by_author av),
                  av_pending_avail := bp_insert sender lane e (av_pending_avail av)\<rparr>,
               if lane_at_quorum av lane (ae_height e) (ae_head e) then []
               else [(ae_author e, ae_height e, ae_head e)]))"
  using assms
  by (cases "bp_get (av_credited_floor av) sender lane")
    (auto simp: resolve_one_def floor_of_def Let_def split: prod.splits option.splits)

lemma resolve_one_index: "av_index (fst (resolve_one b sender lane e av)) = av_index av"
proof -
  obtain f fd where fl: "floor_of av sender lane = (f, fd)"
    by (cases "floor_of av sender lane")
  have "av_index (fst (verified_segment b lane e f fd av)) = av_index av"
    by (simp add: verified_segment_def memoize_segment_def split: option.splits)
  then show ?thesis
    by (cases "verified_segment b lane e f fd av") (auto simp: resolve_one_alt [OF fl] split: option.splits)
qed

lemma resolve_one_inv:
  assumes inv: "resolver_inv W av" and kn: "known b W" and e: "avail_entry_ok W e"
  shows "resolver_inv W (fst (resolve_one b (ci_slot (av_index av) s) (ci_slot (av_index av) (ae_author e)) e av))"
proof -
  let ?a = "ae_author e" and ?ci = "av_index av"
  obtain f fd where fl: "floor_of av (ci_slot ?ci s) (ci_slot ?ci ?a) = (f, fd)"
    by (cases "floor_of av (ci_slot ?ci s) (ci_slot ?ci ?a)")
  obtain av1 r where vs: "verified_segment b (ci_slot ?ci ?a) e f fd av = (av1, r)"
    by (cases "verified_segment b (ci_slot ?ci ?a) e f fd av")
  have fd: "label W ?a fd"
    using floor_label [OF _ fl] inv by (simp add: resolver_inv_def)
  show ?thesis
  proof (cases "ae_height e \<le> f")
    case True
    then show ?thesis
      using inv by (simp add: resolve_one_alt [OF fl])
  next
    case False
    have ex: "segments_ok W av1" "av_rest av1 = av_rest av"
        "\<And>sfx. r = Some sfx \<Longrightarrow> collect_verified_suffix f fd (ae_head e) W = Some sfx"
      using verified_segment_exact [OF _ kn _ fd _ vs] inv e False by (auto simp: resolver_inv_def avail_entry_ok_def)
    note rest = av_rest_eqD [OF ex(2)]
    have last: "label W ?a (last sfx)" if "r = Some sfx" "sfx \<noteq> []" for sfx
      using lane_run_label [OF collect_labelled [OF ex(3) [OF that(1)]], of ?a "last sfx"] e that(2)
      by (simp add: avail_entry_ok_def)
    show ?thesis
      using inv e ex(1) rest last False
      by (cases r) (auto simp: resolve_one_alt [OF fl] vs resolver_invs bp_insert_content bp_remove_content table_oks)
  qed
qed

lemma resolver_inv_frame [simp]:
  "resolver_inv W (av\<lparr>av_claimed := c\<rparr>) = resolver_inv W av"
  "resolver_inv W (av\<lparr>av_exact_claims := x\<rparr>) = resolver_inv W av"
  "resolver_inv W (av\<lparr>av_at_quorum := q\<rparr>) = resolver_inv W av"
  "resolver_inv W (av\<lparr>av_pending_relative := p\<rparr>) = resolver_inv W av"
  "resolver_inv W (av\<lparr>av_pending_relative_by_author := pa\<rparr>) = resolver_inv W av"
  by (simp_all add: resolver_invs)

text \<open>What every step of the resolver keeps.\<close>

definition keeps :: "block_cache \<Rightarrow> avail_resolver \<Rightarrow> avail_resolver \<Rightarrow> bool" where
  "keeps W av av' \<longleftrightarrow> (resolver_inv W av \<longrightarrow> resolver_inv W av') \<and> av_index av' = av_index av"

lemma keeps_refl [simp]: "keeps W av av"
  by (simp add: keeps_def)

lemma keeps_trans: "keeps W av av' \<Longrightarrow> keeps W av' av'' \<Longrightarrow> keeps W av av''"
  by (simp add: keeps_def)

lemma keeps_frame:
  "keeps W av (fst (note_exact_claim s r av))" "keeps W av (remember_relative s anchor delta av)"
  "keeps W av (remove_relative p av)" "keeps W av (note_threshold r t av)"
  by (simp_all add: keeps_def note_exact_claim_def remember_relative_def remove_relative_def note_threshold_def
      Let_def case_prod_beta split: option.splits)

lemma credit_claim_keeps:
  assumes "known b W" "ref_ok W r"
  shows "keeps W av (fst (credit_claim_prefix b (ci_slot (av_index av) s) r av))"
proof -
  let ?e = "\<lparr>ae_author = ref_author r, ae_height = ref_height r, ae_head = ref_digest r\<rparr>"
  have "avail_entry_ok W ?e"
    using assms(2) by (simp add: avail_entry_ok_def ref_ok_def)
  from resolve_one_inv [OF _ assms(1) this, of "av\<lparr>av_claimed := c\<rparr>" s for c] resolve_one_inv [OF _ assms(1) this, of av s]
  show ?thesis
    by (auto simp: credit_claim_prefix_def keeps_def resolve_one_index Let_def)
qed

lemma ancestor_walk_label:
  "ancestor_walk_from b t a n cur = AWReady r \<Longrightarrow> known b W \<Longrightarrow> ref_author r = a \<and> ref_ok W r"
proof (induction b t a n cur rule: ancestor_walk_from.induct)
  case (1 b t a n cur)
  obtain e where e: "bc_get b cur = Some e" "pinned_at e a n" "be_block_ok_verified e"
    using "1.prems"(1) by (subst (asm) ancestor_walk_from.simps) (auto split: option.splits if_splits)
  show ?case
  proof (cases "n = t")
    case True
    then have r: "r = (a, t, cur)"
      using "1.prems"(1) e by (subst (asm) ancestor_walk_from.simps) simp
    obtain e' where "bc_get W cur = Some e'" "same_position e e'"
      using "1.prems"(2) e(1) unfolding known_def by blast
    then show ?thesis
      using r e(2) by (auto simp: ref_ok_def label_def same_position_def pinned_at_def)
  next
    case False
    have "n \<noteq> 0 \<and> ancestor_walk_from b t a (n - 1) (parent_of e) = AWReady r"
      using False "1.prems"(1) e unfolding ancestor_walk_from.simps [of b t a n cur] by (simp split: if_splits)
    then show ?thesis
      using "1.IH" [OF e(1)] e False "1.prems"(2) by simp
  qed
qed

lemma relative_insert_ok: "ref_ok W target \<Longrightarrow> targets_ok W memo \<Longrightarrow> targets_ok W (relative_insert anchor delta target memo)"
proof -
  assume t: "ref_ok W target" "targets_ok W memo"
  have "set (relative_insert anchor delta target memo)
      \<subseteq> insert ((ref_height anchor, ref_digest anchor, delta), target) (set memo)"
    using set_om_put_subset [of "(ref_height anchor, ref_digest anchor, delta)" target memo]
    by (auto simp: relative_insert_def Let_def om_from_def split: if_splits)
  moreover have "ref_ok W (snd e)" if "e \<in> set memo" for e
    using t(2) that by (simp add: targets_ok_def list_all_iff)
  ultimately show ?thesis
    using t(1) unfolding targets_ok_def list_all_iff by fastforce
qed

lemma resolve_relative_keeps:
  assumes kn: "known b W" and res: "resolve_relative b anchor delta av = (av', w)"
  shows "keeps W av av' \<and> (\<forall>r. resolver_inv W av \<longrightarrow> w = AWReady r \<longrightarrow> ref_ok W r)"
proof (cases "if 0 < delta \<and> delta < ref_height anchor then cached_relative anchor delta av else None")
  case None
  show ?thesis
  proof (cases "resolve_verified_ancestor anchor delta b")
    case (AWReady r)
    then have r: "ref_ok W r"
      using ancestor_walk_label [OF _ kn] by (auto simp: resolve_verified_ancestor_def split: if_splits)
    have "resolver_inv W (memoize_relative anchor delta r av)" if inv: "resolver_inv W av"
      using inv relative_insert_ok [OF r]
      by (auto simp: resolver_invs memoize_relative_def ba_entry_content table_oks targets_ok_def [of _ "[]"]
          split: option.splits if_splits)
    then show ?thesis
      using res None AWReady r by (auto simp: resolve_relative_def keeps_def memoize_relative_def)
  qed (use res None in \<open>auto simp: resolve_relative_def\<close>)
next
  case (Some r)
  then have c: "cached_relative anchor delta av = Some r" and eq: "av' = av" "w = AWReady r"
    using res by (auto simp: resolve_relative_def split: if_splits)
  have "ref_ok W r" if inv: "resolver_inv W av"
  proof (cases "Option.bind (ba_get (av_segments av) (ci_slot (av_index av) (ref_author anchor)))
                (\<lambda>seg. seg_ancestor seg (ref_height anchor) (ref_digest anchor) (ref_height anchor - delta))")
    case None
    then obtain memo k where m: "ba_map (av_index av) (av_relative av) (ref_author anchor) = Some memo" "(k, r) \<in> set memo"
      using c by (auto simp: cached_relative_def bind_eq_Some_conv ba_map_def dest: map_of_SomeD)
    then have "targets_ok W memo"
      using inv by (auto simp: resolver_inv_def relative_ok_def)
    then show ?thesis
      using m(2) by (auto simp: targets_ok_def list_all_iff)
  next
    case (Some d)
    then obtain seg where seg: "ba_map (av_index av) (av_segments av) (ref_author anchor) = Some seg"
        "digest_at seg (ref_height anchor - delta) = Some d"
      by (auto simp: bind_eq_Some_conv ba_map_def seg_ancestor_def split: if_splits option.splits)
    then have "label W (ref_author anchor) d"
      using inv by (auto simp: resolver_inv_def segments_ok_def lane_seg_ok_def)
    then show ?thesis
      using c Some by (auto simp: cached_relative_def ref_ok_def Let_def)
  qed
  then show ?thesis
    by (simp add: eq)
qed

lemma credit_relative_keeps:
  assumes "known b W" "ref_ok W r"
  shows "keeps W av (fst (credit_relative_target b (ci_slot (av_index av) s) r av))"
  using credit_claim_keeps [OF assms] by (simp add: credit_relative_target_def case_prod_beta Let_def)

lemma note_exact_keeps:
  assumes "known b W" "ref_ok W r"
  shows "keeps W av (fst (note_exact b s r av))"
proof -
  obtain av1 x where 1: "note_exact_claim s r av = (av1, x)"
    by (cases "note_exact_claim s r av")
  have "keeps W av av1"
    using keeps_frame(1) [of W av s r] 1 by simp
  then show ?thesis
    using credit_claim_keeps [OF assms, of av1 s] 1
    by (auto simp: note_exact_def case_prod_beta Let_def intro: keeps_trans)
qed

lemma note_ancestor_keeps:
  assumes kn: "known b W"
  shows "resolver_inv W av \<Longrightarrow> keeps W av (fst (note_ancestor b s anchor delta av))"
proof -
  assume inv: "resolver_inv W av"
  obtain av1 w where 1: "resolve_relative b anchor delta av = (av1, w)"
    by (cases "resolve_relative b anchor delta av")
  note k = resolve_relative_keeps [OF kn 1]
  have "keeps W av (remember_relative s anchor delta av1)"
    using k by (blast intro: keeps_trans keeps_frame(2))
  then show ?thesis
  proof (cases w)
    case (AWReady r)
    then show ?thesis
      using k inv 1 credit_relative_keeps [OF kn, of r av1 s]
      by (auto simp: note_ancestor_def case_prod_beta Let_def intro: keeps_trans)
  qed (use k 1 in \<open>auto simp: note_ancestor_def\<close>)
qed

fun claim_ok :: "block_cache \<Rightarrow> claim_ref \<Rightarrow> bool" where
  "claim_ok W (Exact r) = ref_ok W r"
| "claim_ok W (Ancestor _ _) = True"

lemma note_claims_inv:
  assumes "known b W" "list_all (claim_ok W) claims" "resolver_inv W av"
  shows "resolver_inv W (fst (note_claims b s claims av)) \<and> av_index (fst (note_claims b s claims av)) = av_index av"
  using assms(2,3)
proof (induction claims arbitrary: av)
  case (Cons c claims)
  have "keeps W av (fst (case c of Exact r \<Rightarrow> note_exact b s r av | Ancestor anchor delta \<Rightarrow> note_ancestor b s anchor delta av))"
    using Cons.prems note_exact_keeps [OF assms(1)] note_ancestor_keeps [OF assms(1)] by (cases c) auto
  then show ?case
    using Cons.prems Cons.IH by (simp add: case_prod_beta Let_def keeps_def)
qed simp

lemma resolve_entries_inv:
  assumes "known b W" "list_all (avail_entry_ok W) es" "resolver_inv W av" "sender = ci_slot (av_index av) s"
  shows "resolver_inv W (fst (resolve_entries b sender es av)) \<and> av_index (fst (resolve_entries b sender es av)) = av_index av"
  using assms(2-)
proof (induction es arbitrary: av)
  case (Cons e es)
  let ?av = "fst (resolve_one b sender (ci_slot (av_index av) (ae_author e)) e av)"
  have "resolver_inv W ?av" "av_index ?av = av_index av"
    using Cons.prems resolve_one_inv [OF _ assms(1), of av e s] by (simp_all add: resolve_one_index)
  then show ?case
    using Cons.IH [of ?av] Cons.prems by (simp add: case_prod_beta Let_def)
qed simp

lemma retry_senders_inv:
  assumes "known b W" "list_all (slot_of (av_index av)) senders" "resolver_inv W av" "lane = ci_slot (av_index av) a"
  shows "resolver_inv W (fst (retry_senders b lane senders av)) \<and> av_index (fst (retry_senders b lane senders av)) = av_index av"
  using assms(2-)
proof (induction senders arbitrary: av)
  case (Cons x senders)
  then have x: "x = ci_slot (av_index av) (sl_key x)"
    using slot_eq by auto
  show ?case
  proof (cases "bp_get (av_pending_avail av) x lane")
    case (Some e)
    then have "bp_map (av_index av) (av_pending_avail av) (sl_key x, a) = Some e"
      using Cons.prems x by (simp add: bp_map_def)
    then have "ae_author e = a" "avail_entry_ok W e"
      using Cons.prems by (auto simp: resolver_inv_def pending_ok_def)
    then have "resolver_inv W (fst (resolve_one b x lane e av))"
      using resolve_one_inv [OF Cons.prems(2) assms(1), of e "sl_key x"] x Cons.prems(3) by simp
    then show ?thesis
      using Cons.IH [of "fst (resolve_one b x lane e av)"] Cons.prems Some
      by (simp add: case_prod_beta Let_def resolve_one_index)
  qed (use Cons in simp)
qed simp

lemma retry_relative_inv:
  assumes "known b W" "resolver_inv W av"
  shows "resolver_inv W (fst (retry_relative b ps av)) \<and> av_index (fst (retry_relative b ps av)) = av_index av"
  using assms(2)
proof (induction ps arbitrary: av)
  case (Cons p ps)
  obtain s anchor delta where p: "p = (s, anchor, delta)"
    by (cases p)
  obtain av1 w where 1: "resolve_relative b anchor delta av = (av1, w)"
    by (cases "resolve_relative b anchor delta av")
  note k = resolve_relative_keeps [OF assms(1) 1]
  then have 2: "keeps W av (remove_relative p av1)" "keeps W av av1"
    by (blast intro: keeps_trans keeps_frame(3))+
  show ?case
  proof (cases w)
    case (AWReady r)
    define av2 where "av2 = fst (credit_relative_target b (ci_slot (av_index (remove_relative p av1)) s) r (remove_relative p av1))"
    have "keeps W av av2"
      using credit_relative_keeps [OF assms(1), of r] k 2(1) Cons.prems AWReady unfolding av2_def by (blast intro: keeps_trans)
    then show ?thesis
      using Cons.IH [of av2] Cons.IH [of av] Cons.prems 1 AWReady
      by (simp add: p av2_def [unfolded p] case_prod_beta Let_def keeps_def)
  qed (use Cons.IH 2 Cons.prems 1 in \<open>auto simp: p keeps_def\<close>)
qed simp

lemma ss_iter_slots: "ci_ok ci \<Longrightarrow> list_all (slot_of ci) (List.map_filter id (ss_iter ci x))"
  by (auto simp: list_all_iff ss_iter_def List.map_filter_def ci_at_def nth_opt_def slot_of_def ci_slot_def ci_ok_def position_nth
      split: if_splits)

lemma retry_pending_inv:
  assumes kn: "known b W" and inv: "resolver_inv W av"
  shows "resolver_inv W (fst (av_retry_pending_avail b d av)) \<and> av_index (fst (av_retry_pending_avail b d av)) = av_index av"
proof (cases "bc_get b d")
  case (Some e)
  let ?lane = "ci_slot (av_index av) (h_author (be_block e))"
  define senders where "senders = (case ba_get (av_pending_by_author av) ?lane of
                            None \<Rightarrow> [] | Some s \<Rightarrow> List.map_filter id (ss_iter (av_index av) s))"
  define av1 where "av1 = fst (retry_senders b ?lane senders av)"
  have "ci_ok (av_index av)"
    using inv by (simp add: resolver_inv_def segments_ok_def ba_ok_def)
  then have "list_all (slot_of (av_index av)) senders"
    using ss_iter_slots by (simp add: senders_def split: option.splits)
  then have "resolver_inv W av1" "av_index av1 = av_index av"
    using retry_senders_inv [OF kn _ inv refl, of senders "h_author (be_block e)"] by (simp_all add: av1_def)
  then show ?thesis
    using retry_relative_inv [OF kn, of av1]
    by (simp add: av_retry_pending_avail_def Some senders_def [symmetric] av1_def case_prod_beta Let_def)
qed (use inv in \<open>simp add: av_retry_pending_avail_def\<close>)

lemma fold_floor_content:
  assumes "bp_ok ci t"
  shows "bp_ok ci (fold (\<lambda>k. bp_insert (ci_slot ci k) (ci_slot ci a) m) ks t)
    \<and> bp_map ci (fold (\<lambda>k. bp_insert (ci_slot ci k) (ci_slot ci a) m) ks t) (s, l) =
        (if l = a \<and> s \<in> set ks then Some m else bp_map ci t (s, l))"
  using assms
proof (induction ks arbitrary: t)
  case (Cons k ks)
  then show ?case
    by (auto simp: bp_insert_content bp_insert_ok)
qed simp

lemma av_reset_inv:
  assumes inv: "resolver_inv W av" and "label W a (ref_digest anchor)"
  shows "resolver_inv W (av_reset_author a anchor av) \<and> av_index (av_reset_author a anchor av) = av_index av"
proof -
  have "bp_ok (av_index av) (bp_clear_author (ci_slot (av_index av) a) (av_credited_floor av))"
    using inv by (simp add: resolver_invs table_oks)
  from fold_floor_content [OF this, of a "(ref_height anchor, ref_digest anchor)" "ci_keys (av_index av)"]
  show ?thesis
    using inv assms(2)
    by (auto simp: av_reset_author_def Let_def resolver_invs table_oks bp_clear_content ba_clear_content
        targets_ok_def [of _ "[]"] split: if_splits)
qed

datatype avail_event =
    AvClaim public_key "claim_ref list"
  | AvWatermark public_key "avail_entry list"
  | AvRetry digest
  | AvReset public_key block_ref
  | AvThreshold block_ref ack_threshold

fun avail_apply :: "avail_event \<Rightarrow> block_cache \<Rightarrow> avail_resolver \<Rightarrow> avail_resolver" where
  "avail_apply (AvClaim s claims) b av = fst (av_note_claim b s claims av)"
| "avail_apply (AvWatermark s entries) b av = fst (resolve_watermark b s entries av)"
| "avail_apply (AvRetry d) b av = fst (av_retry_pending_avail b d av)"
| "avail_apply (AvReset a anchor) b av = av_reset_author a anchor av"
| "avail_apply (AvThreshold r t) b av = note_threshold r t av"

fun avail_event_ok :: "block_cache \<Rightarrow> avail_event \<Rightarrow> bool" where
  "avail_event_ok W (AvClaim s claims) = list_all (claim_ok W) claims"
| "avail_event_ok W (AvWatermark s entries) = list_all (avail_entry_ok W) entries"
| "avail_event_ok W (AvReset a anchor) = label W a (ref_digest anchor)"
| "avail_event_ok W _ = True"

definition avail_run :: "(avail_event \<times> block_cache) list \<Rightarrow> avail_resolver \<Rightarrow> avail_resolver" where
  "avail_run evs av = fold (\<lambda>(e, b). avail_apply e b) evs av"

lemma avail_apply_inv:
  assumes "known b W" "avail_event_ok W e" "resolver_inv W av"
  shows "resolver_inv W (avail_apply e b av) \<and> av_index (avail_apply e b av) = av_index av"
proof (cases e)
  case (AvClaim s claims)
  then show ?thesis
    using note_claims_inv [OF assms(1) _ assms(3)] assms by (simp add: av_note_claim_def)
next
  case (AvWatermark s entries)
  then show ?thesis
    using resolve_entries_inv [OF assms(1) _ assms(3) refl] assms by (simp add: resolve_watermark_def)
next
  case (AvThreshold r t)
  then show ?thesis
    using keeps_frame(4) [of W av r t] assms(3) by (simp add: keeps_def)
qed (use assms retry_pending_inv av_reset_inv in auto)

lemma resolver_new_inv:
  assumes "committee_ok c" "\<And>a. label W a g"
  shows "resolver_inv W (avail_resolver_new c g)"
  using committee_index_new_ok [OF assms(1)] assms(2)
  by (auto simp: avail_resolver_new_def resolver_invs Let_def table_oks ba_new_content bp_new_content
      targets_ok_def [of _ "[]"] split: if_splits)

lemma avail_run_inv:
  assumes "resolver_inv W av" "\<And>e b. (e, b) \<in> set evs \<Longrightarrow> avail_event_ok W e \<and> known b W"
  shows "resolver_inv W (avail_run evs av) \<and> av_index (avail_run evs av) = av_index av"
  using assms
proof (induction evs arbitrary: av)
  case (Cons x evs)
  obtain e b where x: "x = (e, b)"
    by (cases x)
  have "resolver_inv W (avail_apply e b av)" "av_index (avail_apply e b av) = av_index av"
    using avail_apply_inv [of b W e av] Cons.prems x by auto
  then show ?case
    using Cons.IH [of "avail_apply e b av"] Cons.prems(2) x by (auto simp: avail_run_def)
qed (simp add: avail_run_def)

section \<open>Properties\<close>

text \<open>C24. After any claims, watermarks, retries, thresholds and lane resets that file blocks under
  their authors, the memoised lookup of a verified suffix returns only what the walk over all
  blocks ever cached returns, and returns whatever the walk over the present cache finds.\<close>

theorem segment_memo_matches_walk:
  assumes "committee_ok c" and "\<forall>a. label W a g"
    and "\<forall>(ev, b) \<in> set evs. avail_event_ok W ev \<and> known b W"
    and av: "av = avail_run evs (avail_resolver_new c g)"
    and "known b W" and "avail_entry_ok W e"
    and "floor_of av (ci_slot (av_index av) s) (ci_slot (av_index av) (ae_author e)) = (f, fd)" and "f < ae_height e"
  shows "let r = snd (verified_segment b (ci_slot (av_index av) (ae_author e)) e f fd av)
    in (\<forall>sfx. r = Some sfx \<longrightarrow> collect_verified_suffix f fd (ae_head e) W = Some sfx)
     \<and> (\<forall>sfx. collect_verified_suffix f fd (ae_head e) b = Some sfx \<longrightarrow> r = Some sfx)"
proof -
  have inv: "resolver_inv W av"
    unfolding av using avail_run_inv [OF resolver_new_inv, of c W g evs] assms(1-3) by auto
  obtain av' r where vs: "verified_segment b (ci_slot (av_index av) (ae_author e)) e f fd av = (av', r)"
    by (cases "verified_segment b (ci_slot (av_index av) (ae_author e)) e f fd av")
  show ?thesis
    using verified_segment_exact [OF _ assms(5) _ _ assms(8) vs] floor_label [OF _ assms(7)] inv assms(6)
    by (simp add: vs resolver_inv_def avail_entry_ok_def)
qed

definition demo_entry :: avail_entry where
  "demo_entry = \<lparr>ae_author = PublicKey 1, ae_height = Suc (Suc 0), ae_head = Digest 12\<rparr>"

definition demo_resolver :: avail_resolver where
  "demo_resolver = avail_run [(AvReset (PublicKey 1) (PublicKey 1, Suc 0, Digest 11), demo_cache)]
     (avail_resolver_new demo_committee (Digest 0))"

lemma demo_resolver_floor:
  "floor_of demo_resolver (ci_slot (av_index demo_resolver) (PublicKey 3)) (ci_slot (av_index demo_resolver) (PublicKey 1))
     = (Suc 0, Digest 11)"
proof -
  let ?ci = "committee_index_new demo_committee"
  let ?t = "bp_clear_author (ci_slot ?ci (PublicKey 1)) (bp_new ?ci) :: (height \<times> digest) by_pair"
  have "bp_ok ?ci ?t"
    using committee_index_new_ok [OF demo_committee_ok] by (simp add: table_oks)
  moreover have "PublicKey 3 \<in> set (ci_keys ?ci)"
    by (simp add: committee_index_new_def demo_committee_def)
  ultimately have "bp_map ?ci (fold (\<lambda>k. bp_insert (ci_slot ?ci k) (ci_slot ?ci (PublicKey 1)) (Suc 0, Digest 11)) (ci_keys ?ci) ?t)
      (PublicKey 3, PublicKey 1) = Some (Suc 0, Digest 11)"
    using fold_floor_content [of ?ci ?t "PublicKey 1" "(Suc 0, Digest 11)" "ci_keys ?ci" "PublicKey 3" "PublicKey 1"] by simp
  then show ?thesis
    by (simp add: floor_of_def demo_resolver_def avail_run_def av_reset_author_def avail_resolver_new_def Let_def bp_map_def)
qed

theorem segment_memo_matches_walk_witness:
  "let r = snd (verified_segment demo_cache (ci_slot (av_index demo_resolver) (PublicKey 1)) demo_entry 1 (Digest 11) demo_resolver)
    in (\<forall>sfx. r = Some sfx \<longrightarrow> collect_verified_suffix 1 (Digest 11) (Digest 12) demo_cache = Some sfx)
     \<and> (\<forall>sfx. collect_verified_suffix 1 (Digest 11) (Digest 12) demo_cache = Some sfx \<longrightarrow> r = Some sfx)"
proof -
  have "known demo_cache demo_cache"
    by (simp add: known_def same_position_def)
  moreover have "\<forall>a. label demo_cache a (Digest 0)" "label demo_cache (PublicKey 1) (Digest 11)"
      "label demo_cache (PublicKey 1) (Digest 12)"
    by (auto simp: label_def demo_cache_simps split: if_splits)
  ultimately show ?thesis
    using segment_memo_matches_walk [OF demo_committee_ok _ _ demo_resolver_def, of demo_cache demo_cache demo_entry "PublicKey 3" 1 "Digest 11"]
      demo_resolver_floor
    by (simp add: demo_entry_def avail_entry_ok_def)
qed

end
