(* ===== verification/Store.thy ===== *)
theory Store
  imports Messages "HOL-Library.List_Lexorder"
begin

text \<open>
  The storage actor of \<^verbatim>\<open>store/src/lib.rs\<close>: writes are staged in an overlay that reads consult
  before the database, the overlay is flushed as one batch by the ticker, by its size bound or when
  the channel closes, and readers of absent keys wait until the key is written. RocksDB is a
  parameter (\<^verbatim>\<open>get\<close>, \<^verbatim>\<open>multi_get\<close> and \<^verbatim>\<open>write_opt\<close>), with its documented
  behaviour as the hypothesis \<^verbatim>\<open>rocks_ok\<close>. The actor is shown to serve a plain map. The
  channel, the heartbeat and the tuning options are not part of the model.
\<close>

section \<open>State\<close>

type_synonym reader = nat

text \<open>A read of the database may fail, and a failed batch write aborts the process.\<close>

record 'db rocks =
  rk_get :: "'db \<Rightarrow> bytes \<Rightarrow> bytes option option"
  rk_write :: "'db \<Rightarrow> (bytes \<times> bytes) list \<Rightarrow> 'db option"

record 'db store_actor =
  sa_db :: 'db
  sa_pending :: "(bytes, bytes) omap"
  sa_pending_bytes :: nat
  sa_obligations :: "(bytes, reader list) omap"

datatype store_command =
    SWrite bytes bytes
  | SWriteMany "(bytes \<times> bytes) list"
  | SRead bytes reader
  | SReadMany "bytes list" reader
  | SNotifyRead bytes reader

text \<open>The actor loop selects a command, a tick of the flush interval or the closing of the channel.\<close>

datatype store_input = SCommand store_command | STick | SClosed

text \<open>Replies carry the reader; an error of the database is \<^term>\<open>None\<close>.\<close>

datatype store_reply =
    RRead reader "bytes option option"
  | RReadMany reader "bytes option list"
  | RNotify reader "bytes option"

definition max_pending_bytes :: nat where
  "max_pending_bytes = 32 * 1024 * 1024"

definition store_open :: "'db \<Rightarrow> 'db store_actor" where
  "store_open db = \<lparr>sa_db = db, sa_pending = [], sa_pending_bytes = 0, sa_obligations = []\<rparr>"

section \<open>Operations\<close>

text \<open>\<^verbatim>\<open>saturating_sub\<close> is subtraction on \<^typ>\<open>nat\<close>; the addition saturates at \<^verbatim>\<open>usize::MAX\<close>.\<close>

definition stage_write :: "bytes \<Rightarrow> bytes \<Rightarrow> 'db store_actor \<Rightarrow> 'db store_actor \<times> store_reply list" where
  "stage_write key value sa =
     (let waiting = (case map_of (sa_obligations sa) key of None \<Rightarrow> [] | Some senders \<Rightarrow> senders);
          held = (case map_of (sa_pending sa) key of
                    Some previous \<Rightarrow> sa_pending_bytes sa - (length key + length previous)
                  | None \<Rightarrow> sa_pending_bytes sa)
      in (sa\<lparr>sa_obligations := om_del key (sa_obligations sa),
             sa_pending := om_put key value (sa_pending sa),
             sa_pending_bytes := sat_add held (length key + length value)\<rparr>,
          map (\<lambda>sender. RNotify sender (Some value)) waiting))"

definition flush_pending :: "'db rocks \<Rightarrow> 'db store_actor \<Rightarrow> 'db store_actor option" where
  "flush_pending R sa =
     (if sa_pending sa = [] then Some sa
      else case rk_write R (sa_db sa) (sa_pending sa) of
             None \<Rightarrow> None
           | Some db \<Rightarrow> Some (sa\<lparr>sa_db := db, sa_pending := [], sa_pending_bytes := 0\<rparr>))"

definition staged :: "'db rocks \<Rightarrow> bytes \<Rightarrow> bytes \<Rightarrow> 'db store_actor \<Rightarrow> ('db store_actor \<times> store_reply list) option" where
  "staged R key value sa =
     (let (sa, replies) = stage_write key value sa
      in if sa_pending_bytes sa \<ge> max_pending_bytes
         then map_option (\<lambda>sa. (sa, replies)) (flush_pending R sa)
         else Some (sa, replies))"

fun write_all :: "'db rocks \<Rightarrow> (bytes \<times> bytes) list \<Rightarrow> 'db store_actor \<Rightarrow> ('db store_actor \<times> store_reply list) option" where
  "write_all R [] sa = Some (sa, [])"
| "write_all R ((key, value) # entries) sa =
     (case staged R key value sa of
        None \<Rightarrow> None
      | Some (sa, replies) \<Rightarrow> map_option (\<lambda>(sa, more). (sa, replies @ more)) (write_all R entries sa))"

definition lookup :: "'db rocks \<Rightarrow> 'db store_actor \<Rightarrow> bytes \<Rightarrow> bytes option option" where
  "lookup R sa key = (case map_of (sa_pending sa) key of
                        Some value \<Rightarrow> Some (Some value)
                      | None \<Rightarrow> rk_get R (sa_db sa) key)"

text \<open>A failed lookup in a batched read is reported as a missing value.\<close>

definition lookup_lenient :: "'db rocks \<Rightarrow> 'db store_actor \<Rightarrow> bytes \<Rightarrow> bytes option" where
  "lookup_lenient R sa key = (case map_of (sa_pending sa) key of
                        Some value \<Rightarrow> Some value
                      | None \<Rightarrow> (case rk_get R (sa_db sa) key of Some value \<Rightarrow> value | None \<Rightarrow> None))"

fun on_command :: "'db rocks \<Rightarrow> store_command \<Rightarrow> 'db store_actor \<Rightarrow> ('db store_actor \<times> store_reply list) option" where
  "on_command R (SWrite key value) sa = staged R key value sa"
| "on_command R (SWriteMany entries) sa = write_all R entries sa"
| "on_command R (SRead key sender) sa = Some (sa, [RRead sender (lookup R sa key)])"
| "on_command R (SReadMany keys sender) sa = Some (sa, [RReadMany sender (map (lookup_lenient R sa) keys)])"
| "on_command R (SNotifyRead key sender) sa =
     Some (case lookup R sa key of
             Some None \<Rightarrow> (sa\<lparr>sa_obligations := om_upd key [] (\<lambda>q. q @ [sender]) (sa_obligations sa)\<rparr>, [])
           | Some (Some value) \<Rightarrow> (sa, [RNotify sender (Some value)])
           | None \<Rightarrow> (sa, [RNotify sender None]))"

fun actor_step :: "'db rocks \<Rightarrow> store_input \<Rightarrow> 'db store_actor \<Rightarrow> ('db store_actor \<times> store_reply list) option" where
  "actor_step R (SCommand cmd) sa = on_command R cmd sa"
| "actor_step R STick sa = map_option (\<lambda>sa. (sa, [])) (flush_pending R sa)"
| "actor_step R SClosed sa = map_option (\<lambda>sa. (sa, [])) (flush_pending R sa)"

text \<open>The loop ends when the channel is closed.\<close>

fun actor_run :: "'db rocks \<Rightarrow> store_input list \<Rightarrow> 'db store_actor \<Rightarrow> ('db store_actor \<times> store_reply list) option" where
  "actor_run R [] sa = Some (sa, [])"
| "actor_run R (i # is) sa =
     (case actor_step R i sa of
        None \<Rightarrow> None
      | Some (sa, replies) \<Rightarrow>
          if i = SClosed then Some (sa, replies)
          else map_option (\<lambda>(sa, more). (sa, replies @ more)) (actor_run R is sa))"

section \<open>The store as a map\<close>

text \<open>The contract of the store: a map, and the readers that wait for a key to be written.\<close>

record kv_store =
  kv_data :: "bytes \<Rightarrow> bytes option"
  kv_waiting :: "bytes \<Rightarrow> reader list"

definition kv_write :: "bytes \<Rightarrow> bytes \<Rightarrow> kv_store \<Rightarrow> kv_store \<times> store_reply list" where
  "kv_write key value kv =
     (kv\<lparr>kv_data := (kv_data kv)(key := Some value), kv_waiting := (kv_waiting kv)(key := [])\<rparr>,
      map (\<lambda>sender. RNotify sender (Some value)) (kv_waiting kv key))"

fun kv_write_all :: "(bytes \<times> bytes) list \<Rightarrow> kv_store \<Rightarrow> kv_store \<times> store_reply list" where
  "kv_write_all [] kv = (kv, [])"
| "kv_write_all ((key, value) # entries) kv =
     (let (kv, replies) = kv_write key value kv; (kv, more) = kv_write_all entries kv in (kv, replies @ more))"

fun kv_command :: "store_command \<Rightarrow> kv_store \<Rightarrow> kv_store \<times> store_reply list" where
  "kv_command (SWrite key value) kv = kv_write key value kv"
| "kv_command (SWriteMany entries) kv = kv_write_all entries kv"
| "kv_command (SRead key sender) kv = (kv, [RRead sender (Some (kv_data kv key))])"
| "kv_command (SReadMany keys sender) kv = (kv, [RReadMany sender (map (kv_data kv) keys)])"
| "kv_command (SNotifyRead key sender) kv =
     (case kv_data kv key of
        None \<Rightarrow> (kv\<lparr>kv_waiting := (kv_waiting kv)(key := kv_waiting kv key @ [sender])\<rparr>, [])
      | Some value \<Rightarrow> (kv, [RNotify sender (Some value)]))"

fun kv_run :: "store_input list \<Rightarrow> kv_store \<Rightarrow> kv_store \<times> store_reply list" where
  "kv_run [] kv = (kv, [])"
| "kv_run (SCommand cmd # is) kv =
     (let (kv, replies) = kv_command cmd kv; (kv, more) = kv_run is kv in (kv, replies @ more))"
| "kv_run (STick # is) kv = kv_run is kv"
| "kv_run (SClosed # is) kv = (kv, [])"

text \<open>
  What is relied on of RocksDB: an opened database reads as a map without errors, and a batch
  write succeeds and is visible to later reads, later entries of the batch winning.
\<close>

definition rocks_ok :: "'db rocks \<Rightarrow> ('db \<Rightarrow> bytes \<Rightarrow> bytes option) \<Rightarrow> bool" where
  "rocks_ok R content \<longleftrightarrow>
     (\<forall>db key. rk_get R db key = Some (content db key))
     \<and> (\<forall>db batch. \<exists>db'. rk_write R db batch = Some db' \<and> content db' = content db ++ map_of (rev batch))"

definition store_view :: "('db \<Rightarrow> bytes \<Rightarrow> bytes option) \<Rightarrow> 'db store_actor \<Rightarrow> kv_store" where
  "store_view content sa =
     \<lparr>kv_data = content (sa_db sa) ++ map_of (sa_pending sa),
      kv_waiting = (\<lambda>key. case map_of (sa_obligations sa) key of None \<Rightarrow> [] | Some senders \<Rightarrow> senders)\<rparr>"

definition weight :: "bytes \<times> bytes \<Rightarrow> nat" where
  "weight e = length (fst e) + length (snd e)"

definition actor_ok :: "'db store_actor \<Rightarrow> bool" where
  "actor_ok sa \<longleftrightarrow> omap_ok (sa_pending sa) \<and> omap_ok (sa_obligations sa)
     \<and> sa_pending_bytes sa = (\<Sum>e\<leftarrow>sa_pending sa. weight e) \<and> sa_pending_bytes sa < max_pending_bytes"

section \<open>The actor serves the map\<close>

lemma pending_weight_put:
  "(\<Sum>e\<leftarrow>om_put k v m. weight e) + (case map_of m k of None \<Rightarrow> 0 | Some p \<Rightarrow> weight (k, p)) =
     (\<Sum>e\<leftarrow>m. weight e) + weight (k, v)"
  if "omap_ok m"
  using that
proof (induction m)
  case (Cons e m)
  have "map_of m k = None" if "k < fst e"
    using that Cons.prems by (fastforce simp: omap_ok_Cons map_of_eq_None_iff)
  then show ?case
    using Cons by (cases e) (auto simp: omap_ok_Cons split: option.splits)
qed simp

lemma weight_member: "map_of m k = Some p \<Longrightarrow> weight (k, p) \<le> (\<Sum>e\<leftarrow>m. weight e)"
  using member_le_sum_list [of "weight (k, p)" "map weight m"] map_of_SomeD [of m k p] by force

lemma max_pending_below_u64: "max_pending_bytes \<le> u64_max"
  by (simp add: max_pending_bytes_def u64_max_def)

lemma stage_write_view:
  assumes "stage_write key value sa = (sa', replies)"
  shows "kv_write key value (store_view content sa) = (store_view content sa', replies)"
    and "sa_db sa' = sa_db sa"
  using assms
  by (auto simp: stage_write_def Let_def kv_write_def store_view_def omap_simps fun_eq_iff split: option.splits)

lemma stage_write_bytes:
  assumes "actor_ok sa" "stage_write key value sa = (sa', replies)"
  shows "omap_ok (sa_pending sa')" "omap_ok (sa_obligations sa')"
    and "sa_pending_bytes sa' = min (\<Sum>e\<leftarrow>sa_pending sa'. weight e) u64_max"
proof -
  have ok: "omap_ok (sa_pending sa)" "omap_ok (sa_obligations sa)"
    and sum: "sa_pending_bytes sa = (\<Sum>e\<leftarrow>sa_pending sa. weight e)"
    using assms(1) by (simp_all add: actor_ok_def)
  show "omap_ok (sa_pending sa')" "omap_ok (sa_obligations sa')"
    using assms(2) ok by (auto simp: stage_write_def Let_def intro: order_intros)
  show "sa_pending_bytes sa' = min (\<Sum>e\<leftarrow>sa_pending sa'. weight e) u64_max"
    using assms(2) sum pending_weight_put [OF ok(1), of key "value"] weight_member [of "sa_pending sa" key]
    by (auto simp: stage_write_def Let_def sat_add_def weight_def split: option.splits)
qed

lemma flush_view:
  assumes "rocks_ok R content" "omap_ok (sa_pending sa)"
  obtains sa' where "flush_pending R sa = Some sa'" "store_view content sa' = store_view content sa"
    "sa_pending sa' = []" "sa_obligations sa' = sa_obligations sa"
    "sa_pending sa \<noteq> [] \<Longrightarrow> sa_pending_bytes sa' = 0" "sa_pending sa = [] \<Longrightarrow> sa' = sa"
proof -
  obtain db' where db': "rk_write R (sa_db sa) (sa_pending sa) = Some db'"
      "content db' = content (sa_db sa) ++ map_of (rev (sa_pending sa))"
    using assms(1) unfolding rocks_ok_def by blast
  have "map_of (rev (sa_pending sa)) = map_of (sa_pending sa)"
    using omap_ok_distinct [OF assms(2)] by (intro map_of_inject_set [THEN iffD2]) (simp_all add: rev_map [symmetric])
  then show ?thesis
    using db' that by (cases "sa_pending sa = []") (auto simp: flush_pending_def store_view_def)
qed

lemma staged_view:
  assumes "rocks_ok R content" "actor_ok sa"
  obtains sa' replies where "staged R key value sa = Some (sa', replies)" "actor_ok sa'"
    "kv_write key value (store_view content sa) = (store_view content sa', replies)"
proof -
  obtain s1 replies where s1: "stage_write key value sa = (s1, replies)"
    by (cases "stage_write key value sa")
  note b = stage_write_bytes [OF assms(2) s1]
  note v = stage_write_view(1) [OF s1, of content]
  show ?thesis
  proof (cases "sa_pending_bytes s1 \<ge> max_pending_bytes")
    case True
    obtain s2 where s2: "flush_pending R s1 = Some s2" "store_view content s2 = store_view content s1"
        "sa_pending s2 = []" "sa_obligations s2 = sa_obligations s1"
        "sa_pending s1 \<noteq> [] \<Longrightarrow> sa_pending_bytes s2 = 0" "sa_pending s1 = [] \<Longrightarrow> s2 = s1"
      using flush_view [OF assms(1) b(1)] by blast
    have "sa_pending s1 \<noteq> []"
      using True b(3) by (auto simp: max_pending_bytes_def)
    then have "actor_ok s2"
      using s2 b(2) by (simp add: actor_ok_def max_pending_bytes_def)
    then show ?thesis
      using that [of s2 replies] s1 s2 v True by (simp add: staged_def)
  next
    case False
    then have "actor_ok s1"
      using b max_pending_below_u64 by (simp add: actor_ok_def min_def split: if_splits)
    then show ?thesis
      using that [of s1 replies] s1 v False by (simp add: staged_def)
  qed
qed

lemma write_all_view:
  assumes "rocks_ok R content" "actor_ok sa"
  shows "\<exists>sa' replies. write_all R entries sa = Some (sa', replies) \<and> actor_ok sa'
    \<and> kv_write_all entries (store_view content sa) = (store_view content sa', replies)"
  using assms(2)
proof (induction entries arbitrary: sa)
  case (Cons e entries)
  obtain key v where e: "e = (key, v)"
    by (cases e)
  obtain s1 r1 where s1: "staged R key v sa = Some (s1, r1)" "actor_ok s1"
      "kv_write key v (store_view content sa) = (store_view content s1, r1)"
    using staged_view [OF assms(1) Cons.prems] by blast
  then show ?case
    using Cons.IH [OF s1(2)] by (auto simp: e)
qed simp

lemma lookup_view:
  assumes "rocks_ok R content"
  shows "lookup R sa key = Some (kv_data (store_view content sa) key)"
    and "lookup_lenient R sa key = kv_data (store_view content sa) key"
  using assms by (auto simp: lookup_def lookup_lenient_def rocks_ok_def store_view_def map_add_def split: option.splits)

lemma on_command_view:
  assumes "rocks_ok R content" "actor_ok sa"
  shows "\<exists>sa' replies. on_command R cmd sa = Some (sa', replies) \<and> actor_ok sa'
    \<and> kv_command cmd (store_view content sa) = (store_view content sa', replies)"
proof (cases cmd)
  case (SWrite key v)
  obtain sa' replies where "staged R key v sa = Some (sa', replies)" "actor_ok sa'"
      "kv_write key v (store_view content sa) = (store_view content sa', replies)"
    by (rule staged_view [OF assms])
  then show ?thesis
    using SWrite by simp
next
  case (SWriteMany entries)
  then show ?thesis
    using write_all_view [OF assms] by simp
next
  case (SReadMany keys sender)
  then show ?thesis
    using assms by (simp add: lookup_view [OF assms(1)])
next
  case (SNotifyRead key sender)
  have "actor_ok (sa\<lparr>sa_obligations := om_upd key [] (\<lambda>q. q @ [sender]) (sa_obligations sa)\<rparr>)"
    using assms(2) by (auto simp: actor_ok_def intro: order_intros)
  then show ?thesis
    using SNotifyRead assms
    by (auto simp: lookup_view [OF assms(1)] store_view_def omap_simps fun_eq_iff split: option.splits)
qed (use assms in \<open>simp add: lookup_view\<close>)

lemma actor_run_view:
  assumes "rocks_ok R content" "actor_ok sa"
  shows "\<exists>sa' replies. actor_run R is sa = Some (sa', replies) \<and> actor_ok sa'
    \<and> kv_run is (store_view content sa) = (store_view content sa', replies)
    \<and> (SClosed \<in> set is \<longrightarrow> sa_pending sa' = [])"
  using assms(2)
proof (induction "is" arbitrary: sa)
  case (Cons i "is")
  have fl: "\<exists>s1. flush_pending R sa = Some s1 \<and> actor_ok s1 \<and> store_view content s1 = store_view content sa \<and> sa_pending s1 = []"
    using flush_view [OF assms(1), of sa] Cons.prems
    by (fastforce simp: actor_ok_def max_pending_bytes_def)
  show ?case
  proof (cases i)
    case (SCommand cmd)
    then show ?thesis
      using on_command_view [OF assms(1) Cons.prems, of cmd] Cons.IH by (fastforce split: prod.splits)
  next
    case STick
    then show ?thesis
      using fl Cons.IH by fastforce
  next
    case SClosed
    then show ?thesis
      using fl by auto
  qed
qed simp

text \<open>
  A staged write is visible to readers at once and durable only after the next flush: a process
  that stops before the tick leaves the database as it was.
\<close>

lemma staged_write_not_durable:
  assumes "length key + length v < max_pending_bytes"
  shows "\<exists>sa. actor_run R [SCommand (SWrite key v)] (store_open db) = Some (sa, []) \<and> sa_db sa = db
    \<and> lookup R sa key = Some (Some v)"
  using assms
  by (simp add: store_open_def staged_def stage_write_def Let_def sat_add_def lookup_def omap_simps)

section \<open>Properties\<close>

text \<open>C19. On a database that behaves as a map, the actor never aborts, and whatever the flush ticks
  and the size bound do, its replies to every sequence of writes, batched writes, reads, batched
  reads and waiting reads are those of a plain map; the overlay never reaches its size bound, and
  when the channel has closed the database itself holds every write.\<close>

theorem store_serves_map:
  assumes "rocks_ok R content"
  shows "\<exists>sa replies. actor_run R inputs (store_open db) = Some (sa, replies)
    \<and> kv_run inputs \<lparr>kv_data = content db, kv_waiting = (\<lambda>_. [])\<rparr> = (store_view content sa, replies)
    \<and> (\<Sum>e\<leftarrow>sa_pending sa. weight e) < max_pending_bytes
    \<and> (SClosed \<in> set inputs \<longrightarrow> content (sa_db sa) = kv_data (store_view content sa))"
proof -
  have "actor_ok (store_open db)"
    by (simp add: actor_ok_def store_open_def max_pending_bytes_def)
  from actor_run_view [OF assms this, of inputs] show ?thesis
    by (auto simp: store_view_def store_open_def actor_ok_def)
qed

definition demo_rocks :: "(bytes \<Rightarrow> bytes option) rocks" where
  "demo_rocks = \<lparr>rk_get = (\<lambda>db key. Some (db key)), rk_write = (\<lambda>db batch. Some (db ++ map_of (rev batch)))\<rparr>"

theorem store_serves_map_witness:
  "\<exists>sa replies. actor_run demo_rocks [SCommand (SNotifyRead [1] 7), SCommand (SWrite [1] [2]), STick,
       SCommand (SRead [1] 8), SClosed] (store_open Map.empty) = Some (sa, replies)
     \<and> replies = [RNotify 7 (Some [2]), RRead 8 (Some (Some [2]))] \<and> sa_db sa [1] = Some [2]"
proof -
  let ?is = "[SCommand (SNotifyRead [1] 7), SCommand (SWrite [1] [2]), STick, SCommand (SRead [1] 8), SClosed]"
  have "rocks_ok demo_rocks (\<lambda>db. db)"
    by (simp add: rocks_ok_def demo_rocks_def)
  from store_serves_map [OF this, of ?is Map.empty] obtain sa replies
    where run: "actor_run demo_rocks ?is (store_open Map.empty) = Some (sa, replies)"
      and kv: "(store_view (\<lambda>db. db) sa, replies) = kv_run ?is \<lparr>kv_data = Map.empty, kv_waiting = (\<lambda>_. [])\<rparr>"
      and db: "sa_db sa = kv_data (store_view (\<lambda>db. db) sa)"
    by (auto simp del: actor_run.simps kv_run.simps)
  have "sa_db sa [1] = Some [2]" "replies = [RNotify 7 (Some [2]), RRead 8 (Some (Some [2]))]"
    using kv db by (simp_all add: kv_write_def)
  then show ?thesis
    using run by blast
qed

end
