(* ===== verification/Lanes.thy ===== *)
theory Lanes
  imports Avail Store
begin

text \<open>
  The lane manager of \<^verbatim>\<open>primary/src/vantage/lanes.rs\<close>: publication and acceptance of blocks, the
  pending references and their blockers, acknowledgement and availability marks, the candidate
  registers, own-lane persistence and recovery. The block cache shared with the repairer is passed
  beside the state. BLAKE3 (\<^verbatim>\<open>b3\<close>) and bincode (\<^verbatim>\<open>frontier_codec\<close>) are parameters, the store is
  the map that theory Store shows the storage actor to serve. Metrics, log output and the sizes
  they report are not part of the state.
\<close>

section \<open>State\<close>

text \<open>The persisted records and their encodings; an encoding or decoding that fails is \<^term>\<open>None\<close>.\<close>

record persisted_frontier =
  pf_sid :: digest
  pf_height :: height
  pf_digest :: digest

record persisted_frontier_header =
  ph_sid :: digest
  ph_header :: header

record frontier_codec =
  ser_frontier :: "persisted_frontier \<Rightarrow> bytes option"
  de_frontier :: "bytes \<Rightarrow> persisted_frontier option"
  ser_frontier_header :: "persisted_frontier_header \<Rightarrow> bytes option"
  de_frontier_header :: "bytes \<Rightarrow> persisted_frontier_header option"

record lane_manager =
  lm_name :: public_key
  lm_committee :: committee
  lm_index :: committee_index
  lm_sid :: digest
  lm_genesis :: digest
  lm_max_block_payload :: nat
  lm_store :: kv_store
  lm_ack_availability :: "(block_ref, ack_threshold) omap"
  lm_acked :: "block_ref oset"
  lm_pending_direct :: "block_ref oset"
  lm_blocked_by :: "(block_ref, digest) omap"
  lm_waiters :: "(digest, block_ref oset) omap"
  lm_prefix_blocker :: "(digest, digest) omap"
  lm_refresh_scan_after :: "block_ref option by_author"
  lm_direct_pub_refs :: "block_ref oset"
  lm_quorum_claim_refs :: "block_ref oset"
  lm_quorum_direct_refs :: "block_ref oset"
  lm_c_candidate :: "block_ref option by_author"
  lm_confirmation_candidate :: "block_ref option by_author"
  lm_t_candidate :: "block_ref option by_author"
  lm_own_frontier :: "height \<times> digest"
  lm_own_avail_watermark :: "(height \<times> digest) option by_author"
  lm_avail_dirty :: bool
  lm_avail :: avail_resolver
  lm_avail_watermark_high :: "height by_author"
  lm_seeded_anchor :: "header option"

definition own_frontier_key :: bytes where
  "own_frontier_key = tag_bytes ''vantage/own_frontier''"

definition own_frontier_header_key :: bytes where
  "own_frontier_header_key = tag_bytes ''vantage/own_frontier_header''"

abbreviation refresh_walk_budget :: nat where
  "refresh_walk_budget \<equiv> 8"

definition lanes_new ::
    "(bytes \<Rightarrow> digest) \<Rightarrow> (committee \<Rightarrow> bytes) \<Rightarrow> public_key \<Rightarrow> committee \<Rightarrow> nat \<Rightarrow> kv_store \<Rightarrow> lane_manager" where
  "lanes_new b3 ser_committee name c max_block_payload store =
     (let sid = session_id b3 ser_committee c; genesis = genesis_digest b3 sid; index = committee_index_new c
      in \<lparr>lm_name = name, lm_committee = c, lm_index = index, lm_sid = sid, lm_genesis = genesis,
          lm_max_block_payload = max_block_payload, lm_store = store, lm_ack_availability = [],
          lm_acked = [], lm_pending_direct = [], lm_blocked_by = [], lm_waiters = [], lm_prefix_blocker = [],
          lm_refresh_scan_after = ba_new index None, lm_direct_pub_refs = [], lm_quorum_claim_refs = [],
          lm_quorum_direct_refs = [], lm_c_candidate = ba_new index None,
          lm_confirmation_candidate = ba_new index None, lm_t_candidate = ba_new index None,
          lm_own_frontier = (0, genesis), lm_own_avail_watermark = ba_new index None, lm_avail_dirty = False,
          lm_avail = avail_resolver_new c genesis, lm_avail_watermark_high = ba_new index 0,
          lm_seeded_anchor = None\<rparr>)"

section \<open>Ordered ranges of references\<close>

definition min_digest :: digest where
  "min_digest = Digest 0"

definition max_digest :: digest where
  "max_digest = Digest (- 1)"

definition author_lower_bound_from :: "public_key \<Rightarrow> height \<Rightarrow> block_ref" where
  "author_lower_bound_from author height = (author, height, min_digest)"

definition author_lower_bound :: "public_key \<Rightarrow> block_ref" where
  "author_lower_bound author = author_lower_bound_from author 0"

definition author_upper_bound :: "public_key \<Rightarrow> block_ref" where
  "author_upper_bound author = (author, u64_max, max_digest)"

definition os_range :: "'a::linorder \<Rightarrow> 'a \<Rightarrow> 'a oset \<Rightarrow> 'a oset" where
  "os_range lo hi s = filter (\<lambda>x. lo \<le> x \<and> x \<le> hi) s"

definition os_range_after :: "'a::linorder \<Rightarrow> 'a \<Rightarrow> 'a oset \<Rightarrow> 'a oset" where
  "os_range_after lo hi s = filter (\<lambda>x. lo < x \<and> x \<le> hi) s"

text \<open>The loop over the references of an author from the greatest down; it stops below the first height.\<close>

fun newest_from :: "block_ref list \<Rightarrow> height option \<Rightarrow> block_ref option \<Rightarrow> block_ref option" where
  "newest_from [] current_height best_at_height = best_at_height"
| "newest_from (r # rs) current_height best_at_height =
     (case current_height of
        Some height \<Rightarrow> if height \<noteq> ref_height r then best_at_height else newest_from rs (Some height) (Some r)
      | None \<Rightarrow> newest_from rs (Some (ref_height r)) (Some r))"

definition newest_indexed :: "block_ref oset \<Rightarrow> public_key \<Rightarrow> block_ref option" where
  "newest_indexed index author =
     newest_from (rev (os_range (author_lower_bound author) (author_upper_bound author) index)) None None"

definition set_candidate :: "slot \<Rightarrow> block_ref option \<Rightarrow> block_ref option by_author \<Rightarrow> block_ref option by_author" where
  "set_candidate author v candidates = ba_entry None author (\<lambda>_. v) candidates"

section \<open>Prefixes\<close>

fun prefix_walk :: "block_cache \<Rightarrow> digest \<Rightarrow> block_ref \<Rightarrow> public_key \<Rightarrow> height \<Rightarrow> digest \<Rightarrow> bool" where
  "prefix_walk b genesis target author 0 cur = False"
| "prefix_walk b genesis target author (Suc h) cur =
     (if cur = genesis then False
      else case bc_get b cur of
             None \<Rightarrow> False
           | Some e \<Rightarrow>
               if h_author (be_block e) \<noteq> author then False
               else if h_height (be_block e) \<noteq> Suc h then False
               else if \<not> be_block_ok_verified e then False
               else if Suc h = ref_height target then cur = ref_digest target
               else prefix_walk b genesis target author h (parent_of e))"

definition prefix_contains :: "block_cache \<Rightarrow> lane_manager \<Rightarrow> block_ref \<Rightarrow> block_ref \<Rightarrow> bool" where
  "prefix_contains b lm r target =
     (if ref_author r \<noteq> ref_author target \<or> ref_height target > ref_height r then False
      else prefix_walk b (lm_genesis lm) target (ref_author r) (ref_height r) (ref_digest r))"

text \<open>The number of retained bytes is a metric.\<close>

fun retain_walk :: "digest \<Rightarrow> height \<Rightarrow> digest \<Rightarrow> block_cache \<Rightarrow> block_cache" where
  "retain_walk genesis 0 cur b = b"
| "retain_walk genesis (Suc h) cur b =
     (if cur = genesis then b
      else case bc_get b cur of
             None \<Rightarrow> b
           | Some e \<Rightarrow>
               if h_height (be_block e) \<noteq> Suc h \<or> be_retained e then b
               else retain_walk genesis h (parent_of e) (fst (mark_retained cur b)))"

definition retain_prefix :: "lane_manager \<Rightarrow> block_ref \<Rightarrow> block_cache \<Rightarrow> block_cache" where
  "retain_prefix lm r b = retain_walk (lm_genesis lm) (ref_height r) (ref_digest r) b"

datatype direct_pub_check = DPubConfirmed | DPubBlockedOnGate digest | DPubFailed

definition exact_at :: "block_cache \<Rightarrow> block_ref \<Rightarrow> bool" where
  "exact_at b r = (case bc_get b (ref_digest r) of None \<Rightarrow> False | Some e \<Rightarrow> pinned_at e (ref_author r) (ref_height r))"

text \<open>The two prefix checks at the end of \<^verbatim>\<open>direct_pub_check\<close>.\<close>

definition direct_pub_walk :: "lane_manager \<Rightarrow> block_ref \<Rightarrow> block_cache \<Rightarrow> block_cache \<times> direct_pub_check" where
  "direct_pub_walk lm r b =
     (let (b, verified) = verified_prefix_through_genesis (lm_genesis lm) (ref_digest r) b
      in if \<not> verified then (b, DPubFailed)
         else let (b, check) = direct_prefix_check (lm_genesis lm) (ref_digest r) b
              in (b, case check of
                       DPVerified \<Rightarrow> DPubConfirmed
                     | DPGate blocker \<Rightarrow> DPubBlockedOnGate blocker
                     | DPFailed \<Rightarrow> DPubFailed))"

definition direct_pub_check :: "lane_manager \<Rightarrow> block_ref \<Rightarrow> block_cache \<Rightarrow> block_cache \<times> direct_pub_check" where
  "direct_pub_check lm r b =
     (if \<not> exact_at b r then (b, DPubFailed)
      else case map_of (lm_prefix_blocker lm) (ref_digest r) of
             Some blocker \<Rightarrow>
               if \<not> direct_gate_ready b blocker then (b, DPubBlockedOnGate blocker)
               else direct_pub_walk lm r b
           | None \<Rightarrow> direct_pub_walk lm r b)"

definition direct_pub :: "lane_manager \<Rightarrow> block_ref \<Rightarrow> block_cache \<Rightarrow> block_cache \<times> bool" where
  "direct_pub lm r b = (let (b, check) = direct_pub_check lm r b in (b, check = DPubConfirmed))"

section \<open>Availability marks and queries\<close>

definition is_q_available :: "lane_manager \<Rightarrow> block_ref \<Rightarrow> stake \<Rightarrow> bool" where
  "is_q_available lm r q =
     (case map_of (lm_ack_availability lm) r of
        Some Quorum \<Rightarrow> q \<le> ci_quorum (lm_index lm)
      | Some Validity \<Rightarrow> q \<le> ci_validity (lm_index lm)
      | None \<Rightarrow> False)"

definition is_exact_q_available :: "lane_manager \<Rightarrow> block_ref \<Rightarrow> bool" where
  "is_exact_q_available lm r = is_exact_quorum r (lm_avail lm)"

definition holds_prefix :: "lane_manager \<Rightarrow> block_ref \<Rightarrow> block_cache \<Rightarrow> block_cache \<times> bool" where
  "holds_prefix lm r b =
     (if \<not> exact_at b r then (b, False)
      else let (b, verified) = verified_prefix_through_genesis (lm_genesis lm) (ref_digest r) b
           in (if verified then retain_prefix lm r b else b, verified))"

definition locally_available :: "lane_manager \<Rightarrow> block_ref \<Rightarrow> block_cache \<Rightarrow> block_cache \<times> bool" where
  "locally_available lm r b =
     (let (b, held) = holds_prefix lm r b in (b, held \<or> is_q_available lm r (ci_validity (lm_index lm))))"

definition author_ok :: "lane_manager \<Rightarrow> block_ref \<Rightarrow> block_cache \<Rightarrow> block_cache \<times> bool" where
  "author_ok lm r b =
     (if is_q_available lm r (ci_validity (lm_index lm)) then (b, True) else direct_pub lm r b)"

definition candidate :: "lane_manager \<Rightarrow> block_ref option by_author \<Rightarrow> public_key \<Rightarrow> block_ref option" where
  "candidate lm candidates author =
     (case ba_get candidates (ci_slot (lm_index lm) author) of None \<Rightarrow> None | Some c \<Rightarrow> c)"

definition c_candidate :: "lane_manager \<Rightarrow> public_key \<Rightarrow> block_ref option" where
  "c_candidate lm author = candidate lm (lm_c_candidate lm) author"

definition t_candidate :: "lane_manager \<Rightarrow> public_key \<Rightarrow> block_ref option" where
  "t_candidate lm author = candidate lm (lm_t_candidate lm) author"

definition confirmation_candidate :: "lane_manager \<Rightarrow> public_key \<Rightarrow> block_ref option" where
  "confirmation_candidate lm author = candidate lm (lm_confirmation_candidate lm) author"

section \<open>Candidate registers\<close>

definition above_core :: "block_cache \<Rightarrow> lane_manager \<Rightarrow> block_ref option \<Rightarrow> block_ref \<Rightarrow> bool" where
  "above_core b lm c r =
     (case c of Some c_ref \<Rightarrow> ref_height r > ref_height c_ref \<and> prefix_contains b lm r c_ref | None \<Rightarrow> True)"

definition min_candidate_height :: "block_ref option \<Rightarrow> height" where
  "min_candidate_height c = (case c of None \<Rightarrow> 0 | Some c_ref \<Rightarrow> sat_add (ref_height c_ref) 1)"

definition least_confirmation_candidate ::
    "block_cache \<Rightarrow> lane_manager \<Rightarrow> public_key \<Rightarrow> block_ref option \<Rightarrow> block_ref option" where
  "least_confirmation_candidate b lm author c =
     List.find (\<lambda>r. r \<notin> set (lm_quorum_direct_refs lm) \<and> above_core b lm c r)
       (os_range (author_lower_bound_from author (min_candidate_height c)) (author_upper_bound author)
          (lm_quorum_claim_refs lm))"

fun newest_t_from :: "(block_ref \<Rightarrow> bool) \<Rightarrow> block_ref list \<Rightarrow> height option \<Rightarrow> block_ref option \<Rightarrow> block_ref option" where
  "newest_t_from qualifies [] current_height best_at_height = best_at_height"
| "newest_t_from qualifies (r # rs) current_height best_at_height =
     (if current_height \<noteq> None \<and> current_height \<noteq> Some (ref_height r) \<and> best_at_height \<noteq> None
      then best_at_height
      else newest_t_from qualifies rs (Some (ref_height r)) (if qualifies r then Some r else best_at_height))"

definition newest_t_candidate :: "block_cache \<Rightarrow> lane_manager \<Rightarrow> public_key \<Rightarrow> block_ref option \<Rightarrow> block_ref option" where
  "newest_t_candidate b lm author c =
     newest_t_from (above_core b lm c)
       (rev (os_range (author_lower_bound_from author (min_candidate_height c)) (author_upper_bound author)
               (lm_direct_pub_refs lm))) None None"

definition refresh_registers :: "block_cache \<Rightarrow> slot \<Rightarrow> lane_manager \<Rightarrow> lane_manager" where
  "refresh_registers b slot lm =
     (let author = sl_key slot;
          c = newest_indexed (lm_quorum_direct_refs lm) author
      in lm\<lparr>lm_c_candidate := set_candidate slot c (lm_c_candidate lm),
            lm_confirmation_candidate :=
              set_candidate slot (least_confirmation_candidate b lm author c) (lm_confirmation_candidate lm),
            lm_t_candidate := set_candidate slot (newest_t_candidate b lm author c) (lm_t_candidate lm)\<rparr>)"

definition process_availability :: "block_cache \<Rightarrow> ack_availability \<Rightarrow> bool \<Rightarrow> lane_manager \<Rightarrow> lane_manager" where
  "process_availability b availability promote_core lm =
     (let r = aa_reference availability; threshold = aa_threshold availability
      in if (case map_of (lm_ack_availability lm) r of Some old \<Rightarrow> old \<ge> threshold | None \<Rightarrow> False) then lm
         else let author = ci_slot (lm_index lm) (ref_author r);
                  lm = lm\<lparr>lm_ack_availability := om_put r threshold (lm_ack_availability lm),
                          lm_avail := note_threshold r threshold (lm_avail lm),
                          lm_avail_watermark_high :=
                            ba_entry 0 author (\<lambda>high. if ref_height r > high then ref_height r else high)
                              (lm_avail_watermark_high lm)\<rparr>
              in if threshold \<ge> Quorum \<and> r \<in> set (lm_direct_pub_refs lm)
                 then let learned_claim_quorum = r \<notin> set (lm_quorum_claim_refs lm);
                          learned_core_quorum = promote_core \<and> r \<notin> set (lm_quorum_direct_refs lm);
                          lm = lm\<lparr>lm_quorum_claim_refs := os_ins r (lm_quorum_claim_refs lm),
                                  lm_quorum_direct_refs :=
                                    (if promote_core then os_ins r (lm_quorum_direct_refs lm)
                                     else lm_quorum_direct_refs lm)\<rparr>
                      in if learned_claim_quorum \<or> learned_core_quorum then refresh_registers b author lm else lm
                 else lm)"

text \<open>Neither entry point returns effects.\<close>

definition process_ack_availability :: "block_cache \<Rightarrow> ack_availability \<Rightarrow> lane_manager \<Rightarrow> lane_manager" where
  "process_ack_availability b availability lm = process_availability b availability True lm"

definition process_claim_availability :: "block_cache \<Rightarrow> ack_availability \<Rightarrow> lane_manager \<Rightarrow> lane_manager" where
  "process_claim_availability b availability lm = process_availability b availability False lm"

definition record_direct_pub :: "block_ref \<Rightarrow> lane_manager \<Rightarrow> lane_manager" where
  "record_direct_pub r lm =
     (let lm = lm\<lparr>lm_direct_pub_refs := os_ins r (lm_direct_pub_refs lm)\<rparr>;
          lm = (if is_q_available lm r (ci_quorum (lm_index lm))
                then lm\<lparr>lm_quorum_claim_refs := os_ins r (lm_quorum_claim_refs lm)\<rparr> else lm);
          lm = (if is_exact_quorum r (lm_avail lm)
                then lm\<lparr>lm_quorum_direct_refs := os_ins r (lm_quorum_direct_refs lm)\<rparr> else lm);
          author = ci_slot (lm_index lm) (ref_author r);
          advances = (case ba_get (lm_own_avail_watermark lm) author of
                        Some (Some (h, _)) \<Rightarrow> ref_height r > h
                      | _ \<Rightarrow> True)
      in if advances
         then lm\<lparr>lm_own_avail_watermark :=
                   ba_entry None author (\<lambda>_. Some (ref_height r, ref_digest r)) (lm_own_avail_watermark lm),
                 lm_avail_dirty := True\<rparr>
         else lm\<lparr>lm_own_avail_watermark := ba_entry None author (\<lambda>w. w) (lm_own_avail_watermark lm)\<rparr>)"

section \<open>Pending references and their blockers\<close>

definition inherited_direct_prefix_blocker :: "block_cache \<Rightarrow> block_ref \<Rightarrow> lane_manager \<Rightarrow> lane_manager \<times> digest option" where
  "inherited_direct_prefix_blocker b r lm =
     (case bc_get b (ref_digest r) of
        None \<Rightarrow> (lm, None)
      | Some e \<Rightarrow>
          (case map_of (lm_prefix_blocker lm) (parent_of e) of
             None \<Rightarrow> (lm, None)
           | Some blocker \<Rightarrow>
               if \<not> direct_gate_ready b blocker then (lm, Some blocker)
               else (lm\<lparr>lm_prefix_blocker := om_del (parent_of e) (lm_prefix_blocker lm)\<rparr>, None)))"

definition unpark_from :: "block_ref \<Rightarrow> digest \<Rightarrow> (digest, block_ref oset) omap \<Rightarrow> (digest, block_ref oset) omap" where
  "unpark_from r old ws =
     (case map_of ws old of
        None \<Rightarrow> ws
      | Some waiters \<Rightarrow> if os_del r waiters = [] then om_del old ws else om_put old (os_del r waiters) ws)"

definition park_pending_direct_on :: "block_ref \<Rightarrow> digest \<Rightarrow> lane_manager \<Rightarrow> lane_manager" where
  "park_pending_direct_on r blocker lm =
     (if r \<in> set (lm_acked lm) then lm
      else let ws = (case map_of (lm_blocked_by lm) r of
                       Some old \<Rightarrow> unpark_from r old (lm_waiters lm)
                     | None \<Rightarrow> lm_waiters lm)
           in lm\<lparr>lm_blocked_by := om_put r blocker (lm_blocked_by lm),
                 lm_waiters := om_upd blocker [] (os_ins r) ws,
                 lm_prefix_blocker := om_put (ref_digest r) blocker (lm_prefix_blocker lm)\<rparr>)"

definition block_pending_direct_on :: "block_ref \<Rightarrow> digest \<Rightarrow> lane_manager \<Rightarrow> lane_manager" where
  "block_pending_direct_on r blocker lm =
     park_pending_direct_on r blocker (lm\<lparr>lm_pending_direct := os_del r (lm_pending_direct lm)\<rparr>)"

definition enqueue_pending_direct :: "block_cache \<Rightarrow> block_ref \<Rightarrow> lane_manager \<Rightarrow> lane_manager" where
  "enqueue_pending_direct b r lm =
     (if r \<in> set (lm_acked lm) \<or> om_has (lm_blocked_by lm) r then lm
      else case inherited_direct_prefix_blocker b r lm of
             (lm, Some blocker) \<Rightarrow> park_pending_direct_on r blocker lm
           | (lm, None) \<Rightarrow> lm\<lparr>lm_pending_direct := os_ins r (lm_pending_direct lm)\<rparr>)"

definition note_direct_prefix_self_blocker :: "digest \<Rightarrow> lane_manager \<Rightarrow> lane_manager" where
  "note_direct_prefix_self_blocker blocker lm = lm\<lparr>lm_prefix_blocker := om_put blocker blocker (lm_prefix_blocker lm)\<rparr>"

definition clear_direct_prefix_blocker :: "digest \<Rightarrow> lane_manager \<Rightarrow> lane_manager" where
  "clear_direct_prefix_blocker blocker lm =
     (if map_of (lm_prefix_blocker lm) blocker = Some blocker
      then lm\<lparr>lm_prefix_blocker := om_del blocker (lm_prefix_blocker lm)\<rparr> else lm)"

fun wake_waiters :: "block_ref list \<Rightarrow> public_key oset \<Rightarrow> lane_manager \<Rightarrow> lane_manager \<times> public_key oset" where
  "wake_waiters [] authors lm = (lm, authors)"
| "wake_waiters (r # rs) authors lm =
     (if om_has (lm_blocked_by lm) r
      then let lm = lm\<lparr>lm_blocked_by := om_del r (lm_blocked_by lm),
                       lm_prefix_blocker := om_del (ref_digest r) (lm_prefix_blocker lm)\<rparr>
           in if r \<notin> set (lm_acked lm)
              then wake_waiters rs (os_ins (ref_author r) authors)
                     (lm\<lparr>lm_pending_direct := os_ins r (lm_pending_direct lm)\<rparr>)
              else wake_waiters rs authors lm
      else wake_waiters rs authors lm)"

definition wake_pending_direct_blocker :: "digest \<Rightarrow> lane_manager \<Rightarrow> lane_manager \<times> public_key oset" where
  "wake_pending_direct_blocker blocker lm =
     (let lm = clear_direct_prefix_blocker blocker lm
      in case map_of (lm_waiters lm) blocker of
           None \<Rightarrow> (lm, [])
         | Some waiters \<Rightarrow> wake_waiters waiters [] (lm\<lparr>lm_waiters := om_del blocker (lm_waiters lm)\<rparr>))"

section \<open>Refreshing an author\<close>

definition on_direct_pub_confirmed :: "block_ref \<Rightarrow> lane_manager \<Rightarrow> block_cache \<Rightarrow> lane_manager \<times> block_cache \<times> effect list" where
  "on_direct_pub_confirmed r lm b =
     (let b = retain_prefix lm r b;
          lm = lm\<lparr>lm_acked := os_ins r (lm_acked lm)\<rparr>;
          ack = ack_new (ref_author r) (ref_height r) (ref_digest r) (lm_name lm)
      in (record_direct_pub r lm, b, [BroadcastAck ack]))"

text \<open>The rotating selection of at most eight pending references.\<close>

definition refresh_selection :: "lane_manager \<Rightarrow> public_key \<Rightarrow> block_ref list" where
  "refresh_selection lm author =
     (let lower = author_lower_bound author; upper = author_upper_bound author
      in case ba_get (lm_refresh_scan_after lm) (ci_slot (lm_index lm) author) of
           Some (Some after) \<Rightarrow>
             let refs = take refresh_walk_budget (os_range_after after upper (lm_pending_direct lm))
             in if length refs < refresh_walk_budget
                then refs @ take (refresh_walk_budget - length refs) (os_range lower after (lm_pending_direct lm))
                else refs
         | _ \<Rightarrow> take refresh_walk_budget (os_range lower upper (lm_pending_direct lm)))"

text \<open>The loop over the selection: the state, the cache, the effects and \<^verbatim>\<open>registers_changed\<close>.\<close>

fun refresh_refs ::
    "block_ref list \<Rightarrow> lane_manager \<Rightarrow> block_cache \<Rightarrow> lane_manager \<times> block_cache \<times> effect list \<times> bool" where
  "refresh_refs [] lm b = (lm, b, [], False)"
| "refresh_refs (r # rs) lm b =
     (if r \<in> set (lm_acked lm)
      then refresh_refs rs (lm\<lparr>lm_pending_direct := os_del r (lm_pending_direct lm)\<rparr>) b
      else case direct_pub_check lm r b of
             (b, DPubBlockedOnGate blocker) \<Rightarrow> refresh_refs rs (block_pending_direct_on r blocker lm) b
           | (b, DPubFailed) \<Rightarrow> refresh_refs rs lm b
           | (b, DPubConfirmed) \<Rightarrow>
               let lm = lm\<lparr>lm_pending_direct := os_del r (lm_pending_direct lm),
                           lm_prefix_blocker := om_del (ref_digest r) (lm_prefix_blocker lm)\<rparr>;
                   (lm, b, effects) = on_direct_pub_confirmed r lm b;
                   (lm, b, more, _) = refresh_refs rs lm b
               in (lm, b, effects @ more, True))"

definition refresh_author :: "public_key \<Rightarrow> lane_manager \<Rightarrow> block_cache \<Rightarrow> lane_manager \<times> block_cache \<times> effect list" where
  "refresh_author author lm b =
     (let slot = ci_slot (lm_index lm) author;
          refs = refresh_selection lm author;
          lm = lm\<lparr>lm_refresh_scan_after :=
                    ba_entry None slot (\<lambda>_. if refs = [] then None else Some (last refs)) (lm_refresh_scan_after lm)\<rparr>;
          (lm, b, effects, registers_changed) = refresh_refs refs lm b
      in (if registers_changed then refresh_registers b slot lm else lm, b, effects))"

fun refresh_authors :: "public_key list \<Rightarrow> lane_manager \<Rightarrow> block_cache \<Rightarrow> lane_manager \<times> block_cache \<times> effect list" where
  "refresh_authors [] lm b = (lm, b, [])"
| "refresh_authors (author # authors) lm b =
     (let (lm, b, effects) = refresh_author author lm b;
          (lm, b, more) = refresh_authors authors lm b
      in (lm, b, effects @ more))"

definition refresh_woken_pending_direct :: "digest \<Rightarrow> lane_manager \<Rightarrow> block_cache \<Rightarrow> lane_manager \<times> block_cache \<times> effect list" where
  "refresh_woken_pending_direct blocker lm b =
     (let (lm, authors) = wake_pending_direct_blocker blocker lm in refresh_authors authors lm b)"

section \<open>Publication\<close>

definition payload_key :: "digest \<Rightarrow> worker_id \<Rightarrow> bytes" where
  "payload_key digest worker_id = digest_bytes digest @ le_bytes 4 worker_id"

definition missing_payload :: "lane_manager \<Rightarrow> header \<Rightarrow> (digest \<times> worker_id) list" where
  "missing_payload lm header =
     (if h_author header = lm_name lm then []
      else filter (\<lambda>(digest, worker_id). kv_data (lm_store lm) (payload_key digest worker_id) = None) (h_payload header))"

definition process_publish_inner ::
    "(bytes \<Rightarrow> digest) \<Rightarrow> public_key \<Rightarrow> header \<Rightarrow> lane_manager \<Rightarrow> block_cache \<Rightarrow> lane_manager \<times> block_cache \<times> effect list" where
  "process_publish_inner b3 sender header lm b =
     (if h_sid header \<noteq> Some (lm_sid lm) then (lm, b, [])
      else if \<not> block_ok b3 (lm_committee lm) (lm_sid lm) (lm_max_block_payload lm) header then (lm, b, [])
      else let direct = (sender = h_author header);
               missing = missing_payload lm header;
               payload_ok = (missing = []);
               digest = h_id header;
               b = upsert header direct False payload_ok True b;
               gate_ready = direct_gate_ready b digest;
               lm = (if direct \<and> payload_ok
                     then enqueue_pending_direct b (h_author header, h_height header, digest) lm
                     else if direct then note_direct_prefix_self_blocker digest lm else lm);
               synced = (if direct \<and> missing \<noteq> [] then [SyncBatches (h_author header) digest missing] else []);
               (lm, b, effects) = refresh_author (h_author header) lm b;
               (lm, b, woken) = (if gate_ready then refresh_woken_pending_direct digest lm b else (lm, b, []))
           in (lm, b, [BlockCached digest] @ synced @ effects @ woken))"

definition process_publish ::
    "(bytes \<Rightarrow> digest) \<Rightarrow> public_key \<Rightarrow> header \<Rightarrow> lane_manager \<Rightarrow> block_cache \<Rightarrow> lane_manager \<times> block_cache \<times> effect list" where
  "process_publish b3 sender header lm b = process_publish_inner b3 sender header lm b"

definition set_payload_ready :: "digest \<Rightarrow> lane_manager \<Rightarrow> block_cache \<Rightarrow> lane_manager \<times> block_cache \<times> effect list" where
  "set_payload_ready digest lm b =
     (let b = fst (set_payload_ok digest True b);
          direct_ready = (case bc_get b digest of
                            None \<Rightarrow> None
                          | Some e \<Rightarrow> if be_direct e \<and> be_payload_ok e
                                      then Some (h_author (be_block e), h_height (be_block e), digest) else None);
          gate_ready = direct_gate_ready b digest;
          (lm, b, effects) = (case direct_ready of
                                None \<Rightarrow> (lm, b, [])
                              | Some r \<Rightarrow> refresh_author (ref_author r) (enqueue_pending_direct b r lm) b);
          (lm, b, woken) = (if gate_ready then refresh_woken_pending_direct digest lm b else (lm, b, []))
      in (lm, b, effects @ woken))"

section \<open>The own lane\<close>

definition persist_own_frontier :: "frontier_codec \<Rightarrow> header \<Rightarrow> lane_manager \<Rightarrow> lane_manager" where
  "persist_own_frontier fc header lm =
     (let lm = (case ser_frontier fc \<lparr>pf_sid = lm_sid lm, pf_height = fst (lm_own_frontier lm), pf_digest = snd (lm_own_frontier lm)\<rparr> of
                  Some v \<Rightarrow> lm\<lparr>lm_store := fst (kv_write own_frontier_key v (lm_store lm))\<rparr>
                | None \<Rightarrow> lm)
      in case ser_frontier_header fc \<lparr>ph_sid = lm_sid lm, ph_header = header\<rparr> of
           Some v \<Rightarrow> lm\<lparr>lm_store := fst (kv_write own_frontier_header_key v (lm_store lm))\<rparr>
         | None \<Rightarrow> lm)"

text \<open>Heights are below \<^verbatim>\<open>u64::MAX\<close>, so the increment does not wrap.\<close>

definition publish_own ::
    "(bytes \<Rightarrow> digest) \<Rightarrow> frontier_codec \<Rightarrow> (digest, worker_id) omap \<Rightarrow> lane_manager \<Rightarrow> block_cache
     \<Rightarrow> lane_manager \<times> block_cache \<times> header \<times> effect list" where
  "publish_own b3 fc payload lm b =
     (let (height, prev) = lm_own_frontier lm;
          next_height = height + 1;
          header = new_vantage b3 (lm_name lm) next_height payload prev (lm_sid lm);
          lm = persist_own_frontier fc header (lm\<lparr>lm_own_frontier := (next_height, h_id header)\<rparr>);
          (lm, b, effects) = process_publish_inner b3 (lm_name lm) header lm b
      in (lm, b, header, effects @ [BroadcastPublish header]))"

definition seed_own_anchor_from_store :: "(bytes \<Rightarrow> digest) \<Rightarrow> frontier_codec \<Rightarrow> lane_manager \<Rightarrow> block_cache \<Rightarrow> lane_manager \<times> block_cache" where
  "seed_own_anchor_from_store b3 fc lm b =
     (case kv_data (lm_store lm) own_frontier_header_key of
        None \<Rightarrow> (lm, b)
      | Some v \<Rightarrow>
          (case de_frontier_header fc v of
             None \<Rightarrow> (lm, b)
           | Some rec \<Rightarrow>
               if ph_sid rec \<noteq> lm_sid lm then (lm, b)
               else let header = ph_header rec
                    in if h_author header \<noteq> lm_name lm \<or> (h_height header, h_id header) \<noteq> lm_own_frontier lm then (lm, b)
                       else if \<not> block_ok b3 (lm_committee lm) (lm_sid lm) (lm_max_block_payload lm) header then (lm, b)
                       else (lm\<lparr>lm_seeded_anchor := Some header,
                                lm_pending_direct :=
                                  os_ins (h_author header, h_height header, h_id header) (lm_pending_direct lm)\<rparr>,
                             seed_own_anchor header b)))"

definition restore_own_frontier :: "(bytes \<Rightarrow> digest) \<Rightarrow> frontier_codec \<Rightarrow> lane_manager \<Rightarrow> block_cache \<Rightarrow> lane_manager \<times> block_cache" where
  "restore_own_frontier b3 fc lm b =
     (case kv_data (lm_store lm) own_frontier_key of
        None \<Rightarrow> (lm, b)
      | Some v \<Rightarrow>
          (case de_frontier fc v of
             None \<Rightarrow> (lm, b)
           | Some rec \<Rightarrow>
               if pf_sid rec \<noteq> lm_sid lm then (lm, b)
               else if pf_height rec \<le> fst (lm_own_frontier lm) then (lm, b)
               else seed_own_anchor_from_store b3 fc (lm\<lparr>lm_own_frontier := (pf_height rec, pf_digest rec)\<rparr>) b))"

definition take_seeded_anchor :: "lane_manager \<Rightarrow> lane_manager \<times> header option" where
  "take_seeded_anchor lm = (lm\<lparr>lm_seeded_anchor := None\<rparr>, lm_seeded_anchor lm)"

text \<open>The digests that the own lane's references name.\<close>

definition own_digests :: "lane_manager \<Rightarrow> digest list" where
  "own_digests lm =
     map ref_digest (filter (\<lambda>r. ref_author r = lm_name lm)
       (lm_pending_direct lm @ map fst (lm_blocked_by lm) @ lm_direct_pub_refs lm @ lm_quorum_claim_refs lm
        @ lm_quorum_direct_refs lm @ map fst (lm_ack_availability lm) @ lm_acked lm))"

definition drop_own_lane :: "lane_manager \<Rightarrow> lane_manager" where
  "drop_own_lane lm =
     (let other = (\<lambda>r::block_ref. ref_author r \<noteq> lm_name lm);
          stale = own_digests lm;
          own = ci_slot (lm_index lm) (lm_name lm)
      in lm\<lparr>lm_pending_direct := filter other (lm_pending_direct lm),
            lm_blocked_by := filter (\<lambda>e. other (fst e)) (lm_blocked_by lm),
            lm_waiters := filter (\<lambda>e. snd e \<noteq> []) (map (\<lambda>(d, refs). (d, filter other refs)) (lm_waiters lm)),
            lm_prefix_blocker := filter (\<lambda>e. fst e \<notin> set stale) (lm_prefix_blocker lm),
            lm_direct_pub_refs := filter other (lm_direct_pub_refs lm),
            lm_quorum_claim_refs := filter other (lm_quorum_claim_refs lm),
            lm_quorum_direct_refs := filter other (lm_quorum_direct_refs lm),
            lm_ack_availability := filter (\<lambda>e. other (fst e)) (lm_ack_availability lm),
            lm_acked := filter other (lm_acked lm),
            lm_refresh_scan_after := ba_clear None own (lm_refresh_scan_after lm),
            lm_c_candidate := ba_clear None own (lm_c_candidate lm),
            lm_confirmation_candidate := ba_clear None own (lm_confirmation_candidate lm),
            lm_t_candidate := ba_clear None own (lm_t_candidate lm)\<rparr>)"

definition recover_own_frontier ::
    "(bytes \<Rightarrow> digest) \<Rightarrow> frontier_codec \<Rightarrow> header \<Rightarrow> lane_manager \<Rightarrow> block_cache \<Rightarrow> lane_manager \<times> block_cache \<times> bool" where
  "recover_own_frontier b3 fc header lm b =
     (if h_author header \<noteq> lm_name lm \<or> h_height header = 0
         \<or> \<not> block_ok b3 (lm_committee lm) (lm_sid lm) (lm_max_block_payload lm) header
      then (lm, b, False)
      else if lm_own_frontier lm = (h_height header, h_id header) then (lm, b, False)
      else let lm = drop_own_lane lm;
               own = ci_slot (lm_index lm) (lm_name lm);
               anchor = (lm_name lm, h_height header, h_id header);
               lm = lm\<lparr>lm_avail := note_threshold anchor Quorum (av_reset_author (lm_name lm) anchor (lm_avail lm)),
                       lm_ack_availability := om_put anchor Quorum (lm_ack_availability lm),
                       lm_acked := os_ins anchor (lm_acked lm),
                       lm_direct_pub_refs := os_ins anchor (lm_direct_pub_refs lm),
                       lm_quorum_claim_refs := os_ins anchor (lm_quorum_claim_refs lm),
                       lm_quorum_direct_refs := os_ins anchor (lm_quorum_direct_refs lm),
                       lm_c_candidate := ba_entry None own (\<lambda>_. Some anchor) (lm_c_candidate lm),
                       lm_own_avail_watermark :=
                         ba_entry None own (\<lambda>_. Some (h_height header, h_id header)) (lm_own_avail_watermark lm),
                       lm_avail_watermark_high := ba_entry 0 own (\<lambda>_. h_height header) (lm_avail_watermark_high lm),
                       lm_avail_dirty := True,
                       lm_own_frontier := (h_height header, h_id header),
                       lm_seeded_anchor := None\<rparr>
           in (persist_own_frontier fc header lm, seed_recovered_own_anchor header b, True))"

section \<open>Claims and watermarks\<close>

definition take_avail_flush :: "lane_manager \<Rightarrow> lane_manager \<times> avail_entry list option" where
  "take_avail_flush lm =
     (if \<not> lm_avail_dirty lm then (lm, None)
      else (lm\<lparr>lm_avail_dirty := False\<rparr>,
            Some (List.map_filter
                    (\<lambda>(slot, watermark).
                       case (slot, watermark) of
                         (Some author, Some (height, head)) \<Rightarrow>
                           Some \<lparr>ae_author = sl_key author, ae_height = height, ae_head = head\<rparr>
                       | _ \<Rightarrow> None)
                    (ba_iter (lm_index lm) (lm_own_avail_watermark lm)))))"

definition own_direct_frontier :: "lane_manager \<Rightarrow> public_key \<Rightarrow> height" where
  "own_direct_frontier lm author =
     (case ba_get (lm_own_avail_watermark lm) (ci_slot (lm_index lm) author) of Some (Some (h, _)) \<Rightarrow> h | _ \<Rightarrow> 0)"

definition greatest_direct_ancestor :: "block_cache \<Rightarrow> lane_manager \<Rightarrow> block_ref \<Rightarrow> block_ref option" where
  "greatest_direct_ancestor b lm anchor =
     List.find (\<lambda>cand. prefix_contains b lm anchor cand)
       (filter (\<lambda>cand. ref_height cand < ref_height anchor)
          (rev (os_range (author_lower_bound (ref_author anchor)) (author_upper_bound (ref_author anchor))
                  (lm_direct_pub_refs lm))))"

definition build_avail_claim_for_refs :: "block_cache \<Rightarrow> lane_manager \<Rightarrow> block_ref list \<Rightarrow> avail_claim" where
  "build_avail_claim_for_refs b lm refs =
     build_claim (\<lambda>r. r \<in> set (lm_direct_pub_refs lm)) (greatest_direct_ancestor b lm) refs"

definition build_avail_claim :: "block_cache \<Rightarrow> lane_manager \<Rightarrow> view_proposal \<Rightarrow> avail_claim" where
  "build_avail_claim b lm proposal = build_avail_claim_for_refs b lm (manifest_refs proposal)"

definition build_batch_avail_claim :: "block_cache \<Rightarrow> lane_manager \<Rightarrow> batch_view_proposal \<Rightarrow> avail_claim" where
  "build_batch_avail_claim b lm proposal = build_avail_claim_for_refs b lm (batch_manifest_refs proposal)"

definition avail_high :: "lane_manager \<Rightarrow> public_key \<Rightarrow> height" where
  "avail_high lm author = (case ba_get (lm_avail_watermark_high lm) (ci_slot (lm_index lm) author) of Some h \<Rightarrow> h | None \<Rightarrow> 0)"

definition own_tip_height :: "lane_manager \<Rightarrow> height" where
  "own_tip_height lm = fst (lm_own_frontier lm)"

definition earliest_authored_height :: "block_cache \<Rightarrow> public_key \<Rightarrow> height" where
  "earliest_authored_height b author = (case earliest_height b author of Some h \<Rightarrow> h | None \<Rightarrow> 1)"

definition author_of :: "block_cache \<Rightarrow> digest \<Rightarrow> public_key option" where
  "author_of b digest = map_option (\<lambda>e. h_author (be_block e)) (bc_get b digest)"

definition lm_resolve_watermark :: "block_cache \<Rightarrow> public_key \<Rightarrow> avail_entry list \<Rightarrow> lane_manager \<Rightarrow> lane_manager \<times> block_ref list" where
  "lm_resolve_watermark b sender entries lm =
     (let (av, refs) = resolve_watermark b sender entries (lm_avail lm) in (lm\<lparr>lm_avail := av\<rparr>, refs))"

fun promote_exact :: "block_ref list \<Rightarrow> public_key oset \<Rightarrow> lane_manager \<Rightarrow> lane_manager \<times> public_key oset" where
  "promote_exact [] changed lm = (lm, changed)"
| "promote_exact (r # rs) changed lm =
     (if r \<in> set (lm_direct_pub_refs lm) \<and> r \<notin> set (lm_quorum_direct_refs lm)
      then promote_exact rs (os_ins (ref_author r) changed)
             (lm\<lparr>lm_quorum_direct_refs := os_ins r (lm_quorum_direct_refs lm)\<rparr>)
      else promote_exact rs changed lm)"

definition note_claim :: "block_cache \<Rightarrow> public_key \<Rightarrow> claim_ref list \<Rightarrow> lane_manager \<Rightarrow> lane_manager \<times> block_ref list" where
  "note_claim b sender claims lm =
     (let (av, credits) = av_note_claim b sender claims (lm_avail lm);
          (lm, changed) = promote_exact (cr_newly_exact_quorum credits) [] (lm\<lparr>lm_avail := av\<rparr>)
      in (fold (\<lambda>author lm. refresh_registers b (ci_slot (lm_index lm) author) lm) changed lm, cr_references credits))"

definition claim_avail_height :: "lane_manager \<Rightarrow> public_key \<Rightarrow> height" where
  "claim_avail_height lm author = avail_height author (lm_avail lm)"

definition retry_pending_avail :: "block_cache \<Rightarrow> digest \<Rightarrow> lane_manager \<Rightarrow> lane_manager \<times> (public_key \<times> block_ref) list" where
  "retry_pending_avail b digest lm =
     (let (av, out) = av_retry_pending_avail b digest (lm_avail lm) in (lm\<lparr>lm_avail := av\<rparr>, out))"

section \<open>Cache changes that keep the gates\<close>

text \<open>The part of an entry that the gates read: everything but the memo flags and the retention mark.\<close>

definition entry_core :: "block_entry \<Rightarrow> header \<times> bool \<times> bool \<times> bool" where
  "entry_core e = (be_block e, be_direct e, be_payload_ok e, be_block_ok_verified e)"

definition same_core :: "block_cache \<Rightarrow> block_cache \<Rightarrow> bool" where
  "same_core b b' \<longleftrightarrow> (\<forall>d. map_option entry_core (bc_get b' d) = map_option entry_core (bc_get b d))"

lemma same_core_refl [simp]: "same_core b b"
  by (simp add: same_core_def)

lemma same_core_trans: "same_core b b' \<Longrightarrow> same_core b' b'' \<Longrightarrow> same_core b b''"
  by (simp add: same_core_def)

lemma same_core_cases:
  assumes "same_core b b'"
  shows "bc_get b d = None \<and> bc_get b' d = None
    \<or> (\<exists>e e'. bc_get b d = Some e \<and> bc_get b' d = Some e' \<and> entry_core e' = entry_core e)"
  using assms unfolding same_core_def by (cases "bc_get b d"; cases "bc_get b' d") (metis map_option_is_None option.distinct(1) option.map_sel option.sel)+

lemma same_core_gate: "same_core b b' \<Longrightarrow> direct_gate_ready b' d = direct_gate_ready b d"
  using same_core_cases [of b b' d] by (auto simp: direct_gate_ready_def entry_core_def)

lemma same_core_chain:
  assumes "same_core b b'"
  shows "chain_ok direct_gate A g b' a h d = chain_ok direct_gate A g b a h d"
    and "chain_ok be_block_ok_verified A g b' a h d = chain_ok be_block_ok_verified A g b a h d"
proof (induction h arbitrary: d)
  case (Suc h)
  case 1
  then show ?case
    using same_core_cases [OF assms, of d] Suc.IH(1)
    by (auto simp: entry_core_def pinned_at_def parent_of_def direct_gate_def)
  case 2
  then show ?case
    using same_core_cases [OF assms, of d] Suc.IH(2)
    by (auto simp: entry_core_def pinned_at_def parent_of_def)
qed simp_all

lemma same_core_modify:
  "(\<And>e. entry_core (f e) = entry_core e) \<Longrightarrow> same_core b (bc_modify d f b)"
  by (auto simp: same_core_def bc_get_modify option.map_comp comp_def)

lemma same_core_mark_all:
  "(\<And>e. entry_core (f e) = entry_core e) \<Longrightarrow> same_core b (mark_all f ds b)"
proof (induction ds arbitrary: b)
  case (Cons d ds)
  then show ?case
    using same_core_trans [OF same_core_modify [of f b d], of "mark_all f ds (bc_modify d f b)"] by (simp add: mark_all_def)
qed (simp add: mark_all_def)

lemma same_core_note: "same_core b (note_missing_parent a n d b)"
  by (simp add: same_core_def)

lemma same_core_verify: "same_core b (fst (verified_prefix_through_genesis g d b))"
  by (auto simp: verified_prefix_through_genesis_def same_core_note set_chain_def entry_core_def
      intro!: same_core_mark_all split: option.splits walk.splits)

lemma same_core_direct: "same_core b (fst (direct_prefix_check g d b))"
  by (auto simp: direct_prefix_check_def same_core_note set_direct_def entry_core_def
      intro!: same_core_mark_all split: option.splits walk.splits)

lemma same_core_mark_retained: "same_core b (fst (mark_retained d b))"
  by (auto simp: mark_retained_def entry_core_def intro!: same_core_modify split: option.splits)

lemma retain_walk_keeps:
  "same_core b (retain_walk g h d b) \<and> (cache_run g A D b \<longrightarrow> cache_run g A D (retain_walk g h d b))"
proof (induction g h d b rule: retain_walk.induct)
  case (2 g h d b)
  then show ?case
    using same_core_trans [OF same_core_mark_retained [of b d]] run_retain [of g A D b d] by (auto split: option.splits)
qed simp

lemma retain_prefix_keeps:
  "same_core b (retain_prefix lm r b)"
  "cache_run (lm_genesis lm) A D b \<Longrightarrow> cache_run (lm_genesis lm) A D (retain_prefix lm r b)"
  using retain_walk_keeps by (auto simp: retain_prefix_def)

text \<open>What the check of a reference establishes.\<close>

definition fully_direct :: "digest set \<Rightarrow> digest set \<Rightarrow> digest \<Rightarrow> block_cache \<Rightarrow> block_ref \<Rightarrow> bool" where
  "fully_direct A D g b r \<longleftrightarrow> exact_at b r
     \<and> chain_ok be_block_ok_verified A g b (ref_author r) (ref_height r) (ref_digest r)
     \<and> chain_ok direct_gate D g b (ref_author r) (ref_height r) (ref_digest r)"

lemma fully_direct_core: "same_core b b' \<Longrightarrow> fully_direct A D g b' r = fully_direct A D g b r"
  using same_core_cases [of b b' "ref_digest r"]
  by (auto simp: fully_direct_def same_core_chain exact_at_def entry_core_def pinned_at_def)

lemma direct_pub_walk_spec:
  assumes "direct_pub_walk lm r b = (b', res)" "exact_at b r"
  shows "same_core b b'"
    and "cache_run (lm_genesis lm) A D b \<Longrightarrow> cache_run (lm_genesis lm) A D b'"
    and "res = DPubBlockedOnGate d \<Longrightarrow> \<not> direct_gate_ready b' d"
    and "cache_run (lm_genesis lm) A D b \<Longrightarrow> res = DPubConfirmed \<Longrightarrow> fully_direct A D (lm_genesis lm) b' r"
proof -
  obtain b1 v where v: "verified_prefix_through_genesis (lm_genesis lm) (ref_digest r) b = (b1, v)"
    by (cases "verified_prefix_through_genesis (lm_genesis lm) (ref_digest r) b")
  obtain b2 c where c: "direct_prefix_check (lm_genesis lm) (ref_digest r) b1 = (b2, c)"
    by (cases "direct_prefix_check (lm_genesis lm) (ref_digest r) b1")
  have b1: "same_core b b1" and b2: "same_core b1 b2"
    using same_core_verify [of b] same_core_direct [of b1] v c by (metis fst_conv)+
  show core: "same_core b b'"
    using assms(1) v c b1 same_core_trans [OF b1 b2] by (auto simp: direct_pub_walk_def split: if_splits)
  show "cache_run (lm_genesis lm) A D b'" if "cache_run (lm_genesis lm) A D b"
    using assms(1) v c run_verify [OF that, of "ref_digest r"] run_direct [of "lm_genesis lm" A D b1 "ref_digest r"]
    by (auto simp: direct_pub_walk_def split: if_splits)
  show "\<not> direct_gate_ready b' d" if "res = DPubBlockedOnGate d"
  proof -
    from that have "c = DPGate d" "b' = b2"
      using assms(1) v c by (auto simp: direct_pub_walk_def split: if_splits direct_prefix_check.splits)
    then show ?thesis
      using c same_core_gate [OF b2] direct_walk_gate [of b1]
      by (auto simp: direct_prefix_check_def split: option.splits walk.splits if_splits)
  qed
  show "fully_direct A D (lm_genesis lm) b' r" if run: "cache_run (lm_genesis lm) A D b" and "res = DPubConfirmed"
  proof -
    have "v" "c = DPVerified" "b' = b2"
      using assms(1) v c that(2) by (auto simp: direct_pub_walk_def split: if_splits direct_prefix_check.splits)
    moreover have "cache_run (lm_genesis lm) A D b1"
      using run_verify [OF run, of "ref_digest r"] v by simp
    ultimately have "fully_direct A D (lm_genesis lm) b r"
      using verified_prefix_spec [OF cache_run_ok [OF run] v] direct_prefix_spec [OF cache_run_ok c] same_core_chain [OF b1]
        same_core_cases [OF b1, of "ref_digest r"] assms(2)
      by (auto simp: fully_direct_def exact_at_def pinned_at_def entry_core_def)
    then show ?thesis
      using fully_direct_core [OF core] by simp
  qed
qed

lemma direct_pub_check_spec:
  assumes "direct_pub_check lm r b = (b', res)"
  shows "same_core b b'"
    and "cache_run (lm_genesis lm) A D b \<Longrightarrow> cache_run (lm_genesis lm) A D b'"
    and "res = DPubBlockedOnGate d \<Longrightarrow> \<not> direct_gate_ready b' d"
    and "cache_run (lm_genesis lm) A D b \<Longrightarrow> res = DPubConfirmed \<Longrightarrow> fully_direct A D (lm_genesis lm) b' r"
  using assms direct_pub_walk_spec [of lm r b b' res]
  by (auto simp: direct_pub_check_def split: if_splits option.splits)

section \<open>Steps\<close>

text \<open>
  What the lane manager does between two changes of a direct gate, as atomic steps: checking a
  reference, parking it on a gate that is not ready, acknowledging it, waking the references parked
  on a gate, and bookkeeping. Every operation is a change of the cache followed by such steps.
\<close>

inductive lane_step :: "lane_manager \<times> block_cache \<Rightarrow> effect list \<Rightarrow> lane_manager \<times> block_cache \<Rightarrow> bool" where
  step_check: "direct_pub_check lm r b = (b', res) \<Longrightarrow> lane_step (lm, b) [] (lm, b')"
| step_forget: "r \<in> set (lm_acked lm) \<Longrightarrow> lane_step (lm, b) [] (lm\<lparr>lm_pending_direct := os_del r (lm_pending_direct lm)\<rparr>, b)"
| step_park: "\<not> direct_gate_ready b d \<Longrightarrow> lane_step (lm, b) [] (park_pending_direct_on r d lm, b)"
| step_block: "\<not> direct_gate_ready b d \<Longrightarrow> lane_step (lm, b) [] (block_pending_direct_on r d lm, b)"
| step_ack: "r \<notin> set (lm_acked lm) \<Longrightarrow> direct_pub_check lm r b = (b', DPubConfirmed) \<Longrightarrow>
    on_direct_pub_confirmed r
      (lm\<lparr>lm_pending_direct := os_del r (lm_pending_direct lm),
          lm_prefix_blocker := om_del (ref_digest r) (lm_prefix_blocker lm)\<rparr>) b' = (lm', b'', effs) \<Longrightarrow>
    lane_step (lm, b) effs (lm', b'')"
| step_scan: "lane_step (lm, b) [] (lm\<lparr>lm_refresh_scan_after := ba_entry None slot f (lm_refresh_scan_after lm)\<rparr>, b)"
| step_registers: "lane_step (lm, b) [] (refresh_registers b slot lm, b)"
| step_unblock: "lane_step (lm, b) [] (lm\<lparr>lm_prefix_blocker := om_del d (lm_prefix_blocker lm)\<rparr>, b)"
| step_self_block: "lane_step (lm, b) [] (note_direct_prefix_self_blocker d lm, b)"
| step_enqueue: "lane_step (lm, b) [] (lm\<lparr>lm_pending_direct := os_ins r (lm_pending_direct lm)\<rparr>, b)"
| step_wake: "wake_pending_direct_blocker d lm = (lm', authors) \<Longrightarrow> lane_step (lm, b) [] (lm', b)"

inductive lane_steps :: "lane_manager \<times> block_cache \<Rightarrow> effect list \<Rightarrow> lane_manager \<times> block_cache \<Rightarrow> bool" where
  steps_refl: "lane_steps s [] s"
| steps_step: "lane_step s e1 t \<Longrightarrow> lane_steps t e2 u \<Longrightarrow> lane_steps s (e1 @ e2) u"

lemma steps_one: "lane_step s e t \<Longrightarrow> lane_steps s e t"
  using steps_step [OF _ steps_refl] by simp

lemma steps_trans: "lane_steps s e1 t \<Longrightarrow> lane_steps t e2 u \<Longrightarrow> lane_steps s (e1 @ e2) u"
  by (induction rule: lane_steps.induct) (auto intro: steps_step)

lemma steps_quiet: "lane_step s [] t \<Longrightarrow> lane_steps t e u \<Longrightarrow> lane_steps s e u"
  using steps_step [of s "[]" t e u] by simp

lemma enqueue_steps: "lane_steps (lm, b) [] (enqueue_pending_direct b r lm, b)"
proof -
  consider "r \<in> set (lm_acked lm) \<or> om_has (lm_blocked_by lm) r"
    | d lm' where "\<not> (r \<in> set (lm_acked lm) \<or> om_has (lm_blocked_by lm) r)"
        "inherited_direct_prefix_blocker b r lm = (lm', Some d)"
    | lm' where "\<not> (r \<in> set (lm_acked lm) \<or> om_has (lm_blocked_by lm) r)"
        "inherited_direct_prefix_blocker b r lm = (lm', None)"
    by (metis not_None_eq surj_pair)
  then show ?thesis
  proof cases
    case 1
    then show ?thesis
      by (simp add: enqueue_pending_direct_def steps_refl)
  next
    case 2
    then have "lm' = lm" "\<not> direct_gate_ready b d"
      by (auto simp: inherited_direct_prefix_blocker_def split: option.splits if_splits)
    then show ?thesis
      using 2 by (auto simp: enqueue_pending_direct_def intro!: steps_one step_park)
  next
    case 3
    have "lane_steps (lm', b) [] (lm'\<lparr>lm_pending_direct := os_ins r (lm_pending_direct lm')\<rparr>, b)"
      by (intro steps_one step_enqueue)
    moreover have "lm' = lm \<or> lane_step (lm, b) [] (lm', b)"
      using 3(2) step_unblock
      by (auto simp: inherited_direct_prefix_blocker_def split: option.splits if_splits)
    ultimately show ?thesis
      using 3 steps_quiet by (auto simp: enqueue_pending_direct_def)
  qed
qed

lemma refresh_refs_steps:
  "refresh_refs rs lm b = (lm', b', effs, ch) \<Longrightarrow> lane_steps (lm, b) effs (lm', b')"
proof (induction rs arbitrary: lm b effs ch)
  case (Cons r rs)
  obtain b1 res where chk: "direct_pub_check lm r b = (b1, res)"
    by (cases "direct_pub_check lm r b")
  have keep: "lane_step (lm, b) [] (lm, b1)"
    by (rule step_check [OF chk])
  show ?case
  proof (cases "r \<in> set (lm_acked lm)")
    case True
    then show ?thesis
      using Cons steps_quiet [OF step_forget [OF True]] by simp
  next
    case False
    show ?thesis
    proof (cases res)
      case DPubConfirmed
      define l0 where "l0 = lm\<lparr>lm_pending_direct := os_del r (lm_pending_direct lm),
          lm_prefix_blocker := om_del (ref_digest r) (lm_prefix_blocker lm)\<rparr>"
      obtain l1 b2 e1 where ack: "on_direct_pub_confirmed r l0 b1 = (l1, b2, e1)"
        by (metis prod_cases3)
      obtain l2 b3 e2 c2 where rest: "refresh_refs rs l1 b2 = (l2, b3, e2, c2)"
        by (metis prod_cases4)
      have "lane_step (lm, b) e1 (l1, b2)"
        using step_ack [OF False] chk ack DPubConfirmed by (simp add: l0_def)
      then show ?thesis
        using Cons.IH [of l1 b2] Cons.prems False chk DPubConfirmed ack rest steps_step by (auto simp: l0_def [symmetric])
    next
      case (DPubBlockedOnGate d)
      have nr: "\<not> direct_gate_ready b1 d"
        using direct_pub_check_spec(3) [OF chk] DPubBlockedOnGate by simp
      then show ?thesis
        using Cons False chk DPubBlockedOnGate steps_quiet [OF keep] steps_quiet [OF step_block [OF nr, of lm r]] by simp
    next
      case DPubFailed
      then show ?thesis
        using Cons False chk steps_quiet [OF keep] by simp
    qed
  qed
qed (simp add: steps_refl)

lemma refresh_author_steps:
  assumes "refresh_author a lm b = (lm', b', effs)"
  shows "lane_steps (lm, b) effs (lm', b')"
proof -
  define f where "f = (\<lambda>_::block_ref option. if refresh_selection lm a = [] then None else Some (last (refresh_selection lm a)))"
  define l0 where "l0 = lm\<lparr>lm_refresh_scan_after := ba_entry None (ci_slot (lm_index lm) a) f (lm_refresh_scan_after lm)\<rparr>"
  obtain l1 b1 e1 ch where rr: "refresh_refs (refresh_selection lm a) l0 b = (l1, b1, e1, ch)"
    by (metis prod_cases4)
  have "lane_steps (lm, b) e1 (l1, b1)"
    using steps_quiet [OF step_scan refresh_refs_steps [OF rr [unfolded l0_def]]] .
  moreover have "lane_steps (l1, b1) [] (lm', b')" "effs = e1"
    using assms rr steps_refl steps_one [OF step_registers]
    by (auto simp: refresh_author_def Let_def l0_def [symmetric] f_def [symmetric] split: if_splits)
  ultimately show ?thesis
    using steps_trans by fastforce
qed

lemma refresh_authors_steps: "refresh_authors as lm b = (lm', b', effs) \<Longrightarrow> lane_steps (lm, b) effs (lm', b')"
proof (induction "as" arbitrary: lm b effs)
  case (Cons a "as")
  obtain l1 b1 e1 where r: "refresh_author a lm b = (l1, b1, e1)"
    by (metis prod_cases3)
  then show ?case
    using Cons steps_trans [OF refresh_author_steps [OF r]] by (auto split: prod.splits)
qed (simp add: steps_refl)

text \<open>An operation that makes the gate of \<open>d\<close> ready runs steps, wakes what waits for \<open>d\<close>, and runs further steps.\<close>

definition woken :: "digest \<Rightarrow> lane_manager \<times> block_cache \<Rightarrow> effect list \<Rightarrow> lane_manager \<times> block_cache \<Rightarrow> bool" where
  "woken d s effs t \<longleftrightarrow> (\<exists>e1 lm b lm' authors e2. lane_steps s e1 (lm, b)
     \<and> wake_pending_direct_blocker d lm = (lm', authors) \<and> lane_steps (lm', b) e2 t \<and> effs = e1 @ e2)"

lemma refresh_woken_steps:
  assumes "lane_steps s e1 (lm, b)" "refresh_woken_pending_direct d lm b = (lm', b', e2)"
  shows "woken d s (e1 @ e2) (lm', b')"
  using assms refresh_authors_steps
  by (fastforce simp: woken_def refresh_woken_pending_direct_def split: prod.splits)

lemma woken_steps: "woken d s effs t \<Longrightarrow> lane_steps s effs t"
  unfolding woken_def by (metis step_wake steps_quiet steps_trans)

section \<open>What the steps keep\<close>

text \<open>Identity, persistent state and availability evidence are not touched by the steps.\<close>

definition lane_frame where
  "lane_frame lm = (lm_name lm, lm_committee lm, lm_index lm, lm_sid lm, lm_genesis lm, lm_max_block_payload lm,
     lm_store lm, lm_ack_availability lm, lm_own_frontier lm, lm_avail lm, lm_avail_watermark_high lm, lm_seeded_anchor lm)"

lemma lane_frame_updates [simp]:
  "lane_frame (lm\<lparr>lm_acked := x0\<rparr>) = lane_frame lm"
  "lane_frame (lm\<lparr>lm_pending_direct := x1\<rparr>) = lane_frame lm"
  "lane_frame (lm\<lparr>lm_blocked_by := x2\<rparr>) = lane_frame lm"
  "lane_frame (lm\<lparr>lm_waiters := x3\<rparr>) = lane_frame lm"
  "lane_frame (lm\<lparr>lm_prefix_blocker := x4\<rparr>) = lane_frame lm"
  "lane_frame (lm\<lparr>lm_refresh_scan_after := x5\<rparr>) = lane_frame lm"
  "lane_frame (lm\<lparr>lm_direct_pub_refs := x6\<rparr>) = lane_frame lm"
  "lane_frame (lm\<lparr>lm_quorum_claim_refs := x7\<rparr>) = lane_frame lm"
  "lane_frame (lm\<lparr>lm_quorum_direct_refs := x8\<rparr>) = lane_frame lm"
  "lane_frame (lm\<lparr>lm_c_candidate := x9\<rparr>) = lane_frame lm"
  "lane_frame (lm\<lparr>lm_confirmation_candidate := x10\<rparr>) = lane_frame lm"
  "lane_frame (lm\<lparr>lm_t_candidate := x11\<rparr>) = lane_frame lm"
  "lane_frame (lm\<lparr>lm_own_avail_watermark := x12\<rparr>) = lane_frame lm"
  "lane_frame (lm\<lparr>lm_avail_dirty := x13\<rparr>) = lane_frame lm"
  by (simp_all add: lane_frame_def)

definition tracked :: "lane_manager \<Rightarrow> block_ref set" where
  "tracked lm = set (lm_acked lm) \<union> set (lm_pending_direct lm) \<union> dom (map_of (lm_blocked_by lm))"

definition ack_refs :: "effect list \<Rightarrow> block_ref list" where
  "ack_refs effs = List.map_filter (\<lambda>e. case e of BroadcastAck a \<Rightarrow> Some (ack_reference a) | _ \<Rightarrow> None) effs"

lemma ack_refs_simps [simp]:
  "ack_refs [] = []" "ack_refs (e1 @ e2) = ack_refs e1 @ ack_refs e2"
  "ack_refs [BroadcastAck a] = [ack_reference a]" "ack_refs [BlockCached d] = []" "ack_refs [SyncBatches p d m] = []"
  "ack_refs [BroadcastPublish h] = []"
  by (simp_all add: ack_refs_def map_filter_def del: split_paired_Ex)

lemma record_direct_pub_keeps:
  "lane_frame (record_direct_pub r lm) = lane_frame lm" "lm_acked (record_direct_pub r lm) = lm_acked lm"
  "lm_pending_direct (record_direct_pub r lm) = lm_pending_direct lm" "lm_blocked_by (record_direct_pub r lm) = lm_blocked_by lm"
  "lm_waiters (record_direct_pub r lm) = lm_waiters lm" "lm_prefix_blocker (record_direct_pub r lm) = lm_prefix_blocker lm"
  by (simp_all add: record_direct_pub_def Let_def lane_frame_def)

lemma refresh_registers_keeps:
  "lane_frame (refresh_registers b s lm) = lane_frame lm" "lm_acked (refresh_registers b s lm) = lm_acked lm"
  "lm_pending_direct (refresh_registers b s lm) = lm_pending_direct lm" "lm_blocked_by (refresh_registers b s lm) = lm_blocked_by lm"
  "lm_waiters (refresh_registers b s lm) = lm_waiters lm" "lm_prefix_blocker (refresh_registers b s lm) = lm_prefix_blocker lm"
  by (simp_all add: refresh_registers_def Let_def lane_frame_def)

lemma park_keeps:
  "lane_frame (park_pending_direct_on r d lm) = lane_frame lm" "lm_acked (park_pending_direct_on r d lm) = lm_acked lm"
  "lm_pending_direct (park_pending_direct_on r d lm) = lm_pending_direct lm"
  by (simp_all add: park_pending_direct_on_def Let_def lane_frame_def)

lemma wake_waiters_keeps:
  "lane_frame (fst (wake_waiters rs as lm)) = lane_frame lm \<and> lm_acked (fst (wake_waiters rs as lm)) = lm_acked lm
     \<and> tracked lm \<subseteq> tracked (fst (wake_waiters rs as lm)) \<and> lm_waiters (fst (wake_waiters rs as lm)) = lm_waiters lm
     \<and> map_of (lm_blocked_by (fst (wake_waiters rs as lm))) = (map_of (lm_blocked_by lm)) |` (- set rs)"
proof (induction rs arbitrary: "as" lm)
  case (Cons r rs)
  show ?case
  proof (cases "om_has (lm_blocked_by lm) r")
    case True
    let ?l0 = "lm\<lparr>lm_blocked_by := om_del r (lm_blocked_by lm), lm_prefix_blocker := om_del (ref_digest r) (lm_prefix_blocker lm)\<rparr>"
    let ?l1 = "?l0\<lparr>lm_pending_direct := os_ins r (lm_pending_direct ?l0)\<rparr>"
    show ?thesis
    proof (cases "r \<in> set (lm_acked lm)")
      case acked: True
      have "tracked lm \<subseteq> tracked ?l0"
        using acked by (auto simp: tracked_def omap_simps)
      then show ?thesis
        using Cons.IH [of "as" ?l0] True acked
        by (auto simp: lane_frame_def omap_simps restrict_map_def fun_eq_iff)
    next
      case False
      have "tracked lm \<subseteq> tracked ?l1"
        by (auto simp: tracked_def omap_simps)
      then show ?thesis
        using Cons.IH [of "os_ins (ref_author r) as" ?l1] True False
        by (auto simp: lane_frame_def omap_simps restrict_map_def fun_eq_iff)
    qed
  next
    case False
    then show ?thesis
      using Cons.IH [of "as" lm] by (auto simp: om_has_def restrict_map_def fun_eq_iff)
  qed
qed (simp add: restrict_map_def fun_eq_iff)

lemma clear_blocker_keeps:
  "lane_frame (clear_direct_prefix_blocker d lm) = lane_frame lm" "lm_acked (clear_direct_prefix_blocker d lm) = lm_acked lm"
  "tracked (clear_direct_prefix_blocker d lm) = tracked lm" "lm_waiters (clear_direct_prefix_blocker d lm) = lm_waiters lm"
  "lm_blocked_by (clear_direct_prefix_blocker d lm) = lm_blocked_by lm"
  by (simp_all add: clear_direct_prefix_blocker_def lane_frame_def tracked_def)

lemma wake_keeps:
  assumes "wake_pending_direct_blocker d lm = (lm', as)"
  shows "lane_frame lm' = lane_frame lm" "lm_acked lm' = lm_acked lm" "tracked lm \<subseteq> tracked lm'"
proof -
  let ?l = "clear_direct_prefix_blocker d lm"
  let ?l0 = "?l\<lparr>lm_waiters := om_del d (lm_waiters ?l)\<rparr>"
  have l0: "lane_frame ?l0 = lane_frame lm" "lm_acked ?l0 = lm_acked lm" "tracked ?l0 = tracked lm"
    using clear_blocker_keeps [of d lm] by (simp_all add: lane_frame_def tracked_def)
  show "lane_frame lm' = lane_frame lm" "lm_acked lm' = lm_acked lm" "tracked lm \<subseteq> tracked lm'"
    using assms wake_waiters_keeps [of _ "[]" ?l0] l0 clear_blocker_keeps [of d lm]
    by (auto simp: wake_pending_direct_blocker_def Let_def split: option.splits) (metis fst_conv subsetD)+
qed

lemma ack_step_result:
  assumes "on_direct_pub_confirmed r
      (lm\<lparr>lm_pending_direct := os_del r (lm_pending_direct lm),
          lm_prefix_blocker := om_del (ref_digest r) (lm_prefix_blocker lm)\<rparr>) b = (lm', b', effs)"
  shows "lane_frame lm' = lane_frame lm" "set (lm_acked lm') = insert r (set (lm_acked lm))"
    "lm_blocked_by lm' = lm_blocked_by lm" "lm_waiters lm' = lm_waiters lm" "tracked lm \<subseteq> tracked lm'"
    "b' = retain_prefix lm r b" "ack_refs effs = [r]"
  using assms
  by (auto simp: on_direct_pub_confirmed_def Let_def record_direct_pub_keeps tracked_def
      ack_new_def ack_reference_def retain_prefix_def)

lemma lane_step_cache:
  assumes "lane_step (lm, b) effs (lm', b')"
  shows "lane_frame lm' = lane_frame lm \<and> same_core b b'
    \<and> (cache_run (lm_genesis lm) A D b \<longrightarrow> cache_run (lm_genesis lm) A D b')"
  using assms
proof (cases rule: lane_step.cases)
  case (step_check r res)
  then show ?thesis
    using direct_pub_check_spec [OF step_check(3)] by simp
next
  case (step_ack r b1)
  note ack = ack_step_result [OF step_ack(3)] and chk = direct_pub_check_spec [OF step_ack(2)]
  show ?thesis
    using ack(1,6) chk(1,2) retain_prefix_keeps [where b = b1 and lm = lm and r = r] same_core_trans by metis
next
  case (step_wake d "as")
  then show ?thesis
    using wake_keeps [OF step_wake(3)] by simp
qed (auto simp: park_keeps block_pending_direct_on_def refresh_registers_keeps note_direct_prefix_self_blocker_def)

lemma frame_genesis: "lane_frame lm' = lane_frame lm \<Longrightarrow> lm_genesis lm' = lm_genesis lm"
  by (simp add: lane_frame_def)

lemma lane_steps_cache:
  assumes "lane_steps s effs t"
  shows "lane_frame (fst t) = lane_frame (fst s) \<and> same_core (snd s) (snd t)
    \<and> (cache_run (lm_genesis (fst s)) A D (snd s) \<longrightarrow> cache_run (lm_genesis (fst s)) A D (snd t))"
  using assms
proof (induction rule: lane_steps.induct)
  case (steps_step s e1 t e2 u)
  obtain lm b lm' b' where st: "s = (lm, b)" "t = (lm', b')"
    by (cases s; cases t)
  note one = lane_step_cache [OF steps_step(1) [unfolded st], of A D]
  show ?case
    using one steps_step.IH frame_genesis [of lm' lm] same_core_trans [of b b' "snd u"] unfolding st by auto
qed simp

lemma lane_step_acks:
  assumes "lane_step (lm, b) effs (lm', b')"
  shows "set (lm_acked lm') = set (lm_acked lm) \<union> set (ack_refs effs) \<and> distinct (ack_refs effs)
    \<and> set (lm_acked lm) \<inter> set (ack_refs effs) = {} \<and> tracked lm \<subseteq> tracked lm'
    \<and> (cache_run (lm_genesis lm) A D b \<longrightarrow> (\<forall>r \<in> set (ack_refs effs). fully_direct A D (lm_genesis lm) b' r))"
  using assms
proof (cases rule: lane_step.cases)
  case (step_ack r b1)
  note ack = ack_step_result [OF step_ack(3)] and chk = direct_pub_check_spec [OF step_ack(2)]
  have "fully_direct A D (lm_genesis lm) b' r" if "cache_run (lm_genesis lm) A D b"
    using chk(4) [OF that refl] fully_direct_core [OF retain_prefix_keeps(1)] ack(6) by simp
  then show ?thesis
    using ack(2,5,7) step_ack(1) by simp
next
  case (step_wake d "as")
  then show ?thesis
    using wake_keeps [OF step_wake(3)] by simp
next
  case (step_block d r)
  then show ?thesis
    by (auto simp: block_pending_direct_on_def tracked_def park_pending_direct_on_def Let_def omap_simps split: if_splits)
next
  case (step_park d r)
  then show ?thesis
    by (auto simp: tracked_def park_pending_direct_on_def Let_def omap_simps)
qed (auto simp: tracked_def refresh_registers_keeps note_direct_prefix_self_blocker_def)

lemma lane_steps_acks:
  assumes "lane_steps s effs t"
  shows "set (lm_acked (fst t)) = set (lm_acked (fst s)) \<union> set (ack_refs effs) \<and> distinct (ack_refs effs)
    \<and> set (lm_acked (fst s)) \<inter> set (ack_refs effs) = {} \<and> tracked (fst s) \<subseteq> tracked (fst t)
    \<and> (cache_run (lm_genesis (fst s)) A D (snd s) \<longrightarrow>
         (\<forall>r \<in> set (ack_refs effs). fully_direct A D (lm_genesis (fst s)) (snd t) r))"
  using assms
proof (induction rule: lane_steps.induct)
  case (steps_step s e1 t e2 u)
  obtain lm b lm' b' where st: "s = (lm, b)" "t = (lm', b')"
    by (cases s; cases t)
  note one = lane_step_acks [OF steps_step(1) [unfolded st], of A D] lane_step_cache [OF steps_step(1) [unfolded st], of A D]
  have core: "same_core b' (snd u)"
    using lane_steps_cache [OF steps_step(2)] by (simp add: st)
  show ?case
    using one steps_step.IH frame_genesis [of lm' lm] fully_direct_core [OF core] unfolding st by auto
qed simp

section \<open>Parked references\<close>

definition waits_for :: "(digest, block_ref oset) omap \<Rightarrow> block_ref \<Rightarrow> digest \<Rightarrow> bool" where
  "waits_for ws r d \<longleftrightarrow> (\<exists>refs. map_of ws d = Some refs \<and> r \<in> set refs)"

text \<open>
  The two indices of parked references are inverse to each other, and a parked reference waits for
  a gate that is not ready, the gates of \<open>X\<close> excepted.
\<close>

definition waits_ok :: "digest set \<Rightarrow> block_cache \<Rightarrow> lane_manager \<Rightarrow> bool" where
  "waits_ok X b lm \<longleftrightarrow>
     (\<forall>r d. map_of (lm_blocked_by lm) r = Some d \<longleftrightarrow> waits_for (lm_waiters lm) r d)
     \<and> (\<forall>r d. map_of (lm_blocked_by lm) r = Some d \<longrightarrow> d \<in> X \<or> \<not> direct_gate_ready b d)"

lemma waits_okI:
  assumes "\<And>r d. map_of (lm_blocked_by lm) r = Some d \<longleftrightarrow> waits_for (lm_waiters lm) r d"
    and "\<And>r d. map_of (lm_blocked_by lm) r = Some d \<Longrightarrow> d \<in> X \<or> \<not> direct_gate_ready b d"
  shows "waits_ok X b lm"
  unfolding waits_ok_def using assms by blast

lemma waits_okD:
  assumes "waits_ok X b lm"
  shows "map_of (lm_blocked_by lm) r = Some d \<longleftrightarrow> waits_for (lm_waiters lm) r d"
    and "map_of (lm_blocked_by lm) r = Some d \<Longrightarrow> d \<in> X \<or> \<not> direct_gate_ready b d"
  using assms unfolding waits_ok_def by blast+

lemma waits_ok_cong:
  "lm_blocked_by lm' = lm_blocked_by lm \<Longrightarrow> lm_waiters lm' = lm_waiters lm \<Longrightarrow>
    (\<And>d. direct_gate_ready b' d \<Longrightarrow> d \<in> X \<or> direct_gate_ready b d) \<Longrightarrow> waits_ok X b lm \<Longrightarrow> waits_ok X b' lm'"
  unfolding waits_ok_def by fastforce

lemma waits_for_unpark: "waits_for (unpark_from r old ws) x d \<longleftrightarrow> waits_for ws x d \<and> (x, d) \<noteq> (r, old)"
proof (cases "map_of ws old")
  case (Some refs)
  have "set (os_del r refs) = set refs - {r}"
    by simp
  then have "os_del r refs = [] \<longleftrightarrow> set refs \<subseteq> {r}"
    by (metis Diff_eq_empty_iff set_empty)
  then show ?thesis
    using Some by (auto simp: unpark_from_def waits_for_def omap_simps)
qed (auto simp: unpark_from_def waits_for_def)

lemma waits_for_insert: "waits_for (om_upd d0 [] (os_ins r) ws) x d \<longleftrightarrow> waits_for ws x d \<or> (x, d) = (r, d0)"
  by (cases "map_of ws d0") (auto simp: waits_for_def omap_simps)

lemma park_waits_ok:
  assumes "waits_ok X b lm" "\<not> direct_gate_ready b d"
  shows "waits_ok X b (park_pending_direct_on r d lm)"
proof (cases "r \<in> set (lm_acked lm)")
  case True
  then show ?thesis
    using assms by (simp add: park_pending_direct_on_def)
next
  case False
  note inv = waits_okD(1) [OF assms(1)] and nr = waits_okD(2) [OF assms(1)]
  define ws where "ws = (case map_of (lm_blocked_by lm) r of Some old \<Rightarrow> unpark_from r old (lm_waiters lm) | None \<Rightarrow> lm_waiters lm)"
  have ws: "waits_for ws x y \<longleftrightarrow> x \<noteq> r \<and> waits_for (lm_waiters lm) x y" for x y
    using inv [of r y] by (cases "map_of (lm_blocked_by lm) r") (auto simp: ws_def waits_for_unpark)
  have res: "lm_blocked_by (park_pending_direct_on r d lm) = om_put r d (lm_blocked_by lm)"
    "lm_waiters (park_pending_direct_on r d lm) = om_upd d [] (os_ins r) ws"
    using False by (simp_all add: park_pending_direct_on_def Let_def ws_def)
  show ?thesis
  proof (rule waits_okI)
    fix x y
    show "map_of (lm_blocked_by (park_pending_direct_on r d lm)) x = Some y \<longleftrightarrow>
        waits_for (lm_waiters (park_pending_direct_on r d lm)) x y"
      using inv [of x y] by (auto simp: res omap_simps waits_for_insert ws)
    show "y \<in> X \<or> \<not> direct_gate_ready b y" if "map_of (lm_blocked_by (park_pending_direct_on r d lm)) x = Some y"
      using that nr [of x y] assms(2) by (auto simp: res omap_simps split: if_splits)
  qed
qed

lemma wake_waits_ok:
  assumes "waits_ok X b lm" "wake_pending_direct_blocker d lm = (lm', as)"
  shows "waits_ok X b lm' \<and> (\<forall>r. map_of (lm_blocked_by lm') r \<noteq> Some d)"
proof (cases "map_of (lm_waiters lm) d")
  case None
  then have "lm' = clear_direct_prefix_blocker d lm"
    using assms(2) by (simp add: wake_pending_direct_blocker_def clear_blocker_keeps)
  then show ?thesis
    using waits_ok_cong [OF _ _ _ assms(1), of lm' b] waits_okD(1) [OF assms(1), of _ d] None clear_blocker_keeps [of d lm]
    by (auto simp: waits_for_def)
next
  case (Some ws)
  let ?l = "clear_direct_prefix_blocker d lm"
  have lm': "lm' = fst (wake_waiters ws [] (?l\<lparr>lm_waiters := om_del d (lm_waiters ?l)\<rparr>))"
    using assms(2) Some by (simp add: wake_pending_direct_blocker_def clear_blocker_keeps)
  have res: "map_of (lm_blocked_by lm') = (map_of (lm_blocked_by lm)) |` (- set ws)"
    "lm_waiters lm' = om_del d (lm_waiters lm)"
    using wake_waiters_keeps [of ws "[]" "?l\<lparr>lm_waiters := om_del d (lm_waiters ?l)\<rparr>"] clear_blocker_keeps [of d lm]
    by (simp_all add: lm')
  have ws: "r \<in> set ws \<longleftrightarrow> map_of (lm_blocked_by lm) r = Some d" for r
    using waits_okD(1) [OF assms(1), of r d] Some by (simp add: waits_for_def)
  have blocked: "map_of (lm_blocked_by lm') r = Some x \<longleftrightarrow> x \<noteq> d \<and> map_of (lm_blocked_by lm) r = Some x" for r x
    using ws [of r] by (auto simp: res restrict_map_def)
  have "waits_ok X b lm'"
  proof (rule waits_okI)
    fix r x
    show "map_of (lm_blocked_by lm') r = Some x \<longleftrightarrow> waits_for (lm_waiters lm') r x"
      using waits_okD(1) [OF assms(1), of r x] by (auto simp: blocked res(2) waits_for_def omap_simps)
    show "x \<in> X \<or> \<not> direct_gate_ready b x" if "map_of (lm_blocked_by lm') r = Some x"
      using that waits_okD(2) [OF assms(1), of r x] by (simp add: blocked)
  qed
  then show ?thesis
    using blocked by blast
qed

lemma lane_step_waits_ok:
  assumes "lane_step (lm, b) effs (lm', b')" "waits_ok X b lm"
  shows "waits_ok X b' lm'"
  using assms(1)
proof (cases rule: lane_step.cases)
  case (step_check r res)
  then show ?thesis
    using same_core_gate [OF direct_pub_check_spec(1) [OF step_check(3)]] waits_ok_cong [OF refl refl _ assms(2), of b'] by simp
next
  case (step_park d r)
  then show ?thesis
    using park_waits_ok assms(2) by simp
next
  case (step_block d r)
  then show ?thesis
    using park_waits_ok [of X b "lm\<lparr>lm_pending_direct := os_del r (lm_pending_direct lm)\<rparr>" d r] assms(2)
      waits_ok_cong [OF _ _ _ assms(2), of "lm\<lparr>lm_pending_direct := os_del r (lm_pending_direct lm)\<rparr>" b]
    by (simp add: block_pending_direct_on_def)
next
  case (step_ack r b1)
  note ack = ack_step_result [OF step_ack(3)] and chk = direct_pub_check_spec [OF step_ack(2)]
  show ?thesis
    using waits_ok_cong [OF ack(3,4) _ assms(2), of b'] same_core_gate [OF chk(1)]
      same_core_gate [OF retain_prefix_keeps(1) [of b1 lm r]] ack(6) by simp
next
  case (step_wake d "as")
  then show ?thesis
    using wake_waits_ok [OF assms(2)] by simp
qed (use waits_ok_cong [OF _ _ _ assms(2), of lm' b] in \<open>simp_all add: refresh_registers_keeps note_direct_prefix_self_blocker_def\<close>)

lemma lane_steps_waits_ok:
  assumes "lane_steps s effs t" "waits_ok X (snd s) (fst s)"
  shows "waits_ok X (snd t) (fst t)"
  using assms
proof (induction rule: lane_steps.induct)
  case (steps_step s e1 t e2 u)
  then show ?case
    using lane_step_waits_ok [of "fst s" "snd s" e1 "fst t" "snd t" X] by simp
qed simp

lemma waits_ok_shrink: "waits_ok {d} b lm \<Longrightarrow> (\<And>r. map_of (lm_blocked_by lm) r \<noteq> Some d) \<Longrightarrow> waits_ok {} b lm"
  unfolding waits_ok_def by blast

text \<open>Waking the references parked on a gate that became ready restores the full invariant.\<close>

lemma woken_waits_ok:
  assumes "woken d s effs t" "waits_ok {d} (snd s) (fst s)"
  shows "waits_ok {} (snd t) (fst t)"
proof -
  obtain e1 lm b lm' authors e2 where w: "lane_steps s e1 (lm, b)" "wake_pending_direct_blocker d lm = (lm', authors)"
      "lane_steps (lm', b) e2 t"
    using assms(1) unfolding woken_def by blast
  have "waits_ok {d} b lm"
    using lane_steps_waits_ok [OF w(1) assms(2)] by simp
  then have "waits_ok {} b lm'"
    using wake_waits_ok [OF _ w(2)] waits_ok_shrink by blast
  then show ?thesis
    using lane_steps_waits_ok [OF w(3)] by simp
qed

section \<open>Operations as steps\<close>

lemma enqueue_tracks: "r \<in> tracked (enqueue_pending_direct b r lm)"
  by (auto simp: enqueue_pending_direct_def tracked_def om_has_def park_pending_direct_on_def Let_def omap_simps
      split: option.splits prod.splits)

text \<open>
  A handler changes the gate of at most one digest, then runs steps; if that gate is ready, it wakes
  what waits for it. The reference \<open>new\<close> is tracked from the first steps on.
\<close>

definition gate_change :: "digest \<Rightarrow> block_ref set \<Rightarrow> lane_manager \<times> block_cache \<Rightarrow> effect list \<Rightarrow> lane_manager \<times> block_cache \<Rightarrow> bool" where
  "gate_change d new s effs t \<longleftrightarrow> (\<exists>lm1 e. lane_steps s [] (lm1, snd s) \<and> new \<subseteq> tracked lm1 \<and> ack_refs effs = ack_refs e
     \<and> (if direct_gate_ready (snd s) d then woken d (lm1, snd s) e t else lane_steps (lm1, snd s) e t))"

lemma gate_change_steps:
  assumes "gate_change d new s effs t"
  obtains e where "lane_steps s e t" "ack_refs effs = ack_refs e" "new \<subseteq> tracked (fst t)"
proof -
  obtain lm1 e where g: "lane_steps s [] (lm1, snd s)" "new \<subseteq> tracked lm1" "ack_refs effs = ack_refs e"
      "lane_steps (lm1, snd s) e t"
    using assms woken_steps unfolding gate_change_def by (metis (full_types))
  have "tracked lm1 \<subseteq> tracked (fst t)"
    using lane_steps_acks [OF g(4)] by simp
  then show ?thesis
    using that [of e] steps_trans [OF g(1) g(4)] g(2,3) by auto
qed

lemma gate_change_waits_ok:
  assumes "gate_change d new (lm, b) effs t" "waits_ok {d} b lm"
  shows "waits_ok {} (snd t) (fst t)"
proof -
  obtain lm1 e where g: "lane_steps (lm, b) [] (lm1, b)"
      "if direct_gate_ready b d then woken d (lm1, b) e t else lane_steps (lm1, b) e t"
    using assms(1) unfolding gate_change_def snd_conv by blast
  have w1: "waits_ok {d} b lm1"
    using lane_steps_waits_ok [OF g(1)] assms(2) by simp
  show ?thesis
  proof (cases "direct_gate_ready b d")
    case True
    then show ?thesis
      using g(2) woken_waits_ok w1 by fastforce
  next
    case False
    then have "waits_ok {} b lm1"
      using w1 unfolding waits_ok_def by blast
    then show ?thesis
      using g(2) False lane_steps_waits_ok by fastforce
  qed
qed

lemma process_publish_change:
  assumes "process_publish_inner b3 s h lm b = (lm', b', effs)"
  shows "\<not> block_ok b3 (lm_committee lm) (lm_sid lm) (lm_max_block_payload lm) h \<and> (lm', b', effs) = (lm, b, []) \<or>
    block_ok b3 (lm_committee lm) (lm_sid lm) (lm_max_block_payload lm) h
    \<and> gate_change (h_id h) (if s = h_author h \<and> missing_payload lm h = [] then {(h_author h, h_height h, h_id h)} else {})
        (lm, upsert h (s = h_author h) False (missing_payload lm h = []) True b) effs (lm', b')"
proof (cases "h_sid h \<noteq> Some (lm_sid lm) \<or> \<not> block_ok b3 (lm_committee lm) (lm_sid lm) (lm_max_block_payload lm) h")
  case True
  then have "process_publish_inner b3 s h lm b = (lm, b, [])"
    unfolding process_publish_inner_def by (metis (full_types))
  then show ?thesis
    using assms True by (auto simp: block_ok_def)
next
  case False
  define b1 where "b1 = upsert h (s = h_author h) False (missing_payload lm h = []) True b"
  define lm1 where "lm1 = (if s = h_author h \<and> missing_payload lm h = []
      then enqueue_pending_direct b1 (h_author h, h_height h, h_id h) lm
      else if s = h_author h then note_direct_prefix_self_blocker (h_id h) lm else lm)"
  have eq: "process_publish_inner b3 s h lm b = (case refresh_author (h_author h) lm1 b1 of (l, c, e) \<Rightarrow>
      case (if direct_gate_ready b1 (h_id h) then refresh_woken_pending_direct (h_id h) l c else (l, c, [])) of
        (l', c', w) \<Rightarrow> (l', c', [BlockCached (h_id h)]
          @ (if s = h_author h \<and> missing_payload lm h \<noteq> [] then [SyncBatches (h_author h) (h_id h) (missing_payload lm h)] else [])
          @ e @ w))"
    using False by (simp add: process_publish_inner_def Let_def b1_def lm1_def)
  obtain lm2 b2 e2 where r: "refresh_author (h_author h) lm1 b1 = (lm2, b2, e2)"
    by (metis prod_cases3)
  have first: "lane_steps (lm, b1) [] (lm1, b1)"
    using enqueue_steps steps_one [OF step_self_block] steps_refl by (simp add: lm1_def)
  have new: "(if s = h_author h \<and> missing_payload lm h = [] then {(h_author h, h_height h, h_id h)} else {}) \<subseteq> tracked lm1"
    using enqueue_tracks by (simp add: lm1_def)
  have rest: "\<exists>e. ack_refs effs = ack_refs e
      \<and> (if direct_gate_ready b1 (h_id h) then woken (h_id h) (lm1, b1) e (lm', b') else lane_steps (lm1, b1) e (lm', b'))"
  proof (cases "direct_gate_ready b1 (h_id h)")
    case True
    obtain lm3 b3' e3 where w: "refresh_woken_pending_direct (h_id h) lm2 b2 = (lm3, b3', e3)"
      by (metis prod_cases3)
    have "lm' = lm3" "b' = b3'" "ack_refs effs = ack_refs (e2 @ e3)"
      using assms [unfolded eq] True r w by (auto simp del: append.simps)
    then show ?thesis
      using refresh_woken_steps [OF refresh_author_steps [OF r] w] True by (intro exI [of _ "e2 @ e3"]) simp
  next
    case no: False
    have "lm' = lm2" "b' = b2" "ack_refs effs = ack_refs e2"
      using assms [unfolded eq] no r by (auto simp del: append.simps)
    then show ?thesis
      using refresh_author_steps [OF r] no by auto
  qed
  show ?thesis
    using False first new rest unfolding gate_change_def b1_def [symmetric] snd_conv by blast
qed

lemma payload_ready_change:
  assumes "set_payload_ready d lm b = (lm', b', effs)"
  shows "gate_change d (case bc_get (fst (set_payload_ok d True b)) d of
        Some e \<Rightarrow> if be_direct e \<and> be_payload_ok e then {(h_author (be_block e), h_height (be_block e), d)} else {} | None \<Rightarrow> {})
      (lm, fst (set_payload_ok d True b)) effs (lm', b')"
proof -
  define b1 where "b1 = fst (set_payload_ok d True b)"
  define ready where "ready = (case bc_get b1 d of None \<Rightarrow> None
    | Some e \<Rightarrow> if be_direct e \<and> be_payload_ok e then Some (h_author (be_block e), h_height (be_block e), d) else None)"
  define lm1 where "lm1 = (case ready of None \<Rightarrow> lm | Some r \<Rightarrow> enqueue_pending_direct b1 r lm)"
  define mid where "mid = (case ready of None \<Rightarrow> (lm1, b1, []) | Some r \<Rightarrow> refresh_author (ref_author r) lm1 b1)"
  have eq: "set_payload_ready d lm b = (case mid of (l, c, e) \<Rightarrow>
      case (if direct_gate_ready b1 d then refresh_woken_pending_direct d l c else (l, c, [])) of
        (l', c', w) \<Rightarrow> (l', c', e @ w))"
    by (simp add: set_payload_ready_def Let_def b1_def mid_def lm1_def ready_def split: option.splits)
  obtain lm2 b2 e2 where r: "mid = (lm2, b2, e2)"
    by (metis prod_cases3)
  have mid: "lane_steps (lm1, b1) e2 (lm2, b2)"
    using r refresh_author_steps steps_refl by (auto simp: mid_def split: option.splits)
  have first: "lane_steps (lm, b1) [] (lm1, b1)"
    using enqueue_steps steps_refl by (simp add: lm1_def split: option.split)
  have new: "(case bc_get b1 d of
        Some e \<Rightarrow> if be_direct e \<and> be_payload_ok e then {(h_author (be_block e), h_height (be_block e), d)} else {} | None \<Rightarrow> {})
      \<subseteq> tracked lm1"
    using enqueue_tracks by (auto simp: lm1_def ready_def split: option.splits)
  have rest: "\<exists>e. ack_refs effs = ack_refs e
      \<and> (if direct_gate_ready b1 d then woken d (lm1, b1) e (lm', b') else lane_steps (lm1, b1) e (lm', b'))"
  proof (cases "direct_gate_ready b1 d")
    case True
    obtain lm3 b3 e3 where w: "refresh_woken_pending_direct d lm2 b2 = (lm3, b3, e3)"
      by (metis prod_cases3)
    then show ?thesis
      using assms [unfolded eq] r True refresh_woken_steps [OF mid w] by (intro exI [of _ "e2 @ e3"]) auto
  next
    case False
    then show ?thesis
      using assms [unfolded eq] r mid by auto
  qed
  show ?thesis
    using first new rest unfolding gate_change_def b1_def [symmetric] snd_conv by blast
qed

lemma upsert_gate:
  "direct_gate_ready (upsert h direct repaired pok okv b) d \<Longrightarrow> d = h_id h \<or> direct_gate_ready b d"
  by (auto simp: direct_gate_ready_def bc_get_upsert split: if_splits)

lemma payload_gate: "direct_gate_ready (fst (set_payload_ok d ok b)) x \<Longrightarrow> x = d \<or> direct_gate_ready b x"
  by (auto simp: direct_gate_ready_def set_payload_ok_def bc_get_modify split: option.splits if_splits)

section \<open>Well-formed lane managers\<close>

definition waiters_wf :: "(digest, block_ref oset) omap \<Rightarrow> bool" where
  "waiters_wf ws \<longleftrightarrow> omap_ok ws \<and> (\<forall>e \<in> set ws. snd e \<noteq> [] \<and> oset_ok (snd e))"

definition queues_wf :: "lane_manager \<Rightarrow> bool" where
  "queues_wf lm \<longleftrightarrow> oset_ok (lm_acked lm) \<and> oset_ok (lm_pending_direct lm) \<and> omap_ok (lm_blocked_by lm)
     \<and> waiters_wf (lm_waiters lm) \<and> omap_ok (lm_prefix_blocker lm)"

definition marks_wf :: "lane_manager \<Rightarrow> bool" where
  "marks_wf lm \<longleftrightarrow> omap_ok (lm_ack_availability lm) \<and> oset_ok (lm_direct_pub_refs lm) \<and> oset_ok (lm_quorum_claim_refs lm)
     \<and> oset_ok (lm_quorum_direct_refs lm)"

definition tables_wf :: "lane_manager \<Rightarrow> bool" where
  "tables_wf lm \<longleftrightarrow> ba_ok (lm_index lm) (lm_refresh_scan_after lm) \<and> ba_ok (lm_index lm) (lm_c_candidate lm)
     \<and> ba_ok (lm_index lm) (lm_confirmation_candidate lm) \<and> ba_ok (lm_index lm) (lm_t_candidate lm)
     \<and> ba_ok (lm_index lm) (lm_own_avail_watermark lm) \<and> ba_ok (lm_index lm) (lm_avail_watermark_high lm)"

definition lanes_wf :: "lane_manager \<Rightarrow> bool" where
  "lanes_wf lm \<longleftrightarrow> queues_wf lm \<and> marks_wf lm \<and> tables_wf lm"

lemmas lanes_wf_defs = lanes_wf_def queues_wf_def marks_wf_def tables_wf_def

lemma waiters_wf_put: "waiters_wf ws \<Longrightarrow> v \<noteq> [] \<Longrightarrow> oset_ok v \<Longrightarrow> waiters_wf (om_put d v ws)"
  using set_om_put_subset [of d v ws] unfolding waiters_wf_def by (fastforce intro: omap_ok_put)

lemma waiters_wf_oset: "waiters_wf ws \<Longrightarrow> map_of ws d = Some refs \<Longrightarrow> oset_ok refs"
  by (fastforce simp: waiters_wf_def omap_ok_map_of)

lemma waiters_wf_insert:
  assumes "waiters_wf ws"
  shows "waiters_wf (om_upd d [] (os_ins r) ws)"
proof -
  have "os_ins r x \<noteq> []" for x :: "block_ref oset"
    by (metis empty_iff insertI1 list.set(1) set_os_ins)
  then show ?thesis
    using assms waiters_wf_oset [OF assms] oset_ok_ins [of _ r] oset_ok_Nil
    by (auto simp: om_upd_def simp del: os_ins.simps intro!: waiters_wf_put split: option.splits)
qed

lemma waiters_wf_unpark: "waiters_wf ws \<Longrightarrow> waiters_wf (unpark_from r d ws)"
  using waiters_wf_oset [of ws d]
  by (auto simp: unpark_from_def intro!: waiters_wf_put oset_ok_del split: option.splits)
    (auto simp: waiters_wf_def om_del_def intro: order_intros)

lemma park_wf: "queues_wf lm \<Longrightarrow> queues_wf (park_pending_direct_on r d lm)"
  by (auto simp: queues_wf_def park_pending_direct_on_def Let_def
      intro!: waiters_wf_insert waiters_wf_unpark order_intros split: option.split)

lemma wake_waiters_wf: "queues_wf lm \<Longrightarrow> queues_wf (fst (wake_waiters rs as lm))"
  by (induction rs "as" lm rule: wake_waiters.induct) (auto simp: queues_wf_def Let_def intro: order_intros)

lemma wake_wf: "queues_wf lm \<Longrightarrow> wake_pending_direct_blocker d lm = (lm', as) \<Longrightarrow> queues_wf lm'"
proof -
  assume wf: "queues_wf lm" and wake: "wake_pending_direct_blocker d lm = (lm', as)"
  have "queues_wf (clear_direct_prefix_blocker d lm)"
    using wf by (auto simp: queues_wf_def clear_direct_prefix_blocker_def intro: order_intros)
  moreover from this have "queues_wf (clear_direct_prefix_blocker d lm\<lparr>lm_waiters := om_del d (lm_waiters (clear_direct_prefix_blocker d lm))\<rparr>)"
    by (auto simp: queues_wf_def waiters_wf_def om_del_def intro: order_intros)
  ultimately show ?thesis
    using wake wake_waiters_wf by (auto simp: wake_pending_direct_blocker_def Let_def split: option.splits) (metis fst_conv)
qed

lemma refresh_registers_wf: "lanes_wf lm \<Longrightarrow> lanes_wf (refresh_registers b slot lm)"
  by (simp add: lanes_wf_defs refresh_registers_def Let_def set_candidate_def table_oks)

lemma record_direct_pub_wf: "lanes_wf lm \<Longrightarrow> lanes_wf (record_direct_pub r lm)"
  by (auto simp: lanes_wf_defs record_direct_pub_def Let_def table_oks intro: order_intros)

lemma park_keeps_marks:
  "marks_wf (park_pending_direct_on r d lm) = marks_wf lm" "tables_wf (park_pending_direct_on r d lm) = tables_wf lm"
  by (simp_all add: marks_wf_def tables_wf_def park_pending_direct_on_def Let_def)

lemma wake_waiters_keeps_marks:
  "marks_wf (fst (wake_waiters rs as lm)) = marks_wf lm" "tables_wf (fst (wake_waiters rs as lm)) = tables_wf lm"
  by (induction rs "as" lm rule: wake_waiters.induct) (simp_all add: marks_wf_def tables_wf_def Let_def)

lemma wake_keeps_marks:
  assumes "wake_pending_direct_blocker d lm = (lm', as)"
  shows "marks_wf lm' = marks_wf lm" "tables_wf lm' = tables_wf lm"
proof -
  let ?l = "clear_direct_prefix_blocker d lm"
  have "marks_wf ?l = marks_wf lm" "tables_wf ?l = tables_wf lm"
    by (simp_all add: clear_direct_prefix_blocker_def marks_wf_def tables_wf_def)
  moreover have "marks_wf (?l\<lparr>lm_waiters := om_del d (lm_waiters ?l)\<rparr>) = marks_wf ?l"
    "tables_wf (?l\<lparr>lm_waiters := om_del d (lm_waiters ?l)\<rparr>) = tables_wf ?l"
    by (simp_all add: marks_wf_def tables_wf_def)
  ultimately show "marks_wf lm' = marks_wf lm" "tables_wf lm' = tables_wf lm"
    using assms wake_waiters_keeps_marks [of _ "[]" "?l\<lparr>lm_waiters := om_del d (lm_waiters ?l)\<rparr>"]
    by (auto simp: wake_pending_direct_blocker_def Let_def split: option.splits) (metis fst_conv)+
qed

lemma lane_step_wf:
  assumes "lane_step (lm, b) effs (lm', b')" "lanes_wf lm"
  shows "lanes_wf lm'"
  using assms(1)
proof (cases rule: lane_step.cases)
  case (step_park d r)
  then show ?thesis
    using assms(2) park_wf by (simp add: lanes_wf_def park_keeps_marks)
next
  case (step_block d r)
  have "lanes_wf (lm\<lparr>lm_pending_direct := os_del r (lm_pending_direct lm)\<rparr>)"
    using assms(2) by (auto simp: lanes_wf_defs intro: order_intros)
  then show ?thesis
    using step_block park_wf by (simp add: lanes_wf_def park_keeps_marks block_pending_direct_on_def)
next
  case (step_ack r b1)
  have "lanes_wf (lm\<lparr>lm_pending_direct := os_del r (lm_pending_direct lm),
      lm_prefix_blocker := om_del (ref_digest r) (lm_prefix_blocker lm), lm_acked := os_ins r (lm_acked lm)\<rparr>)"
    using assms(2) by (auto simp: lanes_wf_defs intro: order_intros)
  then show ?thesis
    using step_ack(3) record_direct_pub_wf [of _ r] by (auto simp: on_direct_pub_confirmed_def Let_def)
next
  case (step_registers slot)
  then show ?thesis
    using refresh_registers_wf assms(2) by simp
next
  case (step_wake d "as")
  then show ?thesis
    using wake_wf wake_keeps_marks assms(2) by (auto simp: lanes_wf_def)
qed (use assms(2) in \<open>auto simp: lanes_wf_defs note_direct_prefix_self_blocker_def table_oks intro: order_intros\<close>)

lemma lane_steps_wf: "lane_steps s effs t \<Longrightarrow> lanes_wf (fst s) \<Longrightarrow> lanes_wf (fst t)"
proof (induction rule: lane_steps.induct)
  case (steps_step s e1 t e2 u)
  then show ?case
    using lane_step_wf [of "fst s" "snd s" e1 "fst t" "snd t"] by simp
qed

section \<open>Runs\<close>

text \<open>
  The calls a node makes of its lane manager, and the changes that the other holders of the shared
  cache (repair, eviction) make in between.
\<close>

datatype lane_event =
    LPublish public_key header
  | LPublishOwn "(digest, worker_id) omap"
  | LPayloadReady digest
  | LAvailability ack_availability bool
  | LNoteClaim public_key "claim_ref list"
  | LWatermark public_key "avail_entry list"
  | LRetryAvail digest
  | LHoldsPrefix block_ref
  | LAuthorOk block_ref
  | LFlush
  | LRecover header
  | LCache block_cache

fun lane_apply ::
    "(bytes \<Rightarrow> digest) \<Rightarrow> frontier_codec \<Rightarrow> lane_event \<Rightarrow> lane_manager \<times> block_cache \<Rightarrow> (lane_manager \<times> block_cache) \<times> effect list" where
  "lane_apply b3 fc (LPublish s h) (lm, b) = (let (lm, b, effs) = process_publish b3 s h lm b in ((lm, b), effs))"
| "lane_apply b3 fc (LPublishOwn payload) (lm, b) = (let (lm, b, _, effs) = publish_own b3 fc payload lm b in ((lm, b), effs))"
| "lane_apply b3 fc (LPayloadReady d) (lm, b) = (let (lm, b, effs) = set_payload_ready d lm b in ((lm, b), effs))"
| "lane_apply b3 fc (LAvailability av promote) (lm, b) = ((process_availability b av promote lm, b), [])"
| "lane_apply b3 fc (LNoteClaim s claims) (lm, b) = ((fst (note_claim b s claims lm), b), [])"
| "lane_apply b3 fc (LWatermark s entries) (lm, b) = ((fst (lm_resolve_watermark b s entries lm), b), [])"
| "lane_apply b3 fc (LRetryAvail d) (lm, b) = ((fst (retry_pending_avail b d lm), b), [])"
| "lane_apply b3 fc (LHoldsPrefix r) (lm, b) = ((lm, fst (locally_available lm r b)), [])"
| "lane_apply b3 fc (LAuthorOk r) (lm, b) = ((lm, fst (author_ok lm r b)), [])"
| "lane_apply b3 fc LFlush (lm, b) = ((fst (take_avail_flush lm), b), [])"
| "lane_apply b3 fc (LRecover h) (lm, b) = (let (lm, b, _) = recover_own_frontier b3 fc h lm b in ((lm, b), []))"
| "lane_apply b3 fc (LCache b') (lm, b) = ((lm, b'), [])"

text \<open>
  What is assumed of an event: a block that arrives has the position of a cached block with its
  identifier (\<^verbatim>\<open>stable\<close>, no two blocks collide), a recovered tip is not genesis, and the other
  holders of the cache keep it a reachable cache and make no direct gate ready.
\<close>

fun lane_event_ok :: "(bytes \<Rightarrow> digest) \<Rightarrow> lane_event \<Rightarrow> lane_manager \<times> block_cache \<Rightarrow> bool" where
  "lane_event_ok b3 (LPublish s h) (lm, b) = stable h b"
| "lane_event_ok b3 (LPublishOwn payload) (lm, b) =
     stable (new_vantage b3 (lm_name lm) (fst (lm_own_frontier lm) + 1) payload (snd (lm_own_frontier lm)) (lm_sid lm)) b"
| "lane_event_ok b3 (LRecover h) (lm, b) = (stable h b \<and> h_id h \<noteq> lm_genesis lm)"
| "lane_event_ok b3 (LCache b') (lm, b) =
     ((\<forall>d. direct_gate_ready b' d \<longrightarrow> direct_gate_ready b d) \<and> (\<exists>A D. cache_run (lm_genesis lm) A D b'))"
| "lane_event_ok b3 _ s = True"

text \<open>The parts of the state that only publication, payload arrival and recovery change.\<close>

definition lane_core where
  "lane_core lm = (lm_name lm, lm_genesis lm, lm_acked lm, lm_pending_direct lm, lm_blocked_by lm, lm_waiters lm)"

lemma refresh_registers_core: "lane_core (refresh_registers b slot lm) = lane_core lm"
  by (simp add: lane_core_def refresh_registers_def Let_def)

lemma process_availability_core:
  "lane_core (process_availability b av promote lm) = lane_core lm"
  "lanes_wf lm \<Longrightarrow> lanes_wf (process_availability b av promote lm)"
proof -
  let ?r = "aa_reference av" and ?t = "aa_threshold av"
  define l1 where "l1 = lm\<lparr>lm_ack_availability := om_put ?r ?t (lm_ack_availability lm),
      lm_avail := note_threshold ?r ?t (lm_avail lm),
      lm_avail_watermark_high := ba_entry 0 (ci_slot (lm_index lm) (ref_author ?r))
        (\<lambda>high. if ref_height ?r > high then ref_height ?r else high) (lm_avail_watermark_high lm)\<rparr>"
  define l2 where "l2 = l1\<lparr>lm_quorum_claim_refs := os_ins ?r (lm_quorum_claim_refs l1),
      lm_quorum_direct_refs := (if promote then os_ins ?r (lm_quorum_direct_refs l1) else lm_quorum_direct_refs l1)\<rparr>"
  have cases: "process_availability b av promote lm \<in>
      {lm, l1, l2, refresh_registers b (ci_slot (lm_index lm) (ref_author ?r)) l2}"
    by (simp add: process_availability_def Let_def l1_def l2_def)
  have "lane_core l1 = lane_core lm" "lane_core l2 = lane_core lm"
    by (simp_all add: lane_core_def l1_def l2_def)
  then show "lane_core (process_availability b av promote lm) = lane_core lm"
    using cases refresh_registers_core by auto
  assume wf: "lanes_wf lm"
  then have "lanes_wf l1" "lanes_wf l2"
    by (auto simp: lanes_wf_defs l1_def l2_def table_oks intro: order_intros)
  then show "lanes_wf (process_availability b av promote lm)"
    using cases wf refresh_registers_wf by auto
qed

lemma promote_exact_core:
  "lane_core (fst (promote_exact rs ch lm)) = lane_core lm \<and> (lanes_wf lm \<longrightarrow> lanes_wf (fst (promote_exact rs ch lm)))"
proof (induction rs ch lm rule: promote_exact.induct)
  case (2 r rs ch lm)
  let ?l = "lm\<lparr>lm_quorum_direct_refs := os_ins r (lm_quorum_direct_refs lm)\<rparr>"
  have "lane_core ?l = lane_core lm" "lanes_wf lm \<Longrightarrow> lanes_wf ?l"
    by (auto simp: lane_core_def lanes_wf_defs intro: order_intros)
  then show ?case
    using 2 by auto
qed simp

lemma fold_registers_core:
  "lane_core (fold (\<lambda>a lm. refresh_registers b (ci_slot (lm_index lm) a) lm) as lm) = lane_core lm
    \<and> (lanes_wf lm \<longrightarrow> lanes_wf (fold (\<lambda>a lm. refresh_registers b (ci_slot (lm_index lm) a) lm) as lm))"
proof (induction "as" arbitrary: lm)
  case (Cons a "as")
  then show ?case
    using refresh_registers_core refresh_registers_wf by simp
qed simp

lemma note_claim_core:
  "lane_core (fst (note_claim b s claims lm)) = lane_core lm"
  "lanes_wf lm \<Longrightarrow> lanes_wf (fst (note_claim b s claims lm))"
proof -
  obtain av credits where c: "av_note_claim b s claims (lm_avail lm) = (av, credits)"
    by (cases "av_note_claim b s claims (lm_avail lm)")
  let ?l0 = "lm\<lparr>lm_avail := av\<rparr>"
  obtain l1 ch where p: "promote_exact (cr_newly_exact_quorum credits) [] ?l0 = (l1, ch)"
    by (cases "promote_exact (cr_newly_exact_quorum credits) [] ?l0")
  have l0: "lane_core ?l0 = lane_core lm" "lanes_wf ?l0 = lanes_wf lm"
    by (simp_all add: lane_core_def lanes_wf_defs)
  have res: "fst (note_claim b s claims lm) = fold (\<lambda>a lm. refresh_registers b (ci_slot (lm_index lm) a) lm) ch l1"
    by (simp add: note_claim_def c p)
  note pe = promote_exact_core [of "cr_newly_exact_quorum credits" "[]" ?l0] and fr = fold_registers_core [of b ch l1]
  show "lane_core (fst (note_claim b s claims lm)) = lane_core lm"
    using pe fr l0 by (simp add: res p)
  show "lanes_wf (fst (note_claim b s claims lm))" if "lanes_wf lm"
    using that pe fr l0 by (simp add: res p)
qed

lemma query_caches:
  "same_core b (fst (locally_available lm r b))" "same_core b (fst (author_ok lm r b))"
  "cache_run (lm_genesis lm) A D b \<Longrightarrow> cache_run (lm_genesis lm) A D (fst (locally_available lm r b))"
  "cache_run (lm_genesis lm) A D b \<Longrightarrow> cache_run (lm_genesis lm) A D (fst (author_ok lm r b))"
proof -
  obtain b1 v where v: "verified_prefix_through_genesis (lm_genesis lm) (ref_digest r) b = (b1, v)"
    by (cases "verified_prefix_through_genesis (lm_genesis lm) (ref_digest r) b")
  have b1: "same_core b b1" "cache_run (lm_genesis lm) A D b \<Longrightarrow> cache_run (lm_genesis lm) A D b1"
    using same_core_verify [of b "lm_genesis lm" "ref_digest r"] run_verify [of "lm_genesis lm" A D b "ref_digest r"] v by simp_all
  show "same_core b (fst (locally_available lm r b))"
    using same_core_trans [OF b1(1) retain_prefix_keeps(1)] b1(1)
    by (simp add: locally_available_def holds_prefix_def v split: prod.splits)
  show "cache_run (lm_genesis lm) A D (fst (locally_available lm r b))" if "cache_run (lm_genesis lm) A D b"
    using that b1(2) retain_prefix_keeps(2) [of lm A D b1 r]
    by (simp add: locally_available_def holds_prefix_def v split: prod.splits)
  obtain b2 res where c: "direct_pub_check lm r b = (b2, res)"
    by (cases "direct_pub_check lm r b")
  show "same_core b (fst (author_ok lm r b))"
    using direct_pub_check_spec(1) [OF c] by (simp add: author_ok_def direct_pub_def c)
  show "cache_run (lm_genesis lm) A D (fst (author_ok lm r b))" if "cache_run (lm_genesis lm) A D b"
    using direct_pub_check_spec(2) [OF c that] that by (simp add: author_ok_def direct_pub_def c)
qed

section \<open>Dropping the own lane\<close>

lemma map_of_filter_key: "map_of (filter (\<lambda>e. P (fst e)) m) k = (if P k then map_of m k else None)"
  by (induction m) auto

lemma omap_ok_map_snd: "omap_ok (map (\<lambda>(d, v). (d, f v)) m) \<longleftrightarrow> omap_ok m"
  by (induction m) (auto simp: omap_ok_def)

definition drop_waiters :: "(block_ref \<Rightarrow> bool) \<Rightarrow> (digest, block_ref oset) omap \<Rightarrow> (digest, block_ref oset) omap" where
  "drop_waiters other ws = filter (\<lambda>e. snd e \<noteq> []) (map (\<lambda>(d, refs). (d, filter other refs)) ws)"

lemma drop_waiters_wf: "waiters_wf ws \<Longrightarrow> waiters_wf (drop_waiters other ws)"
  by (auto simp: waiters_wf_def drop_waiters_def omap_ok_map_snd intro!: omap_ok_filter oset_ok_filter)

lemma waits_for_member: "omap_ok ws \<Longrightarrow> waits_for ws r d \<longleftrightarrow> (\<exists>refs. (d, refs) \<in> set ws \<and> r \<in> set refs)"
  by (simp add: waits_for_def omap_ok_map_of)

lemma drop_waiters_member:
  "(d, refs) \<in> set (drop_waiters other ws) \<longleftrightarrow> refs \<noteq> [] \<and> (\<exists>all. (d, all) \<in> set ws \<and> refs = filter other all)"
  unfolding drop_waiters_def by (induction ws) auto

lemma drop_waiters_for:
  assumes "waiters_wf ws"
  shows "waits_for (drop_waiters other ws) r d \<longleftrightarrow> other r \<and> waits_for ws r d"
proof -
  have ok: "omap_ok (drop_waiters other ws)" "omap_ok ws"
    using assms drop_waiters_wf [OF assms, of other] by (simp_all add: waiters_wf_def)
  show ?thesis
  proof
    assume "waits_for (drop_waiters other ws) r d"
    then obtain all where "(d, all) \<in> set ws" "r \<in> set (filter other all)"
      unfolding waits_for_member [OF ok(1)] drop_waiters_member by blast
    then show "other r \<and> waits_for ws r d"
      unfolding waits_for_member [OF ok(2)] by auto
  next
    assume "other r \<and> waits_for ws r d"
    then obtain all where all: "(d, all) \<in> set ws" "r \<in> set (filter other all)"
      unfolding waits_for_member [OF ok(2)] by auto
    then have "filter other all \<noteq> []"
      by force
    with all show "waits_for (drop_waiters other ws) r d"
      unfolding waits_for_member [OF ok(1)] drop_waiters_member by blast
  qed
qed

lemma drop_own_lane_waiters: "lm_waiters (drop_own_lane lm) = drop_waiters (\<lambda>r. ref_author r \<noteq> lm_name lm) (lm_waiters lm)"
  by (simp add: drop_own_lane_def Let_def drop_waiters_def)

lemma drop_own_lane_wf: "lanes_wf lm \<Longrightarrow> lanes_wf (drop_own_lane lm)"
  using drop_own_lane_waiters [of lm]
  by (auto simp: lanes_wf_defs drop_own_lane_def Let_def table_oks drop_waiters_wf
      intro!: omap_ok_filter oset_ok_filter drop_waiters_wf simp flip: drop_waiters_def)

lemma drop_own_lane_waits_ok:
  assumes "waits_ok X b lm" "lanes_wf lm"
  shows "waits_ok X b (drop_own_lane lm)"
proof (rule waits_okI)
  fix r d
  have blocked: "map_of (lm_blocked_by (drop_own_lane lm)) r = (if ref_author r \<noteq> lm_name lm then map_of (lm_blocked_by lm) r else None)"
    using map_of_filter_key [of "\<lambda>r. ref_author r \<noteq> lm_name lm" "lm_blocked_by lm" r] by (simp add: drop_own_lane_def Let_def)
  show "map_of (lm_blocked_by (drop_own_lane lm)) r = Some d \<longleftrightarrow> waits_for (lm_waiters (drop_own_lane lm)) r d"
    using waits_okD(1) [OF assms(1), of r d] assms(2)
    by (simp add: blocked drop_own_lane_waiters drop_waiters_for lanes_wf_def queues_wf_def)
  show "d \<in> X \<or> \<not> direct_gate_ready b d" if "map_of (lm_blocked_by (drop_own_lane lm)) r = Some d"
    using that waits_okD(2) [OF assms(1), of r d] by (simp add: blocked split: if_splits)
qed

lemma recover_gates: "direct_gate_ready (seed_recovered_own_anchor h b) d \<Longrightarrow> direct_gate_ready b d"
  by (auto simp: direct_gate_ready_def seed_recovered_own_anchor_def bc_get_modify bc_get_upsert anchor_entry_def
      split: option.splits if_splits)

lemma persist_core:
  "lane_core (persist_own_frontier fc h lm) = lane_core lm" "lanes_wf (persist_own_frontier fc h lm) = lanes_wf lm"
  "lm_own_frontier (persist_own_frontier fc h lm) = lm_own_frontier lm" "lm_sid (persist_own_frontier fc h lm) = lm_sid lm"
  by (auto simp: persist_own_frontier_def Let_def lane_core_def lanes_wf_defs split: option.splits)

lemma recover_result:
  assumes "recover_own_frontier b3 fc h lm b = (lm', b', ok)" "lanes_wf lm" "waits_ok {} b lm"
  shows "(lm', b') = (lm, b) \<or>
    b' = seed_recovered_own_anchor h b \<and> 0 < h_height h \<and> lm_name lm' = lm_name lm \<and> lm_genesis lm' = lm_genesis lm
    \<and> lanes_wf lm' \<and> waits_ok {} b' lm'
    \<and> {r \<in> set (lm_acked lm'). ref_author r \<noteq> lm_name lm} = {r \<in> set (lm_acked lm). ref_author r \<noteq> lm_name lm}"
proof -
  let ?own = "ci_slot (lm_index lm) (lm_name lm)" and ?anchor = "(lm_name lm, h_height h, h_id h)"
  let ?l = "drop_own_lane lm"
  define l1 where "l1 = ?l\<lparr>lm_avail := note_threshold ?anchor Quorum (av_reset_author (lm_name lm) ?anchor (lm_avail lm)),
      lm_ack_availability := om_put ?anchor Quorum (lm_ack_availability ?l), lm_acked := os_ins ?anchor (lm_acked ?l),
      lm_direct_pub_refs := os_ins ?anchor (lm_direct_pub_refs ?l),
      lm_quorum_claim_refs := os_ins ?anchor (lm_quorum_claim_refs ?l),
      lm_quorum_direct_refs := os_ins ?anchor (lm_quorum_direct_refs ?l),
      lm_c_candidate := ba_entry None ?own (\<lambda>_. Some ?anchor) (lm_c_candidate ?l),
      lm_own_avail_watermark := ba_entry None ?own (\<lambda>_. Some (h_height h, h_id h)) (lm_own_avail_watermark ?l),
      lm_avail_watermark_high := ba_entry 0 ?own (\<lambda>_. h_height h) (lm_avail_watermark_high ?l),
      lm_avail_dirty := True, lm_own_frontier := (h_height h, h_id h), lm_seeded_anchor := None\<rparr>"
  have names: "lm_name ?l = lm_name lm" "lm_index ?l = lm_index lm" "lm_avail ?l = lm_avail lm" "lm_genesis ?l = lm_genesis lm"
    by (simp_all add: drop_own_lane_def Let_def)
  have res: "(lm', b') = (lm, b) \<or> (lm', b') = (persist_own_frontier fc h l1, seed_recovered_own_anchor h b) \<and> 0 < h_height h"
    using assms(1) unfolding recover_own_frontier_def Let_def names l1_def by (auto split: if_splits)
  have wf: "lanes_wf l1"
    using drop_own_lane_wf [OF assms(2)] by (auto simp: lanes_wf_defs l1_def table_oks names intro: order_intros)
  have "waits_ok {} (seed_recovered_own_anchor h b) l1"
    using waits_ok_cong [OF _ _ _ drop_own_lane_waits_ok [OF assms(3,2)], of l1 "seed_recovered_own_anchor h b"] recover_gates
    by (simp add: l1_def)
  then have w: "waits_ok {} (seed_recovered_own_anchor h b) (persist_own_frontier fc h l1)"
    using persist_core(1) [of fc h l1] waits_ok_cong [of _ l1] by (simp add: lane_core_def)
  have "set (lm_acked l1) = insert ?anchor {r \<in> set (lm_acked lm). ref_author r \<noteq> lm_name lm}"
    by (auto simp: l1_def drop_own_lane_def Let_def)
  then show ?thesis
    using res wf w persist_core(1) [of fc h l1] names by (auto simp: lane_core_def persist_core l1_def)
qed

section \<open>The invariant of a run\<close>

inductive lane_run ::
    "(bytes \<Rightarrow> digest) \<Rightarrow> frontier_codec \<Rightarrow> (committee \<Rightarrow> bytes) \<Rightarrow> public_key \<Rightarrow> committee \<Rightarrow> nat \<Rightarrow> kv_store
     \<Rightarrow> lane_manager \<Rightarrow> block_cache \<Rightarrow> effect list \<Rightarrow> bool"
  for b3 fc sc name c mp store where
  lane_boot: "restore_own_frontier b3 fc (lanes_new b3 sc name c mp store) bc_new = (lm, b) \<Longrightarrow>
    (\<And>h. lm_seeded_anchor lm = Some h \<Longrightarrow> h_id h \<noteq> lm_genesis lm) \<Longrightarrow> lane_run b3 fc sc name c mp store lm b []"
| lane_next: "lane_run b3 fc sc name c mp store lm b out \<Longrightarrow> lane_event_ok b3 ev (lm, b) \<Longrightarrow>
    lane_apply b3 fc ev (lm, b) = ((lm', b'), effs) \<Longrightarrow> lane_run b3 fc sc name c mp store lm' b' (out @ effs)"

definition foreign :: "public_key \<Rightarrow> block_ref list \<Rightarrow> block_ref list" where
  "foreign name rs = filter (\<lambda>r. ref_author r \<noteq> name) rs"

lemma foreign_simps [simp]:
  "foreign name [] = []" "foreign name (rs @ rs') = foreign name rs @ foreign name rs'"
  "set (foreign name rs) = {r \<in> set rs. ref_author r \<noteq> name}"
  by (auto simp: foreign_def)

definition lane_inv :: "public_key \<Rightarrow> digest \<Rightarrow> effect list \<Rightarrow> lane_manager \<Rightarrow> block_cache \<Rightarrow> bool" where
  "lane_inv name g out lm b \<longleftrightarrow> lanes_wf lm \<and> waits_ok {} b lm \<and> lm_name lm = name \<and> lm_genesis lm = g
     \<and> (\<exists>A D. cache_run g A D b) \<and> distinct (foreign name (ack_refs out))
     \<and> set (foreign name (lm_acked lm)) = set (foreign name (ack_refs out))"

lemma lane_inv_quiet:
  assumes "lane_inv name g out lm b" "lane_core lm' = lane_core lm" "lanes_wf lm'"
    and "\<And>d. direct_gate_ready b' d \<Longrightarrow> direct_gate_ready b d" "\<exists>A D. cache_run g A D b'"
  shows "lane_inv name g out lm' b'"
  using assms waits_ok_cong [of lm' lm b' "{}" b] by (auto simp: lane_inv_def lane_core_def)

lemma lane_inv_steps:
  assumes "lane_steps (lm, b) e (lm', b')" "ack_refs effs = ack_refs e" "waits_ok {} b' lm'" "lanes_wf lm"
    and "lm_name lm = name" "lm_genesis lm = g" "cache_run g A D b" "distinct (foreign name (ack_refs out))"
    and "set (foreign name (lm_acked lm)) = set (foreign name (ack_refs out))"
  shows "lane_inv name g (out @ effs) lm' b'" and "cache_run g A D b'"
    and "\<forall>r \<in> set (ack_refs effs). fully_direct A D g b' r"
proof -
  note c = lane_steps_cache [OF assms(1), of A D, simplified] and a = lane_steps_acks [OF assms(1), of A D, simplified]
  show run: "cache_run g A D b'"
    using c assms(6,7) by simp
  show "\<forall>r \<in> set (ack_refs effs). fully_direct A D g b' r"
    using a assms(2,6,7) by simp
  have names: "lm_name lm' = name" "lm_genesis lm' = g"
    using c assms(5,6) by (simp_all add: lane_frame_def)
  have acked: "set (lm_acked lm') = set (lm_acked lm) \<union> set (ack_refs effs)" "distinct (ack_refs effs)"
      "set (lm_acked lm) \<inter> set (ack_refs effs) = {}"
    using a assms(2) by simp_all
  have "distinct (foreign name (ack_refs effs))"
    using acked(2) by (simp add: foreign_def)
  moreover have "set (foreign name (ack_refs out)) \<inter> set (foreign name (ack_refs effs)) = {}"
    using acked(3) assms(9) by auto
  ultimately show "lane_inv name g (out @ effs) lm' b'"
    using names assms(3,8,9) run acked(1) lane_steps_wf [OF assms(1)] assms(4) by (auto simp: lane_inv_def)
qed

lemma handler_event:
  assumes inv: "lane_inv name g out lm b" and core: "lane_core lm0 = lane_core lm" "lanes_wf lm0"
    and g: "gate_change d new (lm0, b0) effs (lm', b')" and gates: "\<And>x. direct_gate_ready b0 x \<Longrightarrow> x = d \<or> direct_gate_ready b x"
    and run: "cache_run g A D b0"
  shows "lane_inv name g (out @ effs) lm' b'" and "\<exists>A D. cache_run g A D b' \<and> (\<forall>r \<in> set (ack_refs effs). fully_direct A D g b' r)"
    and "tracked lm \<union> new \<subseteq> tracked lm'"
proof -
  have lm0: "lm_name lm0 = name" "lm_genesis lm0 = g" "lm_acked lm0 = lm_acked lm" "tracked lm0 = tracked lm"
      "lm_blocked_by lm0 = lm_blocked_by lm" "lm_waiters lm0 = lm_waiters lm"
    using inv core by (auto simp: lane_inv_def lane_core_def tracked_def)
  have "waits_ok {d} b lm"
    using inv unfolding lane_inv_def waits_ok_def by blast
  then have "waits_ok {d} b0 lm0"
    using waits_ok_cong [OF lm0(5,6), of b0 "{d}" b] gates by blast
  then have w: "waits_ok {} b' lm'"
    using gate_change_waits_ok [OF g] by simp
  obtain e where e: "lane_steps (lm0, b0) e (lm', b')" "ack_refs effs = ack_refs e" "new \<subseteq> tracked lm'"
    using gate_change_steps [OF g] by auto
  have ledger: "distinct (foreign name (ack_refs out))" "set (foreign name (lm_acked lm0)) = set (foreign name (ack_refs out))"
    using inv lm0 by (simp_all add: lane_inv_def)
  note s = lane_inv_steps [OF e(1,2) w core(2) lm0(1,2) run ledger]
  show "lane_inv name g (out @ effs) lm' b'"
    by (rule s(1))
  show "\<exists>A D. cache_run g A D b' \<and> (\<forall>r \<in> set (ack_refs effs). fully_direct A D g b' r)"
    using s(2,3) by blast
  show "tracked lm \<union> new \<subseteq> tracked lm'"
    using e(3) lane_steps_acks [OF e(1), of A D, simplified] lm0(4) by blast
qed

text \<open>The reference that an event puts under tracking: a valid direct block with its payload, or the payload's arrival.\<close>

fun admitted :: "(bytes \<Rightarrow> digest) \<Rightarrow> lane_event \<Rightarrow> lane_manager \<times> block_cache \<Rightarrow> block_ref set" where
  "admitted b3 (LPublish s h) (lm, b) =
     (if s = h_author h \<and> block_ok b3 (lm_committee lm) (lm_sid lm) (lm_max_block_payload lm) h \<and> missing_payload lm h = []
      then {(h_author h, h_height h, h_id h)} else {})"
| "admitted b3 (LPayloadReady d) (lm, b) =
     (case bc_get b d of Some e \<Rightarrow> if be_direct e then {(h_author (be_block e), h_height (be_block e), d)} else {} | None \<Rightarrow> {})"
| "admitted b3 _ s = {}"

definition event_result :: "public_key \<Rightarrow> digest \<Rightarrow> effect list \<Rightarrow> block_ref set \<Rightarrow> lane_manager \<Rightarrow> lane_manager \<Rightarrow> block_cache \<Rightarrow> effect list \<Rightarrow> bool" where
  "event_result name g out new lm lm' b' effs \<longleftrightarrow> lane_inv name g (out @ effs) lm' b'
     \<and> (\<exists>A D. cache_run g A D b' \<and> (\<forall>r \<in> set (ack_refs effs). fully_direct A D g b' r)) \<and> tracked lm \<union> new \<subseteq> tracked lm'"

lemma publish_event:
  assumes inv: "lane_inv name g out lm b" and st: "stable h b"
    and core: "lane_core lm0 = lane_core lm" "lanes_wf lm0"
    and p: "process_publish_inner b3 s h lm0 b = (lm', b', effs)" "ack_refs effs' = ack_refs effs"
  shows "event_result name g out (if s = h_author h \<and> block_ok b3 (lm_committee lm0) (lm_sid lm0) (lm_max_block_payload lm0) h
      \<and> missing_payload lm0 h = [] then {(h_author h, h_height h, h_id h)} else {}) lm lm' b' effs'"
  using process_publish_change [OF p(1)]
proof
  assume rejected: "\<not> block_ok b3 (lm_committee lm0) (lm_sid lm0) (lm_max_block_payload lm0) h \<and> (lm', b', effs) = (lm0, b, [])"
  have i0: "lane_inv name g out lm0 b"
    using lane_inv_quiet [OF inv core] inv by (auto simp: lane_inv_def)
  then have "lane_inv name g (out @ effs') lm0 b"
    using rejected p(2) by (simp add: lane_inv_def)
  then show ?thesis
    using rejected p(2) i0 core by (auto simp: event_result_def lane_inv_def lane_core_def tracked_def)
next
  let ?new = "if s = h_author h \<and> missing_payload lm0 h = [] then {(h_author h, h_height h, h_id h)} else {}"
  let ?b0 = "upsert h (s = h_author h) False (missing_payload lm0 h = []) True b"
  assume ok: "block_ok b3 (lm_committee lm0) (lm_sid lm0) (lm_max_block_payload lm0) h \<and> gate_change (h_id h) ?new (lm0, ?b0) effs (lm', b')"
  then have g: "gate_change (h_id h) ?new (lm0, ?b0) effs' (lm', b')"
    using p(2) by (simp add: gate_change_def)
  obtain A D where "cache_run g A D b"
    using inv by (auto simp: lane_inv_def)
  from handler_event [OF inv core g upsert_gate run_upsert [OF this st]] show ?thesis
    using ok by (auto simp: event_result_def)
qed

lemma quiet_event:
  assumes inv: "lane_inv name g out lm b" and "lane_core lm' = lane_core lm" "lanes_wf lm'"
    and "\<And>d. direct_gate_ready b' d \<Longrightarrow> direct_gate_ready b d" "\<exists>A D. cache_run g A D b'"
  shows "event_result name g out {} lm lm' b' []"
  using lane_inv_quiet [OF assms] assms(2,5) by (auto simp: event_result_def lane_core_def tracked_def)

lemma payload_event:
  assumes inv: "lane_inv name g out lm b" and p: "set_payload_ready d lm b = (lm', b', effs)"
  shows "event_result name g out (admitted b3 (LPayloadReady d) (lm, b)) lm lm' b' effs"
proof -
  let ?b0 = "fst (set_payload_ok d True b)"
  obtain A D where "cache_run g A D b"
    using inv by (auto simp: lane_inv_def)
  then have run: "cache_run g A D ?b0"
    by (rule run_payload)
  have wf: "lanes_wf lm"
    using inv by (simp add: lane_inv_def)
  note h = handler_event [OF inv refl wf payload_ready_change [OF p] _ run]
  have "admitted b3 (LPayloadReady d) (lm, b) \<subseteq> (case bc_get ?b0 d of
      Some e \<Rightarrow> if be_direct e \<and> be_payload_ok e then {(h_author (be_block e), h_height (be_block e), d)} else {} | None \<Rightarrow> {})"
    by (auto simp: set_payload_ok_def bc_get_modify split: option.splits if_splits)
  then show ?thesis
    unfolding event_result_def using h payload_gate [of d True b] by blast
qed

lemma own_publish_event:
  assumes inv: "lane_inv name g out lm b" and ok: "lane_event_ok b3 (LPublishOwn payload) (lm, b)"
    and p: "publish_own b3 fc payload lm b = (lm', b', h, effs)"
  shows "event_result name g out {} lm lm' b' effs"
proof -
  define hd where "hd = new_vantage b3 (lm_name lm) (fst (lm_own_frontier lm) + 1) payload (snd (lm_own_frontier lm)) (lm_sid lm)"
  define lm0 where "lm0 = persist_own_frontier fc hd (lm\<lparr>lm_own_frontier := (fst (lm_own_frontier lm) + 1, h_id hd)\<rparr>)"
  obtain l1 b1 e1 where i: "process_publish_inner b3 (lm_name lm0) hd lm0 b = (l1, b1, e1)"
    by (metis prod_cases3)
  have res: "lm' = l1" "b' = b1" "effs = e1 @ [BroadcastPublish hd]"
    using p i by (auto simp: publish_own_def Let_def hd_def lm0_def split: prod.splits)
  let ?l = "lm\<lparr>lm_own_frontier := (fst (lm_own_frontier lm) + 1, h_id hd)\<rparr>"
  have "lane_core ?l = lane_core lm" "lanes_wf ?l = lanes_wf lm"
    by (simp_all add: lane_core_def lanes_wf_defs)
  then have "lane_core lm0 = lane_core lm" "lanes_wf lm0"
    using inv by (simp_all add: lm0_def persist_core lane_inv_def)
  from publish_event [OF inv _ this i, of effs] show ?thesis
    using ok res by (auto simp: hd_def event_result_def)
qed

lemma recover_event:
  assumes inv: "lane_inv name g out lm b" and ok: "stable h b" "h_id h \<noteq> lm_genesis lm"
    and p: "recover_own_frontier b3 fc h lm b = (lm', b', r)"
  shows "lane_inv name g out lm' b'"
proof -
  have wf: "lanes_wf lm" "waits_ok {} b lm" and names: "lm_name lm = name" "lm_genesis lm = g"
    using inv by (simp_all add: lane_inv_def)
  obtain A D where run: "cache_run g A D b"
    using inv by (auto simp: lane_inv_def)
  from recover_result [OF p wf] show ?thesis
  proof
    assume res: "b' = seed_recovered_own_anchor h b \<and> 0 < h_height h \<and> lm_name lm' = lm_name lm \<and> lm_genesis lm' = lm_genesis lm
      \<and> lanes_wf lm' \<and> waits_ok {} b' lm'
      \<and> {r \<in> set (lm_acked lm'). ref_author r \<noteq> lm_name lm} = {r \<in> set (lm_acked lm). ref_author r \<noteq> lm_name lm}"
    then have "\<exists>A D. cache_run g A D b'"
      using run_recover [OF run ok(1)] ok(2) names(2) by auto
    then show ?thesis
      using res inv names unfolding lane_inv_def foreign_simps by auto
  qed (use inv in simp)
qed

lemma lane_inv_next:
  assumes inv: "lane_inv name g out lm b" and ok: "lane_event_ok b3 ev (lm, b)"
    and p: "lane_apply b3 fc ev (lm, b) = ((lm', b'), effs)"
  shows "if \<exists>h. ev = LRecover h then lane_inv name g (out @ effs) lm' b' \<and> effs = []
    else event_result name g out (admitted b3 ev (lm, b)) lm lm' b' effs"
proof -
  have base: "lanes_wf lm" "\<exists>A D. cache_run g A D b" "lm_genesis lm = g"
    using inv by (simp_all add: lane_inv_def)
  show ?thesis
  proof (cases ev)
    case (LPublish s h)
    then show ?thesis
      using publish_event [OF inv _ refl base(1), of h b3 s lm' b' effs effs] ok p
      by (auto simp: process_publish_def split: prod.splits)
  next
    case (LPublishOwn payload)
    then show ?thesis
      using own_publish_event [OF inv ok [unfolded LPublishOwn]] p by (auto split: prod.splits)
  next
    case (LPayloadReady d)
    then show ?thesis
      using payload_event [OF inv] p by (auto split: prod.splits)
  next
    case (LAvailability av promote)
    then show ?thesis
      using quiet_event [OF inv process_availability_core(1) process_availability_core(2) [OF base(1)] _ base(2)] p by auto
  next
    case (LNoteClaim s claims)
    then show ?thesis
      using quiet_event [OF inv note_claim_core(1) note_claim_core(2) [OF base(1)] _ base(2)] p by auto
  next
    case (LWatermark s entries)
    have "lane_core lm' = lane_core lm" "lanes_wf lm'"
      using p base(1) by (auto simp: LWatermark lm_resolve_watermark_def lane_core_def lanes_wf_defs split: prod.splits)
    then show ?thesis
      using quiet_event [OF inv _ _ _ base(2)] p LWatermark by auto
  next
    case (LRetryAvail d)
    have "lane_core lm' = lane_core lm" "lanes_wf lm'"
      using p base(1) by (auto simp: LRetryAvail retry_pending_avail_def lane_core_def lanes_wf_defs split: prod.splits)
    then show ?thesis
      using quiet_event [OF inv _ _ _ base(2)] p LRetryAvail by auto
  next
    case (LHoldsPrefix r)
    have "\<exists>A D. cache_run g A D (fst (locally_available lm r b))"
      using query_caches(3) [of lm _ _ b r] base(2,3) by blast
    with LHoldsPrefix show ?thesis
      using quiet_event [OF inv refl base(1), of b'] same_core_gate [OF query_caches(1) [of b lm r]] p by auto
  next
    case (LAuthorOk r)
    have "\<exists>A D. cache_run g A D (fst (author_ok lm r b))"
      using query_caches(4) [of lm _ _ b r] base(2,3) by blast
    with LAuthorOk show ?thesis
      using quiet_event [OF inv refl base(1), of b'] same_core_gate [OF query_caches(2) [of b lm r]] p by auto
  next
    case LFlush
    have "lane_core lm' = lane_core lm" "lanes_wf lm'"
      using p base(1) by (auto simp: LFlush take_avail_flush_def lane_core_def lanes_wf_defs)
    then show ?thesis
      using quiet_event [OF inv _ _ _ base(2)] p LFlush by auto
  next
    case (LRecover h)
    then show ?thesis
      using recover_event [OF inv] ok p by (auto split: prod.splits)
  next
    case (LCache b'')
    then show ?thesis
      using quiet_event [OF inv refl base(1), of b'] ok base p by auto
  qed
qed

lemma lanes_new_wf: "committee_ok c \<Longrightarrow> lanes_wf (lanes_new b3 sc name c mp store)"
  using committee_index_new_ok [of c] by (simp add: lanes_wf_defs lanes_new_def Let_def table_oks waiters_wf_def)

lemma seed_anchor_result:
  assumes "seed_own_anchor_from_store b3 fc l b = (lm, b')"
  shows "(lm, b') = (l, b) \<or> (\<exists>h. lm = l\<lparr>lm_seeded_anchor := Some h,
      lm_pending_direct := os_ins (h_author h, h_height h, h_id h) (lm_pending_direct l)\<rparr>
    \<and> b' = seed_own_anchor h b \<and> 0 < h_height h)"
proof (cases "Option.bind (kv_data (lm_store l) own_frontier_header_key) (de_frontier_header fc)")
  case None
  then show ?thesis
    using assms by (auto simp: seed_own_anchor_from_store_def bind_eq_None_conv split: option.splits)
next
  case (Some rec)
  let ?h = "ph_header rec"
  show ?thesis
  proof (cases "ph_sid rec = lm_sid l \<and> h_author ?h = lm_name l \<and> (h_height ?h, h_id ?h) = lm_own_frontier l
      \<and> block_ok b3 (lm_committee l) (lm_sid l) (lm_max_block_payload l) ?h")
    case True
    then have "0 < h_height ?h"
      by (simp add: block_ok_def)
    then show ?thesis
      using Some True assms by (auto simp: seed_own_anchor_from_store_def bind_eq_Some_conv Let_def intro!: exI [of _ ?h])
  next
    case False
    then show ?thesis
      using Some assms by (auto simp: seed_own_anchor_from_store_def bind_eq_Some_conv Let_def split: if_splits)
  qed
qed

lemma restore_result:
  assumes "restore_own_frontier b3 fc l b = (lm, b')"
  shows "\<exists>f. (lm, b') = (l\<lparr>lm_own_frontier := f\<rparr>, b) \<or> (\<exists>h. lm = l\<lparr>lm_own_frontier := f, lm_seeded_anchor := Some h,
      lm_pending_direct := os_ins (h_author h, h_height h, h_id h) (lm_pending_direct l)\<rparr>
    \<and> b' = seed_own_anchor h b \<and> 0 < h_height h)"
proof -
  have "(lm, b') = (l, b) \<or> (\<exists>f. seed_own_anchor_from_store b3 fc (l\<lparr>lm_own_frontier := f\<rparr>) b = (lm, b'))"
    using assms unfolding restore_own_frontier_def by (auto split: option.splits if_splits)
  then show ?thesis
  proof
    assume "(lm, b') = (l, b)"
    then have "(lm, b') = (l\<lparr>lm_own_frontier := lm_own_frontier l\<rparr>, b)"
      by simp
    then show ?thesis
      by blast
  next
    assume "\<exists>f. seed_own_anchor_from_store b3 fc (l\<lparr>lm_own_frontier := f\<rparr>) b = (lm, b')"
    then obtain f where "seed_own_anchor_from_store b3 fc (l\<lparr>lm_own_frontier := f\<rparr>) b = (lm, b')" ..
    from seed_anchor_result [OF this] show ?thesis
      by (intro exI [of _ f]) simp
  qed
qed

lemma lane_boot_inv:
  assumes "committee_ok c" and boot: "restore_own_frontier b3 fc (lanes_new b3 sc name c mp store) bc_new = (lm, b)"
    and anchor: "\<And>h. lm_seeded_anchor lm = Some h \<Longrightarrow> h_id h \<noteq> lm_genesis lm"
  shows "lane_inv name (lm_genesis lm) [] lm b"
proof -
  let ?l = "lanes_new b3 sc name c mp store"
  have new: "lm_acked ?l = []" "lm_blocked_by ?l = []" "lm_waiters ?l = []" "lm_pending_direct ?l = []" "lm_name ?l = name"
      "lm_seeded_anchor ?l = None"
    by (simp_all add: lanes_new_def Let_def)
  have parked: "waits_ok {} b l" if "lm_blocked_by l = []" "lm_waiters l = []" for l
    using that by (intro waits_okI) (simp_all add: waits_for_def)
  obtain f where "(lm, b) = (?l\<lparr>lm_own_frontier := f\<rparr>, bc_new) \<or>
    (\<exists>h. lm = ?l\<lparr>lm_own_frontier := f, lm_seeded_anchor := Some h, lm_pending_direct := [(h_author h, h_height h, h_id h)]\<rparr>
       \<and> b = seed_own_anchor h bc_new \<and> 0 < h_height h)"
    using restore_result [OF boot] unfolding new os_ins.simps by blast
  then show ?thesis
  proof
    assume "(lm, b) = (?l\<lparr>lm_own_frontier := f\<rparr>, bc_new)"
    then show ?thesis
      using lanes_new_wf [OF assms(1), of b3 sc name mp store] new parked run_new
      by (auto simp: lane_inv_def lanes_wf_defs)
  next
    assume "\<exists>h. lm = ?l\<lparr>lm_own_frontier := f, lm_seeded_anchor := Some h, lm_pending_direct := [(h_author h, h_height h, h_id h)]\<rparr>
       \<and> b = seed_own_anchor h bc_new \<and> 0 < h_height h"
    then obtain h where lm: "lm = ?l\<lparr>lm_own_frontier := f, lm_seeded_anchor := Some h, lm_pending_direct := [(h_author h, h_height h, h_id h)]\<rparr>"
        and b: "b = seed_own_anchor h bc_new" "0 < h_height h"
      by blast
    have "stable h bc_new"
      by (simp add: stable_def bc_get_def bc_new_def)
    then have "\<exists>A D. cache_run (lm_genesis lm) A D b"
      using run_seed [OF run_new] b anchor [of h] lm by auto
    moreover have "lanes_wf lm"
      using lanes_new_wf [OF assms(1), of b3 sc name mp store] by (simp add: lm lanes_wf_defs oset_ok_def)
    ultimately show ?thesis
      using new parked lm by (simp add: lane_inv_def)
  qed
qed

lemma lane_run_inv:
  assumes "lane_run b3 fc sc name c mp store lm b out" "committee_ok c"
  shows "lane_inv name (lm_genesis lm) out lm b"
  using assms(1)
proof (induction rule: lane_run.induct)
  case (lane_boot lm b)
  then show ?case
    using lane_boot_inv [OF assms(2)] by blast
next
  case (lane_next lm b out ev lm' b' effs)
  have "lane_inv name (lm_genesis lm) (out @ effs) lm' b'"
    using lane_inv_next [OF lane_next.IH lane_next(2,3)] by (auto simp: event_result_def split: if_splits)
  moreover from this have "lm_genesis lm' = lm_genesis lm"
    by (simp add: lane_inv_def)
  ultimately show ?case
    by simp
qed

section \<open>The own lane across restarts\<close>

definition published :: "effect list \<Rightarrow> header list" where
  "published effs = List.map_filter (\<lambda>e. case e of BroadcastPublish h \<Rightarrow> Some h | _ \<Rightarrow> None) effs"

lemma published_simps [simp]:
  "published [] = []" "published (e1 @ e2) = published e1 @ published e2" "published [BroadcastPublish h] = [h]"
  "published [BlockCached d] = []" "published [SyncBatches p d m] = []" "published [BroadcastAck a] = []"
  by (simp_all add: published_def map_filter_def)

text \<open>
  The life of a node: it first boots with no persisted frontier, handles events, other components
  write other keys of the store, and it restarts with the contents of the store. Recovery to a
  certified tip replaces the lane on purpose and is not part of a life.
\<close>

inductive lane_life ::
    "(bytes \<Rightarrow> digest) \<Rightarrow> frontier_codec \<Rightarrow> (committee \<Rightarrow> bytes) \<Rightarrow> public_key \<Rightarrow> committee \<Rightarrow> nat
     \<Rightarrow> lane_manager \<Rightarrow> block_cache \<Rightarrow> header list \<Rightarrow> bool"
  for b3 fc sc name c mp where
  life_birth: "kv_data store own_frontier_key = None \<Longrightarrow>
    restore_own_frontier b3 fc (lanes_new b3 sc name c mp store) bc_new = (lm, b) \<Longrightarrow> lane_life b3 fc sc name c mp lm b []"
| life_event: "lane_life b3 fc sc name c mp lm b hs \<Longrightarrow> (\<And>h. ev \<noteq> LRecover h) \<Longrightarrow>
    lane_apply b3 fc ev (lm, b) = ((lm', b'), effs) \<Longrightarrow> lane_life b3 fc sc name c mp lm' b' (hs @ published effs)"
| life_write: "lane_life b3 fc sc name c mp lm b hs \<Longrightarrow> key \<noteq> own_frontier_key \<Longrightarrow>
    lane_life b3 fc sc name c mp (lm\<lparr>lm_store := fst (kv_write key v (lm_store lm))\<rparr>) b hs"
| life_restart: "lane_life b3 fc sc name c mp lm b hs \<Longrightarrow>
    restore_own_frontier b3 fc (lanes_new b3 sc name c mp (lm_store lm)) bc_new = (lm', b') \<Longrightarrow>
    lane_life b3 fc sc name c mp lm' b' hs"

text \<open>What is relied on of the encoding: it succeeds and decoding returns what was encoded.\<close>

definition frontier_codec_ok :: "frontier_codec \<Rightarrow> bool" where
  "frontier_codec_ok fc \<longleftrightarrow> (\<forall>x. \<exists>v. ser_frontier fc x = Some v \<and> de_frontier fc v = Some x)"

definition own_state where
  "own_state lm = (lm_name lm, lm_sid lm, lm_genesis lm, lm_own_frontier lm, lm_store lm)"

lemma frame_own_state: "lane_frame lm' = lane_frame lm \<Longrightarrow> own_state lm' = own_state lm"
  by (simp add: lane_frame_def own_state_def)

lemma refresh_registers_own: "own_state (refresh_registers b slot lm) = own_state lm"
  by (simp add: own_state_def refresh_registers_def Let_def)

lemma process_availability_own: "own_state (process_availability b av promote lm) = own_state lm"
  using refresh_registers_own
  by (simp add: process_availability_def Let_def) (simp add: own_state_def)

lemma promote_exact_own: "own_state (fst (promote_exact rs ch lm)) = own_state lm"
  by (induction rs ch lm rule: promote_exact.induct) (auto simp: own_state_def)

lemma fold_registers_own: "own_state (fold (\<lambda>a lm. refresh_registers b (ci_slot (lm_index lm) a) lm) as lm) = own_state lm"
  by (induction "as" arbitrary: lm) (simp_all add: refresh_registers_own)

lemma note_claim_own: "own_state (fst (note_claim b s claims lm)) = own_state lm"
proof -
  obtain av credits where c: "av_note_claim b s claims (lm_avail lm) = (av, credits)"
    by (cases "av_note_claim b s claims (lm_avail lm)")
  obtain l1 ch where p: "promote_exact (cr_newly_exact_quorum credits) [] (lm\<lparr>lm_avail := av\<rparr>) = (l1, ch)"
    by (cases "promote_exact (cr_newly_exact_quorum credits) [] (lm\<lparr>lm_avail := av\<rparr>)")
  have "own_state l1 = own_state (lm\<lparr>lm_avail := av\<rparr>)"
    using promote_exact_own [of "cr_newly_exact_quorum credits" "[]" "lm\<lparr>lm_avail := av\<rparr>"] p by simp
  then show ?thesis
    by (simp add: note_claim_def c p fold_registers_own) (simp add: own_state_def)
qed

lemma refresh_refs_published: "published (fst (snd (snd (refresh_refs rs lm b)))) = []"
proof (induction rs arbitrary: lm b)
  case (Cons r rs)
  have "published (snd (snd (on_direct_pub_confirmed r l c))) = []" for l c
    by (simp add: on_direct_pub_confirmed_def Let_def)
  then show ?case
    using Cons.IH by (simp add: Let_def split: prod.split direct_pub_check.split) (metis append_Nil fst_conv published_simps(2) snd_conv)
qed simp

lemma refresh_author_published: "published (snd (snd (refresh_author a lm b))) = []"
  using refresh_refs_published by (simp add: refresh_author_def Let_def split: prod.split) (metis fst_conv snd_conv)

lemma refresh_authors_published: "published (snd (snd (refresh_authors as lm b))) = []"
proof (induction "as" arbitrary: lm b)
  case (Cons a "as")
  then show ?case
    using refresh_author_published [of a lm b] by (simp split: prod.split) (metis append_Nil published_simps(2) snd_conv)
qed simp

lemma process_publish_published: "published (snd (snd (process_publish_inner b3 s h lm b))) = []"
proof -
  have cached: "published (BlockCached d # e) = published e" "published (SyncBatches x d m # e) = published e" for d e x m
    using published_simps(2) [of "[BlockCached d]" e] published_simps(2) [of "[SyncBatches x d m]" e] by simp_all
  have woken: "published (snd (snd (refresh_woken_pending_direct d l c))) = []" for d l c
    using refresh_authors_published by (simp add: refresh_woken_pending_direct_def split: prod.split)
  show ?thesis
    using refresh_author_published woken
    by (auto simp: process_publish_inner_def Let_def cached split: prod.split if_split) (metis snd_conv)+
qed

lemma payload_ready_published: "published (snd (snd (set_payload_ready d lm b))) = []"
proof -
  have woken: "published (snd (snd (refresh_woken_pending_direct d l c))) = []" for d l c
    using refresh_authors_published by (simp add: refresh_woken_pending_direct_def split: prod.split)
  show ?thesis
    using refresh_author_published woken
    by (auto simp: set_payload_ready_def Let_def split: prod.split option.split if_split) (metis snd_conv published_simps(1))+
qed

lemma event_own_state:
  assumes p: "lane_apply b3 fc ev (lm, b) = ((lm', b'), effs)" and "\<And>h. ev \<noteq> LRecover h" "\<And>payload. ev \<noteq> LPublishOwn payload"
  shows "own_state lm' = own_state lm" "published effs = []"
proof -
  have pub: "own_state lm' = own_state lm" if "process_publish_inner b3 s h lm b = (lm', b', effs)" for s h
    using process_publish_change [OF that]
  proof
    assume "block_ok b3 (lm_committee lm) (lm_sid lm) (lm_max_block_payload lm) h \<and> gate_change (h_id h)
      (if s = h_author h \<and> missing_payload lm h = [] then {(h_author h, h_height h, h_id h)} else {})
      (lm, upsert h (s = h_author h) False (missing_payload lm h = []) True b) effs (lm', b')"
    then obtain e where "lane_steps (lm, upsert h (s = h_author h) False (missing_payload lm h = []) True b) e (lm', b')"
      using gate_change_steps by metis
    then show ?thesis
      using lane_steps_cache frame_own_state by fastforce
  qed simp
  have pay: "own_state lm' = own_state lm" if sp: "set_payload_ready d lm b = (lm', b', effs)" for d
  proof -
    obtain e where "lane_steps (lm, fst (set_payload_ok d True b)) e (lm', b')"
      using gate_change_steps [OF payload_ready_change [OF sp]] by metis
    then show ?thesis
      using lane_steps_cache frame_own_state by fastforce
  qed
  show "own_state lm' = own_state lm"
    using assms pub pay process_availability_own note_claim_own
    by (cases ev) (auto simp: process_publish_def lm_resolve_watermark_def retry_pending_avail_def take_avail_flush_def own_state_def
        split: prod.splits if_splits)
  show "published effs = []"
    using assms process_publish_published payload_ready_published
    by (cases ev) (auto simp: process_publish_def split: prod.splits dest: arg_cong [where f = "\<lambda>x. published (snd (snd x))"])
qed

definition own_tip :: "digest \<Rightarrow> header list \<Rightarrow> height \<times> digest" where
  "own_tip g hs = (if hs = [] then (0, g) else (h_height (last hs), h_id (last hs)))"

definition own_chain :: "public_key \<Rightarrow> digest \<Rightarrow> header list \<Rightarrow> bool" where
  "own_chain name g hs \<longleftrightarrow> (\<forall>i < length hs. h_author (hs ! i) = name \<and> h_height (hs ! i) = Suc i
     \<and> cert_header_digest (h_parent_cert (hs ! i)) = (if i = 0 then g else h_id (hs ! (i - 1))))"

lemma own_tip_length: "own_chain name g hs \<Longrightarrow> fst (own_tip g hs) = length hs"
  by (cases hs rule: rev_cases) (auto simp: own_chain_def own_tip_def nth_append)

lemma own_chain_snoc:
  assumes "own_chain name g hs" "h_author h = name" "h_height h = Suc (fst (own_tip g hs))"
    and "cert_header_digest (h_parent_cert h) = snd (own_tip g hs)"
  shows "own_chain name g (hs @ [h])"
proof -
  have "snd (own_tip g hs) = (if length hs = 0 then g else h_id (hs ! (length hs - 1)))"
    by (simp add: own_tip_def last_conv_nth)
  then show ?thesis
    using assms own_tip_length [OF assms(1)] by (auto simp: own_chain_def nth_append less_Suc_eq)
qed

definition stored_tip :: "frontier_codec \<Rightarrow> digest \<Rightarrow> digest \<Rightarrow> header list \<Rightarrow> kv_store \<Rightarrow> bool" where
  "stored_tip fc sid g hs store \<longleftrightarrow>
     (if hs = [] then kv_data store own_frontier_key = None
      else \<exists>v. kv_data store own_frontier_key = Some v
        \<and> de_frontier fc v = Some \<lparr>pf_sid = sid, pf_height = fst (own_tip g hs), pf_digest = snd (own_tip g hs)\<rparr>)"

definition life_inv :: "frontier_codec \<Rightarrow> public_key \<Rightarrow> digest \<Rightarrow> digest \<Rightarrow> lane_manager \<Rightarrow> header list \<Rightarrow> bool" where
  "life_inv fc name sid g lm hs \<longleftrightarrow> own_chain name g hs \<and> lm_name lm = name \<and> lm_sid lm = sid \<and> lm_genesis lm = g
     \<and> lm_own_frontier lm = own_tip g hs \<and> stored_tip fc sid g hs (lm_store lm)"

lemma frontier_keys_differ: "own_frontier_header_key \<noteq> own_frontier_key"
proof -
  have "length own_frontier_header_key \<noteq> length own_frontier_key"
    by (simp add: own_frontier_header_key_def own_frontier_key_def tag_bytes_def)
  then show ?thesis
    by auto
qed

lemma persist_stores_tip:
  assumes "frontier_codec_ok fc" "hs \<noteq> []" "lm_own_frontier lm = own_tip g hs"
  shows "stored_tip fc (lm_sid lm) g hs (lm_store (persist_own_frontier fc h lm))"
proof -
  let ?x = "\<lparr>pf_sid = lm_sid lm, pf_height = fst (own_tip g hs), pf_digest = snd (own_tip g hs)\<rparr>"
  obtain v where v: "ser_frontier fc ?x = Some v" "de_frontier fc v = Some ?x"
    using assms(1) unfolding frontier_codec_ok_def by blast
  have "kv_data (lm_store (persist_own_frontier fc h lm)) own_frontier_key = Some v"
    using v(1) assms(3) frontier_keys_differ
    by (simp add: persist_own_frontier_def Let_def kv_write_def split: option.split)
  then show ?thesis
    using v(2) assms(2) by (simp add: stored_tip_def)
qed

lemma restore_own_state:
  assumes "restore_own_frontier b3 fc lm b = (lm', b')" "lm_own_frontier lm = (0, g)" "stored_tip fc (lm_sid lm) g hs (lm_store lm)"
    and "own_chain name g hs"
  shows "own_state lm' = (lm_name lm, lm_sid lm, lm_genesis lm, own_tip g hs, lm_store lm)"
proof -
  have seed: "own_state (fst (seed_own_anchor_from_store b3 fc l b)) = own_state l" for l
    using seed_anchor_result [of b3 fc l b "fst (seed_own_anchor_from_store b3 fc l b)" "snd (seed_own_anchor_from_store b3 fc l b)"]
    by (auto simp: own_state_def)
  show ?thesis
  proof (cases "hs = []")
    case True
    then show ?thesis
      using assms by (simp add: stored_tip_def restore_own_frontier_def own_state_def own_tip_def)
  next
    case False
    then have "0 < fst (own_tip g hs)"
      using own_tip_length [OF assms(4)] by simp
    moreover obtain v where "kv_data (lm_store lm) own_frontier_key = Some v"
        "de_frontier fc v = Some \<lparr>pf_sid = lm_sid lm, pf_height = fst (own_tip g hs), pf_digest = snd (own_tip g hs)\<rparr>"
      using assms(3) False by (auto simp: stored_tip_def)
    ultimately have "lm' = fst (seed_own_anchor_from_store b3 fc (lm\<lparr>lm_own_frontier := own_tip g hs\<rparr>) b)"
      using assms(1,2) by (simp add: restore_own_frontier_def)
    then show ?thesis
      using seed by (simp add: own_state_def)
  qed
qed

lemma boot_own_state:
  assumes "restore_own_frontier b3 fc (lanes_new b3 sc name c mp store) bc_new = (lm', b')"
    and "stored_tip fc (session_id b3 sc c) (genesis_digest b3 (session_id b3 sc c)) hs store"
    and "own_chain name (genesis_digest b3 (session_id b3 sc c)) hs"
  shows "life_inv fc name (session_id b3 sc c) (genesis_digest b3 (session_id b3 sc c)) lm' hs"
  using restore_own_state [OF assms(1), of "genesis_digest b3 (session_id b3 sc c)" hs name] assms(2,3)
  by (simp add: lanes_new_def Let_def own_state_def life_inv_def)

lemma publish_life:
  assumes inv: "life_inv fc name sid g lm hs" and ok: "frontier_codec_ok fc"
    and p: "publish_own b3 fc payload lm b = (lm', b', h, effs)"
  shows "life_inv fc name sid g lm' (hs @ published effs)"
proof -
  define hd where "hd = new_vantage b3 (lm_name lm) (fst (lm_own_frontier lm) + 1) payload (snd (lm_own_frontier lm)) (lm_sid lm)"
  define lm0 where "lm0 = persist_own_frontier fc hd (lm\<lparr>lm_own_frontier := (fst (lm_own_frontier lm) + 1, h_id hd)\<rparr>)"
  obtain l1 b1 e1 where i: "process_publish_inner b3 (lm_name lm0) hd lm0 b = (l1, b1, e1)"
    by (metis prod_cases3)
  have res: "lm' = l1" "effs = e1 @ [BroadcastPublish hd]"
    using p i by (auto simp: publish_own_def Let_def hd_def lm0_def split: prod.splits)
  have "published e1 = []"
    using process_publish_published [of b3 "lm_name lm0" hd lm0 b] i by simp
  then have hs: "hs @ published effs = hs @ [hd]"
    by (simp add: res)
  have hdr: "h_author hd = name" "h_height hd = Suc (fst (own_tip g hs))" "cert_header_digest (h_parent_cert hd) = snd (own_tip g hs)"
    using inv by (simp_all add: hd_def new_vantage_def Let_def life_inv_def)
  have chain: "own_chain name g (hs @ [hd])"
    using own_chain_snoc [OF _ hdr] inv by (simp add: life_inv_def)
  have tip: "own_tip g (hs @ [hd]) = (fst (lm_own_frontier lm) + 1, h_id hd)"
    using hdr(2) inv by (simp add: own_tip_def life_inv_def)
  have "stored_tip fc sid g (hs @ [hd]) (lm_store lm0)"
    using persist_stores_tip [OF ok, of "hs @ [hd]" "lm\<lparr>lm_own_frontier := (fst (lm_own_frontier lm) + 1, h_id hd)\<rparr>" g hd] tip inv
    by (simp add: lm0_def life_inv_def)
  moreover have "lm_name lm0 = name" "lm_sid lm0 = sid" "lm_genesis lm0 = g" "lm_own_frontier lm0 = own_tip g (hs @ [hd])"
    using persist_core [of fc hd "lm\<lparr>lm_own_frontier := (fst (lm_own_frontier lm) + 1, h_id hd)\<rparr>"] inv tip
    by (simp_all add: lm0_def life_inv_def lane_core_def)
  moreover have "own_state l1 = own_state lm0"
    using event_own_state(1) [of b3 fc "LPublish (lm_name lm0) hd" lm0 b l1 b1 e1] i by (simp add: process_publish_def)
  ultimately show ?thesis
    using chain unfolding hs res(1) by (simp add: life_inv_def own_state_def)
qed

lemma lane_life_inv:
  assumes "lane_life b3 fc sc name c mp lm b hs" "frontier_codec_ok fc"
  shows "life_inv fc name (session_id b3 sc c) (genesis_digest b3 (session_id b3 sc c)) lm hs"
  using assms(1)
proof (induction rule: lane_life.induct)
  case (life_birth store lm b)
  then show ?case
    using boot_own_state [OF life_birth(2), of "[]"] by (simp add: stored_tip_def own_chain_def)
next
  case (life_event lm b hs ev lm' b' effs)
  show ?case
  proof (cases "\<exists>payload. ev = LPublishOwn payload")
    case True
    then show ?thesis
      using life_event publish_life [OF life_event.IH assms(2)] by (auto split: prod.splits)
  next
    case False
    then show ?thesis
      using event_own_state [OF life_event(3,2)] life_event.IH by (auto simp: life_inv_def own_state_def)
  qed
next
  case (life_write lm b hs key v)
  then show ?case
    by (auto simp: life_inv_def stored_tip_def kv_write_def)
next
  case (life_restart lm b hs lm' b')
  then show ?case
    using boot_own_state [OF life_restart(2), of hs] by (auto simp: life_inv_def)
qed

section \<open>Properties\<close>


text \<open>C13. No reference is lost. In any run the two indices of parked references are inverse, every parked
  reference waits for a gate that is indeed not ready, an event other than recovery keeps every
  tracked reference acknowledged, pending or parked, and a valid block received from its author with
  its payload, or whose payload arrives, becomes tracked.\<close>

theorem no_reference_lost:
  assumes "committee_ok c" and "lane_run b3 fc sc name c mp store lm b out"
  shows "(\<forall>r d. map_of (lm_blocked_by lm) r = Some d \<longleftrightarrow> waits_for (lm_waiters lm) r d)
    \<and> (\<forall>r d. map_of (lm_blocked_by lm) r = Some d \<longrightarrow> \<not> direct_gate_ready b d)
    \<and> (\<forall>ev lm' b' effs. lane_event_ok b3 ev (lm, b) \<longrightarrow> lane_apply b3 fc ev (lm, b) = ((lm', b'), effs) \<longrightarrow>
         (\<forall>h. ev \<noteq> LRecover h) \<longrightarrow> tracked lm \<union> admitted b3 ev (lm, b) \<subseteq> tracked lm')"
proof -
  have inv: "lane_inv name (lm_genesis lm) out lm b"
    by (rule lane_run_inv [OF assms(2,1)])
  then have w: "waits_ok {} b lm"
    by (simp add: lane_inv_def)
  have "tracked lm \<union> admitted b3 ev (lm, b) \<subseteq> tracked lm'"
    if "lane_event_ok b3 ev (lm, b)" "lane_apply b3 fc ev (lm, b) = ((lm', b'), effs)" "\<forall>h. ev \<noteq> LRecover h" for ev lm' b' effs
    using lane_inv_next [OF inv that(1,2)] that(3) by (simp add: event_result_def)
  then show ?thesis
    using w unfolding waits_ok_def by blast
qed



text \<open>A unary encoding of the persisted frontier.\<close>

fun demo_digest_size :: "digest \<Rightarrow> nat" where
  "demo_digest_size (Digest w) = unat w"

definition demo_codec :: frontier_codec where
  "demo_codec = \<lparr>
     ser_frontier = (\<lambda>x. Some (replicate (demo_digest_size (pf_sid x)) 0 @ 1 # replicate (pf_height x) 0
                          @ 1 # replicate (demo_digest_size (pf_digest x)) 0)),
     de_frontier = (\<lambda>v. let a = takeWhile ((=) 0) v; r = drop (length a + 1) v; h = takeWhile ((=) 0) r
                        in Some \<lparr>pf_sid = Digest (of_nat (length a)), pf_height = length h,
                                 pf_digest = Digest (of_nat (length r - length h - 1))\<rparr>),
     ser_frontier_header = (\<lambda>_. None), de_frontier_header = (\<lambda>_. None)\<rparr>"

lemma demo_codec_ok: "frontier_codec_ok demo_codec"
proof -
  have unary: "takeWhile ((=) (0 :: 8 word)) (replicate n 0 @ 1 # r) = replicate n 0" for n r
    by (induction n) simp_all
  have "Digest (of_nat (demo_digest_size d)) = d" for d
    by (cases d) simp
  then show ?thesis
    by (auto simp: frontier_codec_ok_def demo_codec_def Let_def unary)
qed

definition demo_lanes :: lane_manager where
  "demo_lanes = lanes_new demo_hash (\<lambda>_. []) (PublicKey 1) demo_committee 4 \<lparr>kv_data = Map.empty, kv_waiting = (\<lambda>_. [])\<rparr>"

lemma demo_boot: "restore_own_frontier demo_hash demo_codec demo_lanes bc_new = (demo_lanes, bc_new)"
  "lm_seeded_anchor demo_lanes = None"
  by (simp_all add: restore_own_frontier_def demo_lanes_def lanes_new_def Let_def)

lemma demo_lane_run:
  "lane_run demo_hash demo_codec (\<lambda>_. []) (PublicKey 1) demo_committee 4 \<lparr>kv_data = Map.empty, kv_waiting = (\<lambda>_. [])\<rparr>
     demo_lanes bc_new []"
  using lane_boot [OF demo_boot(1) [unfolded demo_lanes_def]] demo_boot(2) by (simp add: demo_lanes_def)

lemma demo_event_ok: "lane_event_ok demo_hash (LPublishOwn []) (demo_lanes, bc_new)"
  by (simp add: stable_def bc_get_def bc_new_def)


theorem no_reference_lost_witness:
  "\<exists>lm b effs. lane_apply demo_hash demo_codec (LPublishOwn []) (demo_lanes, bc_new) = ((lm, b), effs)
     \<and> tracked demo_lanes \<subseteq> tracked lm"
proof -
  obtain lm b effs where ap: "lane_apply demo_hash demo_codec (LPublishOwn []) (demo_lanes, bc_new) = ((lm, b), effs)"
    by (metis surj_pair)
  then show ?thesis
    using no_reference_lost [OF demo_committee_ok demo_lane_run] demo_event_ok by blast
qed



end
