(* ===== verification/Repair.thy ===== *)
theory Repair
  imports Lanes
begin

text \<open>
  The repairer of \<^verbatim>\<open>primary/src/vantage/repair.rs\<close>: authorised references are walked down the
  shared block cache to genesis, missing blocks are requested from peers in growing rounds, and
  retained blocks are served to the peers that asked for them. The shared cache is passed beside
  the state. Hash sets and hash maps are ordered, so an iteration over one is in key order; a tie
  between two peers of equal rank is kept in the order of the committee. Counters read only by
  metrics are left out; the inbound drop counter that steers the request limit is an argument.
\<close>

unbundle bit_operations_syntax

section \<open>State\<close>

abbreviation fanout_first :: nat where "fanout_first \<equiv> 4"
abbreviation fanout_escalate_budget :: nat where "fanout_escalate_budget \<equiv> 256"
abbreviation recovery_emit_start :: nat where "recovery_emit_start \<equiv> 2048"
abbreviation recovery_emit_min :: nat where "recovery_emit_min \<equiv> 256"
abbreviation recovery_emit_max :: nat where "recovery_emit_max \<equiv> 65536"
abbreviation core_queue_congested :: nat where "core_queue_congested \<equiv> 256"
abbreviation recovery_in_flight_max :: nat where "recovery_in_flight_max \<equiv> 512"
abbreviation ask_timeout_ticks :: nat where "ask_timeout_ticks \<equiv> 4"
abbreviation escalate_width_max :: nat where "escalate_width_max \<equiv> 8"
abbreviation refetch_cooldown_ticks :: nat where "refetch_cooldown_ticks \<equiv> 10"

record fanout_state =
  fo_author :: public_key
  fo_height :: height
  fo_start :: nat
  fo_asked :: nat
  fo_next_width :: nat
  fo_in_flight_asks :: nat
  fo_asked_at :: nat

record repair_position =
  rp_settled :: bool
  rp_pending_settle :: bool
  rp_blocked_at :: "digest option"

definition repair_position_default :: repair_position where
  "repair_position_default = \<lparr>rp_settled = False, rp_pending_settle = False, rp_blocked_at = None\<rparr>"

record repairer =
  re_committee :: committee
  re_index :: committee_index
  re_peers :: "public_key list"
  re_sid :: digest
  re_genesis :: digest
  re_max_block_payload :: nat
  re_positions :: "repair_position by_ref"
  re_pending_settle :: nat
  re_blocked_on :: "(digest, block_ref oset) omap"
  re_requested :: "(public_key \<times> digest) oset"
  re_requested_hashes :: "digest oset"
  re_fanout :: "(digest, fanout_state) omap"
  re_fanout_queue :: "(height \<times> digest) oset"
  re_holders :: "height by_pair"
  re_refetch_at :: "(digest, nat) omap"
  re_emit_budget :: nat
  re_emit_ceiling :: nat
  re_last_bulk_drops :: nat
  re_core_queue_len :: nat
  re_ticks :: nat
  re_in_flight :: nat
  re_pending_req :: "(digest, public_key oset) omap"
  re_answered :: "(public_key \<times> digest) oset"

definition repairer_new :: "public_key \<Rightarrow> committee \<Rightarrow> digest \<Rightarrow> digest \<Rightarrow> nat \<Rightarrow> repairer" where
  "repairer_new name c sid genesis max_block_payload =
     (let index = committee_index_new c
      in \<lparr>re_committee = c, re_index = index,
          re_peers = map fst (filter (\<lambda>e. fst e \<noteq> name) (authorities c)),
          re_sid = sid, re_genesis = genesis, re_max_block_payload = max_block_payload,
          re_positions = br_new index, re_pending_settle = 0, re_blocked_on = [], re_requested = [],
          re_requested_hashes = [], re_fanout = [], re_fanout_queue = [], re_holders = bp_new index,
          re_refetch_at = [], re_emit_budget = recovery_emit_start, re_emit_ceiling = recovery_emit_start,
          re_last_bulk_drops = 0, re_core_queue_len = 0, re_ticks = 0, re_in_flight = 0,
          re_pending_req = [], re_answered = []\<rparr>)"

section \<open>Positions\<close>

definition expect_sequence_digest :: "digest \<Rightarrow> repairer \<Rightarrow> repairer" where
  "expect_sequence_digest d re = re\<lparr>re_requested_hashes := os_ins d (re_requested_hashes re)\<rparr>"

definition note_authorized :: "slot \<Rightarrow> height \<Rightarrow> digest \<Rightarrow> repairer \<Rightarrow> repairer" where
  "note_authorized lane height d re =
     (case br_get (re_positions re) lane height d of
        Some pos \<Rightarrow>
          if \<not> rp_settled pos \<and> \<not> rp_pending_settle pos
          then re\<lparr>re_positions := fst (br_entry repair_position_default lane height d
                     (\<lambda>p. p\<lparr>rp_pending_settle := True\<rparr>) (re_positions re)),
                  re_pending_settle := re_pending_settle re + 1\<rparr>
          else re
      | None \<Rightarrow>
          re\<lparr>re_positions := fst (br_entry repair_position_default lane height d
                (\<lambda>p. p\<lparr>rp_pending_settle := True\<rparr>) (re_positions re)),
             re_pending_settle := re_pending_settle re + 1\<rparr>)"

definition mark_settled :: "slot \<Rightarrow> height \<Rightarrow> digest \<Rightarrow> repairer \<Rightarrow> repairer" where
  "mark_settled lane height d re =
     (let pending = (case br_get (re_positions re) lane height d of
                       None \<Rightarrow> False | Some pos \<Rightarrow> rp_pending_settle pos)
      in re\<lparr>re_positions := fst (br_entry repair_position_default lane height d
                (\<lambda>p. p\<lparr>rp_settled := True, rp_pending_settle := False\<rparr>) (re_positions re)),
            re_pending_settle := (if pending then re_pending_settle re - 1 else re_pending_settle re)\<rparr>)"

definition block_ref_on :: "slot \<Rightarrow> digest \<Rightarrow> block_ref \<Rightarrow> repairer \<Rightarrow> repairer" where
  "block_ref_on lane h r re =
     (let previous = (case br_get (re_positions re) lane (ref_height r) (ref_digest r) of
                        None \<Rightarrow> None | Some pos \<Rightarrow> rp_blocked_at pos);
          re = re\<lparr>re_positions := br_get_mut lane (ref_height r) (ref_digest r)
                    (\<lambda>p. p\<lparr>rp_blocked_at := Some h\<rparr>) (re_positions re)\<rparr>
      in if previous = Some h then re
         else let blocked = (case previous of None \<Rightarrow> re_blocked_on re
                             | Some prev \<Rightarrow> unpark_from r prev (re_blocked_on re))
              in re\<lparr>re_blocked_on := om_upd h [] (os_ins r) blocked\<rparr>)"

definition record_blocked :: "slot \<Rightarrow> block_ref list \<Rightarrow> digest \<Rightarrow> repairer \<Rightarrow> repairer" where
  "record_blocked lane refs h re = fold (block_ref_on lane h) refs re"

section \<open>Requests\<close>

definition first8 :: "bytes \<Rightarrow> 64 word" where
  "first8 bs = word_of_nat (horner_sum unat 256 (take 8 bs))"

definition holder_rank :: "public_key \<Rightarrow> digest \<Rightarrow> nat" where
  "holder_rank peer h = unat (first8 (key_bytes peer) XOR first8 (digest_bytes h))"

definition fanout_start :: "digest \<Rightarrow> nat \<Rightarrow> nat" where
  "fanout_start h n = unat (first8 (digest_bytes h)) mod n"

definition note_holder :: "public_key \<Rightarrow> public_key \<Rightarrow> height \<Rightarrow> repairer \<Rightarrow> repairer" where
  "note_holder peer author height re =
     (let peer = ci_slot (re_index re) peer; lane = ci_slot (re_index re) author
      in if height > (case bp_get (re_holders re) peer lane of None \<Rightarrow> 0 | Some held \<Rightarrow> held)
         then re\<lparr>re_holders := bp_insert peer lane height (re_holders re)\<rparr> else re)"

definition likely_holders :: "repairer \<Rightarrow> public_key \<Rightarrow> height \<Rightarrow> nat \<Rightarrow> digest \<Rightarrow> public_key list" where
  "likely_holders re author height want h =
     (let lane = ci_slot (re_index re) author;
          candidates = concat (map (\<lambda>(peer, held). case peer of None \<Rightarrow> [] | Some p \<Rightarrow> [(held, sl_key p)])
                         (filter (\<lambda>(peer, held). held \<ge> height) (bp_row (re_index re) lane (re_holders re))))
      in map snd (take want (sort_key (\<lambda>(held, p). (- int held, holder_rank p h)) candidates)))"

text \<open>The two loops that choose the peers of a round: known holders first, then the ring of peers.\<close>

definition round_targets :: "repairer \<Rightarrow> digest \<Rightarrow> fanout_state \<Rightarrow> nat \<Rightarrow> public_key list" where
  "round_targets re h entry width =
     (let n = length (re_peers re);
          likely = take width (filter (\<lambda>p. (p, h) \<notin> set (re_requested re))
                     (likely_holders re (fo_author entry) (fo_height entry) n h))
      in foldl (\<lambda>targets scanned.
           let peer = re_peers re ! ((fo_start entry + fo_asked entry + scanned) mod n)
           in if length targets < width \<and> (peer, h) \<notin> set (re_requested re) \<and> peer \<notin> set targets
              then targets @ [peer] else targets) likely [0..<n])"

text \<open>Recording and emitting the requests of a round.\<close>

definition request_peers :: "digest \<Rightarrow> public_key list \<Rightarrow> repairer \<Rightarrow> repairer \<times> effect list" where
  "request_peers h targets re =
     foldl (\<lambda>(re, es) peer.
       if (peer, h) \<in> set (re_requested re) then (re, es)
       else (re\<lparr>re_requested := os_ins (peer, h) (re_requested re),
                re_requested_hashes := os_ins h (re_requested_hashes re)\<rparr>, es @ [RequestTo peer h]))
     (re, []) targets"

definition note_round :: "nat \<Rightarrow> nat \<Rightarrow> nat \<Rightarrow> fanout_state \<Rightarrow> fanout_state" where
  "note_round n now_tick emitted entry =
     entry\<lparr>fo_asked := (if emitted = 0 then n else fo_asked entry + emitted),
           fo_in_flight_asks := fo_in_flight_asks entry + emitted,
           fo_asked_at := now_tick,
           fo_next_width := min (fo_next_width entry * 2) u64_max\<rparr>"

text \<open>One round of at most \<open>width\<close> requests under both emission limits.\<close>

definition emit_round :: "digest \<Rightarrow> fanout_state \<Rightarrow> nat \<Rightarrow> repairer \<Rightarrow> repairer \<times> effect list" where
  "emit_round h entry width re =
     (let room = recovery_in_flight_max - re_in_flight re;
          targets = take (min (re_emit_budget re) room) (round_targets re h entry width);
          emitted = length targets
      in if emitted = 0 \<and> (re_emit_budget re = 0 \<or> room = 0) then (re, [])
         else let (re', es) = request_peers h targets
                    (re\<lparr>re_emit_budget := re_emit_budget re - emitted, re_in_flight := re_in_flight re + emitted\<rparr>)
              in (re'\<lparr>re_fanout := om_put h (note_round (length (re_peers re)) (re_ticks re) emitted entry) (re_fanout re')\<rparr>, es))"

definition fan_out :: "digest \<Rightarrow> repairer \<Rightarrow> repairer \<times> effect list" where
  "fan_out h re =
     (let n = length (re_peers re)
      in if n = 0 then (re, [])
         else case map_of (re_fanout re) h of
           None \<Rightarrow> (re, [])
         | Some entry \<Rightarrow>
             let width_cap = (if re_core_queue_len re \<ge> core_queue_congested then min escalate_width_max n else n)
             in if fo_asked entry \<ge> n \<or> fo_asked entry \<ge> width_cap then (re, [])
                else emit_round h entry (min (fo_next_width entry) (width_cap - fo_asked entry)) re)"

definition begin_fanout :: "digest \<Rightarrow> public_key \<Rightarrow> height \<Rightarrow> repairer \<Rightarrow> repairer \<times> effect list" where
  "begin_fanout h author height re =
     (let n = length (re_peers re)
      in if n = 0 then (re, [])
         else fan_out h (re\<lparr>re_fanout :=
                om_upd h \<lparr>fo_author = author, fo_height = height, fo_start = fanout_start h n, fo_asked = 0,
                          fo_next_width = fanout_first, fo_in_flight_asks = 0, fo_asked_at = 0\<rparr>
                  (\<lambda>s. s) (re_fanout re)\<rparr>))"

definition adapt_recovery_ceiling :: "nat option \<Rightarrow> repairer \<Rightarrow> repairer" where
  "adapt_recovery_ceiling bulk_drops re =
     (let new_drops = (case bulk_drops of None \<Rightarrow> 0 | Some now \<Rightarrow> now - re_last_bulk_drops re)
      in re\<lparr>re_last_bulk_drops := (case bulk_drops of None \<Rightarrow> re_last_bulk_drops re | Some now \<Rightarrow> now),
            re_emit_ceiling := (if new_drops > 0 then max (re_emit_ceiling re div 2) recovery_emit_min
                                else min (re_emit_ceiling re * 2) recovery_emit_max)\<rparr>)"

definition observe_core_queue :: "nat \<Rightarrow> repairer \<Rightarrow> repairer" where
  "observe_core_queue len re = re\<lparr>re_core_queue_len := len\<rparr>"

definition drop_fanout :: "digest \<Rightarrow> repairer \<Rightarrow> repairer" where
  "drop_fanout h re =
     (case map_of (re_fanout re) h of
        None \<Rightarrow> re
      | Some state \<Rightarrow> re\<lparr>re_fanout := om_del h (re_fanout re),
                        re_in_flight := re_in_flight re - fo_in_flight_asks state\<rparr>)"

definition timed_out :: "nat \<Rightarrow> fanout_state \<Rightarrow> bool" where
  "timed_out now_tick state \<longleftrightarrow> fo_in_flight_asks state > 0 \<and> now_tick - fo_asked_at state \<ge> ask_timeout_ticks"

definition reclaim_asks :: "repairer \<Rightarrow> repairer" where
  "reclaim_asks re =
     (let reclaimed = sum_list (map (\<lambda>(_, s). if timed_out (re_ticks re) s then fo_in_flight_asks s else 0) (re_fanout re))
      in re\<lparr>re_fanout := map (\<lambda>(h, s). (h, if timed_out (re_ticks re) s then s\<lparr>fo_in_flight_asks := 0\<rparr> else s)) (re_fanout re),
            re_in_flight := re_in_flight re - reclaimed\<rparr>)"

definition retry_one :: "height \<times> digest \<Rightarrow> repairer \<Rightarrow> repairer \<times> effect list" where
  "retry_one key re =
     (let h = snd key; re = re\<lparr>re_fanout_queue := os_del key (re_fanout_queue re)\<rparr>
      in if \<not> om_has (re_fanout re) h then (re, [])
         else if \<not> om_has (re_blocked_on re) h then (drop_fanout h re, [])
         else let (re, es) = fan_out h re
              in (if (case map_of (re_fanout re) h of None \<Rightarrow> False | Some s \<Rightarrow> fo_asked s < length (re_peers re))
                  then re\<lparr>re_fanout_queue := os_ins key (re_fanout_queue re)\<rparr>
                  else drop_fanout h re, es))"

fun retry_batch :: "(height \<times> digest) list \<Rightarrow> repairer \<Rightarrow> repairer \<times> effect list" where
  "retry_batch [] re = (re, [])"
| "retry_batch (key # keys) re =
     (let (re, es) = retry_one key re; (re, es') = retry_batch keys re in (re, es @ es'))"

definition retry_requests :: "nat option \<Rightarrow> repairer \<Rightarrow> repairer \<times> effect list" where
  "retry_requests bulk_drops re =
     (let re = reclaim_asks (re\<lparr>re_ticks := re_ticks re + 1\<rparr>);
          re = adapt_recovery_ceiling bulk_drops re;
          re = re\<lparr>re_emit_budget := re_emit_ceiling re\<rparr>;
          budget = min fanout_escalate_budget (length (re_fanout_queue re))
      in retry_batch (take budget (re_fanout_queue re)) re)"

section \<open>Serving\<close>

definition serve_one :: "digest \<Rightarrow> public_key \<Rightarrow> repairer \<Rightarrow> repairer" where
  "serve_one h peer re =
     re\<lparr>re_answered := os_ins (peer, h) (re_answered re),
        re_pending_req :=
          (case map_of (re_pending_req re) h of
             None \<Rightarrow> re_pending_req re
           | Some peers \<Rightarrow> if os_del peer peers = [] then om_del h (re_pending_req re)
                           else om_put h (os_del peer peers) (re_pending_req re))\<rparr>"

definition serve_pending :: "digest \<Rightarrow> header \<Rightarrow> repairer \<Rightarrow> repairer \<times> effect list" where
  "serve_pending h block re =
     (let pending = (case map_of (re_pending_req re) h of
                       None \<Rightarrow> [] | Some peers \<Rightarrow> filter (\<lambda>peer. (peer, h) \<notin> set (re_answered re)) peers)
      in (fold (serve_one h) pending re, map (\<lambda>peer. ServeTo peer block) pending))"

definition retained_block :: "block_cache \<Rightarrow> digest \<Rightarrow> header option" where
  "retained_block b h =
     (case bc_get b h of None \<Rightarrow> None | Some entry \<Rightarrow> if be_retained entry then Some (be_block entry) else None)"

definition try_serve :: "block_cache \<Rightarrow> digest \<Rightarrow> repairer \<Rightarrow> repairer \<times> effect list" where
  "try_serve b h re = (case retained_block b h of None \<Rightarrow> (re, []) | Some block \<Rightarrow> serve_pending h block re)"

definition retain_and_serve :: "block_ref \<Rightarrow> repairer \<Rightarrow> block_cache \<Rightarrow> repairer \<times> block_cache \<times> effect list" where
  "retain_and_serve r re b =
     (let h = ref_digest r; b = fst (mark_retained h b); (re, es) = try_serve b h re in (re, b, es))"

definition on_request :: "block_cache \<Rightarrow> public_key \<Rightarrow> digest \<Rightarrow> repairer \<Rightarrow> repairer \<times> effect list" where
  "on_request b requester h re =
     try_serve b h (if (requester, h) \<notin> set (re_answered re)
                    then re\<lparr>re_pending_req := om_upd h [] (os_ins requester) (re_pending_req re)\<rparr> else re)"

definition unanswer :: "public_key \<Rightarrow> digest \<Rightarrow> repairer \<Rightarrow> repairer" where
  "unanswer peer d re = re\<lparr>re_answered := os_del (peer, d) (re_answered re)\<rparr>"

section \<open>Settlement\<close>

text \<open>The parent of a verified block held at exactly these coordinates.\<close>

definition usable_parent :: "block_cache \<Rightarrow> public_key \<Rightarrow> height \<Rightarrow> digest \<Rightarrow> digest option" where
  "usable_parent b author height h =
     (case bc_get b h of
        None \<Rightarrow> None
      | Some entry \<Rightarrow>
          if h_author (be_block entry) = author \<and> h_height (be_block entry) = height
             \<and> h_id (be_block entry) = h \<and> be_block_ok_verified entry
          then Some (parent_of entry) else None)"

definition verified_present :: "block_cache \<Rightarrow> digest \<Rightarrow> bool" where
  "verified_present b h = (case bc_get b h of None \<Rightarrow> False | Some entry \<Rightarrow> be_block_ok_verified entry)"

definition request_missing :: "block_cache \<Rightarrow> public_key \<Rightarrow> height \<Rightarrow> digest \<Rightarrow> repairer \<Rightarrow> repairer \<times> effect list" where
  "request_missing b author height h re =
     (if h \<notin> set (re_requested_hashes re) \<and> \<not> om_has (re_fanout re) h
      then begin_fanout h author height (re\<lparr>re_fanout_queue := os_ins (height, h) (re_fanout_queue re)\<rparr>)
      else if h \<in> set (re_requested_hashes re) \<and> \<not> om_has (re_fanout re) h
              \<and> \<not> verified_present b h
              \<and> (case map_of (re_refetch_at re) h of None \<Rightarrow> True | Some at \<Rightarrow> re_ticks re \<ge> at)
      then begin_fanout h author height
             (re\<lparr>re_refetch_at := om_put h (re_ticks re + refetch_cooldown_ticks) (re_refetch_at re),
                 re_requested := fold (\<lambda>peer. os_del (peer, h)) (re_peers re) (re_requested re),
                 re_requested_hashes := os_del h (re_requested_hashes re),
                 re_fanout_queue := os_ins (height, h) (re_fanout_queue re)\<rparr>)
      else (re, []))"

text \<open>
  The loop of \<^verbatim>\<open>settle\<close>, descending one height per step: the state, the frames in the order they
  were pushed, whether the walk was verified, and the requests it emitted.
\<close>

definition is_settled_at :: "repairer \<Rightarrow> slot \<Rightarrow> height \<Rightarrow> digest \<Rightarrow> bool" where
  "is_settled_at re lane height h =
     (case br_get (re_positions re) lane height h of None \<Rightarrow> False | Some pos \<Rightarrow> rp_settled pos)"

fun settle_walk ::
    "block_cache \<Rightarrow> slot \<Rightarrow> public_key \<Rightarrow> height \<Rightarrow> digest \<Rightarrow> block_ref list \<Rightarrow> repairer
       \<Rightarrow> repairer \<times> block_ref list \<times> bool \<times> effect list" where
  "settle_walk b lane author 0 h frames re = (re, frames, True, [])"
| "settle_walk b lane author (Suc k) h frames re =
     (if is_settled_at re lane (Suc k) h then (re, frames, True, [])
      else case usable_parent b author (Suc k) h of
        None \<Rightarrow>
          (let (re, es) = request_missing b author (Suc k) h re;
               frames = frames @ [(author, Suc k, h)]
           in (record_blocked lane frames h re, frames, False, es))
      | Some parent_h \<Rightarrow>
          if k = 0 then
            (if parent_h \<noteq> re_genesis re then (re, frames, False, [])
             else (re, frames @ [(author, Suc k, h)], True, []))
          else settle_walk b lane author k parent_h (frames @ [(author, Suc k, h)])
                 (note_authorized lane k parent_h re))"

text \<open>The frames are popped, so ancestors are retained before descendants.\<close>

fun settle_frames :: "slot \<Rightarrow> block_ref list \<Rightarrow> repairer \<Rightarrow> block_cache \<Rightarrow> repairer \<times> block_cache \<times> effect list" where
  "settle_frames lane [] re b = (re, b, [])"
| "settle_frames lane (frame # frames) re b =
     (let (re, b, es) = retain_and_serve frame re b;
          re = mark_settled lane (ref_height frame) (ref_digest frame) re;
          (re, b, es') = settle_frames lane frames re b
      in (re, b, es @ es'))"

definition settle :: "slot \<Rightarrow> block_ref \<Rightarrow> repairer \<Rightarrow> block_cache \<Rightarrow> repairer \<times> block_cache \<times> effect list" where
  "settle lane r re b =
     (let (re, frames, verified, es) = settle_walk b lane (ref_author r) (ref_height r) (ref_digest r) [] re
      in if verified then (let (re, b, es') = settle_frames lane (rev frames) re b in (re, b, es @ es'))
         else (re, b, es))"

definition authorize :: "block_ref \<Rightarrow> repairer \<Rightarrow> block_cache \<Rightarrow> repairer \<times> block_cache \<times> effect list" where
  "authorize r re b =
     (let lane = ci_slot (re_index re) (ref_author r)
      in settle lane r (note_authorized lane (ref_height r) (ref_digest r) re) b)"

fun wake_blocked :: "block_ref list \<Rightarrow> repairer \<Rightarrow> block_cache \<Rightarrow> repairer \<times> block_cache \<times> effect list" where
  "wake_blocked [] re b = (re, b, [])"
| "wake_blocked (r # waiting) re b =
     (let lane = ci_slot (re_index re) (ref_author r);
          pending = (case br_get (re_positions re) lane (ref_height r) (ref_digest r) of
                       None \<Rightarrow> False | Some pos \<Rightarrow> rp_pending_settle pos);
          re = re\<lparr>re_positions := br_get_mut lane (ref_height r) (ref_digest r)
                    (\<lambda>p. p\<lparr>rp_blocked_at := None\<rparr>) (re_positions re)\<rparr>;
          (re, b, es) = (if pending then settle lane r re b else (re, b, []));
          (re, b, es') = wake_blocked waiting re b
      in (re, b, es @ es'))"

definition on_block_available :: "digest \<Rightarrow> repairer \<Rightarrow> block_cache \<Rightarrow> repairer \<times> block_cache \<times> effect list" where
  "on_block_available d re b =
     (let re = drop_fanout d re;
          re = re\<lparr>re_refetch_at := om_del d (re_refetch_at re)\<rparr>
      in case map_of (re_blocked_on re) d of
           None \<Rightarrow> (re, b, [])
         | Some waiting \<Rightarrow> wake_blocked waiting (re\<lparr>re_blocked_on := om_del d (re_blocked_on re)\<rparr>) b)"

definition accept_served ::
    "(bytes \<Rightarrow> digest) \<Rightarrow> header \<Rightarrow> repairer \<Rightarrow> block_cache \<Rightarrow> repairer \<times> block_cache \<times> effect list" where
  "accept_served b3 block re b =
     (if \<not> block_ok b3 (re_committee re) (re_sid re) (re_max_block_payload re) block then (re, b, [])
      else let d = h_id block; b = upsert block False True False True b;
               (re, b, es) = on_block_available d re b
           in (re, b, BlockCached d # es))"

definition on_serve ::
    "(bytes \<Rightarrow> digest) \<Rightarrow> header \<Rightarrow> repairer \<Rightarrow> block_cache \<Rightarrow> repairer \<times> block_cache \<times> effect list" where
  "on_serve b3 block re b =
     (if h_id block \<notin> set (re_requested_hashes re) then (re, b, []) else accept_served b3 block re b)"

definition on_sequence_serve ::
    "(bytes \<Rightarrow> digest) \<Rightarrow> header \<Rightarrow> repairer \<Rightarrow> block_cache \<Rightarrow> repairer \<times> block_cache \<times> effect list" where
  "on_sequence_serve b3 block re b = accept_served b3 block re b"

section \<open>What each operation leaves alone\<close>

text \<open>The state outside the request machinery.\<close>

definition repair_core where
  "repair_core re = (re_committee re, re_index re, re_peers re, re_sid re, re_genesis re, re_max_block_payload re,
     (re_positions re, re_pending_settle re, re_blocked_on re, re_pending_req re, re_answered re))"

lemma request_peers_core: "repair_core (fst (request_peers h ts re)) = repair_core re
   \<and> re_fanout (fst (request_peers h ts re)) = re_fanout re
   \<and> re_in_flight (fst (request_peers h ts re)) = re_in_flight re
   \<and> re_emit_budget (fst (request_peers h ts re)) = re_emit_budget re
   \<and> re_emit_ceiling (fst (request_peers h ts re)) = re_emit_ceiling re"
proof -
  have "let out = foldl (\<lambda>(re, es) peer.
       if (peer, h) \<in> set (re_requested re) then (re, es)
       else (re\<lparr>re_requested := os_ins (peer, h) (re_requested re),
                re_requested_hashes := os_ins h (re_requested_hashes re)\<rparr>, es @ [RequestTo peer h])) (re, es) ts
     in repair_core (fst out) = repair_core re \<and> re_fanout (fst out) = re_fanout re
      \<and> re_in_flight (fst out) = re_in_flight re \<and> re_emit_budget (fst out) = re_emit_budget re
      \<and> re_emit_ceiling (fst out) = re_emit_ceiling re" for es
    by (induction ts arbitrary: re es) (simp_all add: Let_def repair_core_def)
  then show ?thesis by (simp add: request_peers_def Let_def)
qed

lemma emit_round_core: "repair_core (fst (emit_round h entry w re)) = repair_core re"
proof -
  have upd: "repair_core (re\<lparr>re_fanout := m\<rparr>) = repair_core re"
    "repair_core (re\<lparr>re_emit_budget := x, re_in_flight := y\<rparr>) = repair_core re" for re :: repairer and m x y
    by (simp_all add: repair_core_def)
  show ?thesis
    unfolding emit_round_def Let_def by (simp add: split_beta upd request_peers_core)
qed

lemma fan_out_core: "repair_core (fst (fan_out h re)) = repair_core re"
  by (simp add: fan_out_def Let_def emit_round_core split: option.split)

lemma begin_fanout_core: "repair_core (fst (begin_fanout h a k re)) = repair_core re"
  by (simp add: begin_fanout_def Let_def fan_out_core) (simp add: repair_core_def)

lemma request_missing_core: "repair_core (fst (request_missing b a k h re)) = repair_core re"
  by (simp add: request_missing_def begin_fanout_core) (simp add: repair_core_def)

lemma drop_fanout_core: "repair_core (drop_fanout h re) = repair_core re"
  by (simp add: drop_fanout_def repair_core_def split: option.split)

lemma retry_one_core: "repair_core (fst (retry_one key re)) = repair_core re"
proof -
  have upd: "repair_core (re\<lparr>re_fanout_queue := q\<rparr>) = repair_core re" for re :: repairer and q
    by (simp add: repair_core_def)
  show ?thesis
    by (simp add: retry_one_def Let_def split_beta upd fan_out_core drop_fanout_core)
qed

lemma retry_batch_core: "repair_core (fst (retry_batch keys re)) = repair_core re"
  by (induction keys arbitrary: re) (simp_all add: split_beta Let_def retry_one_core)

lemma retry_requests_core: "repair_core (fst (retry_requests drops re)) = repair_core re"
  by (simp add: retry_requests_def Let_def retry_batch_core)
    (simp add: repair_core_def adapt_recovery_ceiling_def reclaim_asks_def Let_def)

lemma note_holder_core: "repair_core (note_holder p a k re) = repair_core re"
  by (simp add: note_holder_def Let_def repair_core_def)

lemmas repair_cores = request_missing_core drop_fanout_core retry_requests_core note_holder_core

section \<open>Request limits\<close>

definition in_flight_asks :: "(digest, fanout_state) omap \<Rightarrow> nat" where
  "in_flight_asks m = sum_list (map (\<lambda>e. fo_in_flight_asks (snd e)) m)"

definition requests_ok :: "repairer \<Rightarrow> bool" where
  "requests_ok re \<longleftrightarrow> omap_ok (re_fanout re) \<and> re_in_flight re = in_flight_asks (re_fanout re)
     \<and> re_in_flight re \<le> recovery_in_flight_max
     \<and> recovery_emit_min \<le> re_emit_ceiling re \<and> re_emit_ceiling re \<le> recovery_emit_max
     \<and> re_emit_budget re \<le> re_emit_ceiling re"

lemma in_flight_asks_dom:
  "omap_ok m \<Longrightarrow> in_flight_asks m = (\<Sum>k \<in> dom (map_of m). fo_in_flight_asks (the (map_of m k)))"
  unfolding in_flight_asks_def by (rule sum_omap [where g = "\<lambda>_. fo_in_flight_asks"])

lemma in_flight_asks_put:
  assumes m: "omap_ok m"
  shows "in_flight_asks (om_put h s m) + (case map_of m h of None \<Rightarrow> 0 | Some e \<Rightarrow> fo_in_flight_asks e)
    = in_flight_asks m + fo_in_flight_asks s"
proof -
  let ?f = "\<lambda>k. fo_in_flight_asks (the (map_of m k))"
  have "in_flight_asks (om_put h s m) = (\<Sum>k \<in> insert h (dom (map_of m) - {h}). fo_in_flight_asks (the (((map_of m)(h \<mapsto> s)) k)))"
    by (simp add: in_flight_asks_dom [OF omap_ok_put [OF m]] omap_simps insert_Diff_single)
  also have "\<dots> = fo_in_flight_asks s + sum ?f (dom (map_of m) - {h})"
    by (subst sum.insert) (auto simp: finite_dom_map_of intro!: sum.cong)
  finally have put: "in_flight_asks (om_put h s m) = fo_in_flight_asks s + sum ?f (dom (map_of m) - {h})" .
  have "in_flight_asks m = (case map_of m h of None \<Rightarrow> 0 | Some e \<Rightarrow> fo_in_flight_asks e) + sum ?f (dom (map_of m) - {h})"
    unfolding in_flight_asks_dom [OF m]
    by (cases "map_of m h")
      (auto simp: sum.remove [of "dom (map_of m)" h] finite_dom_map_of domI domIff intro: sum.cong)
  then show ?thesis using put by simp
qed

lemma in_flight_asks_del:
  assumes m: "omap_ok m" and h: "map_of m h = Some e"
  shows "in_flight_asks (om_del h m) = in_flight_asks m - fo_in_flight_asks e"
proof -
  have "in_flight_asks (om_del h m) = (\<Sum>k \<in> dom (map_of m) - {h}. fo_in_flight_asks (the (map_of m k)))"
    unfolding in_flight_asks_dom [OF omap_ok_del [OF m]] by (auto simp: omap_simps intro!: sum.cong)
  moreover have "in_flight_asks m = fo_in_flight_asks e + (\<Sum>k \<in> dom (map_of m) - {h}. fo_in_flight_asks (the (map_of m k)))"
    using h by (simp add: in_flight_asks_dom [OF m] sum.remove [of "dom (map_of m)" h] finite_dom_map_of domI)
  ultimately show ?thesis by simp
qed

lemma requests_ok_eqI:
  assumes "requests_ok re" and "re_fanout re' = re_fanout re" and "re_in_flight re' = re_in_flight re"
    and "re_emit_ceiling re' = re_emit_ceiling re" and "re_emit_budget re' = re_emit_budget re"
  shows "requests_ok re'"
  using assms by (simp add: requests_ok_def)

lemma emit_round_requests:
  assumes ok: "requests_ok re" and h: "map_of (re_fanout re) h = Some entry"
  shows "requests_ok (fst (emit_round h entry w re))"
proof -
  define room where "room = recovery_in_flight_max - re_in_flight re"
  define ts where "ts = take (min (re_emit_budget re) room) (round_targets re h entry w)"
  define re1 where "re1 = re\<lparr>re_emit_budget := re_emit_budget re - length ts, re_in_flight := re_in_flight re + length ts\<rparr>"
  define re2 where "re2 = fst (request_peers h ts re1)"
  define s where "s = note_round (length (re_peers re)) (re_ticks re) (length ts) entry"
  have eq: "fst (emit_round h entry w re) = (if length ts = 0 \<and> (re_emit_budget re = 0 \<or> room = 0) then re
      else re2\<lparr>re_fanout := om_put h s (re_fanout re2)\<rparr>)"
    unfolding emit_round_def Let_def room_def [symmetric] ts_def [symmetric] re1_def [symmetric]
    by (auto simp: split_beta re2_def s_def)
  have len: "length ts \<le> re_emit_budget re" "length ts \<le> room" by (simp_all add: ts_def)
  have same: "re_fanout re2 = re_fanout re" "re_in_flight re2 = re_in_flight re + length ts"
    "re_emit_budget re2 = re_emit_budget re - length ts" "re_emit_ceiling re2 = re_emit_ceiling re"
    using request_peers_core [of h ts re1] by (simp_all add: re2_def re1_def)
  have "in_flight_asks (om_put h s (re_fanout re)) = re_in_flight re + length ts"
    using in_flight_asks_put [of "re_fanout re" h s] ok h by (simp add: requests_ok_def note_round_def s_def)
  moreover have "re_in_flight re + length ts \<le> recovery_in_flight_max"
    using len(2) ok unfolding room_def requests_ok_def by linarith
  ultimately have "requests_ok (re2\<lparr>re_fanout := om_put h s (re_fanout re2)\<rparr>)"
    using ok by (auto simp: requests_ok_def same order_intros)
  then show ?thesis using ok by (simp add: eq)
qed

lemma fan_out_requests: "requests_ok re \<Longrightarrow> requests_ok (fst (fan_out h re))"
  by (simp add: fan_out_def Let_def emit_round_requests split: option.split)

lemma begin_fanout_requests:
  assumes ok: "requests_ok re"
  shows "requests_ok (fst (begin_fanout h a k re))"
proof -
  define s where "s = \<lparr>fo_author = a, fo_height = k, fo_start = fanout_start h (length (re_peers re)), fo_asked = 0,
                          fo_next_width = fanout_first, fo_in_flight_asks = 0, fo_asked_at = 0\<rparr>"
  have "in_flight_asks (om_upd h s (\<lambda>s. s) (re_fanout re)) = in_flight_asks (re_fanout re)"
    using in_flight_asks_put [of "re_fanout re" h "case map_of (re_fanout re) h of None \<Rightarrow> s | Some v \<Rightarrow> v"] ok
    by (auto simp: om_upd_def requests_ok_def s_def split: option.splits)
  then have "requests_ok (re\<lparr>re_fanout := om_upd h s (\<lambda>s. s) (re_fanout re)\<rparr>)"
    using ok by (simp add: requests_ok_def order_intros)
  then show ?thesis
    using ok by (simp add: begin_fanout_def Let_def s_def [symmetric] fan_out_requests)
qed

lemma request_missing_requests:
  assumes "requests_ok re"
  shows "requests_ok (fst (request_missing b a k h re))"
proof -
  have upd: "requests_ok (re\<lparr>re_fanout_queue := q\<rparr>)"
    "requests_ok (re\<lparr>re_refetch_at := m, re_requested := s, re_requested_hashes := t, re_fanout_queue := q\<rparr>)"
    for q m s t
    using assms by (simp_all add: requests_ok_def)
  show ?thesis
    unfolding request_missing_def using assms by (simp add: begin_fanout_requests upd)
qed

lemma drop_fanout_requests: "requests_ok re \<Longrightarrow> requests_ok (drop_fanout h re)"
  by (auto simp: drop_fanout_def requests_ok_def order_intros in_flight_asks_del split: option.split)

lemma retry_one_requests:
  assumes "requests_ok re"
  shows "requests_ok (fst (retry_one key re))"
proof -
  have queue: "requests_ok (re\<lparr>re_fanout_queue := q\<rparr>) = requests_ok re" for re :: repairer and q
    by (simp add: requests_ok_def)
  show ?thesis
    using assms by (simp add: retry_one_def Let_def split_beta queue fan_out_requests drop_fanout_requests)
qed

lemma retry_batch_requests: "requests_ok re \<Longrightarrow> requests_ok (fst (retry_batch keys re))"
  by (induction keys arbitrary: re) (simp_all add: split_beta Let_def retry_one_requests)

lemma reclaim_asks_requests:
  assumes "requests_ok re"
  shows "requests_ok (reclaim_asks re)"
proof -
  define t where "t = re_ticks re"
  have sums: "in_flight_asks (map (\<lambda>(h, s). (h, if timed_out t s then s\<lparr>fo_in_flight_asks := 0\<rparr> else s)) m)
      + sum_list (map (\<lambda>(_, s). if timed_out t s then fo_in_flight_asks s else 0) m) = in_flight_asks m"
    for m :: "(digest, fanout_state) omap"
    by (induction m) (auto simp: in_flight_asks_def)
  have keys: "map fst (map (\<lambda>(h, s). (h, if timed_out t s then s\<lparr>fo_in_flight_asks := 0\<rparr> else s)) m) = map fst m"
    for m :: "(digest, fanout_state) omap"
    by (induction m) auto
  show ?thesis
    using assms sums [of "re_fanout re"]
    by (simp add: requests_ok_def reclaim_asks_def Let_def t_def [symmetric] omap_ok_def keys del: map_map) linarith
qed

lemma retry_requests_requests:
  assumes "requests_ok re"
  shows "requests_ok (fst (retry_requests drops re))"
proof -
  define re1 where "re1 = reclaim_asks (re\<lparr>re_ticks := re_ticks re + 1\<rparr>)"
  define re2 where "re2 = (adapt_recovery_ceiling drops re1)\<lparr>re_emit_budget := re_emit_ceiling (adapt_recovery_ceiling drops re1)\<rparr>"
  have "requests_ok re1"
    unfolding re1_def using assms by (intro reclaim_asks_requests) (simp add: requests_ok_def)
  then have "requests_ok re2"
    by (auto simp: re2_def requests_ok_def adapt_recovery_ceiling_def Let_def)
  then show ?thesis
    unfolding retry_requests_def Let_def re1_def [symmetric] re2_def [symmetric] by (rule retry_batch_requests)
qed

section \<open>Positions and the waiting index\<close>

text \<open>
  A reference is rooted when verified blocks link it to a block of height one whose parent
  satisfies \<open>P\<close>: genesis for a settled reference, anything else for one that can never settle.
\<close>

inductive roots :: "(header \<Rightarrow> bool) \<Rightarrow> (digest \<Rightarrow> bool) \<Rightarrow> public_key \<Rightarrow> height \<Rightarrow> digest \<Rightarrow> bool" for OK P where
  roots_first: "OK blk \<Longrightarrow> h_id blk = d \<Longrightarrow> h_author blk = a \<Longrightarrow> h_height blk = Suc 0 \<Longrightarrow>
    P (cert_header_digest (h_parent_cert blk)) \<Longrightarrow> roots OK P a (Suc 0) d"
| roots_next: "OK blk \<Longrightarrow> h_id blk = d \<Longrightarrow> h_author blk = a \<Longrightarrow> h_height blk = Suc (Suc k) \<Longrightarrow>
    roots OK P a (Suc k) (cert_header_digest (h_parent_cert blk)) \<Longrightarrow> roots OK P a (Suc (Suc k)) d"

definition rooted :: "(header \<Rightarrow> bool) \<Rightarrow> (digest \<Rightarrow> bool) \<Rightarrow> block_ref \<Rightarrow> bool" where
  "rooted OK P r = roots OK P (ref_author r) (ref_height r) (ref_digest r)"

abbreviation position_of :: "repairer \<Rightarrow> block_ref \<Rightarrow> repair_position option" where
  "position_of re r \<equiv> br_map (re_index re) (re_positions re) r"

definition pending_ref :: "repairer \<Rightarrow> block_ref \<Rightarrow> bool" where
  "pending_ref re r = (case position_of re r of None \<Rightarrow> False | Some p \<Rightarrow> rp_pending_settle p)"

definition settled_ref :: "repairer \<Rightarrow> block_ref \<Rightarrow> bool" where
  "settled_ref re r = (case position_of re r of None \<Rightarrow> False | Some p \<Rightarrow> rp_settled p)"

definition blocked_ref :: "repairer \<Rightarrow> block_ref \<Rightarrow> digest option" where
  "blocked_ref re r = (case position_of re r of None \<Rightarrow> None | Some p \<Rightarrow> rp_blocked_at p)"

definition waits_in :: "(digest, block_ref oset) omap \<Rightarrow> block_ref \<Rightarrow> digest \<Rightarrow> bool" where
  "waits_in bl r h = (case map_of bl h of None \<Rightarrow> False | Some ws \<Rightarrow> r \<in> set ws)"

text \<open>
  What holds of one reference. References of \<open>W\<close> are about to be woken and have already left the
  index; references of \<open>X\<close> are on the current walk.
\<close>

definition ref_inv :: "(header \<Rightarrow> bool) \<Rightarrow> block_ref set \<Rightarrow> block_ref set \<Rightarrow> repairer \<Rightarrow> block_ref \<Rightarrow> bool" where
  "ref_inv OK W X re r \<longleftrightarrow>
     (settled_ref re r \<longrightarrow> \<not> pending_ref re r \<and> rooted OK (\<lambda>p. p = re_genesis re) r)
     \<and> (\<forall>h. blocked_ref re r = Some h \<and> r \<notin> W \<longrightarrow> waits_in (re_blocked_on re) r h)
     \<and> (pending_ref re r \<and> r \<notin> X \<longrightarrow>
          ref_height r = 0 \<or> rooted OK (\<lambda>p. p \<noteq> re_genesis re) r \<or> blocked_ref re r \<noteq> None)"

definition repair_inv :: "(header \<Rightarrow> bool) \<Rightarrow> block_ref set \<Rightarrow> block_ref set \<Rightarrow> repairer \<Rightarrow> bool" where
  "repair_inv OK W X re \<longleftrightarrow> br_ok (re_index re) (re_positions re)
     \<and> finite {r. pending_ref re r} \<and> re_pending_settle re = card {r. pending_ref re r}
     \<and> (\<forall>r. ref_inv OK W X re r)"

lemma repair_invD: "repair_inv OK W X re \<Longrightarrow> ref_inv OK W X re r"
  unfolding repair_inv_def by blast

lemma repair_inv_br: "repair_inv OK W X re \<Longrightarrow> br_ok (re_index re) (re_positions re)"
  by (simp add: repair_inv_def)

text \<open>The invariant only reads the core of the state.\<close>

lemma repair_core_refs:
  assumes "repair_core re' = repair_core re"
  shows "position_of re' r = position_of re r" "pending_ref re' r = pending_ref re r"
    "settled_ref re' r = settled_ref re r" "blocked_ref re' r = blocked_ref re r"
    "re_blocked_on re' = re_blocked_on re" "re_genesis re' = re_genesis re" "re_index re' = re_index re"
    "re_positions re' = re_positions re" "re_pending_settle re' = re_pending_settle re"
  using assms by (simp_all add: repair_core_def pending_ref_def settled_ref_def blocked_ref_def)

lemma repair_inv_core:
  assumes "repair_core re' = repair_core re"
  shows "repair_inv OK W X re' = repair_inv OK W X re"
  by (simp add: repair_inv_def ref_inv_def repair_core_refs [OF assms])

lemma repair_inv_weaken: "repair_inv OK W X re \<Longrightarrow> W \<subseteq> W' \<Longrightarrow> X \<subseteq> X' \<Longrightarrow> repair_inv OK W' X' re"
  unfolding repair_inv_def ref_inv_def by (meson subsetD)

text \<open>A reference that is settled, has height zero or never roots needs no exemption.\<close>

lemma repair_inv_drop:
  assumes "repair_inv OK W (insert r X) re"
    and "\<not> pending_ref re r \<or> settled_ref re r \<or> ref_height r = 0 \<or> rooted OK (\<lambda>p. p \<noteq> re_genesis re) r \<or> blocked_ref re r \<noteq> None"
  shows "repair_inv OK W X re"
  unfolding repair_inv_def
proof (intro conjI allI)
  fix x
  show "ref_inv OK W X re x"
    using repair_invD [OF assms(1), of x] assms(2) unfolding ref_inv_def by (cases "x = r") auto
qed (use assms(1) in \<open>simp_all add: repair_inv_def\<close>)

section \<open>Authorising and settling one position\<close>

definition change_position :: "block_ref \<Rightarrow> repair_position option \<Rightarrow> repairer \<Rightarrow> repairer \<Rightarrow> bool" where
  "change_position r p re re' \<longleftrightarrow> re_index re' = re_index re \<and> re_genesis re' = re_genesis re
     \<and> br_ok (re_index re) (re_positions re') \<and> br_map (re_index re) (re_positions re') = (br_map (re_index re) (re_positions re))(r := p)"

lemma change_position_refs:
  assumes "change_position r p re re'"
  shows "pending_ref re' x = (if x = r then (case p of None \<Rightarrow> False | Some p \<Rightarrow> rp_pending_settle p) else pending_ref re x)"
    "settled_ref re' x = (if x = r then (case p of None \<Rightarrow> False | Some p \<Rightarrow> rp_settled p) else settled_ref re x)"
    "blocked_ref re' x = (if x = r then (case p of None \<Rightarrow> None | Some p \<Rightarrow> rp_blocked_at p) else blocked_ref re x)"
    "re_genesis re' = re_genesis re" "re_index re' = re_index re" "br_ok (re_index re') (re_positions re')"
  using assms by (simp_all add: change_position_def pending_ref_def settled_ref_def blocked_ref_def)

lemma note_authorized_same:
  assumes "br_ok (re_index re) (re_positions re)" and "pending_ref re (a, k, d) \<or> settled_ref re (a, k, d)"
  shows "note_authorized (ci_slot (re_index re) a) k d re = re"
  using assms by (auto simp: note_authorized_def pending_ref_def settled_ref_def br_map_def split: option.splits)

lemma note_authorized_change:
  assumes ok: "br_ok (re_index re) (re_positions re)"
    and new: "\<not> pending_ref re (a, k, d)" "\<not> settled_ref re (a, k, d)"
  defines "re' \<equiv> note_authorized (ci_slot (re_index re) a) k d re"
  defines "p \<equiv> (case position_of re (a, k, d) of None \<Rightarrow> repair_position_default | Some p \<Rightarrow> p)\<lparr>rp_pending_settle := True\<rparr>"
  shows "change_position (a, k, d) (Some p) re re'" "re_pending_settle re' = re_pending_settle re + 1"
    "re_blocked_on re' = re_blocked_on re"
    "re_pending_req re' = re_pending_req re" "re_answered re' = re_answered re"
proof -
  let ?t = "fst (br_entry repair_position_default (ci_slot (re_index re) a) k d (\<lambda>p. p\<lparr>rp_pending_settle := True\<rparr>) (re_positions re))"
  have eq: "re' = re\<lparr>re_positions := ?t, re_pending_settle := re_pending_settle re + 1\<rparr>"
    using new by (auto simp: re'_def note_authorized_def pending_ref_def settled_ref_def br_map_def split: option.splits)
  show "change_position (a, k, d) (Some p) re re'"
    unfolding change_position_def eq
    using br_entry_content(1) [OF ok, of repair_position_default a k d "\<lambda>p. p\<lparr>rp_pending_settle := True\<rparr>"]
      br_entry_ok [OF ok slot_of_ci_slot(1)]
    by (simp add: p_def)
qed (use new in \<open>auto simp: re'_def note_authorized_def pending_ref_def settled_ref_def br_map_def split: option.splits\<close>)

lemma mark_settled_change:
  fixes a k d
  assumes ok: "br_ok (re_index re) (re_positions re)"
  defines "re' \<equiv> mark_settled (ci_slot (re_index re) a) k d re"
  defines "p \<equiv> (case position_of re (a, k, d) of None \<Rightarrow> repair_position_default | Some p \<Rightarrow> p)
     \<lparr>rp_settled := True, rp_pending_settle := False\<rparr>"
  shows "change_position (a, k, d) (Some p) re re'"
    "re_pending_settle re' = (if pending_ref re (a, k, d) then re_pending_settle re - 1 else re_pending_settle re)"
    "re_blocked_on re' = re_blocked_on re"
    "re_pending_req re' = re_pending_req re" "re_answered re' = re_answered re"
  unfolding change_position_def re'_def mark_settled_def Let_def pending_ref_def
  using br_entry_content(1) [OF ok, of repair_position_default a k d "\<lambda>p. p\<lparr>rp_settled := True, rp_pending_settle := False\<rparr>"]
    br_entry_ok [OF ok slot_of_ci_slot(1)]
  by (simp_all add: p_def) (simp add: br_map_def)

lemma note_authorized_inv:
  fixes a k d
  assumes inv: "repair_inv OK W X re"
  defines "re' \<equiv> note_authorized (ci_slot (re_index re) a) k d re"
  shows "repair_inv OK W (insert (a, k, d) X) re'" "pending_ref re' (a, k, d) \<or> settled_ref re' (a, k, d)"
    "re_index re' = re_index re" "re_genesis re' = re_genesis re"
proof -
  have ok: "br_ok (re_index re) (re_positions re)" by (rule repair_inv_br [OF inv])
  have "repair_inv OK W (insert (a, k, d) X) re' \<and> (pending_ref re' (a, k, d) \<or> settled_ref re' (a, k, d))
    \<and> re_index re' = re_index re \<and> re_genesis re' = re_genesis re"
  proof (cases "pending_ref re (a, k, d) \<or> settled_ref re (a, k, d)")
    case True
    then show ?thesis
      using note_authorized_same [OF ok True] repair_inv_weaken [OF inv order_refl subset_insertI, of "(a, k, d)"]
      by (simp add: re'_def)
  next
    case False
    then have new: "\<not> pending_ref re (a, k, d)" "\<not> settled_ref re (a, k, d)" by auto
    note ch = note_authorized_change [OF ok new, folded re'_def]
    note refs = change_position_refs [OF ch(1)]
    have pend: "{r. pending_ref re' r} = insert (a, k, d) {r. pending_ref re r}"
      unfolding refs(1) by auto
    have "ref_inv OK W (insert (a, k, d) X) re' r" for r
      using repair_invD [OF inv, of r] new(2) unfolding ref_inv_def refs ch(3)
      by (auto simp: settled_ref_def blocked_ref_def repair_position_default_def split: option.splits)
    then show ?thesis
      using inv new(1) refs(6) unfolding repair_inv_def pend ch(2) by (simp add: refs(1,4,5))
  qed
  then show "repair_inv OK W (insert (a, k, d) X) re'" "pending_ref re' (a, k, d) \<or> settled_ref re' (a, k, d)"
    "re_index re' = re_index re" "re_genesis re' = re_genesis re"
    by auto
qed

lemma mark_settled_inv:
  fixes a k d
  assumes inv: "repair_inv OK W (insert (a, k, d) X) re" and root: "rooted OK (\<lambda>p. p = re_genesis re) (a, k, d)"
  defines "re' \<equiv> mark_settled (ci_slot (re_index re) a) k d re"
  shows "repair_inv OK W X re'" "settled_ref re' (a, k, d)"
    "re_index re' = re_index re" "re_genesis re' = re_genesis re"
    "settled_ref re r \<Longrightarrow> settled_ref re' r" "pending_ref re r \<Longrightarrow> pending_ref re' r \<or> settled_ref re' r"
proof -
  have ok: "br_ok (re_index re) (re_positions re)" by (rule repair_inv_br [OF inv])
  note ch = mark_settled_change [OF ok, of a k d, folded re'_def]
  note refs = change_position_refs [OF ch(1)]
  have pend: "{r. pending_ref re' r} = {r. pending_ref re r} - {(a, k, d)}"
    unfolding refs(1) by auto
  have "ref_inv OK W X re' r" for r
    using repair_invD [OF inv, of r] root unfolding ref_inv_def refs ch(3)
    by (auto simp: blocked_ref_def repair_position_default_def split: option.splits)
  then show "repair_inv OK W X re'"
    using inv refs(6) unfolding repair_inv_def pend ch(2) by (simp add: refs(4,5) card_Diff_singleton_if)
qed (use change_position_refs [OF mark_settled_change(1) [OF repair_inv_br [OF inv], of a k d, folded re'_def]]
     in \<open>auto split: if_splits\<close>)

lemma waits_in_upd: "waits_in (om_upd h [] (os_ins r) bl) x h' \<longleftrightarrow> (x = r \<and> h' = h) \<or> waits_in bl x h'"
  by (auto simp: waits_in_def omap_simps split: option.splits)

lemma waits_in_unpark: "waits_in (unpark_from r prev bl) x h' \<longleftrightarrow> waits_in bl x h' \<and> (x \<noteq> r \<or> h' \<noteq> prev)"
proof -
  have "os_del r ws = [] \<longleftrightarrow> set ws \<subseteq> {r}" for ws :: "block_ref list"
    using set_os_del [of r ws] by (metis Diff_eq_empty_iff empty_set set_empty)
  then show ?thesis
    by (auto simp: waits_in_def unpark_from_def omap_simps split: option.splits)
qed

lemma block_ref_on_change:
  fixes r h
  assumes ok: "br_ok (re_index re) (re_positions re)"
  defines "re' \<equiv> block_ref_on (ci_slot (re_index re) (ref_author r)) h r re"
  shows "change_position r (map_option (\<lambda>p. p\<lparr>rp_blocked_at := Some h\<rparr>) (position_of re r)) re re'"
    "re_pending_settle re' = re_pending_settle re" "re_pending_req re' = re_pending_req re"
    "re_answered re' = re_answered re"
    "x \<noteq> r \<Longrightarrow> waits_in (re_blocked_on re) x h' \<Longrightarrow> waits_in (re_blocked_on re') x h'"
    "blocked_ref re r = Some h \<Longrightarrow> waits_in (re_blocked_on re) r h \<Longrightarrow> waits_in (re_blocked_on re') r h"
    "blocked_ref re r \<noteq> Some h \<Longrightarrow> waits_in (re_blocked_on re') r h"
proof -
  obtain a k d where r: "r = (a, k, d)" by (cases r) auto
  have pos: "re_positions re' = br_get_mut (ci_slot (re_index re) a) k d (\<lambda>p. p\<lparr>rp_blocked_at := Some h\<rparr>) (re_positions re)"
    "re_index re' = re_index re" "re_genesis re' = re_genesis re"
    by (simp_all add: re'_def block_ref_on_def Let_def r)
  show "change_position r (map_option (\<lambda>p. p\<lparr>rp_blocked_at := Some h\<rparr>) (position_of re r)) re re'"
    unfolding change_position_def pos r by (simp add: br_get_mut_content [OF ok] br_get_mut_ok [OF ok])
  show "re_pending_settle re' = re_pending_settle re" "re_pending_req re' = re_pending_req re" "re_answered re' = re_answered re"
    by (simp_all add: re'_def block_ref_on_def Let_def)
  have bl: "re_blocked_on re' = (if blocked_ref re r = Some h then re_blocked_on re
     else om_upd h [] (os_ins r) (case blocked_ref re r of None \<Rightarrow> re_blocked_on re
                                  | Some prev \<Rightarrow> unpark_from r prev (re_blocked_on re)))"
    unfolding r by (auto simp: re'_def block_ref_on_def Let_def blocked_ref_def br_map_def r split: option.splits)
  show "x \<noteq> r \<Longrightarrow> waits_in (re_blocked_on re) x h' \<Longrightarrow> waits_in (re_blocked_on re') x h'"
    by (auto simp: bl waits_in_upd waits_in_unpark split: option.splits)
  show "blocked_ref re r = Some h \<Longrightarrow> waits_in (re_blocked_on re) r h \<Longrightarrow> waits_in (re_blocked_on re') r h"
    "blocked_ref re r \<noteq> Some h \<Longrightarrow> waits_in (re_blocked_on re') r h"
    by (simp_all add: bl waits_in_upd)
qed

lemma block_ref_on_inv:
  fixes r h
  assumes inv: "repair_inv OK W Y re"
  defines "re' \<equiv> block_ref_on (ci_slot (re_index re) (ref_author r)) h r re"
  shows "repair_inv OK W (Y - {r}) re'" "re_index re' = re_index re" "re_genesis re' = re_genesis re"
    "settled_ref re' x = settled_ref re x" "pending_ref re' x = pending_ref re x"
proof -
  have ok: "br_ok (re_index re) (re_positions re)" by (rule repair_inv_br [OF inv])
  note ch = block_ref_on_change [OF ok, where r = r and h = h, folded re'_def]
  note refs = change_position_refs [OF ch(1)]
  have pend: "pending_ref re' x = pending_ref re x" and sett: "settled_ref re' x = settled_ref re x"
    and blk: "blocked_ref re' x = (if x = r \<and> position_of re r \<noteq> None then Some h else blocked_ref re x)" for x
    unfolding refs by (auto simp: pending_ref_def settled_ref_def blocked_ref_def split: option.splits)
  have "ref_inv OK W (Y - {r}) re' x" for x
  proof (cases "x = r")
    case True
    show ?thesis
    proof (cases "position_of re r")
      case None
      then show ?thesis
        unfolding ref_inv_def sett blk pend True by (simp add: settled_ref_def blocked_ref_def pending_ref_def)
    next
      case (Some p)
      have "waits_in (re_blocked_on re') r h" if "r \<notin> W"
        using ch(6,7) repair_invD [OF inv, of r] that unfolding ref_inv_def by blast
      then show ?thesis
        using True Some repair_invD [OF inv, of r] by (auto simp: ref_inv_def sett blk pend refs(4))
    qed
  next
    case False
    then show ?thesis
      using repair_invD [OF inv, of x] ch(5) [OF False] by (auto simp: ref_inv_def sett blk pend refs(4))
  qed
  then show "repair_inv OK W (Y - {r}) re'"
    using inv refs(6) by (simp add: repair_inv_def pend ch(2) refs(5))
  show "re_index re' = re_index re" "re_genesis re' = re_genesis re"
    "settled_ref re' x = settled_ref re x" "pending_ref re' x = pending_ref re x"
    using refs pend sett by auto
qed

section \<open>Walks\<close>

text \<open>How a state may progress: nothing settled is lost, and pending references stay or settle.\<close>

definition repair_consts where
  "repair_consts re = (re_committee re, re_index re, re_peers re, re_sid re, re_genesis re, re_max_block_payload re)"

definition repair_le :: "repairer \<Rightarrow> repairer \<Rightarrow> bool" where
  "repair_le re re' \<longleftrightarrow> repair_consts re' = repair_consts re
     \<and> (\<forall>r. settled_ref re r \<longrightarrow> settled_ref re' r)
     \<and> (\<forall>r. pending_ref re r \<longrightarrow> pending_ref re' r \<or> settled_ref re' r)"

lemma repair_leI:
  assumes "repair_consts re' = repair_consts re" "\<And>r. settled_ref re r \<Longrightarrow> settled_ref re' r"
    "\<And>r. pending_ref re r \<Longrightarrow> pending_ref re' r \<or> settled_ref re' r"
  shows "repair_le re re'"
  using assms unfolding repair_le_def by blast

lemma repair_leD:
  assumes "repair_le re re'"
  shows "settled_ref re r \<Longrightarrow> settled_ref re' r" "pending_ref re r \<Longrightarrow> pending_ref re' r \<or> settled_ref re' r"
    "re_index re' = re_index re" "re_genesis re' = re_genesis re" "repair_consts re' = repair_consts re"
  using assms unfolding repair_le_def repair_consts_def by (blast, blast, simp_all)

lemma repair_le_refl [simp]: "repair_le re re"
  by (simp add: repair_le_def)

lemma repair_le_trans: "repair_le re1 re2 \<Longrightarrow> repair_le re2 re3 \<Longrightarrow> repair_le re1 re3"
  unfolding repair_le_def by metis

lemma repair_le_core:
  assumes "repair_core re' = repair_core re"
  shows "repair_le re re'"
proof (rule repair_leI)
  show "repair_consts re' = repair_consts re"
    using assms by (simp add: repair_core_def repair_consts_def)
qed (simp_all add: repair_core_refs [OF assms])

lemma note_authorized_le:
  assumes "repair_inv OK W X re"
  shows "repair_le re (note_authorized (ci_slot (re_index re) a) k d re)"
proof (cases "pending_ref re (a, k, d) \<or> settled_ref re (a, k, d)")
  case True
  then show ?thesis using note_authorized_same [OF repair_inv_br [OF assms] True] by simp
next
  case False
  then have new: "\<not> pending_ref re (a, k, d)" "\<not> settled_ref re (a, k, d)" by auto
  note refs = change_position_refs [OF note_authorized_change(1) [OF repair_inv_br [OF assms] new]]
  show ?thesis
    by (rule repair_leI)
      (use refs(1,2) new in \<open>auto simp: note_authorized_def repair_consts_def split: option.split\<close>)
qed

lemma record_blocked_inv:
  assumes "repair_inv OK W Y re" and "\<forall>r \<in> set refs. ref_author r = a"
  shows "repair_inv OK W (Y - set refs) (record_blocked (ci_slot (re_index re) a) refs h re)
    \<and> repair_le re (record_blocked (ci_slot (re_index re) a) refs h re)"
  using assms
proof (induction refs arbitrary: re Y)
  case Nil
  then show ?case by (simp add: record_blocked_def)
next
  case (Cons r refs)
  define re1 where "re1 = block_ref_on (ci_slot (re_index re) a) h r re"
  have a: "ref_author r = a" using Cons.prems by simp
  note one = block_ref_on_inv [OF Cons.prems(1), where r = r and h = h, unfolded a, folded re1_def]
  have "repair_le re re1"
    by (rule repair_leI) (use one(4,5) in \<open>auto simp: re1_def block_ref_on_def Let_def repair_consts_def\<close>)
  moreover have "repair_inv OK W (Y - {r} - set refs) (record_blocked (ci_slot (re_index re1) a) refs h re1)
      \<and> repair_le re1 (record_blocked (ci_slot (re_index re1) a) refs h re1)"
    by (rule Cons.IH [OF one(1)]) (use Cons.prems in simp)
  moreover have "record_blocked (ci_slot (re_index re) a) (r # refs) h re = record_blocked (ci_slot (re_index re1) a) refs h re1"
    by (simp add: record_blocked_def re1_def one(2) [unfolded re1_def])
  moreover have "Y - {r} - set refs = Y - set (r # refs)" by auto
  ultimately show ?case by (metis repair_le_trans)
qed

definition cache_sound :: "(header \<Rightarrow> bool) \<Rightarrow> block_cache \<Rightarrow> bool" where
  "cache_sound OK b \<longleftrightarrow> (\<forall>d e. bc_get b d = Some e \<longrightarrow>
     h_id (be_block e) = d \<and> (be_block_ok_verified e \<longrightarrow> OK (be_block e)))"

lemma usable_parent_block:
  assumes "cache_sound OK b" and "usable_parent b a k h = Some p"
  obtains blk where "OK blk" "h_id blk = h" "h_author blk = a" "h_height blk = k"
    "p = cert_header_digest (h_parent_cert blk)"
  using assms by (auto simp: usable_parent_def cache_sound_def parent_of_def split: option.splits if_splits)

lemma usable_parent_roots:
  assumes "cache_sound OK b" and "usable_parent b a (Suc k) h = Some p"
  shows "k = 0 \<Longrightarrow> P p \<Longrightarrow> roots OK P a (Suc k) h"
    and "k = Suc j \<Longrightarrow> roots OK P a k p \<Longrightarrow> roots OK P a (Suc k) h"
proof -
  obtain blk where blk: "OK blk" "h_id blk = h" "h_author blk = a" "h_height blk = Suc k"
    "p = cert_header_digest (h_parent_cert blk)"
    by (rule usable_parent_block [OF assms])
  show "k = 0 \<Longrightarrow> P p \<Longrightarrow> roots OK P a (Suc k) h"
    using blk by (auto intro: roots_first)
  show "k = Suc j \<Longrightarrow> roots OK P a k p \<Longrightarrow> roots OK P a (Suc k) h"
    using blk by (auto intro: roots_next)
qed

lemma settle_walk_inv:
  assumes "repair_inv OK W (insert (a, k, h) (X \<union> set frames)) re" and "cache_sound OK b"
    and "\<And>P. roots OK P a k h \<Longrightarrow> \<forall>f \<in> set frames. rooted OK P f"
    and "\<forall>f \<in> set frames. ref_author f = a" and "k = 0 \<Longrightarrow> frames = []"
    and "settle_walk b (ci_slot (re_index re) a) a k h frames re = (re', frames', v, es)"
  shows "repair_le re re'"
    and "v \<Longrightarrow> repair_inv OK W (X \<union> set frames') re' \<and> set frames \<subseteq> set frames'
      \<and> (k = 0 \<or> settled_ref re' (a, k, h) \<or> (a, k, h) \<in> set frames')
      \<and> (\<forall>f \<in> set frames'. ref_author f = a \<and> rooted OK (\<lambda>p. p = re_genesis re) f)"
    and "\<not> v \<Longrightarrow> repair_inv OK W X re'"
proof -
  have "repair_le re re' \<and> (v \<longrightarrow> repair_inv OK W (X \<union> set frames') re' \<and> set frames \<subseteq> set frames'
      \<and> (k = 0 \<or> settled_ref re' (a, k, h) \<or> (a, k, h) \<in> set frames')
      \<and> (\<forall>f \<in> set frames'. ref_author f = a \<and> rooted OK (\<lambda>p. p = re_genesis re) f))
    \<and> (\<not> v \<longrightarrow> repair_inv OK W X re')"
    using assms
  proof (induction k arbitrary: h frames re)
    case 0
    then show ?case
      using repair_inv_drop [OF 0(1)] by auto
  next
    case (Suc k)
    note inv = Suc.prems(1) and links = Suc.prems(3) and auth = Suc.prems(4)
    let ?lane = "ci_slot (re_index re) a"
    show ?case
    proof (cases "is_settled_at re ?lane (Suc k) h")
      case True
      then have settled: "settled_ref re (a, Suc k, h)"
        by (simp add: is_settled_at_def settled_ref_def br_map_def)
      then have "rooted OK (\<lambda>p. p = re_genesis re) (a, Suc k, h)"
        using repair_invD [OF inv, of "(a, Suc k, h)"] by (simp add: ref_inv_def)
      then have "\<forall>f \<in> set frames. rooted OK (\<lambda>p. p = re_genesis re) f"
        using links by (simp add: rooted_def)
      moreover have "repair_inv OK W (X \<union> set frames) re"
        using repair_inv_drop [OF inv] settled by blast
      ultimately show ?thesis
        using True Suc.prems(6) settled auth by auto
    next
      case False
      show ?thesis
      proof (cases "usable_parent b a (Suc k) h")
        case None
        define re1 where "re1 = fst (request_missing b a (Suc k) h re)"
        have core: "repair_core re1 = repair_core re"
          by (simp add: re1_def request_missing_core)
        let ?fs = "frames @ [(a, Suc k, h)]"
        have out: "re' = record_blocked (ci_slot (re_index re1) a) ?fs h re1" "\<not> v"
          using Suc.prems(6) False None repair_core_refs(7) [OF core] by (auto simp: Let_def split_beta re1_def)
        have "repair_inv OK W (insert (a, Suc k, h) (X \<union> set frames) - set ?fs) re' \<and> repair_le re1 re'"
          unfolding out(1) using inv auth by (intro record_blocked_inv) (simp_all add: repair_inv_core [OF core])
        then show ?thesis
          using out(2) repair_le_core [OF core] repair_le_trans
            repair_inv_weaken [of OK W "insert (a, Suc k, h) (X \<union> set frames) - set ?fs" re' W X] by auto
      next
        case (Some p)
        note root = usable_parent_roots [OF Suc.prems(2) Some]
        show ?thesis
        proof (cases k)
          case 0
          have P: "\<forall>f \<in> set (frames @ [(a, Suc k, h)]). rooted OK P f" if "P p" for P
            using root(1) [OF 0, of P] that links [of P] by (auto simp: rooted_def)
          show ?thesis
          proof (cases "p = re_genesis re")
            case True
            then show ?thesis
              using Suc.prems(6) False Some 0 P [of "\<lambda>p. p = re_genesis re"] auth inv by (auto simp: Un_insert_right insert_commute)
          next
            case bad: False
            then have "\<forall>f \<in> set (frames @ [(a, Suc k, h)]). rooted OK (\<lambda>p. p \<noteq> re_genesis re) f"
              by (rule P)
            then have "repair_inv OK W X re"
              using inv unfolding repair_inv_def ref_inv_def by auto
            then show ?thesis
              using Suc.prems(6) False Some 0 bad by auto
          qed
        next
          case (Suc j)
          then have "k \<noteq> 0" by simp
          define re1 where "re1 = note_authorized ?lane k p re"
          note one = note_authorized_inv [OF inv, of a k p, folded re1_def]
          have walk: "settle_walk b (ci_slot (re_index re1) a) a k p (frames @ [(a, Suc k, h)]) re1 = (re', frames', v, es)"
            using Suc.prems(6) False Some \<open>k \<noteq> 0\<close> by (simp add: one(3) re1_def [symmetric])
          have up: "\<forall>f \<in> set (frames @ [(a, Suc k, h)]). rooted OK P f" if "roots OK P a k p" for P
            using root(2) [OF Suc, of P] that links [of P] by (auto simp: rooted_def)
          have inv1: "repair_inv OK W (insert (a, k, p) (X \<union> set (frames @ [(a, Suc k, h)]))) re1"
            using one(1) by (simp add: Un_insert_right)
          have "repair_le re1 re' \<and> (v \<longrightarrow> repair_inv OK W (X \<union> set frames') re' \<and> set (frames @ [(a, Suc k, h)]) \<subseteq> set frames'
              \<and> (k = 0 \<or> settled_ref re' (a, k, p) \<or> (a, k, p) \<in> set frames')
              \<and> (\<forall>f \<in> set frames'. ref_author f = a \<and> rooted OK (\<lambda>p. p = re_genesis re1) f))
            \<and> (\<not> v \<longrightarrow> repair_inv OK W X re')"
            by (rule Suc.IH [OF inv1 Suc.prems(2) up _ _ walk]) (use auth Suc in auto)
          then show ?thesis
            using note_authorized_le [OF inv, of a k p, folded re1_def] repair_le_trans one(4) by auto
        qed
      qed
    qed
  qed
  then show "repair_le re re'" and "v \<Longrightarrow> repair_inv OK W (X \<union> set frames') re' \<and> set frames \<subseteq> set frames'
      \<and> (k = 0 \<or> settled_ref re' (a, k, h) \<or> (a, k, h) \<in> set frames')
      \<and> (\<forall>f \<in> set frames'. ref_author f = a \<and> rooted OK (\<lambda>p. p = re_genesis re) f)"
    and "\<not> v \<Longrightarrow> repair_inv OK W X re'"
    by blast+
qed

section \<open>Serving at most once\<close>

fun served :: "effect list \<Rightarrow> (public_key \<times> digest) list" where
  "served [] = []"
| "served (ServeTo peer block # es) = (peer, h_id block) # served es"
| "served (_ # es) = served es"

lemma served_append [simp]: "served (xs @ ys) = served xs @ served ys"
  by (induction xs rule: served.induct) auto

definition requesters_ok :: "repairer \<Rightarrow> bool" where
  "requesters_ok re \<longleftrightarrow> (\<forall>h ws. map_of (re_pending_req re) h = Some ws \<longrightarrow> oset_ok ws)"

text \<open>
  A step that keeps the request limits, serves only pairs that were not answered, each once, and
  marks exactly these pairs as answered.
\<close>

definition serve_step :: "repairer \<Rightarrow> effect list \<Rightarrow> repairer \<Rightarrow> bool" where
  "serve_step re es re' \<longleftrightarrow> (requests_ok re \<longrightarrow> requests_ok re') \<and> (requesters_ok re \<longrightarrow> requesters_ok re')
     \<and> (requesters_ok re \<longrightarrow> distinct (served es) \<and> set (served es) \<inter> set (re_answered re) = {}
          \<and> set (re_answered re') = set (re_answered re) \<union> set (served es))"

lemma serve_step_refl: "serve_step re [] re"
  by (simp add: serve_step_def)

lemma serve_step_trans: "serve_step re1 es re2 \<Longrightarrow> serve_step re2 es' re3 \<Longrightarrow> serve_step re1 (es @ es') re3"
  unfolding serve_step_def by auto

lemma serve_step_quiet:
  assumes "requests_ok re \<longrightarrow> requests_ok re'" "re_pending_req re' = re_pending_req re" "re_answered re' = re_answered re"
    and "served es = []"
  shows "serve_step re es re'"
  using assms by (simp add: serve_step_def requesters_ok_def)

lemma served_fan_out: "served (snd (fan_out h re)) = []"
proof -
  have peers: "served (snd (request_peers h ts re)) = []" for ts and re :: repairer
  proof -
    have "served es = [] \<Longrightarrow> served (snd (foldl (\<lambda>(re, es) peer.
       if (peer, h) \<in> set (re_requested re) then (re, es)
       else (re\<lparr>re_requested := os_ins (peer, h) (re_requested re),
                re_requested_hashes := os_ins h (re_requested_hashes re)\<rparr>, es @ [RequestTo peer h])) (re, es) ts)) = []"
      for es by (induction ts arbitrary: re es) simp_all
    then show ?thesis by (simp add: request_peers_def)
  qed
  have "served (snd (emit_round h e w re)) = []" for e w and re :: repairer
    by (simp add: emit_round_def Let_def split_beta peers)
  then show ?thesis
    by (simp add: fan_out_def Let_def split: option.split)
qed

lemma served_retry: "served (snd (retry_requests drops re)) = []"
proof -
  have "served (snd (retry_batch keys re)) = []" for keys and re :: repairer
    by (induction keys arbitrary: re) (simp_all add: retry_one_def Let_def split_beta served_fan_out)
  then show ?thesis by (simp add: retry_requests_def Let_def)
qed

lemma serve_step_request_missing:
  "serve_step re (snd (request_missing b a k h re)) (fst (request_missing b a k h re))"
proof (rule serve_step_quiet)
  show "served (snd (request_missing b a k h re)) = []"
    by (simp add: request_missing_def begin_fanout_def Let_def served_fan_out)
  show "requests_ok re \<longrightarrow> requests_ok (fst (request_missing b a k h re))"
    by (simp add: request_missing_requests)
  show "re_pending_req (fst (request_missing b a k h re)) = re_pending_req re"
    "re_answered (fst (request_missing b a k h re)) = re_answered re"
    using request_missing_core [of b a k h re] by (simp_all add: repair_core_def)
qed

lemma requests_ok_positions:
  "requests_ok (re\<lparr>re_positions := t\<rparr>) = requests_ok re" "requests_ok (re\<lparr>re_blocked_on := bl\<rparr>) = requests_ok re"
  "requests_ok (re\<lparr>re_positions := t, re_pending_settle := n\<rparr>) = requests_ok re"
  "requests_ok (re\<lparr>re_positions := t, re_blocked_on := bl\<rparr>) = requests_ok re"
  "requests_ok (re\<lparr>re_refetch_at := m\<rparr>) = requests_ok re"
  by (simp_all add: requests_ok_def)

lemma serve_step_note_authorized: "serve_step re [] (note_authorized lane k d re)"
  by (rule serve_step_quiet)
    (simp_all add: note_authorized_def requests_ok_positions split: option.split)

lemma serve_step_mark_settled: "serve_step re [] (mark_settled lane k d re)"
  by (rule serve_step_quiet) (simp_all add: mark_settled_def Let_def requests_ok_positions)

lemma serve_step_block_ref_on: "serve_step re [] (block_ref_on lane h r re)"
  by (rule serve_step_quiet) (simp_all add: block_ref_on_def Let_def requests_ok_positions)

lemma serve_step_record_blocked: "serve_step re [] (record_blocked lane refs h re)"
proof (induction refs arbitrary: re)
  case Nil
  then show ?case by (simp add: record_blocked_def serve_step_refl)
next
  case (Cons r refs)
  show ?case
    using serve_step_trans [OF serve_step_block_ref_on Cons.IH, of re lane h r]
    by (simp add: record_blocked_def)
qed

lemma serve_step_drop_fanout: "serve_step re [] (drop_fanout h re)"
  by (rule serve_step_quiet) (simp_all add: drop_fanout_requests, simp_all add: drop_fanout_def split: option.split)

lemma serve_one_requesters: "requesters_ok re \<Longrightarrow> requesters_ok (serve_one h p re)"
  by (auto simp: requesters_ok_def serve_one_def omap_simps order_intros split: option.splits if_splits)

lemma fold_serve_one:
  "re_answered (fold (serve_one h) ps re) = fold (\<lambda>p. os_ins (p, h)) ps (re_answered re)"
  "requesters_ok re \<Longrightarrow> requesters_ok (fold (serve_one h) ps re)"
  "requests_ok (fold (serve_one h) ps re) = requests_ok re"
  "repair_consts (fold (serve_one h) ps re) = repair_consts re"
  "re_positions (fold (serve_one h) ps re) = re_positions re"
  "re_pending_settle (fold (serve_one h) ps re) = re_pending_settle re"
  "re_blocked_on (fold (serve_one h) ps re) = re_blocked_on re"
  by (induction ps arbitrary: re) (simp_all add: serve_one_requesters, simp_all add: serve_one_def requests_ok_def repair_consts_def)

lemma set_fold_answered: "set (fold (\<lambda>p. os_ins (p, h)) ps s) = set s \<union> (\<lambda>p. (p, h)) ` set ps"
  by (induction ps arbitrary: s) auto

lemma serve_step_try_serve:
  assumes "cache_sound OK b"
  shows "serve_step re (snd (try_serve b h re)) (fst (try_serve b h re))"
proof (cases "retained_block b h")
  case None
  then show ?thesis by (simp add: try_serve_def serve_step_refl)
next
  case (Some block)
  then have id: "h_id block = h"
    using assms by (auto simp: retained_block_def cache_sound_def split: option.splits if_splits)
  define ps where "ps = (case map_of (re_pending_req re) h of
     None \<Rightarrow> [] | Some peers \<Rightarrow> filter (\<lambda>peer. (peer, h) \<notin> set (re_answered re)) peers)"
  have out: "try_serve b h re = (fold (serve_one h) ps re, map (\<lambda>p. ServeTo p block) ps)"
    using Some by (simp add: try_serve_def serve_pending_def Let_def ps_def)
  have served: "served (map (\<lambda>p. ServeTo p block) ps) = map (\<lambda>p. (p, h)) ps" for ps
    by (induction ps) (simp_all add: id)
  have "distinct ps" if "requesters_ok re"
    using that by (auto simp: ps_def requesters_ok_def oset_ok_def strict_sorted_iff split: option.splits)
  moreover have "\<forall>p \<in> set ps. (p, h) \<notin> set (re_answered re)"
    by (auto simp: ps_def split: option.splits)
  ultimately show ?thesis
    by (auto simp: serve_step_def out served fold_serve_one set_fold_answered distinct_map inj_on_def)
qed

lemma try_serve_inv:
  "repair_inv OK W X (fst (try_serve b h re)) = repair_inv OK W X re" (is ?inv)
  "repair_consts (fst (try_serve b h re)) = repair_consts re"
  "settled_ref (fst (try_serve b h re)) r = settled_ref re r" "pending_ref (fst (try_serve b h re)) r = pending_ref re r"
proof -
  define re' where "re' = fst (try_serve b h re)"
  have c: "repair_consts re' = repair_consts re" and f: "re_positions re' = re_positions re"
    "re_pending_settle re' = re_pending_settle re" "re_blocked_on re' = re_blocked_on re"
    by (simp_all add: re'_def try_serve_def serve_pending_def Let_def fold_serve_one split: option.split)
  then have i: "re_index re' = re_index re" "re_genesis re' = re_genesis re"
    by (simp_all add: repair_consts_def)
  have refs: "settled_ref re' r = settled_ref re r" "pending_ref re' r = pending_ref re r" "blocked_ref re' r = blocked_ref re r" for r
    by (simp_all add: settled_ref_def pending_ref_def blocked_ref_def f i)
  show ?inv "repair_consts (fst (try_serve b h re)) = repair_consts re"
    "settled_ref (fst (try_serve b h re)) r = settled_ref re r" "pending_ref (fst (try_serve b h re)) r = pending_ref re r"
    unfolding re'_def [symmetric] by (simp_all add: c refs repair_inv_def ref_inv_def f i)
qed

section \<open>Settlement\<close>

text \<open>Retention keeps every block and its verification.\<close>

definition same_blocks :: "block_cache \<Rightarrow> block_cache \<Rightarrow> bool" where
  "same_blocks b b' \<longleftrightarrow> (\<forall>d. map_option (\<lambda>e. (be_block e, be_block_ok_verified e)) (bc_get b' d)
       = map_option (\<lambda>e. (be_block e, be_block_ok_verified e)) (bc_get b d))
     \<and> (\<forall>d. retained_block b d \<noteq> None \<longrightarrow> retained_block b' d \<noteq> None)"

lemma same_blocks_refl [simp]: "same_blocks b b"
  by (simp add: same_blocks_def)

lemma same_blocks_trans: "same_blocks b1 b2 \<Longrightarrow> same_blocks b2 b3 \<Longrightarrow> same_blocks b1 b3"
  by (simp add: same_blocks_def)

lemma same_blocks_get:
  assumes "same_blocks b b'"
  shows "map_option (\<lambda>e. (be_block e, be_block_ok_verified e)) (bc_get b' d)
       = map_option (\<lambda>e. (be_block e, be_block_ok_verified e)) (bc_get b d)"
  using assms by (simp add: same_blocks_def)

lemma same_blocks_sound: "same_blocks b b' \<Longrightarrow> cache_sound OK b \<Longrightarrow> cache_sound OK b'"
  unfolding cache_sound_def
proof (intro allI impI)
  fix d e
  assume *: "same_blocks b b'" "\<forall>d e. bc_get b d = Some e \<longrightarrow> h_id (be_block e) = d \<and> (be_block_ok_verified e \<longrightarrow> OK (be_block e))"
    "bc_get b' d = Some e"
  then obtain e0 where "bc_get b d = Some e0" "be_block e0 = be_block e" "be_block_ok_verified e0 = be_block_ok_verified e"
    using same_blocks_get [OF *(1), of d] by (cases "bc_get b d") auto
  then show "h_id (be_block e) = d \<and> (be_block_ok_verified e \<longrightarrow> OK (be_block e))"
    using *(2) by metis
qed

lemma same_blocks_usable: "same_blocks b b' \<Longrightarrow> usable_parent b' a k h = usable_parent b a k h"
  using same_blocks_get [of b b' h]
  by (cases "bc_get b h"; cases "bc_get b' h") (auto simp: usable_parent_def parent_of_def)

lemma mark_retained_same:
  "same_blocks b (fst (mark_retained h b))" "bc_get b h \<noteq> None \<Longrightarrow> retained_block (fst (mark_retained h b)) h \<noteq> None"
  by (auto simp: same_blocks_def mark_retained_def bc_get_modify retained_block_def split: option.splits)

lemma settle_frames_inv:
  assumes "repair_inv OK W (X \<union> set frames) re" and "cache_sound OK b"
    and "\<forall>f \<in> set frames. ref_author f = a \<and> rooted OK (\<lambda>p. p = re_genesis re) f"
    and "settle_frames (ci_slot (re_index re) a) frames re b = (re', b', es)"
  shows "repair_inv OK W X re' \<and> repair_le re re' \<and> serve_step re es re' \<and> same_blocks b b'
    \<and> (\<forall>f \<in> set frames. settled_ref re' f)"
  using assms
proof (induction frames arbitrary: re b es)
  case Nil
  then show ?case by (auto simp: serve_step_refl)
next
  case (Cons f frames)
  let ?lane = "ci_slot (re_index re) a"
  define b1 where "b1 = fst (mark_retained (ref_digest f) b)"
  define re1 where "re1 = fst (try_serve b1 (ref_digest f) re)"
  define es1 where "es1 = snd (try_serve b1 (ref_digest f) re)"
  define re2 where "re2 = mark_settled ?lane (ref_height f) (ref_digest f) re1"
  obtain es2 where rest: "settle_frames ?lane frames re2 b1 = (re', b', es2)" "es = es1 @ es2"
    using Cons.prems(4)
    by (auto simp: retain_and_serve_def Let_def split_beta b1_def re1_def es1_def re2_def prod_eq_iff)
  have f: "f = (a, ref_height f, ref_digest f)" using Cons.prems(3) by (cases f) simp
  have b1: "same_blocks b b1" "cache_sound OK b1"
    using mark_retained_same(1) [of b "ref_digest f"] same_blocks_sound Cons.prems(2) by (auto simp: b1_def)
  have serve: "repair_inv OK W' X' re1 = repair_inv OK W' X' re" "repair_consts re1 = repair_consts re"
    "settled_ref re1 r = settled_ref re r" "pending_ref re1 r = pending_ref re r" for W' X' r
    by (simp_all add: re1_def try_serve_inv)
  have i: "re_index re1 = re_index re" "re_genesis re1 = re_genesis re"
    using serve(2) by (simp_all add: repair_consts_def)
  have inv1: "repair_inv OK W (insert (a, ref_height f, ref_digest f) (X \<union> set frames)) re1"
    using Cons.prems(1) serve(1) f by simp
  have root: "rooted OK (\<lambda>p. p = re_genesis re1) (a, ref_height f, ref_digest f)"
    using Cons.prems(3) f i by simp
  note mark = mark_settled_inv [OF inv1 root, unfolded i, folded re2_def]
  have same_consts: "repair_consts re2 = repair_consts re1"
    by (simp add: re2_def mark_settled_def Let_def repair_consts_def)
  have le: "repair_le re re2"
    by (rule repair_leI) (use same_consts serve mark(5,6) in auto)
  have "serve_step re es1 re2"
    using serve_step_trans [OF serve_step_try_serve [OF b1(2), of re "ref_digest f", folded re1_def es1_def] serve_step_mark_settled]
    by (simp add: re2_def)
  moreover have "repair_inv OK W X re' \<and> repair_le re2 re' \<and> serve_step re2 es2 re' \<and> same_blocks b1 b'
      \<and> (\<forall>f \<in> set frames. settled_ref re' f)"
    by (rule Cons.IH [OF mark(1) b1(2)]) (use Cons.prems(3) rest(1) mark(3,4) i in auto)
  moreover have "settled_ref re2 f" using mark(2) f by simp
  ultimately show ?case
    using le b1(1) rest(2) serve_step_trans repair_le_trans same_blocks_trans repair_leD(1)
    by (metis set_ConsD)
qed

lemma serve_step_settle_walk:
  "serve_step re (snd (snd (snd (settle_walk b lane a k h frames re)))) (fst (settle_walk b lane a k h frames re))"
proof (induction k arbitrary: h frames re)
  case 0
  then show ?case by (simp add: serve_step_refl)
next
  case (Suc k)
  have missing: "serve_step re (snd (request_missing b a (Suc k) h re))
      (record_blocked lane fs h (fst (request_missing b a (Suc k) h re)))" for fs
    using serve_step_trans [OF serve_step_request_missing serve_step_record_blocked, of re b a "Suc k" h lane fs h] by simp
  have "serve_step re (snd (snd (snd (settle_walk b lane a k p fs (note_authorized lane k p re)))))
      (fst (settle_walk b lane a k p fs (note_authorized lane k p re)))" for p fs
    using serve_step_trans [OF serve_step_note_authorized Suc.IH] by force
  then show ?case
    using missing by (auto simp: Let_def split_beta serve_step_refl split: option.split)
qed

text \<open>The cache holds the verified chain of a reference down to genesis.\<close>

fun held_through_genesis :: "block_cache \<Rightarrow> digest \<Rightarrow> public_key \<Rightarrow> height \<Rightarrow> digest \<Rightarrow> bool" where
  "held_through_genesis b g a 0 h = False"
| "held_through_genesis b g a (Suc k) h =
     (case usable_parent b a (Suc k) h of
        None \<Rightarrow> False
      | Some p \<Rightarrow> if k = 0 then p = g else held_through_genesis b g a k p)"

lemma settle_walk_held:
  "held_through_genesis b (re_genesis re) a k h \<Longrightarrow> fst (snd (snd (settle_walk b lane a k h frames re)))"
proof (induction k arbitrary: h frames re)
  case (Suc k)
  have "re_genesis (note_authorized lane k p re) = re_genesis re" for p
    by (simp add: note_authorized_def split: option.split)
  then show ?case
    using Suc by (auto simp: Let_def split: option.splits if_splits)
qed simp

lemma same_blocks_held: "same_blocks b b' \<Longrightarrow> held_through_genesis b' g a k h = held_through_genesis b g a k h"
  by (induction k arbitrary: h) (auto simp: same_blocks_usable split: option.split)

lemma settle_inv:
  assumes inv: "repair_inv OK W (insert r X) re" and b: "cache_sound OK b"
    and out: "settle (ci_slot (re_index re) (ref_author r)) r re b = (re', b', es)"
  shows "repair_inv OK W X re'" "repair_le re re'" "serve_step re es re'" "same_blocks b b'"
    "held_through_genesis b (re_genesis re) (ref_author r) (ref_height r) (ref_digest r) \<Longrightarrow> settled_ref re' r"
proof -
  let ?lane = "ci_slot (re_index re) (ref_author r)"
  obtain re1 frames v es1 where walk:
    "settle_walk b ?lane (ref_author r) (ref_height r) (ref_digest r) [] re = (re1, frames, v, es1)"
    by (metis prod.exhaust)
  have r: "(ref_author r, ref_height r, ref_digest r) = r" by (cases r) simp
  have inv0: "repair_inv OK W (insert (ref_author r, ref_height r, ref_digest r) (X \<union> set [])) re"
    using inv by (simp add: r)
  note w = settle_walk_inv [OF inv0 b _ _ _ walk, simplified]
  have s1: "serve_step re es1 re1"
    using serve_step_settle_walk [of re b ?lane "ref_author r" "ref_height r" "ref_digest r" "[]"] walk by simp
  have i: "re_index re1 = re_index re" "re_genesis re1 = re_genesis re"
    using repair_leD(3,4) [OF w(1)] by auto
  have "repair_inv OK W X re' \<and> repair_le re re' \<and> serve_step re es re' \<and> same_blocks b b'
    \<and> (held_through_genesis b (re_genesis re) (ref_author r) (ref_height r) (ref_digest r) \<longrightarrow> settled_ref re' r)"
  proof (cases v)
    case True
    obtain es2 where fr: "settle_frames (ci_slot (re_index re1) (ref_author r)) (rev frames) re1 b = (re', b', es2)" "es = es1 @ es2"
      using out walk True by (auto simp: settle_def Let_def i split: prod.splits)
    have "repair_inv OK W X re' \<and> repair_le re1 re' \<and> serve_step re1 es2 re' \<and> same_blocks b b'
      \<and> (\<forall>f \<in> set (rev frames). settled_ref re' f)"
      by (rule settle_frames_inv [OF _ b _ fr(1)]) (use w(2) [OF True] i in auto)
    moreover have "settled_ref re' r" if "ref_height r \<noteq> 0"
      using calculation w(2) [OF True] that repair_leD(1) [of re1 re' r] r by auto
    ultimately show ?thesis
      using w(1) s1 fr(2) repair_le_trans serve_step_trans by (metis held_through_genesis.simps(1))
  next
    case False
    then have "re' = re1" "b' = b" "es = es1"
      using out walk by (auto simp: settle_def)
    moreover have "\<not> held_through_genesis b (re_genesis re) (ref_author r) (ref_height r) (ref_digest r)"
      using settle_walk_held [of b re "ref_author r" "ref_height r" "ref_digest r" ?lane "[]"] walk False by auto
    ultimately show ?thesis using w(1) w(3) [OF False] s1 by simp
  qed
  then show "repair_inv OK W X re'" "repair_le re re'" "serve_step re es re'" "same_blocks b b'"
    "held_through_genesis b (re_genesis re) (ref_author r) (ref_height r) (ref_digest r) \<Longrightarrow> settled_ref re' r"
    by auto
qed

lemma authorize_inv:
  assumes inv: "repair_inv OK W X re" and b: "cache_sound OK b" and out: "authorize r re b = (re', b', es)"
  shows "repair_inv OK W X re'" "repair_le re re'" "serve_step re es re'" "same_blocks b b'"
    "pending_ref re' r \<or> settled_ref re' r"
    "held_through_genesis b (re_genesis re) (ref_author r) (ref_height r) (ref_digest r) \<Longrightarrow> settled_ref re' r"
proof -
  obtain a k d where r: "r = (a, k, d)" by (cases r) auto
  define re1 where "re1 = note_authorized (ci_slot (re_index re) a) k d re"
  note one = note_authorized_inv [OF inv, of a k d, folded re1_def]
  have out1: "settle (ci_slot (re_index re1) (ref_author r)) r re1 b = (re', b', es)"
    using out by (simp add: authorize_def Let_def r re1_def one(3) [unfolded re1_def])
  note two = settle_inv [OF one(1) [folded r] b out1]
  show "repair_inv OK W X re'" "same_blocks b b'" by (fact two)+
  show "repair_le re re'"
    using repair_le_trans [OF note_authorized_le [OF inv, of a k d, folded re1_def] two(2)] .
  show "serve_step re es re'"
    using serve_step_trans [OF serve_step_note_authorized [of re "ci_slot (re_index re) a" k d, folded re1_def] two(3)] by simp
  show "pending_ref re' r \<or> settled_ref re' r"
    using one(2) repair_leD(1,2) [OF two(2), of r] r by auto
  show "held_through_genesis b (re_genesis re) (ref_author r) (ref_height r) (ref_digest r) \<Longrightarrow> settled_ref re' r"
    using two(5) one(4) by simp
qed

lemma unblock_inv:
  fixes r
  assumes inv: "repair_inv OK (insert r W) {} re"
  defines "re' \<equiv> re\<lparr>re_positions := br_get_mut (ci_slot (re_index re) (ref_author r)) (ref_height r) (ref_digest r)
     (\<lambda>p. p\<lparr>rp_blocked_at := None\<rparr>) (re_positions re)\<rparr>"
  shows "repair_inv OK W {r} re'" "repair_le re re'" "pending_ref re' x = pending_ref re x" "serve_step re [] re'"
proof -
  have ok: "br_ok (re_index re) (re_positions re)" by (rule repair_inv_br [OF inv])
  obtain a k d where r: "r = (a, k, d)" by (cases r) auto
  have ch: "change_position r (map_option (\<lambda>p. p\<lparr>rp_blocked_at := None\<rparr>) (position_of re r)) re re'"
    unfolding change_position_def re'_def r by (simp add: br_get_mut_content [OF ok] br_get_mut_ok [OF ok])
  note refs = change_position_refs [OF ch]
  have pend: "pending_ref re' x = pending_ref re x" and sett: "settled_ref re' x = settled_ref re x"
    and blk: "blocked_ref re' x = (if x = r then None else blocked_ref re x)" for x
    unfolding refs by (auto simp: pending_ref_def settled_ref_def blocked_ref_def split: option.splits)
  have same: "re_pending_settle re' = re_pending_settle re" "re_blocked_on re' = re_blocked_on re" "repair_consts re' = repair_consts re"
    by (simp_all add: re'_def repair_consts_def)
  have "ref_inv OK W {r} re' x" for x
    using repair_invD [OF inv, of x] by (auto simp: ref_inv_def pend sett blk same refs(4))
  then show "repair_inv OK W {r} re'"
    using inv refs(6) by (simp add: repair_inv_def pend same refs(5))
  show "repair_le re re'"
    by (rule repair_leI) (simp_all add: same pend sett)
  show "pending_ref re' x = pending_ref re x" by (rule pend)
  show "serve_step re [] re'"
    by (rule serve_step_quiet) (simp_all add: re'_def requests_ok_positions)
qed

abbreviation held_ref :: "block_cache \<Rightarrow> digest \<Rightarrow> block_ref \<Rightarrow> bool" where
  "held_ref b g r \<equiv> held_through_genesis b g (ref_author r) (ref_height r) (ref_digest r)"

lemma wake_blocked_inv:
  assumes "repair_inv OK (set ws) {} re" and "cache_sound OK b" and "wake_blocked ws re b = (re', b', es)"
  shows "repair_inv OK {} {} re' \<and> repair_le re re' \<and> serve_step re es re' \<and> same_blocks b b'
    \<and> (\<forall>r \<in> set ws. pending_ref re r \<and> held_ref b (re_genesis re) r \<longrightarrow> settled_ref re' r)"
  using assms
proof (induction ws arbitrary: re b es)
  case Nil
  then show ?case by (simp add: serve_step_refl)
next
  case (Cons r ws)
  let ?lane = "ci_slot (re_index re) (ref_author r)"
  define re1 where "re1 = re\<lparr>re_positions := br_get_mut ?lane (ref_height r) (ref_digest r)
     (\<lambda>p. p\<lparr>rp_blocked_at := None\<rparr>) (re_positions re)\<rparr>"
  define out where "out = (if pending_ref re r then settle ?lane r re1 b else (re1, b, []))"
  obtain re2 b2 es2 where out: "out = (re2, b2, es2)" by (metis prod.exhaust)
  have r: "(ref_author r, ref_height r, ref_digest r) = r" by (cases r) simp
  have pend_eq: "(case br_get (re_positions re) ?lane (ref_height r) (ref_digest r) of
     None \<Rightarrow> False | Some pos \<Rightarrow> rp_pending_settle pos) = pending_ref re r"
    unfolding pending_ref_def br_map_def using r by (metis fst_conv snd_conv)
  obtain es3 where rest: "wake_blocked ws re2 b2 = (re', b', es3)" "es = es2 @ es3"
    using Cons.prems(3) out unfolding out_def wake_blocked.simps Let_def pend_eq re1_def [symmetric]
    by (auto split: prod.splits)
  have inv: "repair_inv OK (insert r (set ws)) {} re" using Cons.prems(1) by simp
  note un = unblock_inv [OF inv, folded re1_def]
  have i: "re_index re1 = re_index re" "re_genesis re1 = re_genesis re" using repair_leD(3,4) [OF un(2)] by auto
  have step: "repair_inv OK (set ws) {} re2 \<and> repair_le re re2 \<and> serve_step re es2 re2 \<and> same_blocks b b2
    \<and> (pending_ref re r \<and> held_ref b (re_genesis re) r \<longrightarrow> settled_ref re2 r)"
  proof (cases "pending_ref re r")
    case True
    have s: "settle (ci_slot (re_index re1) (ref_author r)) r re1 b = (re2, b2, es2)"
      using out True by (simp add: out_def i)
    note t = settle_inv [OF un(1) Cons.prems(2) s]
    show ?thesis
      using t repair_le_trans [OF un(2) t(2)] serve_step_trans [OF un(4) t(3)] i by simp
  next
    case False
    then have "re2 = re1" "b2 = b" "es2 = []" using out by (auto simp: out_def)
    then show ?thesis
      using repair_inv_drop [OF un(1)] False un by auto
  qed
  have sound: "cache_sound OK b2" using step same_blocks_sound Cons.prems(2) by blast
  have IH: "repair_inv OK {} {} re' \<and> repair_le re2 re' \<and> serve_step re2 es3 re' \<and> same_blocks b2 b'
    \<and> (\<forall>r \<in> set ws. pending_ref re2 r \<and> held_ref b2 (re_genesis re2) r \<longrightarrow> settled_ref re' r)"
    using Cons.IH [OF _ sound rest(1)] step by blast
  have "settled_ref re' x" if x: "x \<in> set (r # ws)" "pending_ref re x" "held_ref b (re_genesis re) x" for x
  proof (cases "settled_ref re2 x")
    case True
    then show ?thesis using IH repair_leD(1) by blast
  next
    case False
    then have "x \<in> set ws" "pending_ref re2 x" using step x repair_leD(2) [of re re2 x] by auto
    moreover have "held_ref b2 (re_genesis re2) x"
      using x(3) step same_blocks_held [of b b2] repair_leD(4) [of re re2] by simp
    ultimately show ?thesis using IH by blast
  qed
  then have woken: "\<forall>r \<in> set (r # ws). pending_ref re r \<and> held_ref b (re_genesis re) r \<longrightarrow> settled_ref re' r" by blast
  have "repair_le re re'" using step IH repair_le_trans by blast
  moreover have "serve_step re es re'" using step IH serve_step_trans unfolding rest(2) by blast
  moreover have "same_blocks b b'" using step IH same_blocks_trans by blast
  ultimately show ?case using woken IH by blast
qed

lemma on_block_available_inv:
  assumes inv: "repair_inv OK {} {} re" and b: "cache_sound OK b"
    and out: "on_block_available d re b = (re', b', es)"
  shows "repair_inv OK {} {} re'" "repair_le re re'" "serve_step re es re'" "same_blocks b b'"
    "pending_ref re r \<Longrightarrow> blocked_ref re r = Some d \<Longrightarrow> held_ref b (re_genesis re) r \<Longrightarrow> settled_ref re' r"
proof -
  define re1 where "re1 = (drop_fanout d re)\<lparr>re_refetch_at := om_del d (re_refetch_at (drop_fanout d re))\<rparr>"
  have core: "repair_core re1 = repair_core re"
    using drop_fanout_core [of d re] by (simp add: re1_def repair_core_def)
  have s1: "serve_step re [] re1"
    using serve_step_trans [OF serve_step_drop_fanout, of d re "[]" re1]
    by (simp add: serve_step_quiet re1_def requests_ok_positions)
  note refs = repair_core_refs [OF core]
  have inv1: "repair_inv OK {} {} re1" using inv by (simp add: repair_inv_core [OF core])
  have wait: "waits_in (re_blocked_on re) r d" if "blocked_ref re r = Some d" for r
    using repair_invD [OF inv, of r] that by (simp add: ref_inv_def)
  have "repair_inv OK {} {} re' \<and> repair_le re re' \<and> serve_step re es re' \<and> same_blocks b b'
    \<and> (pending_ref re r \<and> blocked_ref re r = Some d \<and> held_ref b (re_genesis re) r \<longrightarrow> settled_ref re' r)"
  proof (cases "map_of (re_blocked_on re) d")
    case None
    then have "re' = re1" "b' = b" "es = []"
      using out refs(5) by (simp_all add: on_block_available_def Let_def re1_def)
    then show ?thesis
      using inv1 s1 repair_le_core [OF core] wait [of r] None by (auto simp: waits_in_def)
  next
    case (Some ws)
    define re2 where "re2 = re1\<lparr>re_blocked_on := om_del d (re_blocked_on re1)\<rparr>"
    have w: "wake_blocked ws re2 b = (re', b', es)"
      using out Some refs(5) by (simp add: on_block_available_def Let_def re1_def re2_def)
    have refs2: "settled_ref re2 x = settled_ref re x" "pending_ref re2 x = pending_ref re x"
      "blocked_ref re2 x = blocked_ref re x" "re_genesis re2 = re_genesis re" for x
      using refs by (simp_all add: re2_def settled_ref_def pending_ref_def blocked_ref_def)
    have bl2: "re_blocked_on re2 = om_del d (re_blocked_on re)" by (simp add: re2_def refs)
    have "ref_inv OK (set ws) {} re2 x" for x
      using repair_invD [OF inv, of x] Some unfolding ref_inv_def refs2 bl2
      by (auto simp: waits_in_def omap_simps split: option.splits if_splits)
    then have inv2: "repair_inv OK (set ws) {} re2"
      using inv refs unfolding repair_inv_def refs2 by (simp add: re2_def)
    have le: "repair_le re re2"
      by (rule repair_leI) (use repair_leD(5) [OF repair_le_core [OF core]] in \<open>simp_all add: refs2, simp add: re2_def repair_consts_def\<close>)
    have "serve_step re [] re2"
      using serve_step_trans [OF s1, of "[]" re2] by (simp add: serve_step_quiet re2_def requests_ok_positions)
    then show ?thesis
      using wake_blocked_inv [OF inv2 b w] le repair_le_trans serve_step_trans [of re "[]" re2 es re'] wait [of r] Some
      by (auto simp: refs2 waits_in_def)
  qed
  then show "repair_inv OK {} {} re'" "repair_le re re'" "serve_step re es re'" "same_blocks b b'"
    "pending_ref re r \<Longrightarrow> blocked_ref re r = Some d \<Longrightarrow> held_ref b (re_genesis re) r \<Longrightarrow> settled_ref re' r"
    by auto
qed

section \<open>Runs\<close>

datatype repair_event =
    RAuthorize block_ref
  | RAvailable digest
  | RServe header
  | RSequenceServe header
  | RRequest public_key digest
  | RUnanswer public_key digest
  | RRetry "nat option"
  | RHolder public_key public_key height
  | RQueue nat
  | RExpect digest

fun repair_step ::
    "(bytes \<Rightarrow> digest) \<Rightarrow> repair_event \<Rightarrow> repairer \<Rightarrow> block_cache \<Rightarrow> repairer \<times> block_cache \<times> effect list" where
  "repair_step b3 (RAuthorize r) re b = authorize r re b"
| "repair_step b3 (RAvailable d) re b = on_block_available d re b"
| "repair_step b3 (RServe block) re b = on_serve b3 block re b"
| "repair_step b3 (RSequenceServe block) re b = on_sequence_serve b3 block re b"
| "repair_step b3 (RRequest p h) re b = (let (re, es) = on_request b p h re in (re, b, es))"
| "repair_step b3 (RUnanswer p h) re b = (unanswer p h re, b, [])"
| "repair_step b3 (RRetry drops) re b = (let (re, es) = retry_requests drops re in (re, b, es))"
| "repair_step b3 (RHolder p a k) re b = (note_holder p a k re, b, [])"
| "repair_step b3 (RQueue n) re b = (observe_core_queue n re, b, [])"
| "repair_step b3 (RExpect d) re b = (expect_sequence_digest d re, b, [])"

fun unanswered :: "repair_event \<Rightarrow> (public_key \<times> digest) list" where
  "unanswered (RUnanswer p h) = [(p, h)]"
| "unanswered _ = []"

definition admits :: "(bytes \<Rightarrow> digest) \<Rightarrow> repairer \<Rightarrow> header \<Rightarrow> bool" where
  "admits b3 re = block_ok b3 (re_committee re) (re_sid re) (re_max_block_payload re)"

text \<open>
  A run interleaves the operations with arbitrary sound changes of the shared cache by the other
  components, and records the effects and the withdrawn answers.
\<close>

inductive repair_run ::
    "(bytes \<Rightarrow> digest) \<Rightarrow> repairer \<Rightarrow> repairer \<Rightarrow> block_cache \<Rightarrow> effect list \<Rightarrow> (public_key \<times> digest) list \<Rightarrow> bool"
  for b3 re0 where
  repair_start: "cache_sound (admits b3 re0) b \<Longrightarrow> repair_run b3 re0 re0 b [] []"
| repair_cache: "repair_run b3 re0 re b tr un \<Longrightarrow> cache_sound (admits b3 re0) b' \<Longrightarrow> repair_run b3 re0 re b' tr un"
| repair_event: "repair_run b3 re0 re b tr un \<Longrightarrow> repair_step b3 ev re b = (re', b', es) \<Longrightarrow>
    repair_run b3 re0 re' b' (tr @ es) (un @ unanswered ev)"

definition repairer_ok :: "(bytes \<Rightarrow> digest) \<Rightarrow> repairer \<Rightarrow> bool" where
  "repairer_ok b3 re \<longleftrightarrow> repair_inv (admits b3 re) {} {} re \<and> requests_ok re \<and> requesters_ok re"

lemma admits_consts: "repair_consts re' = repair_consts re \<Longrightarrow> admits b3 re' = admits b3 re"
  by (simp add: repair_consts_def admits_def)

lemma repairer_new_unsettled: "\<not> settled_ref (repairer_new name c sid g m) r"
  by (simp add: settled_ref_def repairer_new_def Let_def br_new_empty)

lemma repairer_new_ok:
  assumes "committee_ok c"
  shows "repairer_ok b3 (repairer_new name c sid g m)"
proof -
  let ?re = "repairer_new name c sid g m"
  have "position_of ?re r = None" for r
    by (simp add: repairer_new_def Let_def br_new_empty)
  then have refs: "\<not> pending_ref ?re r" "\<not> settled_ref ?re r" "blocked_ref ?re r = None" for r
    by (simp_all add: pending_ref_def settled_ref_def blocked_ref_def)
  then have pend: "{r. pending_ref ?re r} = {}" by blast
  have "br_ok (re_index ?re) (re_positions ?re)"
    by (simp add: repairer_new_def Let_def br_new_ok committee_index_new_ok [OF assms])
  moreover have "re_pending_settle ?re = 0"
    by (simp add: repairer_new_def Let_def)
  ultimately have "repair_inv OK {} {} ?re" for OK
    unfolding repair_inv_def ref_inv_def pend by (simp add: refs)
  then show ?thesis
    by (simp add: repairer_ok_def requests_ok_def requesters_ok_def repairer_new_def Let_def in_flight_asks_def)
qed

lemma sound_upsert:
  assumes "cache_sound OK b" and "OK block"
  shows "cache_sound OK (upsert block direct repaired payload_ok okv b)"
  using assms unfolding cache_sound_def by (auto simp: bc_get_upsert split: option.splits if_splits)

lemma accept_served_inv:
  assumes "repair_inv (admits b3 re) {} {} re" and "cache_sound (admits b3 re) b"
    and "accept_served b3 block re b = (re', b', es)"
  shows "repair_inv (admits b3 re) {} {} re' \<and> repair_le re re' \<and> serve_step re es re' \<and> cache_sound (admits b3 re) b'"
proof (cases "admits b3 re block")
  case True
  define b1 where "b1 = upsert block False True False True b"
  have b1: "cache_sound (admits b3 re) b1"
    using sound_upsert [of "admits b3 re" b block] assms(2) True by (simp add: b1_def)
  obtain es1 where out: "on_block_available (h_id block) re b1 = (re', b', es1)" "es = BlockCached (h_id block) # es1"
    using assms(3) True by (auto simp: accept_served_def admits_def Let_def b1_def split: prod.splits)
  note av = on_block_available_inv [OF assms(1) b1 out(1)]
  have "serve_step re es re'"
    using av(3) by (simp add: serve_step_def out(2))
  then show ?thesis
    using av same_blocks_sound b1 by blast
next
  case False
  then show ?thesis
    using assms by (auto simp: accept_served_def admits_def serve_step_refl)
qed

lemma repair_step_inv:
  assumes ok: "repairer_ok b3 re" and b: "cache_sound (admits b3 re) b"
    and out: "repair_step b3 ev re b = (re', b', es)"
  shows "repairer_ok b3 re' \<and> repair_consts re' = repair_consts re \<and> cache_sound (admits b3 re) b'
    \<and> (if unanswered ev = [] then serve_step re es re'
       else served es = [] \<and> set (re_answered re') = set (re_answered re) - set (unanswered ev))"
proof -
  have inv: "repair_inv (admits b3 re) {} {} re" and rq: "requests_ok re" "requesters_ok re"
    using ok by (simp_all add: repairer_ok_def)
  have finish: "repairer_ok b3 re' \<and> repair_consts re' = repair_consts re"
    if "repair_inv (admits b3 re) {} {} re'" "repair_consts re' = repair_consts re" "serve_step re es re'"
    for re' es
    using that rq admits_consts [OF that(2), of b3] by (simp add: repairer_ok_def serve_step_def)
  have core: "repairer_ok b3 re' \<and> repair_consts re' = repair_consts re"
    if "repair_core re' = repair_core re" "serve_step re es re'" for re' es
    using finish [OF _ _ that(2)] repair_inv_core [OF that(1)] inv repair_leD(5) [OF repair_le_core [OF that(1)]] by blast
  show ?thesis
  proof (cases ev)
    case (RAuthorize r)
    then show ?thesis
      using authorize_inv [OF inv b, of r re' b' es] out finish repair_leD(5) same_blocks_sound [OF _ b]
      by (metis repair_step.simps(1) unanswered.simps(2))
  next
    case (RAvailable d)
    then show ?thesis
      using on_block_available_inv [OF inv b, of d re' b' es] out finish repair_leD(5) same_blocks_sound [OF _ b]
      by (metis repair_step.simps(2) unanswered.simps(3))
  next
    case (RServe block)
    then have "(re', b', es) = (re, b, []) \<or> accept_served b3 block re b = (re', b', es)"
      using out by (auto simp: on_serve_def split: if_splits)
    then show ?thesis
      using accept_served_inv [OF inv b, of block re' b' es] finish repair_leD(5) ok b serve_step_refl RServe
      by (auto simp: repairer_ok_def)
  next
    case (RSequenceServe block)
    then show ?thesis
      using accept_served_inv [OF inv b, of block re' b' es] out finish repair_leD(5)
      by (auto simp: on_sequence_serve_def)
  next
    case (RRequest p h)
    define re1 where "re1 = (if (p, h) \<notin> set (re_answered re)
        then re\<lparr>re_pending_req := om_upd h [] (os_ins p) (re_pending_req re)\<rparr> else re)"
    have out1: "re' = fst (try_serve b h re1)" "es = snd (try_serve b h re1)" "b' = b"
      using out RRequest by (auto simp: on_request_def re1_def split_beta)
    have same: "repair_consts re1 = repair_consts re" "re_answered re1 = re_answered re"
      "repair_inv (admits b3 re) {} {} re1 = repair_inv (admits b3 re) {} {} re"
      by (simp_all add: re1_def repair_consts_def repair_inv_def ref_inv_def pending_ref_def settled_ref_def blocked_ref_def)
    have "requests_ok re1" using rq by (simp add: re1_def requests_ok_def)
    moreover have "requesters_ok re1"
      using rq(2) by (auto simp: re1_def requesters_ok_def omap_simps order_intros split: option.splits)
    ultimately have "serve_step re es re'"
      using serve_step_try_serve [OF b, of re1 h] rq same(2) by (simp add: out1 serve_step_def)
    then show ?thesis
      using finish [of re' es] inv same b RRequest by (simp add: out1 try_serve_inv)
  next
    case (RUnanswer p h)
    then have re': "re' = unanswer p h re" "b' = b" "es = []" using out by auto
    have "repair_inv (admits b3 re) {} {} re' = repair_inv (admits b3 re) {} {} re"
      by (simp add: re' unanswer_def repair_inv_def ref_inv_def pending_ref_def settled_ref_def blocked_ref_def)
    moreover have "admits b3 re' = admits b3 re" by (simp add: re' admits_def unanswer_def)
    ultimately show ?thesis
      using inv rq b RUnanswer
      by (simp add: repairer_ok_def re' requests_ok_def requesters_ok_def repair_consts_def) (simp add: unanswer_def)
  next
    case (RRetry drops)
    then have re': "re' = fst (retry_requests drops re)" "es = snd (retry_requests drops re)" "b' = b"
      using out by (auto simp: split_beta)
    have "serve_step re es re'"
    proof (rule serve_step_quiet)
      show "requests_ok re \<longrightarrow> requests_ok re'" by (simp add: re' retry_requests_requests)
      show "re_pending_req re' = re_pending_req re" "re_answered re' = re_answered re"
        using retry_requests_core [of drops re] by (simp_all add: re' repair_core_def)
      show "served es = []" by (simp add: re' served_retry)
    qed
    then show ?thesis
      using core [of re' es] retry_requests_core [of drops re] b RRetry re' by simp
  next
    case (RHolder p a k)
    then have "re' = note_holder p a k re" "b' = b" "es = []" using out by auto
    moreover have "serve_step re [] (note_holder p a k re)"
      by (rule serve_step_quiet) (simp_all add: note_holder_def Let_def requests_ok_def)
    ultimately show ?thesis
      using core [OF note_holder_core] b RHolder by simp
  next
    case (RQueue n)
    then have re': "re' = observe_core_queue n re" "b' = b" "es = []" using out by auto
    have "repair_core re' = repair_core re" by (simp add: re' repair_core_def observe_core_queue_def)
    moreover have "serve_step re [] re'"
      by (rule serve_step_quiet) (simp_all add: re' observe_core_queue_def requests_ok_def)
    ultimately show ?thesis using core [of re' "[]"] b RQueue re' by simp
  next
    case (RExpect d)
    then have re': "re' = expect_sequence_digest d re" "b' = b" "es = []" using out by auto
    have "repair_core re' = repair_core re" by (simp add: re' repair_core_def expect_sequence_digest_def)
    moreover have "serve_step re [] re'"
      by (rule serve_step_quiet) (simp_all add: re' expect_sequence_digest_def requests_ok_def)
    ultimately show ?thesis using core [of re' "[]"] b RExpect re' by simp
  qed
qed

lemma count_list_distinct: "distinct xs \<Longrightarrow> count_list xs x = (if x \<in> set xs then 1 else 0)"
  by (induction xs) auto

lemma repair_run_inv:
  assumes "repair_run b3 re0 re b tr un" and "repairer_ok b3 re0" and "re_answered re0 = []"
  shows "repairer_ok b3 re \<and> repair_consts re = repair_consts re0 \<and> cache_sound (admits b3 re0) b
    \<and> (\<forall>x. count_list (served tr) x \<le> count_list un x + (if x \<in> set (re_answered re) then 1 else 0))"
  using assms
proof (induction rule: repair_run.induct)
  case (repair_event re b tr un ev re' b' es)
  note IH0 = repair_event.IH [OF repair_event.prems]
  then have IH: "repairer_ok b3 re" "repair_consts re = repair_consts re0" "cache_sound (admits b3 re0) b" by blast+
  have cnt: "count_list (served tr) x \<le> count_list un x + (if x \<in> set (re_answered re) then 1 else 0)" for x
    using IH0 by blast
  note step = repair_step_inv [OF IH(1) IH(3) [folded admits_consts [OF IH(2)]] repair_event.hyps(2)]
  have rq: "requesters_ok re" using IH(1) by (simp add: repairer_ok_def)
  have "count_list (served (tr @ es)) x \<le> count_list (un @ unanswered ev) x + (if x \<in> set (re_answered re') then 1 else 0)" for x
  proof (cases "unanswered ev = []")
    case True
    then have "serve_step re es re'" using step by simp
    then have "distinct (served es)" "x \<in> set (served es) \<Longrightarrow> x \<notin> set (re_answered re)"
      "set (re_answered re') = set (re_answered re) \<union> set (served es)"
      using rq unfolding serve_step_def by blast+
    then show ?thesis
      using cnt [of x] True
      by (auto simp: count_list_append count_list_distinct split: if_splits)
  next
    case False
    then obtain y where "unanswered ev = [y]" by (cases ev) auto
    then show ?thesis
      using step cnt [of x] False by (auto simp: count_list_append split: if_splits)
  qed
  then show ?case
    using step IH(2) admits_consts [OF IH(2), of b3] by auto
qed auto

lemma authorize_missing:
  assumes inv: "repair_inv OK {} {} re" and b: "cache_sound OK b" and r: "r = (a, Suc k, d)"
    and new: "\<not> settled_ref re r" and missing: "usable_parent b a (Suc k) d = None"
    and out: "authorize r re b = (re', b', es)"
  shows "pending_ref re' r" "blocked_ref re' r = Some d"
proof -
  define re1 where "re1 = note_authorized (ci_slot (re_index re) a) (Suc k) d re"
  note one = note_authorized_inv [OF inv, of a "Suc k" d, folded re1_def]
  have settled1: "\<not> settled_ref re1 r"
  proof (cases "pending_ref re r")
    case True
    then show ?thesis
      using note_authorized_same [OF repair_inv_br [OF inv], of a "Suc k" d] new r by (simp add: re1_def)
  next
    case False
    then show ?thesis
      using change_position_refs(2) [OF note_authorized_change(1) [OF repair_inv_br [OF inv], of a "Suc k" d], of r] new r
      by (auto simp: re1_def settled_ref_def repair_position_default_def split: option.splits)
  qed
  define re2 where "re2 = fst (request_missing b a (Suc k) d re1)"
  have core: "repair_core re2 = repair_core re1" by (simp add: re2_def request_missing_core)
  note refs = repair_core_refs [OF core]
  have "\<not> is_settled_at re1 (ci_slot (re_index re) a) (Suc k) d"
    using settled1 r one(3) by (simp add: is_settled_at_def settled_ref_def br_map_def)
  then have re': "re' = block_ref_on (ci_slot (re_index re2) (ref_author r)) d r re2"
    using out missing r refs(7) one(3)
    by (auto simp: authorize_def settle_def Let_def re1_def [symmetric] re2_def [symmetric] split_beta record_blocked_def)
  have inv2: "repair_inv OK {} {r} re2" using one(1) r repair_inv_core [OF core] by simp
  note blk = block_ref_on_inv [OF inv2, where r = r and h = d, folded re']
  show pend: "pending_ref re' r"
    using blk(5) refs(2) one(2) settled1 r by simp
  have "blocked_ref re2 r = Some d \<or> blocked_ref re' r = Some d"
    using change_position_refs(3) [OF block_ref_on_change(1) [OF repair_inv_br [OF inv2], of r d, folded re'], of r] pend blk(5) [of r]
    by (auto simp: pending_ref_def split: option.splits)
  then show "blocked_ref re' r = Some d"
    using change_position_refs(3) [OF block_ref_on_change(1) [OF repair_inv_br [OF inv2], of r d, folded re'], of r] pend blk(5) [of r]
    by (auto simp: pending_ref_def split: option.splits)
qed

section \<open>Properties\<close>

text \<open>C15. In every reachable state of the repairer, whatever the other components do to the shared
  cache, a settled reference is linked by valid blocks, each at its exact author, height and
  identifier, to a block of height one whose predecessor is the genesis digest.\<close>

theorem settled_through_genesis:
  assumes "committee_ok c" and "repair_run b3 (repairer_new name c sid g m) re b tr un" and "settled_ref re r"
  shows "rooted (block_ok b3 c sid m) (\<lambda>p. p = g) r"
proof -
  have new: "re_answered (repairer_new name c sid g m) = []" by (simp add: repairer_new_def Let_def)
  have run: "repairer_ok b3 re" "repair_consts re = repair_consts (repairer_new name c sid g m)"
    using repair_run_inv [OF assms(2) repairer_new_ok [OF assms(1)] new] by blast+
  then have "admits b3 re = block_ok b3 c sid m" "re_genesis re = g"
    by (simp_all add: repair_consts_def admits_def repairer_new_def Let_def)
  then show ?thesis
    using run(1) repair_invD [of "admits b3 re" "{}" "{}" re r] assms(3) by (simp add: repairer_ok_def ref_inv_def)
qed

text \<open>C16. No authorised reference is forgotten: a pending reference either waits for one missing
  digest, and the arrival of that block settles it as soon as the cache holds its chain down to
  genesis, or it can never settle, because it has height zero or its valid chain ends at another
  genesis.\<close>

theorem authorized_reference_settles:
  assumes "committee_ok c" and "repair_run b3 (repairer_new name c sid g m) re b tr un" and "pending_ref re r"
  shows "case blocked_ref re r of
      None \<Rightarrow> ref_height r = 0 \<or> rooted (block_ok b3 c sid m) (\<lambda>p. p \<noteq> g) r
    | Some h \<Rightarrow> \<forall>b'. cache_sound (block_ok b3 c sid m) b' \<and> held_ref b' g r \<longrightarrow>
        settled_ref (fst (on_block_available h re b')) r"
proof -
  have new: "re_answered (repairer_new name c sid g m) = []" by (simp add: repairer_new_def Let_def)
  have run: "repairer_ok b3 re" "repair_consts re = repair_consts (repairer_new name c sid g m)"
    using repair_run_inv [OF assms(2) repairer_new_ok [OF assms(1)] new] by blast+
  then have eqs: "admits b3 re = block_ok b3 c sid m" "re_genesis re = g"
    by (simp_all add: repair_consts_def admits_def repairer_new_def Let_def)
  have inv: "repair_inv (block_ok b3 c sid m) {} {} re"
    using run(1) eqs by (simp add: repairer_ok_def)
  show ?thesis
  proof (cases "blocked_ref re r")
    case None
    then show ?thesis
      using repair_invD [OF inv, of r] assms(3) eqs by (simp add: ref_inv_def)
  next
    case (Some h)
    have "settled_ref (fst (on_block_available h re b')) r"
      if "cache_sound (block_ok b3 c sid m) b'" "held_ref b' g r" for b'
    proof -
      obtain re1 b1 es1 where "on_block_available h re b' = (re1, b1, es1)" by (metis prod.exhaust)
      then show ?thesis
        using on_block_available_inv(5) [OF inv that(1), of h re1 b1 es1 r] assms(3) Some that(2) eqs by simp
    qed
    then show ?thesis using Some by simp
  qed
qed

text \<open>C17. Each peer receives each block at most once, plus once for every response that the
  transport dropped and that was withdrawn.\<close>

theorem served_at_most_once:
  assumes "committee_ok c" and "repair_run b3 (repairer_new name c sid g m) re b tr un"
  shows "count_list (served tr) (peer, h) \<le> 1 + count_list un (peer, h)"
proof -
  have "re_answered (repairer_new name c sid g m) = []" by (simp add: repairer_new_def Let_def)
  then have "count_list (served tr) (peer, h) \<le> count_list un (peer, h) + (if (peer, h) \<in> set (re_answered re) then 1 else 0)"
    using repair_run_inv [OF assms(2) repairer_new_ok [OF assms(1)]] by blast
  then show ?thesis by (simp split: if_splits)
qed

text \<open>C18. The counters of the repairer are exact and bounded: the requests in flight are those of the
  open rounds and never exceed 512, the emission limits stay between 256 and 65536, and the number
  of pending references is the size of the pending set, so no decrement underflows.\<close>

theorem repair_counters_exact:
  assumes "committee_ok c" and "repair_run b3 (repairer_new name c sid g m) re b tr un"
  shows "re_in_flight re = in_flight_asks (re_fanout re) \<and> re_in_flight re \<le> 512
    \<and> 256 \<le> re_emit_ceiling re \<and> re_emit_ceiling re \<le> 65536 \<and> re_emit_budget re \<le> re_emit_ceiling re
    \<and> re_pending_settle re = card {r. pending_ref re r}"
proof -
  have "re_answered (repairer_new name c sid g m) = []" by (simp add: repairer_new_def Let_def)
  then have "repairer_ok b3 re"
    using repair_run_inv [OF assms(2) repairer_new_ok [OF assms(1)]] by blast
  then show ?thesis
    unfolding repairer_ok_def requests_ok_def repair_inv_def by blast
qed

definition demo_repairer :: repairer where
  "demo_repairer = repairer_new (PublicKey 2) demo_committee (Digest 9) (Digest 0) 4"

definition demo_first :: header where
  "demo_first = demo_block 1 [] (Digest 0)"

definition demo_ref :: block_ref where
  "demo_ref = (PublicKey 1, Suc 0, h_id demo_first)"

definition demo_held :: block_cache where
  "demo_held = upsert demo_first False True False True bc_new"

lemma demo_first_ok: "block_ok demo_hash demo_committee (Digest 9) 4 demo_first"
  by (simp add: demo_first_def demo_block_def block_ok_def new_vantage_def header_digest_def header_bytes_def
      stake_of_def has_worker_def demo_committee_def Let_def)

lemma demo_sound: "cache_sound (block_ok demo_hash demo_committee (Digest 9) 4) bc_new"
  "cache_sound (block_ok demo_hash demo_committee (Digest 9) 4) demo_held"
proof -
  show new: "cache_sound (block_ok demo_hash demo_committee (Digest 9) 4) bc_new"
    by (simp add: cache_sound_def bc_new_def bc_get_def)
  show "cache_sound (block_ok demo_hash demo_committee (Digest 9) 4) demo_held"
    unfolding demo_held_def by (rule sound_upsert [OF new demo_first_ok])
qed

lemma demo_held_ref: "held_ref demo_held (Digest 0) demo_ref"
proof -
  have f: "h_author demo_first = PublicKey 1" "h_height demo_first = Suc 0"
    "cert_header_digest (h_parent_cert demo_first) = Digest 0"
    by (simp_all add: demo_first_def demo_block_def new_vantage_def Let_def)
  have "bc_get bc_new d = None" for d by (simp add: bc_get_def bc_new_def)
  then show ?thesis
    by (simp add: demo_held_def demo_ref_def usable_parent_def bc_get_upsert parent_of_def f)
qed

lemma demo_repairer_consts:
  "admits demo_hash demo_repairer = block_ok demo_hash demo_committee (Digest 9) 4" "re_genesis demo_repairer = Digest 0"
  "repair_inv (block_ok demo_hash demo_committee (Digest 9) 4) {} {} demo_repairer"
proof -
  show eq: "admits demo_hash demo_repairer = block_ok demo_hash demo_committee (Digest 9) 4"
    and "re_genesis demo_repairer = Digest 0"
    by (simp_all add: demo_repairer_def repairer_new_def Let_def admits_def)
  show "repair_inv (block_ok demo_hash demo_committee (Digest 9) 4) {} {} demo_repairer"
    using repairer_new_ok [OF demo_committee_ok, of demo_hash "PublicKey 2" "Digest 9" "Digest 0" 4] eq
    by (simp add: repairer_ok_def demo_repairer_def)
qed

lemma demo_repair_run:
  assumes "cache_sound (block_ok demo_hash demo_committee (Digest 9) 4) b"
    and "authorize demo_ref demo_repairer b = (re, b', es)"
  shows "repair_run demo_hash demo_repairer re b' es []"
  using repair_event [OF repair_start, of demo_hash demo_repairer b "RAuthorize demo_ref" re b' es] assms
  by (simp add: demo_repairer_consts)

theorem settled_through_genesis_witness:
  "\<exists>re b es. authorize demo_ref demo_repairer demo_held = (re, b, es) \<and> settled_ref re demo_ref
     \<and> rooted (block_ok demo_hash demo_committee (Digest 9) 4) (\<lambda>p. p = Digest 0) demo_ref"
proof -
  obtain re b es where out: "authorize demo_ref demo_repairer demo_held = (re, b, es)" by (metis prod.exhaust)
  have s: "settled_ref re demo_ref"
    using authorize_inv(6) [OF demo_repairer_consts(3) demo_sound(2) out] demo_held_ref by (simp add: demo_repairer_consts)
  from settled_through_genesis [OF demo_committee_ok demo_repair_run [OF demo_sound(2) out, unfolded demo_repairer_def] s] s out
  show ?thesis by blast
qed

theorem authorized_reference_settles_witness:
  "\<exists>re b es. authorize demo_ref demo_repairer bc_new = (re, b, es) \<and> pending_ref re demo_ref
     \<and> settled_ref (fst (on_block_available (h_id demo_first) re demo_held)) demo_ref"
proof -
  obtain re b es where out: "authorize demo_ref demo_repairer bc_new = (re, b, es)" by (metis prod.exhaust)
  have "\<not> settled_ref demo_repairer demo_ref"
    using repairer_new_unsettled by (simp add: demo_repairer_def)
  moreover have "usable_parent bc_new (PublicKey 1) (Suc 0) (h_id demo_first) = None"
    by (simp add: usable_parent_def bc_new_def bc_get_def)
  ultimately have p: "pending_ref re demo_ref" "blocked_ref re demo_ref = Some (h_id demo_first)"
    using authorize_missing [OF demo_repairer_consts(3) demo_sound(1) demo_ref_def _ _ out] by blast+
  have "settled_ref (fst (on_block_available (h_id demo_first) re demo_held)) demo_ref"
    using authorized_reference_settles [OF demo_committee_ok demo_repair_run [OF demo_sound(1) out, unfolded demo_repairer_def] p(1)]
      p(2) demo_sound(2) demo_held_ref by simp
  with p out show ?thesis by blast
qed

theorem served_at_most_once_witness:
  "\<exists>re b es. authorize demo_ref demo_repairer demo_held = (re, b, es) \<and> count_list (served es) (PublicKey 3, Digest 5) \<le> 1"
proof -
  obtain re b es where out: "authorize demo_ref demo_repairer demo_held = (re, b, es)" by (metis prod.exhaust)
  from served_at_most_once [OF demo_committee_ok demo_repair_run [OF demo_sound(2) out, unfolded demo_repairer_def]] out
  show ?thesis by force
qed

theorem repair_counters_exact_witness:
  "\<exists>re b es. authorize demo_ref demo_repairer bc_new = (re, b, es) \<and> re_in_flight re \<le> 512"
proof -
  obtain re b es where out: "authorize demo_ref demo_repairer bc_new = (re, b, es)" by (metis prod.exhaust)
  from repair_counters_exact [OF demo_committee_ok demo_repair_run [OF demo_sound(1) out, unfolded demo_repairer_def]] out
  show ?thesis by blast
qed

end
