(* ===== verification/Agb_Engine.thy ===== *)
theory Agb_Engine
  imports Repair
begin

text \<open>
  The graded-broadcast engine of \<^verbatim>\<open>primary/src/vantage/agb.rs\<close>: one state per view with the fixed
  proposal, the echo and ready statements and their tallies, the fast-seal lock, the stance towards
  resolution, skip votes and the terminal seal. A handler returns the engine with the repairer, the
  shared cache and the effects it emits, in the order of the code. The lane manager is only read.
  Proposal digests come from the codec \<open>cd\<close>. Hash maps are ordered, so the first guarded quorum
  found by \<^verbatim>\<open>ready_candidate\<close> is the one of least digest. Instants are milliseconds, and instants,
  counters and routes that only metrics read are left out.
\<close>

section \<open>State\<close>

datatype fixed = FUnset | FReject | FProposal proposal_out digest

datatype echo_statement = EGraded proposal_out digest grade "grade option list" | ESkip

record echo_tally =
  et_proposal :: proposal_out
  et_grade_one :: stake
  et_grade_zero :: stake
  et_one_parties :: nat
  et_zero_parties :: nat
  et_origin_ones :: "nat list"

record ready_tally =
  rt_proposal :: proposal_out
  rt_any :: stake
  rt_grade_one :: stake
  rt_grade_zero :: stake

datatype ready_statement = RGraded proposal_out digest ready_grade | RNoReady

record lock =
  lk_proposal :: proposal_out
  lk_digest :: digest
  lk_active :: bool

datatype stance = Free | NonSkip | SkipVoted

datatype meta_status = MetaOk | MetaNotYet | MetaNever

datatype direct_vote_decision = VoteAccept "grade option" | VoteNotYet | VoteNever

record view_state =
  vs_fixed :: fixed
  vs_echo_sent :: bool
  vs_ready_sent :: bool
  vs_ready_mix_open :: bool
  vs_completed :: "(manifest \<times> manifest) option"
  vs_completed_open_unsealed :: bool
  vs_directed :: "outcome option"
  vs_sealed :: "outcome option"
  vs_fastsealed :: bool
  vs_active :: bool
  vs_entered :: bool
  vs_entry_instant :: "instant option"
  vs_first_proposal_instant :: "instant option"
  vs_echo_statements :: "(public_key, echo_statement) omap"
  vs_echo_tallies :: "(digest, echo_tally) omap"
  vs_echo_skip_parties :: nat
  vs_ready_statements :: "(public_key, ready_statement) omap"
  vs_ready_tallies :: "(digest, ready_tally) omap"
  vs_ready_non_grade_one_parties :: nat
  vs_ready_zero_or_noready_parties :: nat
  vs_noready_parties :: nat
  vs_lock :: "lock option"
  vs_digest_cache :: "(proposal_out \<times> digest) list"
  vs_stance :: stance
  vs_aux_accepted :: bool
  vs_skip_vote_statements :: "public_key oset"
  vs_skip_sealed :: bool

definition view_state_default :: view_state where
  "view_state_default =
     \<lparr>vs_fixed = FUnset, vs_echo_sent = False, vs_ready_sent = False, vs_ready_mix_open = False,
      vs_completed = None, vs_completed_open_unsealed = False, vs_directed = None, vs_sealed = None,
      vs_fastsealed = False, vs_active = False, vs_entered = False, vs_entry_instant = None,
      vs_first_proposal_instant = None, vs_echo_statements = [], vs_echo_tallies = [],
      vs_echo_skip_parties = 0, vs_ready_statements = [], vs_ready_tallies = [],
      vs_ready_non_grade_one_parties = 0, vs_ready_zero_or_noready_parties = 0, vs_noready_parties = 0,
      vs_lock = None, vs_digest_cache = [], vs_stance = Free, vs_aux_accepted = False,
      vs_skip_vote_statements = [], vs_skip_sealed = False\<rparr>"

record agb_engine =
  ae_name :: public_key
  ae_committee :: committee
  ae_sid :: digest
  ae_delta :: nat
  ae_n :: nat
  ae_f_plus_1_parties :: nat
  ae_quorum_parties :: nat
  ae_quorum :: stake
  ae_proposers :: "public_key list"
  ae_views :: "(view, view_state) omap"
  ae_pending_gate :: "view oset"
  ae_recheck_cursor :: view
  ae_min_live_view :: view

text \<open>The round-robin schedule asserts a non-empty committee.\<close>

definition agb_new :: "public_key \<Rightarrow> committee \<Rightarrow> digest \<Rightarrow> nat \<Rightarrow> agb_engine option" where
  "agb_new name c sid delta_ms =
     map_option (\<lambda>proposers.
       \<lparr>ae_name = name, ae_committee = c, ae_sid = sid, ae_delta = delta_ms, ae_n = committee_size c,
        ae_f_plus_1_parties = f_plus_1_parties (from_party_count (committee_size c)),
        ae_quorum_parties = n_minus_f_parties (from_party_count (committee_size c)),
        ae_quorum = quorum_threshold c, ae_proposers = proposers, ae_views = [], ae_pending_gate = [],
        ae_recheck_cursor = 1, ae_min_live_view = 1\<rparr>) (round_robin_new c)"

abbreviation theta_echo :: "agb_engine \<Rightarrow> nat" where "theta_echo eng \<equiv> ae_delta eng * 3"
abbreviation theta_ready :: "agb_engine \<Rightarrow> nat" where "theta_ready eng \<equiv> ae_delta eng * 4"
abbreviation recheck_budget :: nat where "recheck_budget \<equiv> 64"

abbreviation agb_pruned :: "agb_engine \<Rightarrow> view \<Rightarrow> bool" where
  "agb_pruned eng v \<equiv> v < ae_min_live_view eng"

text \<open>A read of an absent view is a read of the default state; \<^verbatim>\<open>state_mut\<close> inserts it.\<close>

definition view_at :: "agb_engine \<Rightarrow> view \<Rightarrow> view_state" where
  "view_at eng v = (case map_of (ae_views eng) v of None \<Rightarrow> view_state_default | Some s \<Rightarrow> s)"

definition state_mut :: "view \<Rightarrow> (view_state \<Rightarrow> view_state) \<Rightarrow> agb_engine \<Rightarrow> agb_engine" where
  "state_mut v f eng = eng\<lparr>ae_views := om_upd v view_state_default f (ae_views eng)\<rparr>"

definition agb_gc_below :: "view \<Rightarrow> agb_engine \<Rightarrow> agb_engine" where
  "agb_gc_below floor eng =
     (if floor \<le> ae_min_live_view eng then eng
      else eng\<lparr>ae_views := om_from floor (ae_views eng), ae_pending_gate := os_from floor (ae_pending_gate eng),
               ae_min_live_view := floor\<rparr>)"

definition wish_effect :: "agb_engine \<Rightarrow> view \<Rightarrow> response_stage \<Rightarrow> effect list" where
  "wish_effect eng view stage =
     (case stage of
        StageEcho \<Rightarrow>
          (let prev = view - 1
           in if prev = 0 \<or> agb_pruned eng prev \<or> vs_ready_sent (view_at eng prev) then [RaiseWish (view + 2)] else [])
      | StageReady \<Rightarrow>
          (let next_view = view + 1
           in if agb_pruned eng next_view \<or> vs_echo_sent (view_at eng next_view) then [RaiseWish (view + 3)] else []))"

definition canonical_proposal :: "codec \<Rightarrow> view \<Rightarrow> proposal_out \<Rightarrow> agb_engine \<Rightarrow> agb_engine \<times> proposal_out \<times> digest" where
  "canonical_proposal cd view proposal eng =
     (case find (\<lambda>(p, _). p = proposal) (vs_digest_cache (view_at eng view)) of
        Some (p, d) \<Rightarrow> (eng, p, d)
      | None \<Rightarrow>
          (let d = p_digest cd (ae_sid eng) proposal
           in (state_mut view (\<lambda>s. s\<lparr>vs_digest_cache := vs_digest_cache s @ [(proposal, d)]\<rparr>) eng, proposal, d)))"

section \<open>Statements and tallies\<close>

fun add_origin :: "nat \<Rightarrow> grade option list \<Rightarrow> nat list \<Rightarrow> nat list" where
  "add_origin i [] ones = ones"
| "add_origin i (o1 # os) ones = add_origin (Suc i) os (if o1 = Some 1 then ones[i := ones ! i + 1] else ones)"

definition add_echo :: "stake \<Rightarrow> grade \<Rightarrow> grade option list \<Rightarrow> echo_tally \<Rightarrow> echo_tally" where
  "add_echo stake grade origin tally =
     (let tally = (if grade = 1
                   then tally\<lparr>et_grade_one := et_grade_one tally + stake, et_one_parties := et_one_parties tally + 1\<rparr>
                   else tally\<lparr>et_grade_zero := et_grade_zero tally + stake, et_zero_parties := et_zero_parties tally + 1\<rparr>)
      in tally\<lparr>et_origin_ones := add_origin 0 origin (et_origin_ones tally)\<rparr>)"

definition record_echo :: "stake \<Rightarrow> public_key \<Rightarrow> echo_statement \<Rightarrow> view_state \<Rightarrow> view_state" where
  "record_echo stake sender statement s =
     (let s = (case statement of
                 EGraded proposal d grade origin \<Rightarrow>
                   s\<lparr>vs_echo_tallies := om_upd d
                       \<lparr>et_proposal = proposal, et_grade_one = 0, et_grade_zero = 0, et_one_parties = 0,
                        et_zero_parties = 0, et_origin_ones = replicate (length (p_entries proposal)) 0\<rparr>
                       (add_echo stake grade origin) (vs_echo_tallies s)\<rparr>
               | ESkip \<Rightarrow> s\<lparr>vs_echo_skip_parties := vs_echo_skip_parties s + 1\<rparr>)
      in s\<lparr>vs_echo_statements := om_put sender statement (vs_echo_statements s)\<rparr>)"

definition count_echo_statement :: "view \<Rightarrow> public_key \<Rightarrow> echo_statement \<Rightarrow> agb_engine \<Rightarrow> agb_engine \<times> bool" where
  "count_echo_statement view sender statement eng =
     (if agb_pruned eng view then (eng, False)
      else if om_has (vs_echo_statements (view_at eng view)) sender then (state_mut view (\<lambda>s. s) eng, False)
      else (state_mut view (record_echo (stake_of (ae_committee eng) sender) sender statement) eng, True))"

definition record_ready :: "stake \<Rightarrow> public_key \<Rightarrow> ready_statement \<Rightarrow> view_state \<Rightarrow> view_state" where
  "record_ready stake sender statement s =
     (let s = (case statement of
                 RGraded proposal d grade \<Rightarrow>
                   (let s = s\<lparr>vs_ready_tallies := om_upd d
                          \<lparr>rt_proposal = proposal, rt_any = 0, rt_grade_one = 0, rt_grade_zero = 0\<rparr>
                          (\<lambda>t. t\<lparr>rt_any := rt_any t + stake,
                                 rt_grade_one := rt_grade_one t + (if grade = GOne then stake else 0),
                                 rt_grade_zero := rt_grade_zero t + (if grade = GZero then stake else 0)\<rparr>)
                          (vs_ready_tallies s)\<rparr>
                    in s\<lparr>vs_ready_non_grade_one_parties :=
                           vs_ready_non_grade_one_parties s + (if grade = GOne then 0 else 1),
                         vs_ready_zero_or_noready_parties :=
                           vs_ready_zero_or_noready_parties s + (if grade = GZero then 1 else 0)\<rparr>)
               | RNoReady \<Rightarrow>
                   s\<lparr>vs_ready_non_grade_one_parties := vs_ready_non_grade_one_parties s + 1,
                     vs_ready_zero_or_noready_parties := vs_ready_zero_or_noready_parties s + 1,
                     vs_noready_parties := vs_noready_parties s + 1\<rparr>)
      in s\<lparr>vs_ready_statements := om_put sender statement (vs_ready_statements s)\<rparr>)"

definition refine_ready :: "stake \<Rightarrow> public_key \<Rightarrow> proposal_out \<Rightarrow> digest \<Rightarrow> ready_grade \<Rightarrow> view_state \<Rightarrow> view_state" where
  "refine_ready stake sender proposal d grade s =
     s\<lparr>vs_ready_tallies :=
         (case map_of (vs_ready_tallies s) d of
            None \<Rightarrow> vs_ready_tallies s
          | Some t \<Rightarrow> om_put d
              (if grade = GOne then t\<lparr>rt_grade_one := rt_grade_one t + stake\<rparr>
               else t\<lparr>rt_grade_zero := rt_grade_zero t + stake\<rparr>) (vs_ready_tallies s)),
       vs_ready_zero_or_noready_parties := vs_ready_zero_or_noready_parties s + (if grade = GZero then 1 else 0),
       vs_ready_statements := om_put sender (RGraded proposal d grade) (vs_ready_statements s)\<rparr>"

fun valid_refinement :: "ready_statement \<Rightarrow> ready_statement \<Rightarrow> bool" where
  "valid_refinement (RGraded _ old_digest GMix) (RGraded _ new_digest grade) \<longleftrightarrow> grade \<noteq> GMix \<and> old_digest = new_digest"
| "valid_refinement _ _ \<longleftrightarrow> False"

definition count_ready_statement :: "view \<Rightarrow> public_key \<Rightarrow> ready_statement \<Rightarrow> agb_engine \<Rightarrow> agb_engine \<times> bool" where
  "count_ready_statement view sender statement eng =
     (if agb_pruned eng view then (eng, False)
      else let stake = stake_of (ae_committee eng) sender; s = view_at eng view
           in case map_of (vs_ready_statements s) sender of
                Some existing \<Rightarrow>
                  (case statement of
                     RGraded proposal d grade \<Rightarrow>
                       if valid_refinement existing statement \<and> om_has (vs_ready_tallies s) d
                       then (state_mut view (refine_ready stake sender proposal d grade) eng, True)
                       else (state_mut view (\<lambda>s. s) eng, False)
                   | RNoReady \<Rightarrow> (state_mut view (\<lambda>s. s) eng, False))
              | None \<Rightarrow> (state_mut view (record_ready stake sender statement) eng, True))"

definition count_skip_vote_statement :: "view \<Rightarrow> public_key \<Rightarrow> agb_engine \<Rightarrow> agb_engine \<times> bool" where
  "count_skip_vote_statement view sender eng =
     (if agb_pruned eng view then (eng, False)
      else (state_mut view (\<lambda>s. s\<lparr>vs_skip_vote_statements := os_ins sender (vs_skip_vote_statements s)\<rparr>) eng,
            sender \<notin> set (vs_skip_vote_statements (view_at eng view))))"

definition matching_echo_count :: "agb_engine \<Rightarrow> view \<Rightarrow> digest \<Rightarrow> nat" where
  "matching_echo_count eng view locked_digest =
     (case map_of (vs_echo_tallies (view_at eng view)) locked_digest of None \<Rightarrow> 0 | Some t \<Rightarrow> et_one_parties t)"

definition nonmatching_echo_count :: "agb_engine \<Rightarrow> view \<Rightarrow> digest \<Rightarrow> nat" where
  "nonmatching_echo_count eng view locked_digest =
     length (vs_echo_statements (view_at eng view)) - matching_echo_count eng view locked_digest"

section \<open>Seals\<close>

fun outcomes_compatible :: "outcome \<Rightarrow> outcome \<Rightarrow> bool" where
  "outcomes_compatible (OFull c1 t1) (OFull c2 t2) \<longleftrightarrow> c1 = c2 \<and> t1 = t2"
| "outcomes_compatible (OCore c1) (OCore c2) \<longleftrightarrow> c1 = c2"
| "outcomes_compatible (OFull c1 _) (OCore c2) \<longleftrightarrow> c1 = c2"
| "outcomes_compatible (OCore c2) (OFull c1 _) \<longleftrightarrow> c1 = c2"
| "outcomes_compatible OSkip OSkip \<longleftrightarrow> True"
| "outcomes_compatible _ _ \<longleftrightarrow> False"

definition try_seal :: "view \<Rightarrow> outcome \<Rightarrow> agb_engine \<Rightarrow> agb_engine \<times> effect list" where
  "try_seal view outcome eng =
     (if agb_pruned eng view then (eng, [])
      else case vs_sealed (view_at eng view) of
             Some existing \<Rightarrow> (state_mut view (\<lambda>s. s) eng, [])
           | None \<Rightarrow> (state_mut view (\<lambda>s. s\<lparr>vs_completed_open_unsealed := False, vs_sealed := Some outcome\<rparr>) eng,
                      [Sealed view outcome]))"

definition submit_resolution :: "view \<Rightarrow> outcome \<Rightarrow> agb_engine \<Rightarrow> agb_engine \<times> effect list" where
  "submit_resolution view outcome eng = (if agb_pruned eng view then (eng, []) else try_seal view outcome eng)"

definition record_lock :: "view \<Rightarrow> proposal_out \<Rightarrow> digest \<Rightarrow> agb_engine \<Rightarrow> agb_engine" where
  "record_lock view proposal d eng =
     (if agb_pruned eng view then eng
      else if vs_lock (view_at eng view) \<noteq> None then state_mut view (\<lambda>s. s) eng
      else state_mut view (\<lambda>s. s\<lparr>vs_lock := Some \<lparr>lk_proposal = proposal, lk_digest = d,
             lk_active = nonmatching_echo_count eng view d < ae_f_plus_1_parties eng\<rparr>\<rparr>) eng)"

definition recheck_lock_release :: "view \<Rightarrow> agb_engine \<Rightarrow> agb_engine" where
  "recheck_lock_release view eng =
     (case vs_lock (view_at eng view) of
        None \<Rightarrow> eng
      | Some lock \<Rightarrow>
          if \<not> lk_active lock then eng
          else if nonmatching_echo_count eng view (lk_digest lock) \<ge> ae_f_plus_1_parties eng
          then state_mut view (\<lambda>s. s\<lparr>vs_lock := Some (lock\<lparr>lk_active := False\<rparr>)\<rparr>) eng
          else eng)"

definition recheck_fastseal_trigger :: "view \<Rightarrow> agb_engine \<Rightarrow> agb_engine \<times> effect list" where
  "recheck_fastseal_trigger view eng =
     (case vs_lock (view_at eng view) of
        None \<Rightarrow> (eng, [])
      | Some lock \<Rightarrow>
          if \<not> lk_active lock \<or> vs_fastsealed (view_at eng view)
             \<or> matching_echo_count eng view (lk_digest lock) \<noteq> ae_n eng then (eng, [])
          else try_seal view (OFull (p_c (lk_proposal lock)) (p_t (lk_proposal lock)))
                 (state_mut view (\<lambda>s. s\<lparr>vs_fastsealed := True\<rparr>) eng))"

definition recheck_skip_seal_trigger :: "view \<Rightarrow> agb_engine \<Rightarrow> agb_engine \<times> effect list" where
  "recheck_skip_seal_trigger u eng =
     (if agb_pruned eng u \<or> vs_skip_sealed (view_at eng u)
         \<or> length (vs_skip_vote_statements (view_at eng u)) < ae_quorum_parties eng then (eng, [])
      else try_seal u OSkip (state_mut u (\<lambda>s. s\<lparr>vs_skip_sealed := True\<rparr>) eng))"

definition on_skip_vote :: "view \<Rightarrow> public_key \<Rightarrow> agb_engine \<Rightarrow> agb_engine \<times> effect list" where
  "on_skip_vote view sender eng =
     (if agb_pruned eng view then (eng, [])
      else let (eng, fresh) = count_skip_vote_statement view sender eng
           in if \<not> fresh then (eng, []) else recheck_skip_seal_trigger view eng)"

definition recheck_skip_vote_trigger :: "view \<Rightarrow> agb_engine \<Rightarrow> agb_engine \<times> effect list" where
  "recheck_skip_vote_trigger u eng =
     (let s = view_at eng u
      in if agb_pruned eng u
            \<or> \<not> (vs_stance s = Free \<and> map_of (vs_ready_statements s) (ae_name eng) = Some RNoReady
                  \<and> (case vs_sealed s of Some (OFull _ _) \<Rightarrow> False | Some (OCore _) \<Rightarrow> False | _ \<Rightarrow> True))
            \<or> vs_echo_skip_parties s < ae_quorum_parties eng then (eng, [])
         else let eng = state_mut u (\<lambda>s. s\<lparr>vs_stance := SkipVoted\<rparr>) eng;
                  eng = fst (count_skip_vote_statement u (ae_name eng) eng);
                  (eng, es) = recheck_skip_seal_trigger u eng
              in (eng, BroadcastSkipVote u # es))"

section \<open>Ready responses and completion\<close>

text \<open>Authorising the references of a proposal one after the other.\<close>

fun authorize_all :: "block_ref list \<Rightarrow> repairer \<Rightarrow> block_cache \<Rightarrow> repairer \<times> block_cache \<times> effect list" where
  "authorize_all [] re b = (re, b, [])"
| "authorize_all (r # rs) re b =
     (let (re, b, es) = authorize r re b; (re, b, es') = authorize_all rs re b in (re, b, es @ es'))"

type_synonym agb_out = "agb_engine \<times> repairer \<times> block_cache \<times> effect list"

definition build_ready_out :: "agb_engine \<Rightarrow> proposal_out \<Rightarrow> ready_grade \<Rightarrow> ready_out" where
  "build_ready_out eng proposal grade =
     (case proposal of
        PSingle p \<Rightarrow> ReadySingle \<lparr>r_proposal = p, r_grade = grade, r_sender = ae_name eng, r_wish = 0\<rparr>
      | PBatch p \<Rightarrow> ReadyBatchOut \<lparr>rb_proposal = p, rb_grade = grade, rb_sender = ae_name eng, rb_wish = 0\<rparr>)"

definition completion_step :: "view \<Rightarrow> ready_tally \<Rightarrow> agb_engine \<Rightarrow> repairer \<Rightarrow> block_cache \<Rightarrow> agb_out" where
  "completion_step view tally eng re b =
     (if rt_any tally \<ge> ae_quorum eng \<and> vs_completed (view_at eng view) = None then
        (let c = p_c (rt_proposal tally); t = p_t (rt_proposal tally);
             is_open = rt_grade_one tally < ae_quorum eng \<and> rt_grade_zero tally < ae_quorum eng \<and> t \<noteq> [];
             eng = state_mut view (\<lambda>s. s\<lparr>vs_completed := Some (c, t),
                     vs_completed_open_unsealed := is_open \<and> vs_sealed s = None\<rparr>) eng;
             (re, b, es) = authorize_all (c @ aux_refs_entries (p_entries (rt_proposal tally))) re b
         in (eng, re, b, es @ (if is_open then [QuarantineTips t] else []) @ [Completed view c t]))
      else (eng, re, b, []))"

definition direct_step :: "view \<Rightarrow> ready_tally \<Rightarrow> agb_engine \<Rightarrow> agb_engine \<times> effect list" where
  "direct_step view tally eng =
     (if vs_directed (view_at eng view) \<noteq> None then (state_mut view (\<lambda>s. s) eng, [])
      else if rt_grade_one tally \<ge> ae_quorum eng then
        (let outcome = OFull (p_c (rt_proposal tally)) (p_t (rt_proposal tally))
         in try_seal view outcome (state_mut view (\<lambda>s. s\<lparr>vs_directed := Some outcome\<rparr>) eng))
      else if rt_grade_zero tally \<ge> ae_quorum eng then
        (let outcome = OCore (p_c (rt_proposal tally))
         in try_seal view outcome (state_mut view (\<lambda>s. s\<lparr>vs_directed := Some outcome\<rparr>) eng))
      else (state_mut view (\<lambda>s. s) eng, []))"

definition recheck_completion_and_direct :: "view \<Rightarrow> digest \<Rightarrow> agb_engine \<Rightarrow> repairer \<Rightarrow> block_cache \<Rightarrow> agb_out" where
  "recheck_completion_and_direct view d eng re b =
     (if agb_pruned eng view then (eng, re, b, [])
      else case map_of (vs_ready_tallies (view_at eng view)) d of
             None \<Rightarrow> (eng, re, b, [])
           | Some tally \<Rightarrow>
               let (eng, re, b, es) = completion_step view tally eng re b;
                   (eng, es') = direct_step view tally eng
               in (eng, re, b, es @ es'))"

definition ready_guard :: "agb_engine \<Rightarrow> echo_tally \<Rightarrow> bool" where
  "ready_guard eng tally =
     list_all (\<lambda>(i, entry). case entry of RESkip _ \<Rightarrow> True | _ \<Rightarrow> et_origin_ones tally ! i \<ge> ae_f_plus_1_parties eng)
       (enumerate 0 (p_entries (et_proposal tally)))"

definition ready_candidate :: "agb_engine \<Rightarrow> view \<Rightarrow> (digest \<times> proposal_out \<times> ready_grade) option" where
  "ready_candidate eng view =
     map_option (\<lambda>(d, tally). (d, et_proposal tally,
         if et_grade_one tally \<ge> ae_quorum eng then GOne
         else if et_grade_zero tally \<ge> ae_quorum eng then GZero else GMix))
       (find (\<lambda>(d, tally). et_grade_one tally + et_grade_zero tally \<ge> ae_quorum eng \<and> ready_guard eng tally)
          (vs_echo_tallies (view_at eng view)))"

definition ready_refinement_candidate :: "agb_engine \<Rightarrow> view \<Rightarrow> (digest \<times> proposal_out \<times> ready_grade) option" where
  "ready_refinement_candidate eng view =
     (let s = view_at eng view
      in if \<not> vs_ready_mix_open s then None
         else case map_of (vs_ready_statements s) (ae_name eng) of
           Some (RGraded proposal d GMix) \<Rightarrow>
             (case map_of (vs_echo_tallies s) d of
                None \<Rightarrow> None
              | Some tally \<Rightarrow>
                  if et_grade_one tally \<ge> ae_quorum eng then Some (d, proposal, GOne)
                  else if et_grade_zero tally \<ge> ae_quorum eng then Some (d, proposal, GZero)
                  else None)
         | _ \<Rightarrow> None)"

definition finalize_mix_if_closed :: "view \<Rightarrow> bool \<Rightarrow> agb_engine \<Rightarrow> agb_engine" where
  "finalize_mix_if_closed view deadline eng =
     (let s = view_at eng view
      in if vs_ready_mix_open s \<and> (deadline \<or> length (vs_echo_statements s) = ae_n eng)
         then state_mut view (\<lambda>s. s\<lparr>vs_ready_mix_open := False\<rparr>) eng else eng)"

definition emit_initial_ready ::
    "view \<Rightarrow> digest \<Rightarrow> proposal_out \<Rightarrow> ready_grade \<Rightarrow> agb_engine \<Rightarrow> repairer \<Rightarrow> block_cache \<Rightarrow> agb_out" where
  "emit_initial_ready view d proposal grade eng re b =
     (let eng = state_mut view (\<lambda>s. s\<lparr>vs_ready_sent := True, vs_ready_mix_open := (grade = GMix)\<rparr>) eng;
          eng = fst (count_ready_statement view (ae_name eng) (RGraded proposal d grade) eng);
          es = wish_effect eng view StageReady @ [BroadcastReady (build_ready_out eng proposal grade)];
          (eng, re, b, es') = recheck_completion_and_direct view d eng re b
      in (finalize_mix_if_closed view False eng, re, b, es @ es'))"

definition emit_ready_refinement ::
    "view \<Rightarrow> digest \<Rightarrow> proposal_out \<Rightarrow> ready_grade \<Rightarrow> agb_engine \<Rightarrow> repairer \<Rightarrow> block_cache \<Rightarrow> agb_out" where
  "emit_ready_refinement view d proposal grade eng re b =
     (let (eng, accepted) = count_ready_statement view (ae_name eng) (RGraded proposal d grade) eng
      in if \<not> accepted then (eng, re, b, [])
         else let eng = state_mut view (\<lambda>s. s\<lparr>vs_ready_mix_open := False\<rparr>) eng;
                  (eng, re, b, es) = recheck_completion_and_direct view d eng re b
              in (eng, re, b, BroadcastReady (build_ready_out eng proposal grade) # es))"

definition recheck_ready :: "view \<Rightarrow> agb_engine \<Rightarrow> repairer \<Rightarrow> block_cache \<Rightarrow> agb_out" where
  "recheck_ready view eng re b =
     (if agb_pruned eng view then (eng, re, b, [])
      else let eng = state_mut view (\<lambda>s. s) eng
           in if \<not> vs_ready_sent (view_at eng view) then
                (case ready_candidate eng view of
                   Some (d, proposal, grade) \<Rightarrow> emit_initial_ready view d proposal grade eng re b
                 | None \<Rightarrow> (eng, re, b, []))
              else (case ready_refinement_candidate eng view of
                      Some (d, proposal, grade) \<Rightarrow> emit_ready_refinement view d proposal grade eng re b
                    | None \<Rightarrow> (finalize_mix_if_closed view False eng, re, b, [])))"

definition on_ready_timer :: "view \<Rightarrow> agb_engine \<Rightarrow> repairer \<Rightarrow> block_cache \<Rightarrow> agb_out" where
  "on_ready_timer view eng re b =
     (if agb_pruned eng view then (eng, re, b, [])
      else let eng = state_mut view (\<lambda>s. s) eng
           in if vs_ready_sent (view_at eng view) then
                (case ready_refinement_candidate eng view of
                   Some (d, proposal, grade) \<Rightarrow> emit_ready_refinement view d proposal grade eng re b
                 | None \<Rightarrow> (finalize_mix_if_closed view True eng, re, b, []))
              else (case ready_candidate eng view of
                      Some (d, proposal, grade) \<Rightarrow>
                        (let (eng, re, b, es) = emit_initial_ready view d proposal grade eng re b
                         in (finalize_mix_if_closed view True eng, re, b, es))
                    | None \<Rightarrow>
                        (let eng = state_mut view (\<lambda>s. s\<lparr>vs_ready_sent := True\<rparr>) eng;
                             eng = fst (count_ready_statement view (ae_name eng) RNoReady eng);
                             es = wish_effect eng view StageReady @ [BroadcastNoReady view];
                             (eng, es') = recheck_skip_vote_trigger view eng
                         in (eng, re, b, es @ es'))))"

definition on_ready_any :: "codec \<Rightarrow> ready_out \<Rightarrow> agb_engine \<Rightarrow> repairer \<Rightarrow> block_cache \<Rightarrow> agb_out" where
  "on_ready_any cd ready eng re b =
     (let view = ready_proposal_view ready
      in if agb_pruned eng view then (eng, re, b, [])
         else let (eng, proposal, d) = canonical_proposal cd view (ready_into_proposal ready) eng;
                  (eng, counted) = count_ready_statement view (ready_sender ready)
                                     (RGraded proposal d (ready_out_grade ready)) eng
              in if \<not> counted then (eng, re, b, []) else recheck_completion_and_direct view d eng re b)"

definition on_noready :: "view \<Rightarrow> public_key \<Rightarrow> agb_engine \<Rightarrow> agb_engine" where
  "on_noready view sender eng =
     (if agb_pruned eng view then eng else fst (count_ready_statement view sender RNoReady eng))"

section \<open>Resolution metadata\<close>

text \<open>A conjunction over references whose checks may extend the memo of the shared cache.\<close>

fun all_refs :: "('a \<Rightarrow> block_cache \<Rightarrow> block_cache \<times> bool) \<Rightarrow> 'a list \<Rightarrow> block_cache \<Rightarrow> block_cache \<times> bool" where
  "all_refs check [] b = (b, True)"
| "all_refs check (r # rs) b = (let (b, ok) = check r b in if ok then all_refs check rs b else (b, False))"

text \<open>Collecting the core entries into a map keeps the last entry of an author.\<close>

definition tip_ok_ref :: "lane_manager \<Rightarrow> manifest \<Rightarrow> block_ref \<Rightarrow> block_cache \<Rightarrow> block_cache \<times> bool" where
  "tip_ok_ref lm c t_ref b =
     (case map_of (rev (map (\<lambda>r. (ref_author r, r)) c)) (ref_author t_ref) of
        None \<Rightarrow> (b, True)
      | Some c_ref \<Rightarrow>
          if ref_height t_ref \<le> ref_height c_ref then (b, False)
          else let (b, held) = holds_prefix lm t_ref b
               in (b, held \<and> prefix_contains b lm t_ref c_ref))"

definition tip_ok :: "lane_manager \<Rightarrow> manifest \<Rightarrow> manifest \<Rightarrow> block_cache \<Rightarrow> block_cache \<times> bool" where
  "tip_ok lm c t b = all_refs (tip_ok_ref lm c) t b"

definition meta_entry_status :: "agb_engine \<Rightarrow> lane_manager \<Rightarrow> resolution_entry \<Rightarrow> block_cache \<Rightarrow> block_cache \<times> meta_status" where
  "meta_entry_status eng lm entry b =
     (let u = target_view entry; s = view_at eng u
      in if agb_pruned eng u then (b, MetaNever)
         else case (map_of (vs_echo_statements s) (ae_name eng), map_of (vs_ready_statements s) (ae_name eng)) of
           (Some own_echo, Some own_ready) \<Rightarrow>
             if vs_ready_mix_open s then (b, MetaNotYet)
             else if (case vs_lock s of
                        Some lock \<Rightarrow> lk_active lock \<and>
                          (case entry of REFull _ c t \<Rightarrow> \<not> (p_c (lk_proposal lock) = c \<and> p_t (lk_proposal lock) = t) | _ \<Rightarrow> True)
                      | None \<Rightarrow> False) then (b, MetaNotYet)
             else (case entry of
                     REFull _ c_u t_u \<Rightarrow>
                       if (case own_ready of
                             RGraded p _ grade \<Rightarrow> grade = GZero \<or> p_c p \<noteq> c_u \<or> p_t p \<noteq> t_u
                           | RNoReady \<Rightarrow> False) then (b, MetaNever)
                       else let (b, core) = all_refs (locally_available lm) c_u b
                            in if \<not> core then (b, MetaNotYet)
                               else let (b, tips) = all_refs (locally_available lm) t_u b
                                    in if \<not> tips then (b, MetaNotYet)
                                       else let (b, ok) = tip_ok lm c_u t_u b
                                            in (b, if ok then MetaOk else MetaNotYet)
                   | RECore _ c_u t_u \<Rightarrow>
                       if (case own_ready of
                             RGraded p _ grade \<Rightarrow> grade = GOne \<or> p_c p \<noteq> c_u \<or> p_t p \<noteq> t_u
                           | RNoReady \<Rightarrow> False) then (b, MetaNever)
                       else let (b, core) = all_refs (locally_available lm) c_u b
                            in (b, if core then MetaOk else MetaNotYet)
                   | RESkip _ \<Rightarrow> (b, if own_ready = RNoReady then MetaOk else MetaNever))
         | _ \<Rightarrow> (b, MetaNotYet))"

definition meta_ok_entry :: "agb_engine \<Rightarrow> lane_manager \<Rightarrow> resolution_entry \<Rightarrow> block_cache \<Rightarrow> block_cache \<times> bool" where
  "meta_ok_entry eng lm entry b = (let (b, status) = meta_entry_status eng lm entry b in (b, status = MetaOk))"

definition stance_excludes :: "agb_engine \<Rightarrow> resolution_entry \<Rightarrow> bool" where
  "stance_excludes eng entry =
     (case entry of
        RESkip _ \<Rightarrow> False
      | _ \<Rightarrow> \<not> agb_pruned eng (target_view entry)
             \<and> (vs_stance (view_at eng (target_view entry)) = SkipVoted
                \<or> vs_sealed (view_at eng (target_view entry)) = Some OSkip))"

definition claim_non_skip :: "resolution_entry \<Rightarrow> agb_engine \<Rightarrow> agb_engine" where
  "claim_non_skip entry eng =
     (case entry of
        RESkip _ \<Rightarrow> eng
      | _ \<Rightarrow> state_mut (target_view entry)
               (\<lambda>s. if vs_stance s = Free then s\<lparr>vs_stance := NonSkip\<rparr> else s) eng)"

definition try_meta_ok ::
    "view \<Rightarrow> resolution_entry list \<Rightarrow> lane_manager \<Rightarrow> agb_engine \<Rightarrow> block_cache \<Rightarrow> agb_engine \<times> block_cache \<times> bool" where
  "try_meta_ok w entries lm eng b =
     (if entries = [] \<or> vs_aux_accepted (view_at eng w) then (eng, b, True)
      else if list_ex (stance_excludes eng) entries then (eng, b, False)
      else let (b, ok) = all_refs (meta_ok_entry eng lm) entries b
           in if \<not> ok then (eng, b, False)
              else (state_mut w (\<lambda>s. s\<lparr>vs_aux_accepted := True\<rparr>) (fold claim_non_skip entries eng), b, True))"

definition compute_origin_entry :: "agb_engine \<Rightarrow> resolution_entry \<Rightarrow> grade option" where
  "compute_origin_entry eng entry =
     (let own_echo = map_of (vs_echo_statements (view_at eng (target_view entry))) (ae_name eng)
      in case entry of
           REFull _ c t \<Rightarrow>
             Some (case own_echo of Some (EGraded p _ g _) \<Rightarrow> if g = 1 \<and> p_c p = c \<and> p_t p = t then 1 else 0 | _ \<Rightarrow> 0)
         | RECore _ c t \<Rightarrow>
             Some (case own_echo of Some (EGraded p _ _ _) \<Rightarrow> if p_c p = c \<and> p_t p = t then 1 else 0 | _ \<Rightarrow> 0)
         | RESkip _ \<Rightarrow> None)"

fun seal_supports :: "outcome \<Rightarrow> resolution_entry \<Rightarrow> bool" where
  "seal_supports (OFull sealed_c sealed_t) (REFull _ c t) \<longleftrightarrow> sealed_c = c \<and> sealed_t = t"
| "seal_supports (OCore sealed_c) (RECore _ c _) \<longleftrightarrow> sealed_c = c"
| "seal_supports OSkip (RESkip _) \<longleftrightarrow> True"
| "seal_supports _ _ \<longleftrightarrow> False"

definition try_direct_resolution_vote ::
    "resolution_entry \<Rightarrow> bool \<Rightarrow> lane_manager \<Rightarrow> agb_engine \<Rightarrow> block_cache \<Rightarrow> agb_engine \<times> block_cache \<times> direct_vote_decision" where
  "try_direct_resolution_vote entry fresh lm eng b =
     (let target = target_view entry
      in if agb_pruned eng target then (eng, b, VoteNever)
         else if \<not> fresh then (eng, b, VoteAccept None)
         else if (case vs_sealed (view_at eng target) of None \<Rightarrow> False | Some sealed \<Rightarrow> \<not> seal_supports sealed entry)
         then (eng, b, VoteNever)
         else if stance_excludes eng entry then (eng, b, VoteNever)
         else case meta_entry_status eng lm entry b of
           (b, MetaNever) \<Rightarrow> (eng, b, VoteNever)
         | (b, MetaNotYet) \<Rightarrow> (eng, b, VoteNotYet)
         | (b, MetaOk) \<Rightarrow> let eng = claim_non_skip entry eng in (eng, b, VoteAccept (compute_origin_entry eng entry)))"

section \<open>Proposals and echoes\<close>

definition build_echo_out :: "agb_engine \<Rightarrow> proposal_out \<Rightarrow> grade \<Rightarrow> grade option list \<Rightarrow> echo_out" where
  "build_echo_out eng proposal grade origin =
     (case proposal of
        PSingle p \<Rightarrow> EchoSingle \<lparr>e_proposal = p, e_grade = grade, e_sender = ae_name eng, e_wish = 0,
                       e_origin = (case origin of [] \<Rightarrow> None | o1 # _ \<Rightarrow> o1), e_avail = None\<rparr>
      | PBatch p \<Rightarrow> EchoBatchOut \<lparr>eb_proposal = p, eb_grade = grade, eb_sender = ae_name eng, eb_wish = 0, eb_avail = None\<rparr>)"

definition positive_gate_holds ::
    "proposal_out \<Rightarrow> lane_manager \<Rightarrow> agb_engine \<Rightarrow> block_cache \<Rightarrow> agb_engine \<times> block_cache \<times> bool" where
  "positive_gate_holds proposal lm eng b =
     (let (b, core) = all_refs (author_ok lm) (p_c proposal) b
      in if \<not> core then (eng, b, False)
         else let (b, tips) = all_refs (author_ok lm) (p_t proposal) b
              in if \<not> tips then (eng, b, False)
                 else let (b, paired) = tip_ok lm (p_c proposal) (p_t proposal) b
                      in if \<not> paired then (eng, b, False)
                         else try_meta_ok (p_view proposal) (p_entries proposal) lm eng b)"

text \<open>The four rechecks that follow every recorded echo-stage statement.\<close>

definition after_echo :: "view \<Rightarrow> agb_engine \<Rightarrow> repairer \<Rightarrow> block_cache \<Rightarrow> agb_out" where
  "after_echo view eng re b =
     (let eng = recheck_lock_release view eng;
          (eng, re, b, es1) = recheck_ready view eng re b;
          (eng, es2) = recheck_fastseal_trigger view eng;
          (eng, es3) = recheck_skip_vote_trigger view eng
      in (eng, re, b, es1 @ es2 @ es3))"

definition recheck_gate :: "view \<Rightarrow> lane_manager \<Rightarrow> agb_engine \<Rightarrow> repairer \<Rightarrow> block_cache \<Rightarrow> agb_out" where
  "recheck_gate view lm eng re b =
     (if agb_pruned eng view then (eng, re, b, [])
      else let eng = state_mut view (\<lambda>s. s) eng; s = view_at eng view
           in if \<not> vs_active s \<or> vs_echo_sent s then (eng, re, b, [])
              else case vs_fixed s of
                FProposal proposal d \<Rightarrow>
                  (let (eng, b, holds) = positive_gate_holds proposal lm eng b
                   in if \<not> holds then (eng, re, b, [])
                      else let eng = record_lock view proposal d eng;
                               eng = state_mut view (\<lambda>s. s\<lparr>vs_echo_sent := True\<rparr>) eng;
                               eng = eng\<lparr>ae_pending_gate := os_del view (ae_pending_gate eng)\<rparr>;
                               origin = map (compute_origin_entry eng) (p_entries proposal);
                               eng = fst (count_echo_statement view (ae_name eng) (EGraded proposal d 1 origin) eng);
                               es = wish_effect eng view StageEcho @ [BroadcastEcho (build_echo_out eng proposal 1 origin)];
                               (eng, re, b, es') = after_echo view eng re b
                           in (eng, re, b, es @ es'))
              | _ \<Rightarrow> (eng, re, b, []))"

definition activate :: "view \<Rightarrow> lane_manager \<Rightarrow> agb_engine \<Rightarrow> repairer \<Rightarrow> block_cache \<Rightarrow> agb_out" where
  "activate view lm eng re b =
     (if agb_pruned eng view then (eng, re, b, [])
      else let eng = state_mut view (\<lambda>s. s) eng
           in if vs_active (view_at eng view) then (eng, re, b, [])
              else let eng = state_mut view (\<lambda>s. s\<lparr>vs_active := True\<rparr>) eng; s = view_at eng view;
                       eng = (if (case vs_fixed s of FProposal _ _ \<Rightarrow> True | _ \<Rightarrow> False) \<and> \<not> vs_echo_sent s
                              then eng\<lparr>ae_pending_gate := os_ins view (ae_pending_gate eng)\<rparr> else eng)
                   in recheck_gate view lm eng re b)"

definition agb_enter :: "view \<Rightarrow> instant \<Rightarrow> lane_manager \<Rightarrow> agb_engine \<Rightarrow> repairer \<Rightarrow> block_cache \<Rightarrow> agb_out" where
  "agb_enter view now lm eng re b =
     (if agb_pruned eng view then (eng, re, b, [])
      else let eng = state_mut view (\<lambda>s. s) eng
           in if vs_entered (view_at eng view) then (eng, re, b, [])
              else let eng = state_mut view (\<lambda>s. s\<lparr>vs_entered := True, vs_entry_instant := Some now\<rparr>) eng;
                       s = view_at eng view;
                       es = [ArmTimer view EchoAbsolute (now + theta_echo eng), ArmTimer view ReadyAbsolute (now + theta_ready eng)]
                         @ (case (vs_fixed s, vs_first_proposal_instant s) of
                              (FProposal _ _, Some rho) \<Rightarrow>
                                if vs_echo_sent s then []
                                else [ArmTimer view EchoFallback (min (max now rho + ae_delta eng) (now + theta_echo eng))]
                            | _ \<Rightarrow> []);
                       (eng, re, b, es') = activate view lm eng re b
                   in (eng, re, b, es @ es'))"

definition on_propose_any ::
    "codec \<Rightarrow> public_key \<Rightarrow> proposal_out \<Rightarrow> instant \<Rightarrow> lane_manager \<Rightarrow> agb_engine \<Rightarrow> repairer \<Rightarrow> block_cache \<Rightarrow> agb_out" where
  "on_propose_any cd sender proposal now lm eng re b =
     (let view = p_view proposal
      in if agb_pruned eng view then (eng, re, b, [])
         else if rr_one_based (ae_proposers eng) view \<noteq> Some sender then (eng, re, b, [])
         else let eng = state_mut view (\<lambda>s. s) eng; s = view_at eng view
              in if (case vs_entry_instant s of None \<Rightarrow> False | Some entry \<Rightarrow> now > entry + theta_echo eng) then (eng, re, b, [])
                 else if vs_fixed s \<noteq> FUnset then (eng, re, b, [])
                 else let eng = state_mut view (\<lambda>s. s\<lparr>vs_first_proposal_instant :=
                              (case vs_first_proposal_instant s of None \<Rightarrow> Some now | t \<Rightarrow> t)\<rparr>) eng
                      in if \<not> p_formed (ae_committee eng) proposal
                         then (state_mut view (\<lambda>s. s\<lparr>vs_fixed := FReject\<rparr>) eng, re, b, [FixedProposal view False])
                         else let (eng, proposal, d) = canonical_proposal cd view proposal eng;
                                  eng = state_mut view (\<lambda>s. s\<lparr>vs_fixed := FProposal proposal d\<rparr>) eng;
                                  s = view_at eng view;
                                  eng = (if vs_active s \<and> \<not> vs_echo_sent s
                                         then eng\<lparr>ae_pending_gate := os_ins view (ae_pending_gate eng)\<rparr> else eng);
                                  (re, b, es) = authorize_all (p_c proposal @ p_t proposal @ aux_refs_entries (p_entries proposal)) re b;
                                  es' = (case vs_entry_instant s of
                                           None \<Rightarrow> []
                                         | Some entry \<Rightarrow> [ArmTimer view EchoFallback
                                             (min (max entry now + ae_delta eng) (entry + theta_echo eng))]);
                                  (eng, re, b, es'') = recheck_gate view lm eng re b
                              in (eng, re, b, es @ [FixedProposal view True] @ es' @ es''))"

definition recheck_window :: "view oset \<Rightarrow> view \<Rightarrow> nat \<Rightarrow> view list" where
  "recheck_window pending cursor budget =
     (if length pending \<le> budget then pending
      else let window = take budget (os_from cursor pending)
           in if length window < budget
              then window @ take (budget - length window) (filter (\<lambda>v. v < cursor) pending) else window)"

fun recheck_views :: "view list \<Rightarrow> lane_manager \<Rightarrow> agb_engine \<Rightarrow> repairer \<Rightarrow> block_cache \<Rightarrow> agb_out" where
  "recheck_views [] lm eng re b = (eng, re, b, [])"
| "recheck_views (view # views) lm eng re b =
     (let (eng, re, b, es) = recheck_gate view lm eng re b;
          (eng, re, b, es') = recheck_views views lm eng re b
      in (eng, re, b, es @ es'))"

definition recheck_all :: "lane_manager \<Rightarrow> agb_engine \<Rightarrow> repairer \<Rightarrow> block_cache \<Rightarrow> agb_out" where
  "recheck_all lm eng re b =
     (let views = recheck_window (ae_pending_gate eng) (ae_recheck_cursor eng) recheck_budget;
          eng = (if views = [] then eng else eng\<lparr>ae_recheck_cursor := sat_add (last views) 1\<rparr>)
      in recheck_views views lm eng re b)"

definition on_echo_fallback_timer :: "view \<Rightarrow> lane_manager \<Rightarrow> agb_engine \<Rightarrow> repairer \<Rightarrow> block_cache \<Rightarrow> agb_out" where
  "on_echo_fallback_timer view lm eng re b =
     (if agb_pruned eng view then (eng, re, b, [])
      else let eng = state_mut view (\<lambda>s. s) eng; s = view_at eng view
           in if vs_echo_sent s then (eng, re, b, [])
              else case vs_fixed s of
                FProposal proposal d \<Rightarrow>
                  (let eng = state_mut view (\<lambda>s. s\<lparr>vs_echo_sent := True\<rparr>) eng;
                       eng = eng\<lparr>ae_pending_gate := os_del view (ae_pending_gate eng)\<rparr>;
                       es = wish_effect eng view StageEcho;
                       (b, core) = all_refs (author_ok lm) (p_c proposal) b;
                       (eng, b, accepted) = (if core then try_meta_ok view (p_entries proposal) lm eng b else (eng, b, False));
                       origin = map (compute_origin_entry eng) (p_entries proposal);
                       eng = fst (count_echo_statement view (ae_name eng)
                               (if accepted then EGraded proposal d 0 origin else ESkip) eng);
                       speech = (if accepted then BroadcastEcho (build_echo_out eng proposal 0 origin)
                                 else BroadcastEchoSkip view);
                       (eng, re, b, es') = after_echo view eng re b
                   in (eng, re, b, es @ [speech] @ es'))
              | _ \<Rightarrow> (eng, re, b, []))"

definition on_echo_absolute_timer :: "view \<Rightarrow> agb_engine \<Rightarrow> repairer \<Rightarrow> block_cache \<Rightarrow> agb_out" where
  "on_echo_absolute_timer view eng re b =
     (if agb_pruned eng view then (eng, re, b, [])
      else let eng = state_mut view (\<lambda>s. s) eng
           in if vs_echo_sent (view_at eng view) then (eng, re, b, [])
              else let eng = state_mut view (\<lambda>s. s\<lparr>vs_echo_sent := True\<rparr>) eng;
                       eng = eng\<lparr>ae_pending_gate := os_del view (ae_pending_gate eng)\<rparr>;
                       es = wish_effect eng view StageEcho;
                       eng = fst (count_echo_statement view (ae_name eng) ESkip eng);
                       (eng, re, b, es') = after_echo view eng re b
                   in (eng, re, b, es @ [BroadcastEchoSkip view] @ es'))"

definition awaiting_proposal :: "view_state \<Rightarrow> bool" where
  "awaiting_proposal s \<longleftrightarrow> vs_entered s \<and> vs_sealed s = None \<and> \<not> vs_echo_sent s \<and> vs_fixed s = FUnset"

definition views_awaiting_proposal_from :: "agb_engine \<Rightarrow> public_key \<Rightarrow> view list" where
  "views_awaiting_proposal_from eng proposer =
     map fst (filter (\<lambda>(view, s). awaiting_proposal s \<and> \<not> agb_pruned eng view
                        \<and> rr_one_based (ae_proposers eng) view = Some proposer) (ae_views eng))"

definition refuse_unproposed_view :: "view \<Rightarrow> agb_engine \<Rightarrow> repairer \<Rightarrow> block_cache \<Rightarrow> agb_out" where
  "refuse_unproposed_view view eng re b =
     (if agb_pruned eng view \<or> \<not> awaiting_proposal (view_at eng view) then (eng, re, b, [])
      else let (eng, re, b, es) = on_echo_absolute_timer view eng re b;
               (eng, re, b, es') = on_ready_timer view eng re b
           in (eng, re, b, es @ es'))"

definition on_echo_any :: "codec \<Rightarrow> echo_out \<Rightarrow> agb_engine \<Rightarrow> repairer \<Rightarrow> block_cache \<Rightarrow> agb_out" where
  "on_echo_any cd echo eng re b =
     (let view = echo_proposal_view echo
      in if echo_grade echo > 1 \<or> agb_pruned eng view then (eng, re, b, [])
         else let (eng, proposal, d) = canonical_proposal cd view (echo_into_proposal echo) eng;
                  (eng, counted) = count_echo_statement view (echo_sender echo)
                                     (EGraded proposal d (echo_grade echo) (origin_vec echo)) eng
              in if \<not> counted then (eng, re, b, []) else after_echo view eng re b)"

text \<open>The availability claim that the first formed echo of a member carries.\<close>

fun echo_claim :: "echo_out \<Rightarrow> claim_ref list" where
  "echo_claim (EchoSingle e) = (case e_avail e of None \<Rightarrow> [] | Some claim \<Rightarrow> statements claim (manifest_refs (e_proposal e)))"
| "echo_claim (EchoBatchOut e) = (case eb_avail e of None \<Rightarrow> [] | Some claim \<Rightarrow> statements claim (batch_manifest_refs (eb_proposal e)))"

definition on_echo :: "codec \<Rightarrow> echo_out \<Rightarrow> agb_engine \<Rightarrow> repairer \<Rightarrow> block_cache \<Rightarrow> agb_out" where
  "on_echo cd echo eng re b =
     (let view = echo_proposal_view echo;
          carrier = echo_grade echo \<le> 1 \<and> \<not> agb_pruned eng view
            \<and> \<not> om_has (vs_echo_statements (view_at eng view)) (echo_sender echo)
            \<and> map_of (authorities (ae_committee eng)) (echo_sender echo) \<noteq> None
            \<and> p_formed (ae_committee eng) (echo_into_proposal echo);
          claim = (if carrier then echo_claim echo else []);
          (re, b, es) = authorize_all (map claim_anchor claim) re b;
          es = (if claim = [] then [] else AvailClaimed (echo_sender echo) claim # es);
          (eng, re, b, es') = on_echo_any cd echo eng re b
      in (eng, re, b, es @ es'))"

definition on_echo_skip :: "view \<Rightarrow> public_key \<Rightarrow> agb_engine \<Rightarrow> agb_engine \<times> effect list" where
  "on_echo_skip view sender eng =
     (if agb_pruned eng view then (eng, [])
      else let (eng, counted) = count_echo_statement view sender ESkip eng
           in if \<not> counted then (eng, [])
              else let eng = recheck_lock_release view eng;
                       eng = finalize_mix_if_closed view False eng;
                       (eng, es) = recheck_fastseal_trigger view eng;
                       (eng, es') = recheck_skip_vote_trigger view eng
                   in (eng, es @ es'))"

end
