(* ===== verification/Agb_Spec.thy ===== *)
theory Agb_Spec
  imports Agb_Engine
begin

text \<open>
  What the engine of \<^verbatim>\<open>primary/src/vantage/agb.rs\<close> promises about one view: a ballot with one echo
  statement, one ready-stage statement and at most one skip vote per party, and at most one seal.
  Quorums are sets of parties here; that the tallies of the code count exactly these sets is shown
  in theory Agb_Refinement. The last section shows that the seals of correct nodes agree.
\<close>

section \<open>Speech\<close>

text \<open>What a node says about a view; the wish and the availability claim that a message also carries
  are no part of the ballot.\<close>

datatype speech =
    SayEcho proposal_out grade
  | SayEchoSkip view
  | SayReady proposal_out ready_grade
  | SayNoReady view
  | SaySkipVote view
  | SaySealed view outcome

fun speech_view :: "speech \<Rightarrow> view" where
  "speech_view (SayEcho p _) = p_view p"
| "speech_view (SayEchoSkip v) = v"
| "speech_view (SayReady p _) = p_view p"
| "speech_view (SayNoReady v) = v"
| "speech_view (SaySkipVote v) = v"
| "speech_view (SaySealed v _) = v"

fun said :: "effect list \<Rightarrow> speech list" where
  "said [] = []"
| "said (BroadcastEcho e # es) = SayEcho (echo_into_proposal e) (echo_grade e) # said es"
| "said (BroadcastEchoSkip v # es) = SayEchoSkip v # said es"
| "said (BroadcastReady r # es) = SayReady (ready_into_proposal r) (ready_out_grade r) # said es"
| "said (BroadcastNoReady v # es) = SayNoReady v # said es"
| "said (BroadcastSkipVote v # es) = SaySkipVote v # said es"
| "said (Sealed v out # es) = SaySealed v out # said es"
| "said (_ # es) = said es"

lemma said_append [simp]: "said (xs @ ys) = said xs @ said ys"
  by (induction xs rule: said.induct) auto

definition said_about :: "view \<Rightarrow> effect list \<Rightarrow> speech list" where
  "said_about v es = filter (\<lambda>x. speech_view x = v) (said es)"

lemma said_about_append [simp]: "said_about v (xs @ ys) = said_about v xs @ said_about v ys"
  by (simp add: said_about_def)

section \<open>Ballots\<close>

record ballot_cfg =
  bg_name :: public_key
  bg_committee :: committee
  bg_view :: view
  bg_digest :: "proposal_out \<Rightarrow> digest"
  bg_proposals :: "proposal_out set"
  bg_heard :: "public_key \<Rightarrow> speech \<Rightarrow> bool"

record ballot =
  bl_echo :: "public_key \<Rightarrow> echo_statement option"
  bl_ready :: "public_key \<Rightarrow> ready_statement option"
  bl_skip :: "public_key set"
  bl_stance :: stance
  bl_sealed :: "outcome option"

definition ballot_new :: ballot where
  "ballot_new = \<lparr>bl_echo = Map.empty, bl_ready = Map.empty, bl_skip = {}, bl_stance = Free, bl_sealed = None\<rparr>"

abbreviation bg_quorum :: "ballot_cfg \<Rightarrow> stake" where
  "bg_quorum g \<equiv> quorum_threshold (bg_committee g)"

abbreviation bg_parties :: "ballot_cfg \<Rightarrow> nat" where
  "bg_parties g \<equiv> n_minus_f_parties (from_party_count (committee_size (bg_committee g)))"

definition echoers :: "ballot \<Rightarrow> digest \<Rightarrow> bool \<Rightarrow> public_key set" where
  "echoers bl d positive = {s. \<exists>p k os. bl_echo bl s = Some (EGraded p d k os) \<and> (k = 1) = positive}"

definition skippers :: "ballot \<Rightarrow> public_key set" where
  "skippers bl = {s. bl_echo bl s = Some ESkip}"

definition readiers :: "ballot \<Rightarrow> digest \<Rightarrow> ready_grade \<Rightarrow> public_key set" where
  "readiers bl d k = {s. \<exists>p. bl_ready bl s = Some (RGraded p d k)}"

definition known_proposal :: "ballot_cfg \<Rightarrow> proposal_out \<Rightarrow> digest \<Rightarrow> bool" where
  "known_proposal g p d \<longleftrightarrow> p \<in> bg_proposals g \<and> p_view p = bg_view g \<and> d = bg_digest g p"

text \<open>A statement of a peer is recorded as it was heard.\<close>

fun heard_echo :: "ballot_cfg \<Rightarrow> public_key \<Rightarrow> echo_statement \<Rightarrow> bool" where
  "heard_echo g s (EGraded p d k os) \<longleftrightarrow> known_proposal g p d \<and> bg_heard g s (SayEcho p k)"
| "heard_echo g s ESkip \<longleftrightarrow> bg_heard g s (SayEchoSkip (bg_view g))"

fun heard_ready :: "ballot_cfg \<Rightarrow> public_key \<Rightarrow> ready_statement \<Rightarrow> bool" where
  "heard_ready g s (RGraded p d k) \<longleftrightarrow> known_proposal g p d \<and> bg_heard g s (SayReady p k)"
| "heard_ready g s RNoReady \<longleftrightarrow> bg_heard g s (SayNoReady (bg_view g))"

text \<open>The certificates of the four local routes to a seal.\<close>

inductive seal_cert :: "ballot_cfg \<Rightarrow> ballot \<Rightarrow> outcome \<Rightarrow> bool" for g bl where
  cert_full: "known_proposal g p d \<Longrightarrow> bg_quorum g \<le> stake_sum (bg_committee g) (readiers bl d GOne) \<Longrightarrow>
    seal_cert g bl (OFull (p_c p) (p_t p))"
| cert_core: "known_proposal g p d \<Longrightarrow> bg_quorum g \<le> stake_sum (bg_committee g) (readiers bl d GZero) \<Longrightarrow>
    seal_cert g bl (OCore (p_c p))"
| cert_fast: "known_proposal g p d \<Longrightarrow> members (bg_committee g) \<subseteq> echoers bl d True \<Longrightarrow>
    seal_cert g bl (OFull (p_c p) (p_t p))"
| cert_skip: "bg_parties g \<le> card (bl_skip bl) \<Longrightarrow> seal_cert g bl OSkip"

text \<open>
  The steps of a ballot with the speech they emit. A step of a peer is silent; \<open>R\<close> are the outcomes
  that the resolver may submit.
\<close>

inductive ballot_step :: "ballot_cfg \<Rightarrow> (outcome \<Rightarrow> bool) \<Rightarrow> ballot \<Rightarrow> speech list \<Rightarrow> ballot \<Rightarrow> bool" for g R where
  own_echo: "bl_echo bl (bg_name g) = None \<Longrightarrow> known_proposal g p d \<Longrightarrow> k \<le> 1 \<Longrightarrow>
    ballot_step g R bl [SayEcho p k] (bl\<lparr>bl_echo := (bl_echo bl)(bg_name g \<mapsto> EGraded p d k os)\<rparr>)"
| own_echo_skip: "bl_echo bl (bg_name g) = None \<Longrightarrow>
    ballot_step g R bl [SayEchoSkip (bg_view g)] (bl\<lparr>bl_echo := (bl_echo bl)(bg_name g \<mapsto> ESkip)\<rparr>)"
| peer_echo: "s \<noteq> bg_name g \<Longrightarrow> s \<in> members (bg_committee g) \<Longrightarrow> bl_echo bl s = None \<Longrightarrow>
    heard_echo g s statement \<Longrightarrow>
    ballot_step g R bl [] (bl\<lparr>bl_echo := (bl_echo bl)(s \<mapsto> statement)\<rparr>)"
| own_ready: "bl_ready bl (bg_name g) = None \<Longrightarrow> known_proposal g p d \<Longrightarrow>
    bg_quorum g \<le> stake_sum (bg_committee g) (echoers bl d True) + stake_sum (bg_committee g) (echoers bl d False) \<Longrightarrow>
    (k = GOne \<longrightarrow> bg_quorum g \<le> stake_sum (bg_committee g) (echoers bl d True)) \<Longrightarrow>
    (k = GZero \<longrightarrow> bg_quorum g \<le> stake_sum (bg_committee g) (echoers bl d False)) \<Longrightarrow>
    ballot_step g R bl [SayReady p k] (bl\<lparr>bl_ready := (bl_ready bl)(bg_name g \<mapsto> RGraded p d k)\<rparr>)"
| own_refine: "bl_ready bl (bg_name g) = Some (RGraded p d GMix) \<Longrightarrow> k \<noteq> GMix \<Longrightarrow>
    bg_quorum g \<le> stake_sum (bg_committee g) (echoers bl d (k = GOne)) \<Longrightarrow>
    ballot_step g R bl [SayReady p k] (bl\<lparr>bl_ready := (bl_ready bl)(bg_name g \<mapsto> RGraded p d k)\<rparr>)"
| own_noready: "bl_ready bl (bg_name g) = None \<Longrightarrow>
    ballot_step g R bl [SayNoReady (bg_view g)] (bl\<lparr>bl_ready := (bl_ready bl)(bg_name g \<mapsto> RNoReady)\<rparr>)"
| peer_ready: "s \<noteq> bg_name g \<Longrightarrow> s \<in> members (bg_committee g) \<Longrightarrow>
    (case bl_ready bl s of None \<Rightarrow> True | Some existing \<Rightarrow> valid_refinement existing statement) \<Longrightarrow>
    heard_ready g s statement \<Longrightarrow>
    ballot_step g R bl [] (bl\<lparr>bl_ready := (bl_ready bl)(s \<mapsto> statement)\<rparr>)"
| own_skip: "bl_stance bl = Free \<Longrightarrow> bg_name g \<notin> bl_skip bl \<Longrightarrow> bl_ready bl (bg_name g) = Some RNoReady \<Longrightarrow>
    bg_parties g \<le> card (skippers bl) \<Longrightarrow>
    ballot_step g R bl [SaySkipVote (bg_view g)]
      (bl\<lparr>bl_skip := insert (bg_name g) (bl_skip bl), bl_stance := SkipVoted\<rparr>)"
| peer_skip: "s \<noteq> bg_name g \<Longrightarrow> s \<in> members (bg_committee g) \<Longrightarrow> bg_heard g s (SaySkipVote (bg_view g)) \<Longrightarrow>
    ballot_step g R bl [] (bl\<lparr>bl_skip := insert s (bl_skip bl)\<rparr>)"
| claim_non_skip: "bl_stance bl = Free \<Longrightarrow> ballot_step g R bl [] (bl\<lparr>bl_stance := NonSkip\<rparr>)"
| seal: "bl_sealed bl = None \<Longrightarrow> seal_cert g bl out \<or> R out \<Longrightarrow>
    ballot_step g R bl [SaySealed (bg_view g) out] (bl\<lparr>bl_sealed := Some out\<rparr>)"

inductive ballot_steps :: "ballot_cfg \<Rightarrow> (outcome \<Rightarrow> bool) \<Rightarrow> ballot \<Rightarrow> speech list \<Rightarrow> ballot \<Rightarrow> bool" for g R where
  steps_refl: "ballot_steps g R bl [] bl"
| steps_step: "ballot_steps g R bl es bl' \<Longrightarrow> ballot_step g R bl' es' bl'' \<Longrightarrow> ballot_steps g R bl (es @ es') bl''"

lemma ballot_steps_trans:
  assumes "ballot_steps g R bl es bl'" and "ballot_steps g R bl' es' bl''"
  shows "ballot_steps g R bl (es @ es') bl''"
  using assms(2,1)
  by (induction rule: ballot_steps.induct) (auto intro: steps_step simp flip: append_assoc)

lemma ballot_steps_one: "ballot_step g R bl es bl' \<Longrightarrow> ballot_steps g R bl es bl'"
  using steps_step [OF steps_refl] by fastforce

section \<open>Invariants of a ballot\<close>

definition ballot_ok :: "ballot_cfg \<Rightarrow> ballot \<Rightarrow> bool" where
  "ballot_ok g bl \<longleftrightarrow>
     dom (bl_echo bl) \<subseteq> members (bg_committee g) \<and> dom (bl_ready bl) \<subseteq> members (bg_committee g)
   \<and> bl_skip bl \<subseteq> members (bg_committee g)
   \<and> (\<forall>s p d k os. bl_echo bl s = Some (EGraded p d k os) \<longrightarrow> known_proposal g p d)
   \<and> (\<forall>s p d k. bl_ready bl s = Some (RGraded p d k) \<longrightarrow> known_proposal g p d)
   \<and> (bg_name g \<in> bl_skip bl \<longleftrightarrow> bl_stance bl = SkipVoted)"

text \<open>What the emitted speech says about the own entries of the ballot.\<close>

definition speech_ok :: "ballot_cfg \<Rightarrow> speech list \<Rightarrow> ballot \<Rightarrow> bool" where
  "speech_ok g tr bl \<longleftrightarrow>
     (\<forall>p k. SayEcho p k \<in> set tr \<longrightarrow> (\<exists>d os. bl_echo bl (bg_name g) = Some (EGraded p d k os)))
   \<and> (SayEchoSkip (bg_view g) \<in> set tr \<longrightarrow> bl_echo bl (bg_name g) = Some ESkip)
   \<and> (\<forall>p k. SayReady p k \<in> set tr \<longrightarrow> (\<exists>d k'. bl_ready bl (bg_name g) = Some (RGraded p d k') \<and> (k = k' \<or> k = GMix)))
   \<and> (SayNoReady (bg_view g) \<in> set tr \<longrightarrow> bl_ready bl (bg_name g) = Some RNoReady)
   \<and> (SaySkipVote (bg_view g) \<in> set tr \<longrightarrow> bg_name g \<in> bl_skip bl)
   \<and> (\<forall>out. SaySealed (bg_view g) out \<in> set tr \<longrightarrow> bl_sealed bl = Some out)"

lemma speech_okD:
  assumes "speech_ok g tr bl"
  shows "SayEcho p k \<in> set tr \<Longrightarrow> \<exists>d os. bl_echo bl (bg_name g) = Some (EGraded p d k os)"
    "SayReady p k' \<in> set tr \<Longrightarrow> k' \<noteq> GMix \<Longrightarrow> \<exists>d. bl_ready bl (bg_name g) = Some (RGraded p d k')"
    "SaySealed (bg_view g) out \<in> set tr \<Longrightarrow> bl_sealed bl = Some out"
  using assms unfolding speech_ok_def by blast+

text \<open>What a peer is recorded to have said was heard.\<close>

definition hearing_ok :: "ballot_cfg \<Rightarrow> ballot \<Rightarrow> bool" where
  "hearing_ok g bl \<longleftrightarrow>
     (\<forall>s st. s \<noteq> bg_name g \<longrightarrow> bl_echo bl s = Some st \<longrightarrow> heard_echo g s st)
   \<and> (\<forall>s st. s \<noteq> bg_name g \<longrightarrow> bl_ready bl s = Some st \<longrightarrow> heard_ready g s st)
   \<and> (\<forall>s \<in> bl_skip bl. s \<noteq> bg_name g \<longrightarrow> bg_heard g s (SaySkipVote (bg_view g)))"

text \<open>What justified the own ready response, the own skip vote and the seal.\<close>

definition causes_ok :: "ballot_cfg \<Rightarrow> (outcome \<Rightarrow> bool) \<Rightarrow> ballot \<Rightarrow> bool" where
  "causes_ok g R bl \<longleftrightarrow>
     (\<forall>p d k. bl_ready bl (bg_name g) = Some (RGraded p d k) \<longrightarrow> k \<noteq> GMix \<longrightarrow>
        bg_quorum g \<le> stake_sum (bg_committee g) (echoers bl d (k = GOne)))
   \<and> (bg_name g \<in> bl_skip bl \<longrightarrow> bl_ready bl (bg_name g) = Some RNoReady \<and> bg_parties g \<le> card (skippers bl))
   \<and> (\<forall>out. bl_sealed bl = Some out \<longrightarrow> seal_cert g bl out \<or> R out)"

lemma ballot_step_ok:
  assumes "ballot_step g R bl es bl'" and "ballot_ok g bl" and "bg_name g \<in> members (bg_committee g)"
  shows "ballot_ok g bl'"
  using assms
proof (induction rule: ballot_step.induct)
  case (own_refine bl p d k)
  then have "known_proposal g p d"
    unfolding ballot_ok_def by blast
  then show ?case
    using own_refine by (auto simp: ballot_ok_def split: if_splits)
qed (auto simp: ballot_ok_def split: if_splits)

lemma ballot_step_hearing: "ballot_step g R bl es bl' \<Longrightarrow> hearing_ok g bl \<Longrightarrow> hearing_ok g bl'"
  by (induction rule: ballot_step.induct) (auto simp: hearing_ok_def)

lemma ballot_step_speech:
  assumes "ballot_step g R bl es bl'" and "speech_ok g tr bl"
  shows "speech_ok g (tr @ es) bl'"
  using assms
proof (induction rule: ballot_step.induct)
  case (own_refine bl p d k)
  then show ?case
    unfolding speech_ok_def by (fastforce simp: fun_upd_def)
qed (auto simp: speech_ok_def split: if_splits)

text \<open>The sets of supporters only grow.\<close>

definition ballot_le :: "ballot \<Rightarrow> ballot \<Rightarrow> bool" where
  "ballot_le bl bl' \<longleftrightarrow>
     (\<forall>d b. echoers bl d b \<subseteq> echoers bl' d b) \<and> skippers bl \<subseteq> skippers bl'
   \<and> (\<forall>d k. k \<noteq> GMix \<longrightarrow> readiers bl d k \<subseteq> readiers bl' d k) \<and> bl_skip bl \<subseteq> bl_skip bl'"

lemma ballot_step_mono:
  assumes "ballot_step g R bl es bl'"
  shows "ballot_le bl bl'"
proof -
  have "echoers bl d b \<subseteq> echoers bl' d b" for d b
    using assms by (induction rule: ballot_step.induct) (auto simp: echoers_def)
  moreover have "skippers bl \<subseteq> skippers bl'"
    using assms by (induction rule: ballot_step.induct) (auto simp: skippers_def)
  moreover have "k \<noteq> GMix \<Longrightarrow> readiers bl d k \<subseteq> readiers bl' d k" for d k
    using assms
    by (induction rule: ballot_step.induct) (auto simp: readiers_def split: option.splits elim: valid_refinement.elims)
  moreover have "bl_skip bl \<subseteq> bl_skip bl'"
    using assms by (induction rule: ballot_step.induct) auto
  ultimately show ?thesis
    unfolding ballot_le_def by blast
qed

lemma ballot_ok_sets:
  assumes "ballot_ok g bl"
  shows "echoers bl d b \<subseteq> members (bg_committee g)" "skippers bl \<subseteq> members (bg_committee g)"
    "readiers bl d k \<subseteq> members (bg_committee g)" "bl_skip bl \<subseteq> members (bg_committee g)"
  using assms by (auto simp: ballot_ok_def echoers_def skippers_def readiers_def)

lemma ballot_le_weights:
  assumes "ballot_le bl bl'" and "ballot_ok g bl'"
  shows "stake_sum (bg_committee g) (echoers bl d b) \<le> stake_sum (bg_committee g) (echoers bl' d b)"
    "k \<noteq> GMix \<Longrightarrow> stake_sum (bg_committee g) (readiers bl d k) \<le> stake_sum (bg_committee g) (readiers bl' d k)"
    "card (skippers bl) \<le> card (skippers bl')" "card (bl_skip bl) \<le> card (bl_skip bl')"
proof -
  note fin = ballot_ok_sets [OF assms(2), THEN finite_subset, OF finite_members]
  show "stake_sum (bg_committee g) (echoers bl d b) \<le> stake_sum (bg_committee g) (echoers bl' d b)"
    using assms(1) fin(1) by (simp add: ballot_le_def stake_sum_mono)
  show "k \<noteq> GMix \<Longrightarrow> stake_sum (bg_committee g) (readiers bl d k) \<le> stake_sum (bg_committee g) (readiers bl' d k)"
    using assms(1) fin(3) by (simp add: ballot_le_def stake_sum_mono)
  show "card (skippers bl) \<le> card (skippers bl')" "card (bl_skip bl) \<le> card (bl_skip bl')"
    using assms(1) fin(2,4) by (simp_all add: ballot_le_def card_mono)
qed

lemma seal_cert_mono:
  assumes "ballot_le bl bl'" and "ballot_ok g bl'" and "seal_cert g bl out"
  shows "seal_cert g bl' out"
  using assms(3)
proof cases
  case (cert_fast p d)
  with assms(1) have "members (bg_committee g) \<subseteq> echoers bl' d True"
    by (auto simp: ballot_le_def)
  with cert_fast show ?thesis
    by (simp add: seal_cert.cert_fast)
qed (use ballot_le_weights [OF assms(1,2)] in \<open>auto intro: seal_cert.intros elim!: order_trans\<close>)

lemma ballot_step_causes:
  assumes step: "ballot_step g R bl es bl'" and ok: "ballot_ok g bl" and ok': "ballot_ok g bl'" and "causes_ok g R bl"
  shows "causes_ok g R bl'"
proof -
  note le = ballot_step_mono [OF step]
  note w = ballot_le_weights [OF le ok']
  have r: "bl_ready bl' (bg_name g) = Some (RGraded p d k) \<Longrightarrow> k \<noteq> GMix \<Longrightarrow>
      bl_ready bl (bg_name g) = Some (RGraded p d k) \<or> bg_quorum g \<le> stake_sum (bg_committee g) (echoers bl d (k = GOne))" for p d k
    using step by (induction rule: ballot_step.induct) (cases k; auto split: if_splits)+
  have sk: "bg_name g \<in> bl_skip bl' \<Longrightarrow> bg_name g \<in> bl_skip bl \<or> bl_ready bl (bg_name g) = Some RNoReady \<and> bg_parties g \<le> card (skippers bl)"
    using step by (induction rule: ballot_step.induct) auto
  have nr: "bl_ready bl (bg_name g) = Some RNoReady \<Longrightarrow> bl_ready bl' (bg_name g) = Some RNoReady"
    using step by (induction rule: ballot_step.induct) auto
  have se: "bl_sealed bl' = Some out \<Longrightarrow> bl_sealed bl = Some out \<or> seal_cert g bl out \<or> R out" for out
    using step by (induction rule: ballot_step.induct) auto
  show ?thesis
    unfolding causes_ok_def
  proof (intro conjI allI impI)
    fix p d k assume "bl_ready bl' (bg_name g) = Some (RGraded p d k)" "k \<noteq> GMix"
    with r assms(4) have "bg_quorum g \<le> stake_sum (bg_committee g) (echoers bl d (k = GOne))"
      unfolding causes_ok_def by blast
    then show "bg_quorum g \<le> stake_sum (bg_committee g) (echoers bl' d (k = GOne))"
      using w(1) le_trans by blast
  next
    assume "bg_name g \<in> bl_skip bl'"
    with sk assms(4) have "bl_ready bl (bg_name g) = Some RNoReady \<and> bg_parties g \<le> card (skippers bl)"
      unfolding causes_ok_def by blast
    then show "bl_ready bl' (bg_name g) = Some RNoReady" "bg_parties g \<le> card (skippers bl')"
      using nr w(3) by auto
  next
    fix out assume "bl_sealed bl' = Some out"
    with se assms(4) have "seal_cert g bl out \<or> R out"
      unfolding causes_ok_def by blast
    then show "seal_cert g bl' out \<or> R out"
      using seal_cert_mono [OF le ok'] by blast
  qed
qed

text \<open>All three hold after every run from the empty ballot.\<close>

lemma ballot_run_ok:
  assumes "ballot_steps g R ballot_new tr bl" and "bg_name g \<in> members (bg_committee g)"
  shows "ballot_ok g bl" "speech_ok g tr bl" "hearing_ok g bl" "causes_ok g R bl"
proof -
  have "ballot_ok g bl \<and> speech_ok g tr bl \<and> hearing_ok g bl \<and> causes_ok g R bl"
    if "ballot_steps g R b0 tr bl" "b0 = ballot_new" for b0
    using that
  proof (induction rule: ballot_steps.induct)
    case (steps_refl bl)
    then show ?case
      by (simp add: ballot_new_def ballot_ok_def speech_ok_def hearing_ok_def causes_ok_def)
  next
    case (steps_step bl es bl' es' bl'')
    then show ?case
      using ballot_step_ok [OF steps_step(2) _ assms(2)] ballot_step_speech [OF steps_step(2)]
        ballot_step_hearing [OF steps_step(2)] ballot_step_causes [OF steps_step(2)] by blast
  qed
  with assms(1) show "ballot_ok g bl" "speech_ok g tr bl" "hearing_ok g bl" "causes_ok g R bl"
    by blast+
qed

section \<open>A node speaks once\<close>

fun is_echo_speech :: "speech \<Rightarrow> bool" where
  "is_echo_speech (SayEcho _ _) = True"
| "is_echo_speech (SayEchoSkip _) = True"
| "is_echo_speech _ = False"

fun is_ready_speech :: "speech \<Rightarrow> bool" where
  "is_ready_speech (SayReady _ _) = True"
| "is_ready_speech (SayNoReady _) = True"
| "is_ready_speech _ = False"

fun is_skip_speech :: "speech \<Rightarrow> bool" where
  "is_skip_speech (SaySkipVote _) = True"
| "is_skip_speech _ = False"

fun is_seal_speech :: "speech \<Rightarrow> bool" where
  "is_seal_speech (SaySealed _ _) = True"
| "is_seal_speech _ = False"

text \<open>The ready responses said so far: nothing, one response, or a mixed one and its refinement.\<close>

fun ready_history :: "ready_statement option \<Rightarrow> view \<Rightarrow> speech list \<Rightarrow> bool" where
  "ready_history None v xs \<longleftrightarrow> xs = []"
| "ready_history (Some RNoReady) v xs \<longleftrightarrow> xs = [SayNoReady v]"
| "ready_history (Some (RGraded p d k)) v xs \<longleftrightarrow> xs = [SayReady p k] \<or> k \<noteq> GMix \<and> xs = [SayReady p GMix, SayReady p k]"

definition spoken_once :: "ballot_cfg \<Rightarrow> speech list \<Rightarrow> ballot \<Rightarrow> bool" where
  "spoken_once g tr bl \<longleftrightarrow>
     length (filter is_echo_speech tr) = (if bl_echo bl (bg_name g) = None then 0 else 1)
   \<and> ready_history (bl_ready bl (bg_name g)) (bg_view g) (filter is_ready_speech tr)
   \<and> length (filter is_skip_speech tr) = (if bg_name g \<in> bl_skip bl then 1 else 0)
   \<and> filter is_seal_speech tr = (case bl_sealed bl of None \<Rightarrow> [] | Some out \<Rightarrow> [SaySealed (bg_view g) out])"

lemma ballot_step_spoken: "ballot_step g R bl es bl' \<Longrightarrow> spoken_once g tr bl \<Longrightarrow> spoken_once g (tr @ es) bl'"
  by (induction rule: ballot_step.induct) (auto simp: spoken_once_def)

lemma ballot_run_spoken:
  assumes "ballot_steps g R ballot_new tr bl"
  shows "spoken_once g tr bl"
proof -
  have "spoken_once g tr bl" if "ballot_steps g R b0 tr bl" "b0 = ballot_new" for b0
    using that
  proof (induction rule: ballot_steps.induct)
    case (steps_refl bl)
    then show ?case
      by (simp add: spoken_once_def ballot_new_def)
  qed (blast intro: ballot_step_spoken)
  with assms show ?thesis by blast
qed

section \<open>Agreement\<close>

text \<open>
  The correct nodes \<open>H\<close> keep a ballot each; what one of them hears from another of them was said.
\<close>

definition node_cfg ::
    "committee \<Rightarrow> view \<Rightarrow> (proposal_out \<Rightarrow> digest) \<Rightarrow> proposal_out set \<Rightarrow> public_key set \<Rightarrow> (public_key \<Rightarrow> speech list) \<Rightarrow> public_key \<Rightarrow> ballot_cfg" where
  "node_cfg c v dg P H tr i =
     \<lparr>bg_name = i, bg_committee = c, bg_view = v, bg_digest = dg, bg_proposals = P,
      bg_heard = \<lambda>s x. s \<in> H \<longrightarrow> x \<in> set (tr s)\<rparr>"

lemma node_cfg_simps [simp]:
  "bg_name (node_cfg c v dg P H tr i) = i" "bg_committee (node_cfg c v dg P H tr i) = c"
  "bg_view (node_cfg c v dg P H tr i) = v" "bg_digest (node_cfg c v dg P H tr i) = dg"
  "bg_proposals (node_cfg c v dg P H tr i) = P" "bg_heard (node_cfg c v dg P H tr i) s x \<longleftrightarrow> (s \<in> H \<longrightarrow> x \<in> set (tr s))"
  by (simp_all add: node_cfg_def)

definition correct_ballots ::
    "committee \<Rightarrow> view \<Rightarrow> (proposal_out \<Rightarrow> digest) \<Rightarrow> proposal_out set \<Rightarrow> public_key set \<Rightarrow> (public_key \<Rightarrow> outcome \<Rightarrow> bool) \<Rightarrow>
      (public_key \<Rightarrow> speech list) \<Rightarrow> (public_key \<Rightarrow> ballot) \<Rightarrow> bool" where
  "correct_ballots c v dg P H R tr bal \<longleftrightarrow>
     H \<subseteq> members c \<and> (\<forall>i \<in> H. ballot_steps (node_cfg c v dg P H tr i) (R i) ballot_new (filter (\<lambda>x. speech_view x = v) (tr i)) (bal i))"

definition tolerable :: "committee \<Rightarrow> public_key set \<Rightarrow> bool" where
  "tolerable c H \<longleftrightarrow> committee_ok c \<and> (\<forall>e \<in> set (authorities c). a_stake (snd e) = 1)
     \<and> H \<subseteq> members c \<and> 3 * card (members c - H) < card (members c)"

lemma correct_ballotsD:
  assumes "correct_ballots c v dg P H R tr bal" and "i \<in> H"
  shows "ballot_ok (node_cfg c v dg P H tr i) (bal i)" "speech_ok (node_cfg c v dg P H tr i) (filter (\<lambda>x. speech_view x = v) (tr i)) (bal i)"
    "hearing_ok (node_cfg c v dg P H tr i) (bal i)" "causes_ok (node_cfg c v dg P H tr i) (R i) (bal i)"
  using assms ballot_run_ok [of "node_cfg c v dg P H tr i" "R i" "filter (\<lambda>x. speech_view x = v) (tr i)" "bal i"]
  by (auto simp: correct_ballots_def)

text \<open>A recorded statement of a correct node is its own one.\<close>

lemma recorded_is_own:
  assumes cor: "correct_ballots c v dg P H R tr bal" and "i \<in> H" and "s \<in> H"
  shows "bl_echo (bal i) s = Some (EGraded p d k os) \<Longrightarrow> \<exists>os'. bl_echo (bal s) s = Some (EGraded p d k os')"
    and "bl_echo (bal i) s = Some ESkip \<Longrightarrow> bl_echo (bal s) s = Some ESkip"
    and "bl_ready (bal i) s = Some (RGraded p d k') \<Longrightarrow> k' \<noteq> GMix \<Longrightarrow> bl_ready (bal s) s = Some (RGraded p d k')"
    and "s \<in> bl_skip (bal i) \<Longrightarrow> s \<in> bl_skip (bal s)"
proof -
  note I = correct_ballotsD [OF cor assms(2)] and S = correct_ballotsD [OF cor assms(3)]
  have echo: "heard_echo (node_cfg c v dg P H tr i) s st" if "s \<noteq> i" "bl_echo (bal i) s = Some st" for st
    using I(3) that by (simp add: hearing_ok_def)
  have ready: "heard_ready (node_cfg c v dg P H tr i) s st" if "s \<noteq> i" "bl_ready (bal i) s = Some st" for st
    using I(3) that by (simp add: hearing_ok_def)
  have known: "bl_echo (bal s) s = Some (EGraded p d k os) \<Longrightarrow> known_proposal (node_cfg c v dg P H tr s) p d"
    "bl_ready (bal s) s = Some (RGraded p d k') \<Longrightarrow> known_proposal (node_cfg c v dg P H tr s) p d" for p d k k' os
    using S(1) unfolding ballot_ok_def by blast+
  show "bl_echo (bal i) s = Some (EGraded p d k os) \<Longrightarrow> \<exists>os'. bl_echo (bal s) s = Some (EGraded p d k os')"
  proof (cases "s = i")
    case False
    assume "bl_echo (bal i) s = Some (EGraded p d k os)"
    with echo [OF False] assms(3) have p: "SayEcho p k \<in> set (tr s)" "d = dg p" "p_view p = v"
      by (auto simp: known_proposal_def)
    then obtain d' os' where own: "bl_echo (bal s) s = Some (EGraded p d' k os')"
      using speech_okD(1) [OF S(2), of p k] by auto
    then have "d' = dg p"
      using known(1) by (simp add: known_proposal_def)
    with own p show ?thesis by simp
  qed auto
  show "bl_echo (bal i) s = Some ESkip \<Longrightarrow> bl_echo (bal s) s = Some ESkip"
    using echo S(2) assms(3) by (cases "s = i") (auto simp: speech_ok_def)
  show "bl_ready (bal i) s = Some (RGraded p d k') \<Longrightarrow> k' \<noteq> GMix \<Longrightarrow> bl_ready (bal s) s = Some (RGraded p d k')"
  proof (cases "s = i")
    case False
    assume k: "bl_ready (bal i) s = Some (RGraded p d k')" "k' \<noteq> GMix"
    with ready [OF False] assms(3) have p: "SayReady p k' \<in> set (tr s)" "d = dg p" "p_view p = v"
      by (auto simp: known_proposal_def)
    with k(2) obtain d' where own: "bl_ready (bal s) s = Some (RGraded p d' k')"
      using speech_okD(2) [OF S(2), of p k'] by auto
    then have "d' = dg p"
      using known(2) by (simp add: known_proposal_def)
    with own p show ?thesis by simp
  qed auto
  show "s \<in> bl_skip (bal i) \<Longrightarrow> s \<in> bl_skip (bal s)"
    using I(3) S(2) assms(3) by (cases "s = i") (auto simp: speech_ok_def hearing_ok_def)
qed

text \<open>Quorums under unit stakes.\<close>

lemma tolerable_units:
  assumes "tolerable c H"
  shows "A \<subseteq> members c \<Longrightarrow> stake_sum c A = card A"
    and "n_minus_f_parties (from_party_count (committee_size c)) = quorum_threshold c"
    and "card (members c) = committee_size c"
proof -
  have ok: "committee_ok c" and unit: "\<forall>e \<in> set (authorities c). a_stake (snd e) = 1"
    using assms by (simp_all add: tolerable_def)
  have "stake_of c m = 1" if "m \<in> members c" for m
    using that unit map_of_SomeD [of "authorities c" m] by (fastforce simp: stake_of_def members_dom split: option.splits)
  then show sum: "A \<subseteq> members c \<Longrightarrow> stake_sum c A = card A" for A
    unfolding stake_sum_def by (simp add: subset_iff)
  have T: "total_votes c = committee_size c"
    and n: "1 \<le> committee_size c" "committee_size c < 2 ^ 64"
    using ok sum_list_units [OF unit]
    by (simp_all add: total_votes_def committee_ok_def committee_size_def Suc_le_eq)
  show "n_minus_f_parties (from_party_count (committee_size c)) = quorum_threshold c"
    using n unfolding quorum_threshold_eq [OF ok] T from_party_count_eq [OF n] by simp
  show "card (members c) = committee_size c"
    using sum [of "members c"] total_votes_eq [OF ok] T by simp
qed

lemma tolerable_quorums_meet:
  assumes tol: "tolerable c H" and "A \<subseteq> members c" and "B \<subseteq> members c"
    and "quorum_threshold c \<le> card A" and "quorum_threshold c \<le> card B"
  shows "\<exists>s \<in> H. s \<in> A \<and> s \<in> B"
proof -
  have ok: "committee_ok c" and F: "3 * card (members c - H) < card (members c)"
    using tol by (simp_all add: tolerable_def)
  note u = tolerable_units(1) [OF tol]
  have "sum (stake_of c) (members c - H) \<le> stake_slack c"
    using F u [of "members c - H"] u [of "members c"] total_votes_eq [OF ok]
    unfolding stake_slack_def stake_sum_def by simp
  then obtain s where "s \<in> A" "s \<in> B" "s \<notin> members c - H"
    using stake_q.common_correct [OF ok assms(2,3), of "members c - H"] assms u [OF assms(2)] u [OF assms(3)]
    by (auto simp: stake_sum_def)
  then show ?thesis using assms(2) by blast
qed

text \<open>The verdict behind a certificate, and the votes of correct nodes for it.\<close>

datatype verdict = VReady digest ready_grade | VSkip

fun votes :: "(public_key \<Rightarrow> ballot) \<Rightarrow> public_key \<Rightarrow> verdict \<Rightarrow> bool" where
  "votes bal s (VReady d k) \<longleftrightarrow> k \<noteq> GMix \<and> s \<in> readiers (bal s) d k"
| "votes bal s VSkip \<longleftrightarrow> s \<in> bl_skip (bal s)"

fun verdict_out :: "ballot_cfg \<Rightarrow> verdict \<Rightarrow> outcome \<Rightarrow> bool" where
  "verdict_out g (VReady d k) out \<longleftrightarrow>
     (\<exists>p. known_proposal g p d \<and> (case k of GOne \<Rightarrow> out = OFull (p_c p) (p_t p) | GZero \<Rightarrow> out = OCore (p_c p) | GMix \<Rightarrow> False))"
| "verdict_out g VSkip out \<longleftrightarrow> out = OSkip"

definition backed :: "committee \<Rightarrow> public_key set \<Rightarrow> (public_key \<Rightarrow> ballot) \<Rightarrow> public_key \<Rightarrow> verdict \<Rightarrow> bool" where
  "backed c H bal i w \<longleftrightarrow>
     (\<exists>A. A \<subseteq> members c \<and> quorum_threshold c \<le> card A \<and> (\<forall>s \<in> A \<inter> H. votes bal s w))
   \<or> (\<exists>d. w = VReady d GOne \<and> members c \<subseteq> echoers (bal i) d True)"

lemma backed_cases:
  assumes "backed c H bal i w"
  obtains (quorum) A where "A \<subseteq> members c" "quorum_threshold c \<le> card A" "\<forall>s \<in> A \<inter> H. votes bal s w"
    | (unanimous) d where "w = VReady d GOne" "members c \<subseteq> echoers (bal i) d True"
  using assms unfolding backed_def by blast

lemma seal_cert_backed:
  assumes cor: "correct_ballots c v dg P H R tr bal" and tol: "tolerable c H" and i: "i \<in> H"
    and "seal_cert (node_cfg c v dg P H tr i) (bal i) out"
  shows "\<exists>w. verdict_out (node_cfg c v dg P H tr i) w out \<and> backed c H bal i w"
proof -
  note sets = ballot_ok_sets [OF correct_ballotsD(1) [OF cor i]]
  have ready: "backed c H bal i (VReady d k)"
    if q: "quorum_threshold c \<le> stake_sum c (readiers (bal i) d k)" and k: "k \<noteq> GMix" for d k
  proof -
    have "votes bal s (VReady d k)" if "s \<in> readiers (bal i) d k \<inter> H" for s
      using that recorded_is_own(3) [OF cor i] k by (auto simp: readiers_def)
    with sets(3) [of d k] q tolerable_units(1) [OF tol] show ?thesis
      unfolding backed_def by (intro disjI1 exI [of _ "readiers (bal i) d k"]) auto
  qed
  have skip: "backed c H bal i VSkip" if "quorum_threshold c \<le> card (bl_skip (bal i))"
    using that sets(4) recorded_is_own(4) [OF cor i] unfolding backed_def
    by (intro disjI1 exI [of _ "bl_skip (bal i)"]) auto
  show ?thesis
    using assms(4)
  proof cases
    case (cert_full p d)
    then show ?thesis using ready [of d GOne] by (intro exI [of _ "VReady d GOne"]) auto
  next
    case (cert_core p d)
    then show ?thesis using ready [of d GZero] by (intro exI [of _ "VReady d GZero"]) auto
  next
    case (cert_fast p d)
    then show ?thesis by (intro exI [of _ "VReady d GOne"]) (auto simp: backed_def)
  next
    case cert_skip
    then show ?thesis using skip tolerable_units(2) [OF tol] by (intro exI [of _ VSkip]) auto
  qed
qed

text \<open>A correct node votes for one verdict, and for the one of every unanimous set of echoes.\<close>

lemma votes_unique:
  assumes "correct_ballots c v dg P H R tr bal" and "s \<in> H" and "votes bal s w" and "votes bal s w'"
  shows "w = w'"
  using assms(3,4) correct_ballotsD(4) [OF assms(1,2)]
  by (cases w; cases w') (auto simp: readiers_def causes_ok_def)

lemma unanimous_vote:
  assumes cor: "correct_ballots c v dg P H R tr bal" and tol: "tolerable c H" and i: "i \<in> H" and s: "s \<in> H"
    and all: "members c \<subseteq> echoers (bal i) d True" and vote: "votes bal s w"
  shows "w = VReady d GOne"
proof -
  have own: "\<exists>p os. bl_echo (bal q) q = Some (EGraded p d 1 os)" if q: "q \<in> H" for q
  proof -
    have "q \<in> echoers (bal i) d True"
      using q cor all by (auto simp: correct_ballots_def)
    then obtain p os where "bl_echo (bal i) q = Some (EGraded p d 1 os)"
      by (auto simp: echoers_def)
    then show ?thesis using recorded_is_own(1) [OF cor i q] by blast
  qed
  note causes = correct_ballotsD(4) [OF cor s] and sets = ballot_ok_sets [OF correct_ballotsD(1) [OF cor s]]
  note units = tolerable_units [OF tol]
  show ?thesis
  proof (cases w)
    case (VReady d' k)
    then have k: "k \<noteq> GMix" "quorum_threshold c \<le> card (echoers (bal s) d' (k = GOne))"
      using vote causes units(1) [OF sets(1) [simplified]] by (auto simp: causes_ok_def readiers_def)
    then obtain q where q: "q \<in> H" "q \<in> echoers (bal s) d' (k = GOne)"
      using tolerable_quorums_meet [OF tol, of "echoers (bal s) d' (k = GOne)" "echoers (bal s) d' (k = GOne)"] sets(1) by auto
    then obtain p k' os where e: "bl_echo (bal s) q = Some (EGraded p d' k' os)" "(k' = 1) = (k = GOne)"
      by (auto simp: echoers_def)
    then have "d' = d" "k' = 1"
      using recorded_is_own(1) [OF cor s q(1) e(1)] own [OF q(1)] by auto
    with VReady e show ?thesis by simp
  next
    case VSkip
    then have "quorum_threshold c \<le> card (skippers (bal s))"
      using vote causes units(2) by (auto simp: causes_ok_def)
    then obtain q where q: "q \<in> H" "q \<in> skippers (bal s)"
      using tolerable_quorums_meet [OF tol, of "skippers (bal s)" "skippers (bal s)"] sets(2) by auto
    then have False
      using own [OF q(1)] recorded_is_own(2) [OF cor s q(1)] by (auto simp: skippers_def)
    then show ?thesis ..
  qed
qed

lemma backed_unique:
  assumes cor: "correct_ballots c v dg P H R tr bal" and tol: "tolerable c H" and i: "i \<in> H" and j: "j \<in> H"
    and w: "backed c H bal i w" and w': "backed c H bal j w'"
  shows "w = w'"
  using w
proof (cases rule: backed_cases)
  case (quorum A)
  note A = this
  show ?thesis
    using w'
  proof (cases rule: backed_cases)
    case (quorum B)
    then show ?thesis
      using tolerable_quorums_meet [OF tol A(1) quorum(1) A(2) quorum(2)] A(3) votes_unique [OF cor] by blast
  next
    case (unanimous d)
    then show ?thesis
      using tolerable_quorums_meet [OF tol A(1,1,2,2)] A(3) unanimous_vote [OF cor tol j _ unanimous(2)] by blast
  qed
next
  case (unanimous d)
  note d = this
  show ?thesis
    using w'
  proof (cases rule: backed_cases)
    case (quorum B)
    then show ?thesis
      using tolerable_quorums_meet [OF tol quorum(1,1,2,2)] unanimous_vote [OF cor tol i _ d(2)] d(1) by blast
  next
    case (unanimous d')
    have "i \<in> members c" using i cor by (auto simp: correct_ballots_def)
    then have "i \<in> echoers (bal i) d True" "i \<in> echoers (bal j) d' True"
      using d unanimous by auto
    then obtain p os p' os' where "bl_echo (bal i) i = Some (EGraded p d 1 os)" "bl_echo (bal j) i = Some (EGraded p' d' 1 os')"
      by (auto simp: echoers_def)
    with d unanimous recorded_is_own(1) [OF cor j i] show ?thesis
      by fastforce
  qed
qed

lemma seals_agree:
  assumes cor: "correct_ballots c v dg P H R tr bal" and tol: "tolerable c H" and inj: "inj_on dg P"
    and i: "i \<in> H" "SaySealed v out \<in> set (tr i)" "\<not> R i out" and j: "j \<in> H" "SaySealed v out' \<in> set (tr j)" "\<not> R j out'"
  shows "out = out'"
proof -
  have cert: "seal_cert (node_cfg c v dg P H tr i) (bal i) out"
    if "i \<in> H" "SaySealed v out \<in> set (tr i)" "\<not> R i out" for i out
    using that speech_okD(3) [OF correct_ballotsD(2) [OF cor that(1)], of out] correct_ballotsD(4) [OF cor that(1)]
    by (auto simp: causes_ok_def)
  obtain w where w: "verdict_out (node_cfg c v dg P H tr i) w out" "backed c H bal i w"
    using seal_cert_backed [OF cor tol i(1) cert [OF i]] by blast
  obtain w' where w': "verdict_out (node_cfg c v dg P H tr j) w' out'" "backed c H bal j w'"
    using seal_cert_backed [OF cor tol j(1) cert [OF j]] by blast
  have "w = w'"
    using backed_unique [OF cor tol i(1) j(1) w(2) w'(2)] .
  then show ?thesis
    using w(1) w'(1) inj
    by (cases w; cases w') (auto simp: known_proposal_def inj_on_def split: ready_grade.splits)
qed

end
