(* ===== verification/Agb_Refinement.thy ===== *)
theory Agb_Refinement
  imports Agb_Spec
begin

text \<open>
  The engine of \<^verbatim>\<open>primary/src/vantage/agb.rs\<close> refines the ballots of theory Agb_Spec: for every view,
  the statements it keeps are a ballot, its tallies count the supporters of that ballot exactly, and
  each handler performs ballot steps that say what the handler broadcasts and seals.
\<close>

section \<open>The ballot of a view state\<close>

definition ballot_of :: "view_state \<Rightarrow> ballot" where
  "ballot_of s = \<lparr>bl_echo = map_of (vs_echo_statements s), bl_ready = map_of (vs_ready_statements s),
     bl_skip = set (vs_skip_vote_statements s), bl_stance = vs_stance s, bl_sealed = vs_sealed s\<rparr>"

lemma ballot_of_simps [simp]:
  "bl_echo (ballot_of s) = map_of (vs_echo_statements s)" "bl_ready (ballot_of s) = map_of (vs_ready_statements s)"
  "bl_skip (ballot_of s) = set (vs_skip_vote_statements s)" "bl_stance (ballot_of s) = vs_stance s"
  "bl_sealed (ballot_of s) = vs_sealed s"
  by (simp_all add: ballot_of_def)

definition answerers :: "ballot \<Rightarrow> digest \<Rightarrow> public_key set" where
  "answerers bl d = {s. \<exists>p k. bl_ready bl s = Some (RGraded p d k)}"

definition noreadies :: "ballot \<Rightarrow> public_key set" where
  "noreadies bl = {s. bl_ready bl s = Some RNoReady}"

definition rejecters :: "ballot \<Rightarrow> public_key set" where
  "rejecters bl = {s. bl_ready bl s = Some RNoReady \<or> (\<exists>p d. bl_ready bl s = Some (RGraded p d GZero))}"

definition echo_tally_ok :: "ballot_cfg \<Rightarrow> ballot \<Rightarrow> digest \<Rightarrow> echo_tally option \<Rightarrow> bool" where
  "echo_tally_ok g bl d tally \<longleftrightarrow>
     (case tally of
        None \<Rightarrow> echoers bl d True = {} \<and> echoers bl d False = {}
      | Some t \<Rightarrow> known_proposal g (et_proposal t) d
          \<and> et_grade_one t = stake_sum (bg_committee g) (echoers bl d True)
          \<and> et_grade_zero t = stake_sum (bg_committee g) (echoers bl d False)
          \<and> et_one_parties t = card (echoers bl d True) \<and> et_zero_parties t = card (echoers bl d False))"

definition ready_tally_ok :: "ballot_cfg \<Rightarrow> ballot \<Rightarrow> digest \<Rightarrow> ready_tally option \<Rightarrow> bool" where
  "ready_tally_ok g bl d tally \<longleftrightarrow>
     (case tally of
        None \<Rightarrow> answerers bl d = {}
      | Some t \<Rightarrow> known_proposal g (rt_proposal t) d
          \<and> rt_any t = stake_sum (bg_committee g) (answerers bl d)
          \<and> rt_grade_one t = stake_sum (bg_committee g) (readiers bl d GOne)
          \<and> rt_grade_zero t = stake_sum (bg_committee g) (readiers bl d GZero))"

text \<open>The tallies count exactly the supporters that the statements name.\<close>

definition tallies_exact :: "ballot_cfg \<Rightarrow> view_state \<Rightarrow> bool" where
  "tallies_exact g s \<longleftrightarrow>
     (\<forall>d. echo_tally_ok g (ballot_of s) d (map_of (vs_echo_tallies s) d))
   \<and> (\<forall>d. ready_tally_ok g (ballot_of s) d (map_of (vs_ready_tallies s) d))
   \<and> vs_echo_skip_parties s = card (skippers (ballot_of s))
   \<and> vs_noready_parties s = card (noreadies (ballot_of s))
   \<and> vs_ready_zero_or_noready_parties s = card (rejecters (ballot_of s))"

definition orders_ok :: "view_state \<Rightarrow> bool" where
  "orders_ok s \<longleftrightarrow> omap_ok (vs_echo_statements s) \<and> omap_ok (vs_echo_tallies s) \<and> oset_ok (vs_skip_vote_statements s)"

definition locals_ok :: "ballot_cfg \<Rightarrow> view_state \<Rightarrow> bool" where
  "locals_ok g s \<longleftrightarrow>
     (map_of (vs_echo_statements s) (bg_name g) \<noteq> None \<longrightarrow> vs_echo_sent s)
   \<and> (map_of (vs_ready_statements s) (bg_name g) \<noteq> None \<longrightarrow> vs_ready_sent s)
   \<and> (\<forall>(p, d) \<in> set (vs_digest_cache s). known_proposal g p d)
   \<and> (\<forall>p d. vs_fixed s = FProposal p d \<longrightarrow> known_proposal g p d)
   \<and> (\<forall>l. vs_lock s = Some l \<longrightarrow> known_proposal g (lk_proposal l) (lk_digest l))"

definition view_ok :: "ballot_cfg \<Rightarrow> view_state \<Rightarrow> bool" where
  "view_ok g s \<longleftrightarrow> orders_ok s \<and> ballot_ok g (ballot_of s) \<and> tallies_exact g s \<and> locals_ok g s"

named_theorems view_simps \<open>fields that the ballot and its tallies do not read\<close>

lemmas view_defs = view_ok_def orders_ok_def tallies_exact_def locals_ok_def ballot_of_def

lemma view_ok_simps [view_simps]:
  "view_ok g (s\<lparr>vs_ready_mix_open := a\<rparr>) = view_ok g s"
  "view_ok g (s\<lparr>vs_completed := b, vs_completed_open_unsealed := a\<rparr>) = view_ok g s"
  "view_ok g (s\<lparr>vs_directed := e\<rparr>) = view_ok g s"
  "view_ok g (s\<lparr>vs_fastsealed := a\<rparr>) = view_ok g s"
  "view_ok g (s\<lparr>vs_active := a\<rparr>) = view_ok g s"
  "view_ok g (s\<lparr>vs_entered := a, vs_entry_instant := h\<rparr>) = view_ok g s"
  "view_ok g (s\<lparr>vs_first_proposal_instant := h\<rparr>) = view_ok g s"
  "view_ok g (s\<lparr>vs_aux_accepted := a\<rparr>) = view_ok g s"
  "view_ok g (s\<lparr>vs_skip_sealed := a\<rparr>) = view_ok g s"
  by (simp_all add: view_defs)

lemma ballot_of_unread [view_simps]:
  "ballot_of (s\<lparr>vs_fixed := f\<rparr>) = ballot_of s"
  "ballot_of (s\<lparr>vs_echo_sent := a\<rparr>) = ballot_of s"
  "ballot_of (s\<lparr>vs_ready_sent := a\<rparr>) = ballot_of s"
  "ballot_of (s\<lparr>vs_ready_mix_open := a\<rparr>) = ballot_of s"
  "ballot_of (s\<lparr>vs_completed := b\<rparr>) = ballot_of s"
  "ballot_of (s\<lparr>vs_completed_open_unsealed := a\<rparr>) = ballot_of s"
  "ballot_of (s\<lparr>vs_directed := e\<rparr>) = ballot_of s"
  "ballot_of (s\<lparr>vs_fastsealed := a\<rparr>) = ballot_of s"
  "ballot_of (s\<lparr>vs_active := a\<rparr>) = ballot_of s"
  "ballot_of (s\<lparr>vs_entered := a\<rparr>) = ballot_of s"
  "ballot_of (s\<lparr>vs_entry_instant := h\<rparr>) = ballot_of s"
  "ballot_of (s\<lparr>vs_first_proposal_instant := h\<rparr>) = ballot_of s"
  "ballot_of (s\<lparr>vs_lock := l\<rparr>) = ballot_of s"
  "ballot_of (s\<lparr>vs_digest_cache := q\<rparr>) = ballot_of s"
  "ballot_of (s\<lparr>vs_aux_accepted := a\<rparr>) = ballot_of s"
  "ballot_of (s\<lparr>vs_skip_sealed := a\<rparr>) = ballot_of s"
  by (simp_all add: ballot_of_def)

text \<open>Updates of fields that the invariant reads.\<close>

lemma view_ok_updates:
  assumes "view_ok g s"
  shows "view_ok g (s\<lparr>vs_echo_sent := True\<rparr>)" "view_ok g (s\<lparr>vs_ready_sent := True\<rparr>)"
    "view_ok g (s\<lparr>vs_fixed := FReject\<rparr>)"
    "known_proposal g p d \<Longrightarrow> view_ok g (s\<lparr>vs_fixed := FProposal p d\<rparr>)"
    "known_proposal g (lk_proposal l) (lk_digest l) \<Longrightarrow> view_ok g (s\<lparr>vs_lock := Some l\<rparr>)"
    "known_proposal g p d \<Longrightarrow> view_ok g (s\<lparr>vs_digest_cache := vs_digest_cache s @ [(p, d)]\<rparr>)"
    "view_ok g (s\<lparr>vs_completed_open_unsealed := False, vs_sealed := Some out\<rparr>)"
    "vs_stance s = Free \<Longrightarrow> view_ok g (s\<lparr>vs_stance := NonSkip\<rparr>)"
proof -
  show "view_ok g (s\<lparr>vs_echo_sent := True\<rparr>)" "view_ok g (s\<lparr>vs_ready_sent := True\<rparr>)"
    "view_ok g (s\<lparr>vs_fixed := FReject\<rparr>)"
    "known_proposal g p d \<Longrightarrow> view_ok g (s\<lparr>vs_fixed := FProposal p d\<rparr>)"
    "known_proposal g (lk_proposal l) (lk_digest l) \<Longrightarrow> view_ok g (s\<lparr>vs_lock := Some l\<rparr>)"
    "known_proposal g p d \<Longrightarrow> view_ok g (s\<lparr>vs_digest_cache := vs_digest_cache s @ [(p, d)]\<rparr>)"
    using assms by (auto simp: view_defs)
  have "view_ok g (s\<lparr>vs_sealed := e\<rparr>)" for e
    using assms
    by (simp add: view_ok_def orders_ok_def tallies_exact_def locals_ok_def echo_tally_ok_def ready_tally_ok_def ballot_ok_def
        echoers_def readiers_def answerers_def skippers_def noreadies_def rejecters_def cong: option.case_cong)
  then show "view_ok g (s\<lparr>vs_completed_open_unsealed := False, vs_sealed := Some out\<rparr>)"
    by (simp add: view_defs)
  show "vs_stance s = Free \<Longrightarrow> view_ok g (s\<lparr>vs_stance := NonSkip\<rparr>)"
    using assms
    by (simp add: view_ok_def orders_ok_def tallies_exact_def locals_ok_def echo_tally_ok_def ready_tally_ok_def ballot_ok_def
        echoers_def readiers_def answerers_def skippers_def noreadies_def rejecters_def cong: option.case_cong)
qed

section \<open>Recording statements\<close>

lemma echo_sets_cong:
  assumes "bl_echo bl' = bl_echo bl"
  shows "echoers bl' = echoers bl" "skippers bl' = skippers bl" "echo_tally_ok g bl' = echo_tally_ok g bl"
proof -
  show e: "echoers bl' = echoers bl"
    using assms by (simp add: echoers_def fun_eq_iff)
  show "skippers bl' = skippers bl"
    using assms by (simp add: skippers_def)
  show "echo_tally_ok g bl' = echo_tally_ok g bl"
    by (simp add: echo_tally_ok_def fun_eq_iff e split: option.split)
qed

lemma ready_sets_cong:
  assumes "bl_ready bl' = bl_ready bl"
  shows "readiers bl' = readiers bl" "answerers bl' = answerers bl" "noreadies bl' = noreadies bl"
    "rejecters bl' = rejecters bl" "ready_tally_ok g bl' = ready_tally_ok g bl"
proof -
  show r: "readiers bl' = readiers bl" and a: "answerers bl' = answerers bl"
    using assms by (simp_all add: readiers_def answerers_def fun_eq_iff)
  show "noreadies bl' = noreadies bl" "rejecters bl' = rejecters bl"
    using assms by (simp_all add: noreadies_def rejecters_def)
  show "ready_tally_ok g bl' = ready_tally_ok g bl"
    by (simp add: ready_tally_ok_def fun_eq_iff r a split: option.split)
qed

text \<open>A first echo of a sender.\<close>

lemma echoers_put:
  assumes "bl_echo bl s = None" and "bl_echo bl' = (bl_echo bl)(s \<mapsto> st)"
  shows "echoers bl' d b = (case st of EGraded p d' k os \<Rightarrow> if d' = d \<and> (k = 1) = b then insert s (echoers bl d b) else echoers bl d b
      | ESkip \<Rightarrow> echoers bl d b)"
    and "skippers bl' = (case st of EGraded p d' k os \<Rightarrow> skippers bl | ESkip \<Rightarrow> insert s (skippers bl))"
    and "s \<notin> echoers bl d b" "s \<notin> skippers bl"
  using assms by (auto simp: echoers_def skippers_def split: echo_statement.splits)

lemma record_echo_ballot:
  "ballot_of (record_echo w s st vs) = (ballot_of vs)\<lparr>bl_echo := (map_of (vs_echo_statements vs))(s \<mapsto> st)\<rparr>"
  by (auto simp: record_echo_def ballot_of_def omap_simps split: echo_statement.splits)

lemma record_echo_tally:
  assumes fin: "\<And>d b. finite (echoers bl d b)" and new: "bl_echo bl s = None" "bl_echo bl' = (bl_echo bl)(s \<mapsto> EGraded p d k os)"
    and ok: "echo_tally_ok g bl d' t" and known: "known_proposal g p d"
  shows "echo_tally_ok g bl' d' (if d' = d then Some (add_echo (stake_of (bg_committee g) s) k os
      (case t of None \<Rightarrow> \<lparr>et_proposal = p, et_grade_one = 0, et_grade_zero = 0, et_one_parties = 0, et_zero_parties = 0,
         et_origin_ones = replicate (length (p_entries p)) 0\<rparr> | Some t \<Rightarrow> t)) else t)"
proof (cases "d' = d")
  case True
  then show ?thesis
    using ok known fin echoers_put(3) [OF new, of d True] echoers_put(3) [OF new, of d False]
    by (auto simp: echo_tally_ok_def add_echo_def Let_def echoers_put(1) [OF new] stake_sum_insert split: option.splits)
      (simp_all add: stake_sum_def)
next
  case False
  then show ?thesis
    using ok by (auto simp: echo_tally_ok_def echoers_put(1) [OF new] split: option.splits)
qed

lemma view_ok_finite:
  assumes "view_ok g s"
  shows "finite (echoers (ballot_of s) d b)" "finite (skippers (ballot_of s))" "finite (readiers (ballot_of s) d k)"
    "finite (answerers (ballot_of s) d)" "finite (noreadies (ballot_of s))" "finite (rejecters (ballot_of s))"
proof -
  have ok: "ballot_ok g (ballot_of s)"
    using assms by (simp add: view_ok_def)
  have sub: "answerers (ballot_of s) d \<subseteq> members (bg_committee g)" "noreadies (ballot_of s) \<subseteq> members (bg_committee g)"
    "rejecters (ballot_of s) \<subseteq> members (bg_committee g)"
    using ok by (auto simp: ballot_ok_def answerers_def noreadies_def rejecters_def)
  show "finite (answerers (ballot_of s) d)" "finite (noreadies (ballot_of s))" "finite (rejecters (ballot_of s))"
    by (rule finite_subset [OF sub(1) finite_members] finite_subset [OF sub(2) finite_members] finite_subset [OF sub(3) finite_members])+
  show "finite (echoers (ballot_of s) d b)" "finite (skippers (ballot_of s))" "finite (readiers (ballot_of s) d k)"
    by (rule ballot_ok_sets [OF ok, THEN finite_subset, OF finite_members])+
qed

lemma record_echo_ok:
  assumes ok: "view_ok g vs" and new: "map_of (vs_echo_statements vs) s = None" and s: "s \<in> members (bg_committee g)"
    and known: "\<And>p d k os. st = EGraded p d k os \<Longrightarrow> known_proposal g p d" and own: "s = bg_name g \<Longrightarrow> vs_echo_sent vs"
  shows "view_ok g (record_echo (stake_of (bg_committee g) s) s st vs)"
proof -
  let ?vs = "record_echo (stake_of (bg_committee g) s) s st vs"
  have bl: "bl_echo (ballot_of vs) s = None" "bl_echo (ballot_of ?vs) = (bl_echo (ballot_of vs))(s \<mapsto> st)"
    using new by (simp_all add: record_echo_ballot)
  note put = echoers_put [OF bl] and ready = ready_sets_cong [of "ballot_of ?vs" "ballot_of vs"]
  have rest: "bl_ready (ballot_of ?vs) = bl_ready (ballot_of vs)" "bl_skip (ballot_of ?vs) = bl_skip (ballot_of vs)"
    "bl_stance (ballot_of ?vs) = bl_stance (ballot_of vs)"
    by (simp_all add: record_echo_ballot)
  have "ballot_ok g (ballot_of ?vs)"
    using ok s known bl rest by (auto simp: view_ok_def ballot_ok_def)
  moreover have "orders_ok ?vs"
    using ok by (auto simp: view_ok_def orders_ok_def record_echo_def intro: order_intros split: echo_statement.splits)
  moreover have "locals_ok g ?vs"
    using ok own by (auto simp: view_ok_def locals_ok_def record_echo_def omap_simps split: echo_statement.splits)
  moreover have "echo_tally_ok g (ballot_of ?vs) d (map_of (vs_echo_tallies ?vs) d)" for d
  proof (cases st)
    case (EGraded p d' k os)
    then show ?thesis
      using record_echo_tally [OF view_ok_finite(1) [OF ok] bl(1) bl(2) [unfolded EGraded], of g d "map_of (vs_echo_tallies vs) d"]
        ok known by (auto simp: record_echo_def omap_simps view_ok_def tallies_exact_def)
  next
    case ESkip
    then have "echoers (ballot_of ?vs) d b = echoers (ballot_of vs) d b" for b
      using put(1) [of d b] by simp
    then have "echo_tally_ok g (ballot_of ?vs) d t = echo_tally_ok g (ballot_of vs) d t" for t
      by (simp add: echo_tally_ok_def split: option.split)
    moreover have "vs_echo_tallies ?vs = vs_echo_tallies vs"
      using ESkip by (simp add: record_echo_def)
    ultimately show ?thesis
      using ok by (simp add: view_ok_def tallies_exact_def)
  qed
  moreover have "vs_echo_skip_parties ?vs = card (skippers (ballot_of ?vs))"
    using ok put(2,4) view_ok_finite(2) [OF ok]
    by (auto simp: record_echo_def view_ok_def tallies_exact_def split: echo_statement.splits)
  moreover have "vs_ready_tallies ?vs = vs_ready_tallies vs" "vs_noready_parties ?vs = vs_noready_parties vs"
    "vs_ready_zero_or_noready_parties ?vs = vs_ready_zero_or_noready_parties vs"
    by (simp_all add: record_echo_def split: echo_statement.splits)
  ultimately show ?thesis
    using ok ready [OF rest(1)] by (simp add: view_ok_def tallies_exact_def)
qed

text \<open>A first ready-stage response of a sender, and the refinement of a mixed one.\<close>

lemma readiers_put:
  assumes "bl_ready bl s = None \<or> (\<exists>p. bl_ready bl s = Some (RGraded p od GMix))" and "bl_ready bl' = (bl_ready bl)(s \<mapsto> st)" and "k \<noteq> GMix"
  shows "readiers bl' d k = (case st of RGraded p d' k' \<Rightarrow> if d' = d \<and> k' = k then insert s (readiers bl d k) else readiers bl d k
      | RNoReady \<Rightarrow> readiers bl d k)"
    and "s \<notin> readiers bl d k"
  using assms by (auto simp: readiers_def split: ready_statement.splits)

lemma answerers_put:
  assumes "bl_ready bl' = (bl_ready bl)(s \<mapsto> st)"
  shows "bl_ready bl s = None \<Longrightarrow> answerers bl' d = (case st of RGraded p d' k' \<Rightarrow> if d' = d then insert s (answerers bl d) else answerers bl d
      | RNoReady \<Rightarrow> answerers bl d)"
    and "bl_ready bl s = Some (RGraded p0 od GMix) \<Longrightarrow> st = RGraded p od k \<Longrightarrow> answerers bl' d = answerers bl d"
    and "bl_ready bl s = None \<Longrightarrow> s \<notin> answerers bl d"
  using assms by (auto simp: answerers_def split: ready_statement.splits)

lemma rejecters_put:
  assumes "bl_ready bl s = None \<or> (\<exists>p. bl_ready bl s = Some (RGraded p od GMix))" and "bl_ready bl' = (bl_ready bl)(s \<mapsto> st)"
  shows "rejecters bl' = (case st of RGraded p d' k' \<Rightarrow> if k' = GZero then insert s (rejecters bl) else rejecters bl
      | RNoReady \<Rightarrow> insert s (rejecters bl))"
    and "noreadies bl' = (case st of RGraded p d' k' \<Rightarrow> noreadies bl | RNoReady \<Rightarrow> insert s (noreadies bl))"
    and "s \<notin> rejecters bl" "s \<notin> noreadies bl"
  using assms by (auto simp: rejecters_def noreadies_def split: ready_statement.splits)

lemma record_ready_ballot:
  "ballot_of (record_ready w s st vs) = (ballot_of vs)\<lparr>bl_ready := (map_of (vs_ready_statements vs))(s \<mapsto> st)\<rparr>"
  by (auto simp: record_ready_def ballot_of_def omap_simps Let_def split: ready_statement.splits)

lemma refine_ready_ballot:
  "ballot_of (refine_ready w s p d k vs) = (ballot_of vs)\<lparr>bl_ready := (map_of (vs_ready_statements vs))(s \<mapsto> RGraded p d k)\<rparr>"
  by (simp add: refine_ready_def ballot_of_def omap_simps)

text \<open>What both updates have in common.\<close>

lemma ready_update_ok:
  assumes ok: "view_ok g vs" and s: "s \<in> members (bg_committee g)"
    and known: "\<And>p d k. st = RGraded p d k \<Longrightarrow> known_proposal g p d" and own: "s = bg_name g \<Longrightarrow> vs_ready_sent vs"
    and bl: "ballot_of vs' = (ballot_of vs)\<lparr>bl_ready := (map_of (vs_ready_statements vs))(s \<mapsto> st)\<rparr>"
    and prior: "map_of (vs_ready_statements vs) s = None \<or> (\<exists>p. map_of (vs_ready_statements vs) s = Some (RGraded p od GMix))"
    and same: "orders_ok vs' = orders_ok vs" "vs_ready_sent vs' = vs_ready_sent vs" "vs_echo_sent vs' = vs_echo_sent vs"
      "vs_digest_cache vs' = vs_digest_cache vs" "vs_fixed vs' = vs_fixed vs" "vs_lock vs' = vs_lock vs"
      "vs_echo_tallies vs' = vs_echo_tallies vs" "vs_echo_skip_parties vs' = vs_echo_skip_parties vs"
    and count: "vs_noready_parties vs' = vs_noready_parties vs + (if st = RNoReady then 1 else 0)"
      "vs_ready_zero_or_noready_parties vs' = vs_ready_zero_or_noready_parties vs +
         (case st of RGraded _ _ k \<Rightarrow> if k = GZero then 1 else 0 | RNoReady \<Rightarrow> 1)"
    and tally: "\<And>d. ready_tally_ok g (ballot_of vs') d (map_of (vs_ready_tallies vs') d)"
  shows "view_ok g vs'"
proof -
  have maps: "map_of (vs_echo_statements vs') = map_of (vs_echo_statements vs)"
      "map_of (vs_ready_statements vs') = (map_of (vs_ready_statements vs))(s \<mapsto> st)"
      "set (vs_skip_vote_statements vs') = set (vs_skip_vote_statements vs)" "vs_stance vs' = vs_stance vs"
    using arg_cong [OF bl, of bl_echo] arg_cong [OF bl, of bl_ready] arg_cong [OF bl, of bl_skip] arg_cong [OF bl, of bl_stance]
    by simp_all
  have "ballot_ok g (ballot_of vs')"
    using ok s known by (auto simp: view_ok_def ballot_ok_def maps)
  moreover have "locals_ok g vs'"
    using ok own by (auto simp: view_ok_def locals_ok_def same maps)
  moreover have "card (noreadies (ballot_of vs')) = vs_noready_parties vs'"
      "card (rejecters (ballot_of vs')) = vs_ready_zero_or_noready_parties vs'"
    using ok rejecters_put [of "ballot_of vs" s od "ballot_of vs'" st] prior view_ok_finite(5,6) [OF ok]
    by (auto simp: maps count view_ok_def tallies_exact_def split: ready_statement.splits)
  ultimately show ?thesis
    using ok tally echo_sets_cong [of "ballot_of vs'" "ballot_of vs"]
    by (simp add: view_ok_def tallies_exact_def same maps)
qed

lemma record_ready_ok:
  assumes ok: "view_ok g vs" and new: "map_of (vs_ready_statements vs) s = None" and s: "s \<in> members (bg_committee g)"
    and known: "\<And>p d k. st = RGraded p d k \<Longrightarrow> known_proposal g p d" and own: "s = bg_name g \<Longrightarrow> vs_ready_sent vs"
  shows "view_ok g (record_ready (stake_of (bg_committee g) s) s st vs)"
proof (rule ready_update_ok [OF ok s known own record_ready_ballot disjI1 [OF new]])
  let ?vs = "record_ready (stake_of (bg_committee g) s) s st vs"
  show "orders_ok ?vs = orders_ok vs" "vs_ready_sent ?vs = vs_ready_sent vs" "vs_echo_sent ?vs = vs_echo_sent vs"
      "vs_digest_cache ?vs = vs_digest_cache vs" "vs_fixed ?vs = vs_fixed vs" "vs_lock ?vs = vs_lock vs"
      "vs_echo_tallies ?vs = vs_echo_tallies vs" "vs_echo_skip_parties ?vs = vs_echo_skip_parties vs"
      "vs_noready_parties ?vs = vs_noready_parties vs + (if st = RNoReady then 1 else 0)"
      "vs_ready_zero_or_noready_parties ?vs = vs_ready_zero_or_noready_parties vs +
         (case st of RGraded _ _ k \<Rightarrow> if k = GZero then 1 else 0 | RNoReady \<Rightarrow> 1)"
    by (simp_all add: record_ready_def orders_ok_def Let_def split: ready_statement.split)
  fix d
  have bl: "bl_ready (ballot_of vs) s = None" "bl_ready (ballot_of ?vs) = (bl_ready (ballot_of vs))(s \<mapsto> st)"
    using new by (simp_all add: record_ready_ballot)
  note put = readiers_put [OF disjI1 [OF bl(1)] bl(2)] and any = answerers_put [OF bl(2)] and fin = view_ok_finite [OF ok]
  have old: "ready_tally_ok g (ballot_of vs) d (map_of (vs_ready_tallies vs) d)"
    using ok by (simp add: view_ok_def tallies_exact_def)
  show "ready_tally_ok g (ballot_of ?vs) d (map_of (vs_ready_tallies ?vs) d)"
  proof (cases "\<exists>p k. st = RGraded p d k")
    case True
    then obtain p k where st: "st = RGraded p d k" by blast
    have sets: "readiers (ballot_of ?vs) d GOne = (if k = GOne then insert s (readiers (ballot_of vs) d GOne) else readiers (ballot_of vs) d GOne)"
      "readiers (ballot_of ?vs) d GZero = (if k = GZero then insert s (readiers (ballot_of vs) d GZero) else readiers (ballot_of vs) d GZero)"
      "answerers (ballot_of ?vs) d = insert s (answerers (ballot_of vs) d)"
      using put(1) [of GOne d] put(1) [of GZero d] any(1) [OF bl(1), of d] by (simp_all add: st)
    have notin: "s \<notin> readiers (ballot_of vs) d GOne" "s \<notin> readiers (ballot_of vs) d GZero" "s \<notin> answerers (ballot_of vs) d"
      using put(2) any(3) [OF bl(1)] by simp_all
    have empty: "answerers (ballot_of vs) d = {} \<Longrightarrow> readiers (ballot_of vs) d k' = {}" for k'
      by (auto simp: answerers_def readiers_def)
    have "map_of (vs_ready_tallies ?vs) d = Some ((\<lambda>t. t\<lparr>rt_any := rt_any t + stake_of (bg_committee g) s,
           rt_grade_one := rt_grade_one t + (if k = GOne then stake_of (bg_committee g) s else 0),
           rt_grade_zero := rt_grade_zero t + (if k = GZero then stake_of (bg_committee g) s else 0)\<rparr>)
        (case map_of (vs_ready_tallies vs) d of None \<Rightarrow> \<lparr>rt_proposal = p, rt_any = 0, rt_grade_one = 0, rt_grade_zero = 0\<rparr> | Some t \<Rightarrow> t))"
      by (simp add: record_ready_def st omap_simps)
    then show ?thesis
      using old known [OF st] empty notin fin
      by (cases "map_of (vs_ready_tallies vs) d") (auto simp: ready_tally_ok_def sets stake_sum_insert stake_sum_def [of _ "{}"])
  next
    case False
    have same: "readiers (ballot_of ?vs) d GOne = readiers (ballot_of vs) d GOne" "readiers (ballot_of ?vs) d GZero = readiers (ballot_of vs) d GZero"
      "answerers (ballot_of ?vs) d = answerers (ballot_of vs) d"
      using False put(1) [of GOne d] put(1) [of GZero d] any(1) [OF bl(1), of d] by (auto split: ready_statement.splits if_splits)
    have "map_of (vs_ready_tallies ?vs) d = map_of (vs_ready_tallies vs) d"
      using False by (auto simp: record_ready_def omap_simps Let_def split: ready_statement.split)
    then show ?thesis
      using old by (simp add: ready_tally_ok_def same split: option.splits)
  qed
qed

lemma refine_ready_ok:
  assumes ok: "view_ok g vs" and old: "map_of (vs_ready_statements vs) s = Some (RGraded p0 d GMix)" and s: "s \<in> members (bg_committee g)"
    and known: "known_proposal g p d" and k: "k \<noteq> GMix"
  shows "view_ok g (refine_ready (stake_of (bg_committee g) s) s p d k vs)"
proof (rule ready_update_ok [OF ok s _ _ refine_ready_ballot, where od = d])
  let ?vs = "refine_ready (stake_of (bg_committee g) s) s p d k vs"
  show "orders_ok ?vs = orders_ok vs" "vs_ready_sent ?vs = vs_ready_sent vs" "vs_echo_sent ?vs = vs_echo_sent vs"
      "vs_digest_cache ?vs = vs_digest_cache vs" "vs_fixed ?vs = vs_fixed vs" "vs_lock ?vs = vs_lock vs"
      "vs_echo_tallies ?vs = vs_echo_tallies vs" "vs_echo_skip_parties ?vs = vs_echo_skip_parties vs"
      "vs_noready_parties ?vs = vs_noready_parties vs + (if RGraded p d k = RNoReady then 1 else 0)"
      "vs_ready_zero_or_noready_parties ?vs = vs_ready_zero_or_noready_parties vs +
         (case RGraded p d k of RGraded _ _ k \<Rightarrow> if k = GZero then 1 else 0 | RNoReady \<Rightarrow> 1)"
    by (simp_all add: refine_ready_def orders_ok_def)
  show "map_of (vs_ready_statements vs) s = None \<or> (\<exists>p. map_of (vs_ready_statements vs) s = Some (RGraded p d GMix))"
    using old by blast
  show "vs_ready_sent vs" if "s = bg_name g"
    using that ok old by (simp add: view_ok_def locals_ok_def)
  show "known_proposal g p' d'" if "RGraded p d k = RGraded p' d' k'" for p' d' k'
    using that known by simp
  fix d'
  have bl: "bl_ready (ballot_of vs) s = Some (RGraded p0 d GMix)" "bl_ready (ballot_of ?vs) = (bl_ready (ballot_of vs))(s \<mapsto> RGraded p d k)"
    using old by (simp_all add: refine_ready_ballot)
  have mixed: "bl_ready (ballot_of vs) s = None \<or> (\<exists>p. bl_ready (ballot_of vs) s = Some (RGraded p d GMix))"
    using bl(1) by blast
  note put = readiers_put [OF mixed bl(2)]
  have any: "answerers (ballot_of ?vs) d' = answerers (ballot_of vs) d'"
    using answerers_put(2) [OF bl(2) bl(1)] by simp
  have tally: "ready_tally_ok g (ballot_of vs) d' (map_of (vs_ready_tallies vs) d')"
    using ok by (simp add: view_ok_def tallies_exact_def)
  have sets: "readiers (ballot_of ?vs) d' k' = (if d = d' \<and> k = k' then insert s (readiers (ballot_of vs) d' k') else readiers (ballot_of vs) d' k')"
      "s \<notin> readiers (ballot_of vs) d' k'" if "k' \<noteq> GMix" for k'
    using put [OF that, of d'] by simp_all
  show "ready_tally_ok g (ballot_of ?vs) d' (map_of (vs_ready_tallies ?vs) d')"
  proof (cases "d' = d")
    case True
    have "s \<in> answerers (ballot_of vs) d"
      using old by (simp add: answerers_def)
    then obtain t where t: "map_of (vs_ready_tallies vs) d = Some t"
      using tally True by (cases "map_of (vs_ready_tallies vs) d") (auto simp: ready_tally_ok_def)
    then have "map_of (vs_ready_tallies ?vs) d = Some (if k = GOne then t\<lparr>rt_grade_one := rt_grade_one t + stake_of (bg_committee g) s\<rparr>
        else t\<lparr>rt_grade_zero := rt_grade_zero t + stake_of (bg_committee g) s\<rparr>)"
      by (simp add: refine_ready_def omap_simps)
    then show ?thesis
      using tally k True t sets [of GOne] sets [of GZero] any view_ok_finite(3) [OF ok]
      by (cases k) (simp_all add: ready_tally_ok_def stake_sum_insert)
  next
    case False
    then have "map_of (vs_ready_tallies ?vs) d' = map_of (vs_ready_tallies vs) d'"
      by (simp add: refine_ready_def omap_simps split: option.split)
    then show ?thesis
      using tally False sets by (simp add: ready_tally_ok_def any split: option.splits)
  qed
qed

text \<open>Skip votes.\<close>

lemma skip_vote_ok:
  assumes "view_ok g vs" and "s \<in> members (bg_committee g)" and "s = bg_name g \<Longrightarrow> st = SkipVoted"
    and "s \<noteq> bg_name g \<Longrightarrow> st = vs_stance vs"
  shows "view_ok g (vs\<lparr>vs_stance := st, vs_skip_vote_statements := os_ins s (vs_skip_vote_statements vs)\<rparr>)"
proof -
  let ?vs = "vs\<lparr>vs_stance := st, vs_skip_vote_statements := os_ins s (vs_skip_vote_statements vs)\<rparr>"
  have "ballot_ok g (ballot_of ?vs)"
    using assms by (cases "s = bg_name g") (auto simp: view_ok_def ballot_ok_def)
  moreover have "orders_ok ?vs" "locals_ok g ?vs"
    using assms by (auto simp: view_ok_def orders_ok_def locals_ok_def intro: order_intros)
  ultimately show ?thesis
    using assms(1) echo_sets_cong [of "ballot_of ?vs" "ballot_of vs"] ready_sets_cong [of "ballot_of ?vs" "ballot_of vs"]
    by (simp add: view_ok_def tallies_exact_def)
qed

section \<open>Engine steps\<close>

definition agb_ok :: "codec \<Rightarrow> ballot_cfg \<Rightarrow> agb_engine \<Rightarrow> bool" where
  "agb_ok cd g eng \<longleftrightarrow>
     committee_ok (bg_committee g) \<and> bg_name g \<in> members (bg_committee g)
   \<and> ae_name eng = bg_name g \<and> ae_committee eng = bg_committee g \<and> p_digest cd (ae_sid eng) = bg_digest g
   \<and> ae_n eng = committee_size (bg_committee g) \<and> ae_quorum_parties eng = bg_parties g \<and> ae_quorum eng = bg_quorum g
   \<and> (\<not> agb_pruned eng (bg_view g) \<longrightarrow> view_ok g (view_at eng (bg_view g)))"

text \<open>A piece of a handler performs ballot steps for the view of \<open>g\<close>; about a pruned view it is silent.\<close>

definition agb_to :: "codec \<Rightarrow> ballot_cfg \<Rightarrow> (outcome \<Rightarrow> bool) \<Rightarrow> agb_engine \<Rightarrow> effect list \<Rightarrow> agb_engine \<Rightarrow> bool" where
  "agb_to cd g R eng es eng' \<longleftrightarrow>
     agb_ok cd g eng' \<and> ae_min_live_view eng' = ae_min_live_view eng
   \<and> (if agb_pruned eng (bg_view g) then said_about (bg_view g) es = []
      else ballot_steps g R (ballot_of (view_at eng (bg_view g))) (said_about (bg_view g) es) (ballot_of (view_at eng' (bg_view g))))"

lemma view_at_state_mut: "view_at (state_mut u f eng) v = (if v = u then f (view_at eng u) else view_at eng v)"
  by (auto simp: view_at_def state_mut_def map_of_om_upd split: option.splits)

lemma om_put_put: "om_put k v (om_put k v' m) = om_put k v m"
  by (induction m) auto

lemma state_mut_state_mut: "state_mut u f (state_mut u h eng) = state_mut u (\<lambda>s. f (h s)) eng"
  by (simp add: state_mut_def om_upd_def map_of_om_put om_put_put)

lemma state_mut_simps [simp]:
  "ae_name (state_mut u f eng) = ae_name eng" "ae_committee (state_mut u f eng) = ae_committee eng"
  "ae_sid (state_mut u f eng) = ae_sid eng" "ae_n (state_mut u f eng) = ae_n eng" "ae_quorum (state_mut u f eng) = ae_quorum eng"
  "ae_quorum_parties (state_mut u f eng) = ae_quorum_parties eng" "ae_min_live_view (state_mut u f eng) = ae_min_live_view eng"
  "ae_f_plus_1_parties (state_mut u f eng) = ae_f_plus_1_parties eng" "ae_proposers (state_mut u f eng) = ae_proposers eng"
  "ae_delta (state_mut u f eng) = ae_delta eng" "ae_pending_gate (state_mut u f eng) = ae_pending_gate eng"
  by (simp_all add: state_mut_def)

lemma view_at_gate [simp]:
  "view_at (eng\<lparr>ae_pending_gate := x\<rparr>) v = view_at eng v" "view_at (eng\<lparr>ae_recheck_cursor := y\<rparr>) v = view_at eng v"
  by (simp_all add: view_at_def)

lemma agb_okD:
  assumes "agb_ok cd g eng"
  shows "committee_ok (bg_committee g)" "bg_name g \<in> members (bg_committee g)" "ae_name eng = bg_name g" "ae_committee eng = bg_committee g"
    "p_digest cd (ae_sid eng) = bg_digest g" "ae_n eng = committee_size (bg_committee g)" "ae_quorum_parties eng = bg_parties g"
    "ae_quorum eng = bg_quorum g" "\<not> agb_pruned eng (bg_view g) \<Longrightarrow> view_ok g (view_at eng (bg_view g))"
  using assms by (simp_all add: agb_ok_def)

lemma agb_toD:
  assumes "agb_to cd g R eng es eng'"
  shows "agb_ok cd g eng'" "ae_min_live_view eng' = ae_min_live_view eng"
  using assms by (simp_all add: agb_to_def)

lemma agb_to_refl: "agb_ok cd g eng \<Longrightarrow> said_about (bg_view g) es = [] \<Longrightarrow> agb_to cd g R eng es eng"
  by (simp add: agb_to_def steps_refl)

lemma agb_to_idle: "agb_ok cd g eng \<Longrightarrow> agb_to cd g R eng [] eng"
  by (simp add: agb_to_refl said_about_def)

lemma agb_to_trans:
  assumes "agb_to cd g R eng es eng1" and "agb_to cd g R eng1 es' eng2"
  shows "agb_to cd g R eng (es @ es') eng2"
  using assms by (auto simp: agb_to_def intro: ballot_steps_trans)

lemma agb_to_quiet:
  assumes "agb_to cd g R eng es eng'" and "said_about (bg_view g) es' = said_about (bg_view g) es"
  shows "agb_to cd g R eng es' eng'"
  using assms by (simp add: agb_to_def)

text \<open>Updates of the state of one view.\<close>

lemma state_mut_to:
  assumes ok: "agb_ok cd g eng" and other: "u \<noteq> bg_view g \<Longrightarrow> said_about (bg_view g) es = []"
    and pruned: "agb_pruned eng (bg_view g) \<Longrightarrow> said_about (bg_view g) es = []"
    and own: "u = bg_view g \<Longrightarrow> \<not> agb_pruned eng u \<Longrightarrow> view_ok g (view_at eng u) \<Longrightarrow> view_ok g (f (view_at eng u))
        \<and> ballot_steps g R (ballot_of (view_at eng u)) (said_about u es) (ballot_of (f (view_at eng u)))"
  shows "agb_to cd g R eng es (state_mut u f eng)"
  using assms by (auto simp: agb_to_def agb_ok_def view_at_state_mut steps_refl)

lemma state_mut_quiet:
  assumes "agb_ok cd g eng"
    and "u = bg_view g \<Longrightarrow> \<not> agb_pruned eng u \<Longrightarrow> view_ok g (view_at eng u) \<Longrightarrow>
      view_ok g (f (view_at eng u)) \<and> ballot_of (f (view_at eng u)) = ballot_of (view_at eng u)"
  shows "agb_to cd g R eng [] (state_mut u f eng)"
  using assms by (intro state_mut_to) (auto simp: said_about_def steps_refl)

lemma gate_quiet: "agb_ok cd g eng \<Longrightarrow> agb_to cd g R eng [] (eng\<lparr>ae_pending_gate := x\<rparr>)"
  and cursor_quiet: "agb_ok cd g eng \<Longrightarrow> agb_to cd g R eng [] (eng\<lparr>ae_recheck_cursor := y\<rparr>)"
  by (simp_all add: agb_to_def agb_ok_def steps_refl said_about_def)

section \<open>Silent calls\<close>

text \<open>Repair says nothing about views.\<close>

lemma said_fan_out: "said (snd (fan_out h re)) = []"
proof -
  have peers: "said (snd (request_peers h ts re)) = []" for ts and re :: repairer
  proof -
    have "said es = [] \<Longrightarrow> said (snd (foldl (\<lambda>(re, es) peer.
       if (peer, h) \<in> set (re_requested re) then (re, es)
       else (re\<lparr>re_requested := os_ins (peer, h) (re_requested re),
                re_requested_hashes := os_ins h (re_requested_hashes re)\<rparr>, es @ [RequestTo peer h])) (re, es) ts)) = []"
      for es by (induction ts arbitrary: re es) simp_all
    then show ?thesis by (simp add: request_peers_def)
  qed
  have "said (snd (emit_round h e w re)) = []" for e w and re :: repairer
    by (simp add: emit_round_def Let_def split_beta peers)
  then show ?thesis
    by (simp add: fan_out_def Let_def split: option.split)
qed

lemma said_settle_walk: "said (snd (snd (snd (settle_walk b lane a k h frames re)))) = []"
proof (induction b lane a k h frames re rule: settle_walk.induct)
  case (2 b lane author k h frames re)
  have "said (snd (request_missing b author (Suc k) h re)) = []"
    by (simp add: request_missing_def begin_fanout_def Let_def said_fan_out)
  with 2 show ?case
    by (auto simp: Let_def split_beta split: option.split)
qed simp

lemma said_settle_frames: "said (snd (snd (settle_frames lane frames re b))) = []"
proof (induction frames arbitrary: re b)
  case (Cons f frames)
  have serve: "said (map (\<lambda>peer. ServeTo peer block) ps) = []" for ps block
    by (induction ps) simp_all
  have "said (snd (snd (retain_and_serve f re b))) = []"
    by (simp add: retain_and_serve_def try_serve_def serve_pending_def Let_def split_beta serve split: option.split)
  with Cons show ?case
    by (simp add: Let_def split_beta)
qed simp

lemma said_authorize_all: "said (snd (snd (authorize_all rs re b))) = []"
  by (induction rs arbitrary: re b)
    (simp_all add: authorize_def settle_def Let_def split_beta said_settle_walk said_settle_frames)

lemma said_wish [simp]: "said (wish_effect eng u stage) = []"
  by (simp add: wish_effect_def Let_def split: response_stage.split)

section \<open>Statements\<close>

lemma canonical_proposal_to:
  assumes ok: "agb_ok cd g eng" and p: "p \<in> bg_proposals g" "p_view p = u"
    and out: "canonical_proposal cd u p eng = (eng', p', d)"
  shows "agb_to cd g R eng [] eng'" "p' = p" "u = bg_view g \<Longrightarrow> \<not> agb_pruned eng u \<Longrightarrow> known_proposal g p d"
proof -
  have new: "u = bg_view g \<Longrightarrow> known_proposal g p (p_digest cd (ae_sid eng) p)"
    using p agb_okD(5) [OF ok] by (simp add: known_proposal_def)
  have cached: "known_proposal g q e" if "u = bg_view g" "\<not> agb_pruned eng u" "(q, e) \<in> set (vs_digest_cache (view_at eng u))" for q e
    using agb_okD(9) [OF ok] that by (auto simp: view_ok_def locals_ok_def)
  show "agb_to cd g R eng [] eng'"
    using out ok new
    by (auto simp: canonical_proposal_def Let_def view_simps said_about_def intro!: agb_to_refl state_mut_quiet view_ok_updates(6) split: option.splits)
  show "p' = p"
    using out by (auto simp: canonical_proposal_def Let_def find_Some_iff split: option.splits)
  show "u = bg_view g \<Longrightarrow> \<not> agb_pruned eng u \<Longrightarrow> known_proposal g p d"
    using out new cached [of p d]
    by (auto simp: canonical_proposal_def Let_def find_Some_iff split: option.splits) (metis nth_mem)
qed

fun echo_speech :: "view \<Rightarrow> echo_statement \<Rightarrow> speech" where
  "echo_speech u (EGraded p _ k _) = SayEcho p k"
| "echo_speech u ESkip = SayEchoSkip u"

lemma count_echo_peer:
  assumes ok: "agb_ok cd g eng" and s: "s \<noteq> bg_name g" "s \<in> members (bg_committee g)"
    and heard: "u = bg_view g \<Longrightarrow> \<not> agb_pruned eng u \<Longrightarrow> heard_echo g s st"
  shows "agb_to cd g R eng [] (fst (count_echo_statement u s st eng))"
proof -
  have "view_ok g (record_echo (stake_of (bg_committee g) s) s st (view_at eng u))
      \<and> ballot_steps g R (ballot_of (view_at eng u)) [] (ballot_of (record_echo (stake_of (bg_committee g) s) s st (view_at eng u)))"
    if "u = bg_view g" "\<not> agb_pruned eng u" "view_ok g (view_at eng u)" "map_of (vs_echo_statements (view_at eng u)) s = None"
  proof
    note h = heard [OF that(1,2)]
    have "known_proposal g p d" if "st = EGraded p d k os" for p d k os
      using that h by simp
    then show "view_ok g (record_echo (stake_of (bg_committee g) s) s st (view_at eng u))"
      using record_echo_ok [OF that(3,4) s(2)] s(1) by blast
    show "ballot_steps g R (ballot_of (view_at eng u)) [] (ballot_of (record_echo (stake_of (bg_committee g) s) s st (view_at eng u)))"
      using peer_echo [OF s(1,2) _ h, of "ballot_of (view_at eng u)" R] that(4) by (simp add: record_echo_ballot ballot_steps_one)
  qed
  then show ?thesis
    using ok agb_okD(4) [OF ok]
    by (auto simp: count_echo_statement_def om_has_def said_about_def steps_refl intro!: agb_to_refl state_mut_to)
qed

lemma count_echo_own:
  assumes ok: "agb_ok cd g eng" and new: "u = bg_view g \<Longrightarrow> \<not> agb_pruned eng u \<Longrightarrow> map_of (vs_echo_statements (view_at eng u)) (bg_name g) = None"
    and sent: "u = bg_view g \<Longrightarrow> \<not> agb_pruned eng u \<Longrightarrow> vs_echo_sent (view_at eng u)"
    and st: "\<And>p d k os. u = bg_view g \<Longrightarrow> \<not> agb_pruned eng u \<Longrightarrow> st = EGraded p d k os \<Longrightarrow> known_proposal g p d \<and> k \<le> 1"
    and es: "said es = [echo_speech u st]" "speech_view (echo_speech u st) = u" and live: "\<not> agb_pruned eng u"
  shows "agb_to cd g R eng es (fst (count_echo_statement u (bg_name g) st eng))"
proof -
  note mem = agb_okD(2) [OF ok]
  have "view_ok g (record_echo (stake_of (bg_committee g) (bg_name g)) (bg_name g) st (view_at eng u))
      \<and> ballot_steps g R (ballot_of (view_at eng u)) (said_about u es) (ballot_of (record_echo (stake_of (bg_committee g) (bg_name g)) (bg_name g) st (view_at eng u)))"
    if "u = bg_view g" "\<not> agb_pruned eng u" "view_ok g (view_at eng u)"
  proof
    show "view_ok g (record_echo (stake_of (bg_committee g) (bg_name g)) (bg_name g) st (view_at eng u))"
      using record_echo_ok [OF that(3) new [OF that(1,2)] mem] st [OF that(1,2)] sent [OF that(1,2)] by blast
    have "ballot_step g R (ballot_of (view_at eng u)) [echo_speech u st]
        ((ballot_of (view_at eng u))\<lparr>bl_echo := (bl_echo (ballot_of (view_at eng u)))(bg_name g \<mapsto> st)\<rparr>)"
      using new [OF that(1,2)] st [OF that(1,2)] own_echo [of "ballot_of (view_at eng u)" g] own_echo_skip [of "ballot_of (view_at eng u)" g] that(1)
      by (cases st) auto
    then show "ballot_steps g R (ballot_of (view_at eng u)) (said_about u es) (ballot_of (record_echo (stake_of (bg_committee g) (bg_name g)) (bg_name g) st (view_at eng u)))"
      using es by (simp add: record_echo_ballot said_about_def ballot_steps_one)
  qed
  then show ?thesis
    using ok agb_okD(4) [OF ok] es live new
    by (auto simp: count_echo_statement_def om_has_def said_about_def intro!: state_mut_to)
qed

fun ready_speech :: "view \<Rightarrow> ready_statement \<Rightarrow> speech" where
  "ready_speech u (RGraded p _ k) = SayReady p k"
| "ready_speech u RNoReady = SayNoReady u"

lemma valid_refinementD: "valid_refinement old (RGraded p d k) \<Longrightarrow> (\<exists>p0. old = RGraded p0 d GMix) \<and> k \<noteq> GMix"
  by (elim valid_refinement.elims) auto

lemma count_ready_peer:
  assumes ok: "agb_ok cd g eng" and s: "s \<noteq> bg_name g" "s \<in> members (bg_committee g)"
    and heard: "u = bg_view g \<Longrightarrow> \<not> agb_pruned eng u \<Longrightarrow> heard_ready g s st"
  shows "agb_to cd g R eng [] (fst (count_ready_statement u s st eng))"
proof -
  let ?w = "stake_of (bg_committee g) s" and ?vs = "view_at eng u"
  have step: "ballot_steps g R (ballot_of ?vs) [] ((ballot_of ?vs)\<lparr>bl_ready := (map_of (vs_ready_statements ?vs))(s \<mapsto> st)\<rparr>)"
    if "u = bg_view g" "\<not> agb_pruned eng u"
      "case map_of (vs_ready_statements ?vs) s of None \<Rightarrow> True | Some existing \<Rightarrow> valid_refinement existing st"
    using peer_ready [OF s, where bl = "ballot_of ?vs" and statement = st and R = R] that heard by (simp add: ballot_steps_one)
  have known: "known_proposal g p d" if "u = bg_view g" "\<not> agb_pruned eng u" "st = RGraded p d k" for p d k
    using heard [OF that(1,2)] that(3) by simp
  have first: "view_ok g (record_ready ?w s st ?vs) \<and> ballot_steps g R (ballot_of ?vs) [] (ballot_of (record_ready ?w s st ?vs))"
    if "u = bg_view g" "\<not> agb_pruned eng u" "view_ok g ?vs" "map_of (vs_ready_statements ?vs) s = None"
    using step [OF that(1,2)] record_ready_ok [OF that(3,4) s(2) known [OF that(1,2)]] s(1) that(4)
    by (simp add: record_ready_ballot)
  have refine: "view_ok g (refine_ready ?w s p d k ?vs) \<and> ballot_steps g R (ballot_of ?vs) [] (ballot_of (refine_ready ?w s p d k ?vs))"
    if h: "u = bg_view g" "\<not> agb_pruned eng u" "view_ok g ?vs" "st = RGraded p d k"
      "map_of (vs_ready_statements ?vs) s = Some old" "valid_refinement old (RGraded p d k)" for p d k old
  proof -
    obtain p0 where "map_of (vs_ready_statements ?vs) s = Some (RGraded p0 d GMix)" "k \<noteq> GMix"
      using valid_refinementD [OF h(6)] h(5) by auto
    then show ?thesis
      using refine_ready_ok [OF h(3) _ s(2) known [OF h(1,2,4)]] step [OF h(1,2)] h(4,5,6)
      by (simp add: refine_ready_ballot)
  qed
  show ?thesis
    using ok agb_okD(4) [OF ok] first refine
    by (auto simp: count_ready_statement_def Let_def said_about_def steps_refl intro!: agb_to_refl state_mut_to
        split: option.splits ready_statement.splits)
qed

lemma count_ready_own:
  assumes ok: "agb_ok cd g eng" and live: "\<not> agb_pruned eng u"
    and es: "said es = [ready_speech u st]" "speech_view (ready_speech u st) = u"
    and own: "u = bg_view g \<Longrightarrow> map_of (vs_ready_statements (view_at eng u)) (bg_name g) = None \<and> vs_ready_sent (view_at eng u)
       \<and> ballot_step g R (ballot_of (view_at eng u)) [ready_speech u st]
            ((ballot_of (view_at eng u))\<lparr>bl_ready := (bl_ready (ballot_of (view_at eng u)))(bg_name g \<mapsto> st)\<rparr>)
       \<and> (\<forall>p d k. st = RGraded p d k \<longrightarrow> known_proposal g p d)"
  shows "agb_to cd g R eng es (fst (count_ready_statement u (bg_name g) st eng))"
proof (cases "u = bg_view g")
  case True
  note own = own [OF True]
  have "view_ok g (record_ready (stake_of (bg_committee g) (bg_name g)) (bg_name g) st (view_at eng u))" if "view_ok g (view_at eng u)"
    using record_ready_ok [OF that] own agb_okD(2) [OF ok] by blast
  then show ?thesis
    using own ok live agb_okD(4) [OF ok] es True
    by (auto simp: count_ready_statement_def Let_def said_about_def record_ready_ballot ballot_steps_one intro!: state_mut_to)
next
  case False
  then show ?thesis
    using ok es live
    by (auto simp: count_ready_statement_def Let_def said_about_def intro!: state_mut_to split: option.splits ready_statement.splits)
qed

lemma count_ready_refine:
  assumes ok: "agb_ok cd g eng" and live: "\<not> agb_pruned eng u"
    and es: "said es = [SayReady p k]" "p_view p = u"
    and own: "u = bg_view g \<Longrightarrow> map_of (vs_ready_statements (view_at eng u)) (bg_name g) = Some (RGraded p d GMix) \<and> k \<noteq> GMix
       \<and> bg_quorum g \<le> stake_sum (bg_committee g) (echoers (ballot_of (view_at eng u)) d (k = GOne))"
    and out: "count_ready_statement u (bg_name g) (RGraded p d k) eng = (eng', accepted)"
  shows "agb_to cd g R eng (if accepted then es else []) eng'"
proof (cases "u = bg_view g")
  case True
  note own = own [OF True]
  have vok: "view_ok g (view_at eng u)"
    using agb_okD(9) [OF ok] True live by simp
  have known: "known_proposal g p d"
    using vok own unfolding view_ok_def ballot_ok_def ballot_of_simps by blast
  have step: "ballot_step g R (ballot_of (view_at eng u)) [SayReady p k]
            ((ballot_of (view_at eng u))\<lparr>bl_ready := (bl_ready (ballot_of (view_at eng u)))(bg_name g \<mapsto> RGraded p d k)\<rparr>)"
    using own own_refine [of "ballot_of (view_at eng u)" g p d k R] by simp
  have new: "view_ok g (refine_ready (stake_of (bg_committee g) (bg_name g)) (bg_name g) p d k (view_at eng u))"
    using refine_ready_ok [OF vok] own known agb_okD(2) [OF ok] by blast
  show ?thesis
    using out own ok live agb_okD(4) [OF ok] es True step new
    by (auto simp: count_ready_statement_def Let_def said_about_def refine_ready_ballot steps_refl ballot_steps_one intro!: state_mut_to split: if_splits)
next
  case False
  then show ?thesis
    using out ok es live
    by (auto simp: count_ready_statement_def Let_def said_about_def intro!: state_mut_to split: option.splits ready_statement.splits if_splits)
qed

section \<open>Seals\<close>

lemma card_members: "committee_ok c \<Longrightarrow> card (members c) = committee_size c"
  by (simp add: committee_size_def members_dom omap_length_card committee_ok_def)

lemma try_seal_to:
  assumes ok: "agb_ok cd g eng" and out: "try_seal u out eng = (eng', es)"
    and cert: "u = bg_view g \<Longrightarrow> \<not> agb_pruned eng u \<Longrightarrow> seal_cert g (ballot_of (view_at eng u)) out \<or> R out"
  shows "agb_to cd g R eng es eng'"
proof -
  let ?f = "\<lambda>s. s\<lparr>vs_completed_open_unsealed := False, vs_sealed := Some out\<rparr>"
  have "ballot_steps g R (ballot_of (view_at eng u)) [SaySealed u out] (ballot_of (?f (view_at eng u)))"
    if "u = bg_view g" "\<not> agb_pruned eng u" "vs_sealed (view_at eng u) = None"
    using ballot_steps_one [OF seal [of "ballot_of (view_at eng u)" g out R]] cert [OF that(1,2)] that
    by (simp add: ballot_of_def)
  then show ?thesis
    using out ok
    by (auto simp: try_seal_def said_about_def steps_refl intro!: agb_to_refl state_mut_to view_ok_updates(7) split: if_splits option.splits)
qed

lemma after_quiet:
  assumes "agb_to cd g R eng [] eng1" and "agb_to cd g R eng1 es eng2"
  shows "agb_to cd g R eng es eng2"
  using agb_to_trans [OF assms] by simp

lemma submit_resolution_to:
  assumes "agb_ok cd g eng" and "submit_resolution u out eng = (eng', es)" and "u = bg_view g \<Longrightarrow> R out"
  shows "agb_to cd g R eng es eng'"
  using assms by (auto simp: submit_resolution_def said_about_def intro: agb_to_refl try_seal_to split: if_splits)

lemma record_lock_to:
  assumes "agb_ok cd g eng" and "u = bg_view g \<Longrightarrow> \<not> agb_pruned eng u \<Longrightarrow> known_proposal g p d"
  shows "agb_to cd g R eng [] (record_lock u p d eng)"
  using assms
  by (auto simp: record_lock_def said_about_def view_simps intro!: agb_to_refl state_mut_quiet view_ok_updates(5) split: if_splits)

lemma view_ok_lock: "view_ok g s \<Longrightarrow> vs_lock s = Some l \<Longrightarrow> known_proposal g (lk_proposal l) (lk_digest l)"
  by (simp add: view_ok_def locals_ok_def)

lemma recheck_lock_release_to:
  assumes "agb_ok cd g eng"
  shows "agb_to cd g R eng [] (recheck_lock_release u eng)"
  using assms
  by (auto simp: recheck_lock_release_def said_about_def view_simps dest: view_ok_lock
      intro!: agb_to_refl state_mut_quiet view_ok_updates(5) split: if_splits option.split)

text \<open>The echo count of a tally that reaches the committee size is unanimity.\<close>

lemma unanimous_echoes:
  assumes vok: "view_ok g (view_at eng u)" and c: "committee_ok (bg_committee g)"
    and "matching_echo_count eng u d = committee_size (bg_committee g)"
  shows "members (bg_committee g) \<subseteq> echoers (ballot_of (view_at eng u)) d True"
proof -
  have "committee_size (bg_committee g) > 0"
    using c by (simp add: committee_size_def committee_ok_def)
  with assms(3) obtain t where t: "map_of (vs_echo_tallies (view_at eng u)) d = Some t" "et_one_parties t = committee_size (bg_committee g)"
    by (auto simp: matching_echo_count_def split: option.splits)
  have "echo_tally_ok g (ballot_of (view_at eng u)) d (Some t)"
    using vok t(1) unfolding view_ok_def tallies_exact_def by metis
  then have "card (echoers (ballot_of (view_at eng u)) d True) = card (members (bg_committee g))"
    using t(2) card_members [OF c] by (simp add: echo_tally_ok_def)
  moreover have "echoers (ballot_of (view_at eng u)) d True \<subseteq> members (bg_committee g)"
    using vok ballot_ok_sets(1) by (auto simp: view_ok_def)
  ultimately show ?thesis
    using card_subset_eq [OF finite_members] by blast
qed

lemma recheck_fastseal_to:
  assumes ok: "agb_ok cd g eng" and out: "recheck_fastseal_trigger u eng = (eng', es)"
  shows "agb_to cd g R eng es eng'"
proof -
  have quiet: "agb_to cd g R eng [] (state_mut u (\<lambda>s. s\<lparr>vs_fastsealed := True\<rparr>) eng)"
    using ok by (intro state_mut_quiet) (simp_all add: view_simps)
  have cert: "seal_cert g (ballot_of (view_at (state_mut u (\<lambda>s. s\<lparr>vs_fastsealed := True\<rparr>) eng) u)) (OFull (p_c (lk_proposal l)) (p_t (lk_proposal l)))"
    if "u = bg_view g" "\<not> agb_pruned eng u" "vs_lock (view_at eng u) = Some l" "matching_echo_count eng u (lk_digest l) = ae_n eng" for l
  proof -
    have vok: "view_ok g (view_at eng u)"
      using agb_okD(9) [OF ok] that by simp
    have "members (bg_committee g) \<subseteq> echoers (ballot_of (view_at eng u)) (lk_digest l) True"
      using unanimous_echoes [OF vok agb_okD(1) [OF ok]] that agb_okD(6) [OF ok] by simp
    then show ?thesis
      using cert_fast view_ok_lock [OF vok that(3)] by (simp add: view_at_state_mut view_simps)
  qed
  show ?thesis
  proof (cases "recheck_fastseal_trigger u eng = (eng, [])")
    case True
    then show ?thesis using ok out by (simp add: agb_to_refl said_about_def)
  next
    case False
    then obtain l where l: "vs_lock (view_at eng u) = Some l" "matching_echo_count eng u (lk_digest l) = ae_n eng"
      and t: "try_seal u (OFull (p_c (lk_proposal l)) (p_t (lk_proposal l))) (state_mut u (\<lambda>s. s\<lparr>vs_fastsealed := True\<rparr>) eng) = (eng', es)"
      using out by (auto simp: recheck_fastseal_trigger_def split: option.splits if_splits)
    show ?thesis
      by (rule after_quiet [OF quiet try_seal_to [OF agb_toD(1) [OF quiet] t]]) (use cert l in simp)
  qed
qed

lemma recheck_skip_seal_to:
  assumes ok: "agb_ok cd g eng" and out: "recheck_skip_seal_trigger u eng = (eng', es)"
  shows "agb_to cd g R eng es eng'"
proof -
  have quiet: "agb_to cd g R eng [] (state_mut u (\<lambda>s. s\<lparr>vs_skip_sealed := True\<rparr>) eng)"
    using ok by (intro state_mut_quiet) (simp_all add: view_simps)
  have cert: "seal_cert g (ballot_of (view_at (state_mut u (\<lambda>s. s\<lparr>vs_skip_sealed := True\<rparr>) eng) u)) OSkip"
    if "u = bg_view g" "\<not> agb_pruned eng u" "\<not> length (vs_skip_vote_statements (view_at eng u)) < ae_quorum_parties eng"
  proof -
    have "oset_ok (vs_skip_vote_statements (view_at eng u))"
      using agb_okD(9) [OF ok] that by (simp add: view_ok_def orders_ok_def)
    then show ?thesis
      using that agb_okD(7) [OF ok] by (intro cert_skip) (simp add: view_at_state_mut oset_length_card)
  qed
  show ?thesis
  proof (cases "recheck_skip_seal_trigger u eng = (eng, [])")
    case True
    then show ?thesis using ok out by (simp add: agb_to_refl said_about_def)
  next
    case False
    then have q: "\<not> length (vs_skip_vote_statements (view_at eng u)) < ae_quorum_parties eng"
      and t: "try_seal u OSkip (state_mut u (\<lambda>s. s\<lparr>vs_skip_sealed := True\<rparr>) eng) = (eng', es)"
      using out by (auto simp: recheck_skip_seal_trigger_def split: if_splits)
    show ?thesis
      by (rule after_quiet [OF quiet try_seal_to [OF agb_toD(1) [OF quiet] t]]) (use cert q in simp)
  qed
qed

lemma on_skip_vote_to:
  assumes ok: "agb_ok cd g eng" and s: "s \<noteq> bg_name g" "s \<in> members (bg_committee g)"
    and heard: "u = bg_view g \<Longrightarrow> bg_heard g s (SaySkipVote u)" and out: "on_skip_vote u s eng = (eng', es)"
  shows "agb_to cd g R eng es eng'"
proof -
  let ?f = "\<lambda>vs. vs\<lparr>vs_skip_vote_statements := os_ins s (vs_skip_vote_statements vs)\<rparr>"
  have "view_ok g (?f (view_at eng u)) \<and> ballot_steps g R (ballot_of (view_at eng u)) [] (ballot_of (?f (view_at eng u)))"
    if "u = bg_view g" "view_ok g (view_at eng u)"
    using skip_vote_ok [OF that(2) s(2), of "vs_stance (view_at eng u)"] s(1)
      ballot_steps_one [OF peer_skip [OF s, where bl = "ballot_of (view_at eng u)" and R = R]] heard that(1)
    by (simp add: ballot_of_def)
  then have count: "agb_to cd g R eng [] (state_mut u ?f eng)"
    using ok by (intro state_mut_to) (auto simp: said_about_def)
  show ?thesis
    using out ok count after_quiet [OF count recheck_skip_seal_to [OF agb_toD(1) [OF count]]]
    by (auto simp: on_skip_vote_def count_skip_vote_statement_def said_about_def intro: agb_to_refl split: if_splits)
qed

lemma recheck_skip_vote_to:
  assumes ok: "agb_ok cd g eng" and out: "recheck_skip_vote_trigger u eng = (eng', es)"
  shows "agb_to cd g R eng es eng'"
proof (cases "recheck_skip_vote_trigger u eng = (eng, [])")
  case True
  then show ?thesis using ok out by (simp add: agb_to_refl said_about_def)
next
  case False
  let ?s = "view_at eng u"
  define eng1 where "eng1 = state_mut u (\<lambda>s. s\<lparr>vs_stance := SkipVoted,
      vs_skip_vote_statements := os_ins (bg_name g) (vs_skip_vote_statements s)\<rparr>) eng"
  have name: "ae_name eng = bg_name g" using agb_okD(3) [OF ok] .
  obtain es' where live: "\<not> agb_pruned eng u" and guard: "vs_stance ?s = Free" "map_of (vs_ready_statements ?s) (bg_name g) = Some RNoReady"
      "\<not> vs_echo_skip_parties ?s < ae_quorum_parties eng"
    and t: "recheck_skip_seal_trigger u eng1 = (eng', es')" "es = BroadcastSkipVote u # es'"
    using out False name by (auto simp: recheck_skip_vote_trigger_def Let_def count_skip_vote_statement_def eng1_def state_mut_state_mut split: if_splits prod.splits)
  have "agb_to cd g R eng [BroadcastSkipVote u] eng1"
    unfolding eng1_def
  proof (rule state_mut_to [OF ok])
    assume u: "u = bg_view g" and vok: "view_ok g ?s"
    have "bg_parties g \<le> card (skippers (ballot_of ?s))" "bg_name g \<notin> set (vs_skip_vote_statements ?s)"
      using vok guard agb_okD(7) [OF ok] by (simp_all add: view_ok_def tallies_exact_def ballot_ok_def)
    then show "view_ok g (?s\<lparr>vs_stance := SkipVoted, vs_skip_vote_statements := os_ins (bg_name g) (vs_skip_vote_statements ?s)\<rparr>)
        \<and> ballot_steps g R (ballot_of ?s) (said_about u [BroadcastSkipVote u])
            (ballot_of (?s\<lparr>vs_stance := SkipVoted, vs_skip_vote_statements := os_ins (bg_name g) (vs_skip_vote_statements ?s)\<rparr>))"
      using skip_vote_ok [OF vok agb_okD(2) [OF ok], of SkipVoted] guard
        ballot_steps_one [OF own_skip [where bl = "ballot_of ?s" and g = g and R = R]] u
      by (simp add: ballot_of_def said_about_def)
  qed (use live in \<open>auto simp: said_about_def\<close>)
  from agb_to_trans [OF this recheck_skip_seal_to [OF agb_toD(1) [OF this] t(1)]] show ?thesis
    using t(2) by simp
qed

section \<open>Ready responses\<close>

lemma completion_step_to:
  assumes ok: "agb_ok cd g eng" and out: "completion_step u tally eng re b = (eng', re', b', es)"
  shows "agb_to cd g R eng es eng'" "ballot_of (view_at eng' v) = ballot_of (view_at eng v)"
proof -
  have "said (snd (snd (authorize_all rs re b))) = []" for rs
    by (rule said_authorize_all)
  then have es: "said es = []"
    using out by (auto simp: completion_step_def Let_def split_beta split: if_splits)
  show "ballot_of (view_at eng' v) = ballot_of (view_at eng v)"
    using out by (auto simp: completion_step_def Let_def split_beta view_at_state_mut view_simps split: if_splits)
  have "agb_to cd g R eng [] eng'"
    using out ok by (auto simp: completion_step_def Let_def split_beta said_about_def view_simps intro!: agb_to_refl state_mut_quiet split: if_splits)
  then show "agb_to cd g R eng es eng'"
    by (rule agb_to_quiet) (simp add: es said_about_def)
qed

lemma direct_step_to:
  assumes ok: "agb_ok cd g eng" and out: "direct_step u tally eng = (eng', es)"
    and tally: "u = bg_view g \<Longrightarrow> \<not> agb_pruned eng u \<Longrightarrow> ready_tally_ok g (ballot_of (view_at eng u)) d (Some tally)"
  shows "agb_to cd g R eng es eng'"
proof -
  let ?full = "OFull (p_c (rt_proposal tally)) (p_t (rt_proposal tally))" and ?core = "OCore (p_c (rt_proposal tally))"
  have quiet: "agb_to cd g R eng [] (state_mut u (\<lambda>s. s\<lparr>vs_directed := Some out\<rparr>) eng)"
    "agb_to cd g R eng [] (state_mut u (\<lambda>s. s) eng)" for out
    using ok by (auto intro!: state_mut_quiet simp: view_simps)
  have sealed: "agb_to cd g R eng es eng'"
    if t: "try_seal u out (state_mut u (\<lambda>s. s\<lparr>vs_directed := Some out\<rparr>) eng) = (eng', es)"
      and c: "u = bg_view g \<Longrightarrow> \<not> agb_pruned eng u \<Longrightarrow> seal_cert g (ballot_of (view_at eng u)) out" for out
    by (rule after_quiet [OF quiet(1) try_seal_to [OF agb_toD(1) [OF quiet(1)] t]]) (use c in \<open>simp add: view_at_state_mut view_simps\<close>)
  have certs: "rt_grade_one tally \<ge> ae_quorum eng \<Longrightarrow> seal_cert g (ballot_of (view_at eng u)) ?full"
    "rt_grade_zero tally \<ge> ae_quorum eng \<Longrightarrow> seal_cert g (ballot_of (view_at eng u)) ?core" if "u = bg_view g" "\<not> agb_pruned eng u"
    using tally [OF that] agb_okD(8) [OF ok] by (auto simp: ready_tally_ok_def intro: cert_full cert_core)
  show ?thesis
    using out quiet(2) sealed [of ?full] sealed [of ?core] certs
    by (auto simp: direct_step_def Let_def split: if_splits)
qed

lemma recheck_completion_and_direct_to:
  assumes ok: "agb_ok cd g eng" and out: "recheck_completion_and_direct u d eng re b = (eng', re', b', es)"
  shows "agb_to cd g R eng es eng'"
proof (cases "agb_pruned eng u \<or> map_of (vs_ready_tallies (view_at eng u)) d = None")
  case True
  then show ?thesis
    using out ok by (auto simp: recheck_completion_and_direct_def intro: agb_to_idle split: if_splits)
next
  case False
  then obtain tally where tally: "map_of (vs_ready_tallies (view_at eng u)) d = Some tally" and live: "\<not> agb_pruned eng u" by auto
  obtain eng1 re1 b1 es1 where c: "completion_step u tally eng re b = (eng1, re1, b1, es1)"
    by (cases "completion_step u tally eng re b") auto
  obtain es2 where d: "direct_step u tally eng1 = (eng', es2)" and es: "es = es1 @ es2"
    using out live by (auto simp: recheck_completion_and_direct_def tally c split: prod.splits)
  have "ready_tally_ok g (ballot_of (view_at eng u)) d (Some tally)" if "u = bg_view g"
    using agb_okD(9) [OF ok] that live tally unfolding view_ok_def tallies_exact_def by metis
  then have "ready_tally_ok g (ballot_of (view_at eng1 u)) d (Some tally)" if "u = bg_view g"
    using that completion_step_to(2) [OF ok c, of u] by simp
  then show ?thesis
    using agb_to_trans [OF completion_step_to(1) [OF ok c] direct_step_to [OF agb_toD(1) [OF completion_step_to(1) [OF ok c]] d]] es by blast
qed

lemma find_member: "find P xs = Some x \<Longrightarrow> x \<in> set xs \<and> P x"
  by (induction xs) (auto split: if_splits)

lemma ready_candidateD:
  assumes vok: "view_ok g (view_at eng u)" and q: "ae_quorum eng = bg_quorum g" and c: "ready_candidate eng u = Some (d, p, k)"
  shows "known_proposal g p d"
    "bg_quorum g \<le> stake_sum (bg_committee g) (echoers (ballot_of (view_at eng u)) d True) + stake_sum (bg_committee g) (echoers (ballot_of (view_at eng u)) d False)"
    "k = GOne \<longrightarrow> bg_quorum g \<le> stake_sum (bg_committee g) (echoers (ballot_of (view_at eng u)) d True)"
    "k = GZero \<longrightarrow> bg_quorum g \<le> stake_sum (bg_committee g) (echoers (ballot_of (view_at eng u)) d False)"
proof -
  obtain t where t: "(d, t) \<in> set (vs_echo_tallies (view_at eng u))" "et_grade_one t + et_grade_zero t \<ge> ae_quorum eng" "p = et_proposal t"
    and k: "k = (if et_grade_one t \<ge> ae_quorum eng then GOne else if et_grade_zero t \<ge> ae_quorum eng then GZero else GMix)"
    using c by (auto simp: ready_candidate_def dest!: find_member)
  have "map_of (vs_echo_tallies (view_at eng u)) d = Some t"
    using vok t(1) by (simp add: view_ok_def orders_ok_def omap_ok_map_of)
  then have "echo_tally_ok g (ballot_of (view_at eng u)) d (Some t)"
    using vok unfolding view_ok_def tallies_exact_def by metis
  then show "known_proposal g p d"
    "bg_quorum g \<le> stake_sum (bg_committee g) (echoers (ballot_of (view_at eng u)) d True) + stake_sum (bg_committee g) (echoers (ballot_of (view_at eng u)) d False)"
    "k = GOne \<longrightarrow> bg_quorum g \<le> stake_sum (bg_committee g) (echoers (ballot_of (view_at eng u)) d True)"
    "k = GZero \<longrightarrow> bg_quorum g \<le> stake_sum (bg_committee g) (echoers (ballot_of (view_at eng u)) d False)"
    using t k q by (auto simp: echo_tally_ok_def split: if_splits)
qed

lemma finalize_mix_to: "agb_ok cd g eng \<Longrightarrow> agb_to cd g R eng [] (finalize_mix_if_closed u x eng)"
  by (auto simp: finalize_mix_if_closed_def Let_def said_about_def view_simps intro!: agb_to_refl state_mut_quiet)

lemma build_ready_simps [simp]:
  "ready_into_proposal (build_ready_out eng p k) = p" "ready_out_grade (build_ready_out eng p k) = k"
  by (simp_all add: build_ready_out_def split: proposal_out.split)

lemma view_ok_unsent:
  assumes "view_ok g s"
  shows "\<not> vs_echo_sent s \<Longrightarrow> map_of (vs_echo_statements s) (bg_name g) = None"
    "\<not> vs_ready_sent s \<Longrightarrow> map_of (vs_ready_statements s) (bg_name g) = None"
  using assms by (auto simp: view_ok_def locals_ok_def)

text \<open>The first ready-stage response: the mark, the own statement and what it triggers.\<close>

lemma first_ready_to:
  assumes ok: "agb_ok cd g eng" and live: "\<not> agb_pruned eng u" and unsent: "\<not> vs_ready_sent (view_at eng u)"
    and f: "\<And>s. view_ok g s \<Longrightarrow> view_ok g (f s)" "\<And>s. ballot_of (f s) = ballot_of s" "\<And>s. vs_ready_sent (f s)"
    and es: "said es = [ready_speech u st]" "speech_view (ready_speech u st) = u"
    and st: "\<And>p d k. u = bg_view g \<Longrightarrow> st = RGraded p d k \<Longrightarrow> known_proposal g p d
        \<and> bg_quorum g \<le> stake_sum (bg_committee g) (echoers (ballot_of (view_at eng u)) d True) + stake_sum (bg_committee g) (echoers (ballot_of (view_at eng u)) d False)
        \<and> (k = GOne \<longrightarrow> bg_quorum g \<le> stake_sum (bg_committee g) (echoers (ballot_of (view_at eng u)) d True))
        \<and> (k = GZero \<longrightarrow> bg_quorum g \<le> stake_sum (bg_committee g) (echoers (ballot_of (view_at eng u)) d False))"
  shows "agb_to cd g R eng es (fst (count_ready_statement u (ae_name eng) st (state_mut u f eng)))"
proof -
  have quiet: "agb_to cd g R eng [] (state_mut u f eng)"
    using ok f by (intro state_mut_quiet) auto
  have own: "map_of (vs_ready_statements (view_at eng u)) (bg_name g) = None" if "u = bg_view g"
    using view_ok_unsent(2) [OF _ unsent] agb_okD(9) [OF ok] that live by simp
  have ready: "map_of (vs_ready_statements (f s)) = map_of (vs_ready_statements s)" for s
    using arg_cong [OF f(2) [of s], of bl_ready] by simp
  have step: "ballot_step g R (ballot_of (view_at eng u)) [ready_speech u st]
      ((ballot_of (view_at eng u))\<lparr>bl_ready := (bl_ready (ballot_of (view_at eng u)))(bg_name g \<mapsto> st)\<rparr>)" if u: "u = bg_view g"
  proof (cases st)
    case (RGraded p d k)
    then show ?thesis using own_ready [of "ballot_of (view_at eng u)" g p d k R] own [OF u] st [OF u RGraded] by simp
  next
    case RNoReady
    then show ?thesis using own_noready [of "ballot_of (view_at eng u)" g R] own [OF u] u by simp
  qed
  show ?thesis
    unfolding agb_okD(3) [OF ok]
    by (rule after_quiet [OF quiet count_ready_own [OF agb_toD(1) [OF quiet] _ es]])
      (use live own step st f in \<open>auto simp: view_at_state_mut ready\<close>)
qed

lemma emit_initial_ready_to:
  assumes ok: "agb_ok cd g eng" and live: "\<not> agb_pruned eng u" and unsent: "\<not> vs_ready_sent (view_at eng u)"
    and c: "ready_candidate eng u = Some (d, p, k)" "p_view p = u" and out: "emit_initial_ready u d p k eng re b = (eng', re', b', es)"
  shows "agb_to cd g R eng es eng'"
proof -
  define eng1 where "eng1 = fst (count_ready_statement u (ae_name eng) (RGraded p d k)
      (state_mut u (\<lambda>s. s\<lparr>vs_ready_sent := True, vs_ready_mix_open := (k = GMix)\<rparr>) eng))"
  obtain eng2 es' where r: "recheck_completion_and_direct u d eng1 re b = (eng2, re', b', es')" and e: "eng' = finalize_mix_if_closed u False eng2"
    and es: "es = (wish_effect eng1 u StageReady @ [BroadcastReady (build_ready_out eng1 p k)]) @ es'"
    using out by (auto simp: emit_initial_ready_def Let_def eng1_def split: prod.splits)
  have f: "view_ok g (s\<lparr>vs_ready_sent := True, vs_ready_mix_open := (k = GMix)\<rparr>)" if "view_ok g s" for s
    using view_ok_updates(2) [OF that] view_ok_simps(1) by simp
  have "agb_to cd g R eng (wish_effect eng1 u StageReady @ [BroadcastReady (build_ready_out eng1 p k)]) eng1"
    unfolding eng1_def
    by (rule first_ready_to [OF ok live unsent]) (use f c ready_candidateD [OF _ agb_okD(8) [OF ok] c(1)] agb_okD(9) [OF ok] live in \<open>auto simp: view_simps\<close>)
  note s1 = this
  note s2 = agb_to_trans [OF s1 recheck_completion_and_direct_to [OF agb_toD(1) [OF s1] r]]
  show ?thesis
    using agb_to_trans [OF s2 finalize_mix_to [OF agb_toD(1) [OF s2]]] e es by simp
qed

lemma ready_refinement_candidateD:
  assumes vok: "view_ok g (view_at eng u)" and q: "ae_quorum eng = bg_quorum g" "ae_name eng = bg_name g"
    and c: "ready_refinement_candidate eng u = Some (d, p, k)"
  shows "map_of (vs_ready_statements (view_at eng u)) (bg_name g) = Some (RGraded p d GMix)" "k \<noteq> GMix"
    "bg_quorum g \<le> stake_sum (bg_committee g) (echoers (ballot_of (view_at eng u)) d (k = GOne))" "known_proposal g p d"
proof -
  obtain t where own: "map_of (vs_ready_statements (view_at eng u)) (bg_name g) = Some (RGraded p d GMix)"
    and t: "map_of (vs_echo_tallies (view_at eng u)) d = Some t"
    and k: "k = (if et_grade_one t \<ge> ae_quorum eng then GOne else GZero)" "et_grade_one t \<ge> ae_quorum eng \<or> et_grade_zero t \<ge> ae_quorum eng"
    using c q(2) by (auto simp: ready_refinement_candidate_def Let_def split: if_splits option.splits ready_statement.splits ready_grade.splits)
  have "echo_tally_ok g (ballot_of (view_at eng u)) d (Some t)"
    using vok t unfolding view_ok_def tallies_exact_def by metis
  then show "bg_quorum g \<le> stake_sum (bg_committee g) (echoers (ballot_of (view_at eng u)) d (k = GOne))"
    using k q(1) by (auto simp: echo_tally_ok_def)
  show "k \<noteq> GMix" using k by auto
  show "map_of (vs_ready_statements (view_at eng u)) (bg_name g) = Some (RGraded p d GMix)" by (rule own)
  then show "known_proposal g p d"
    using vok unfolding view_ok_def ballot_ok_def ballot_of_simps by blast
qed

lemma emit_ready_refinement_to:
  assumes ok: "agb_ok cd g eng" and live: "\<not> agb_pruned eng u"
    and c: "ready_refinement_candidate eng u = Some (d, p, k)" "p_view p = u" and out: "emit_ready_refinement u d p k eng re b = (eng', re', b', es)"
  shows "agb_to cd g R eng es eng'"
proof -
  obtain eng1 acc where r: "count_ready_statement u (ae_name eng) (RGraded p d k) eng = (eng1, acc)"
    by fastforce
  have own: "map_of (vs_ready_statements (view_at eng u)) (bg_name g) = Some (RGraded p d GMix) \<and> k \<noteq> GMix
       \<and> bg_quorum g \<le> stake_sum (bg_committee g) (echoers (ballot_of (view_at eng u)) d (k = GOne))" if "u = bg_view g"
    using ready_refinement_candidateD [OF _ agb_okD(8,3) [OF ok] c(1)] agb_okD(9) [OF ok] that live by simp
  have s1: "agb_to cd g R eng (if acc then [BroadcastReady (build_ready_out eng2 p k)] else []) eng1" for eng2
    by (rule count_ready_refine [OF ok live _ c(2) own r [unfolded agb_okD(3) [OF ok]]]) simp_all
  show ?thesis
  proof (cases acc)
    case False
    then show ?thesis using s1 out r by (auto simp: emit_ready_refinement_def)
  next
    case True
    define eng2 where "eng2 = state_mut u (\<lambda>s. s\<lparr>vs_ready_mix_open := False\<rparr>) eng1"
    obtain es' where rc: "recheck_completion_and_direct u d eng2 re b = (eng', re', b', es')" and es: "es = BroadcastReady (build_ready_out eng' p k) # es'"
      using out r True by (auto simp: emit_ready_refinement_def Let_def eng2_def split: prod.splits)
    have s2: "agb_to cd g R eng1 [] eng2"
      using agb_toD(1) [OF s1] unfolding eng2_def by (intro state_mut_quiet) (simp_all add: view_simps)
    note s3 = agb_to_trans [OF s1 after_quiet [OF s2 recheck_completion_and_direct_to [OF agb_toD(1) [OF s2] rc]]]
    show ?thesis
      using s3 [of eng'] True es by simp
  qed
qed

section \<open>All views at once\<close>

definition agb_okv :: "codec \<Rightarrow> ballot_cfg \<Rightarrow> agb_engine \<Rightarrow> bool" where
  "agb_okv cd g eng \<longleftrightarrow> (\<forall>v. agb_ok cd (g\<lparr>bg_view := v\<rparr>) eng)"

definition agb_tov :: "codec \<Rightarrow> ballot_cfg \<Rightarrow> (view \<Rightarrow> outcome \<Rightarrow> bool) \<Rightarrow> agb_engine \<Rightarrow> effect list \<Rightarrow> agb_engine \<Rightarrow> bool" where
  "agb_tov cd g R eng es eng' \<longleftrightarrow> (\<forall>v. agb_to cd (g\<lparr>bg_view := v\<rparr>) (R v) eng es eng')"

lemma agb_tovD:
  assumes "agb_tov cd g R eng es eng'"
  shows "agb_okv cd g eng'" "ae_min_live_view eng' = ae_min_live_view eng"
  using assms unfolding agb_tov_def agb_okv_def by (blast dest: agb_toD)+

lemma agb_okvD:
  assumes "agb_okv cd g eng"
  shows "\<not> agb_pruned eng u \<Longrightarrow> view_ok (g\<lparr>bg_view := u\<rparr>) (view_at eng u)" "ae_name eng = bg_name g"
    "ae_committee eng = bg_committee g" "ae_quorum eng = bg_quorum g" "bg_name g \<in> members (bg_committee g)"
  using assms agb_okD [of cd "g\<lparr>bg_view := u\<rparr>" eng] by (auto simp: agb_okv_def)

lemma tov_idle: "agb_okv cd g eng \<Longrightarrow> agb_tov cd g R eng [] eng"
  by (simp add: agb_okv_def agb_tov_def agb_to_idle)

lemma tov_trans: "agb_tov cd g R eng es eng1 \<Longrightarrow> agb_tov cd g R eng1 es' eng2 \<Longrightarrow> agb_tov cd g R eng (es @ es') eng2"
  by (auto simp: agb_tov_def intro: agb_to_trans)

lemma tov_after: "agb_tov cd g R eng [] eng1 \<Longrightarrow> agb_tov cd g R eng1 es eng2 \<Longrightarrow> agb_tov cd g R eng es eng2"
  using tov_trans by fastforce

lemma tov_silent: "agb_tov cd g R eng es eng' \<Longrightarrow> said es' = said es \<Longrightarrow> agb_tov cd g R eng es' eng'"
  by (auto simp: agb_tov_def said_about_def intro: agb_to_quiet)

lemma tov_state_mut:
  assumes "agb_okv cd g eng"
    and "\<not> agb_pruned eng u \<Longrightarrow> view_ok (g\<lparr>bg_view := u\<rparr>) (view_at eng u) \<Longrightarrow>
      view_ok (g\<lparr>bg_view := u\<rparr>) (f (view_at eng u)) \<and> ballot_of (f (view_at eng u)) = ballot_of (view_at eng u)"
  shows "agb_tov cd g R eng [] (state_mut u f eng)"
  using assms by (auto simp: agb_okv_def agb_tov_def intro!: state_mut_quiet)

lemma tov_same: "agb_okv cd g eng \<Longrightarrow> agb_tov cd g R eng [] (state_mut u (\<lambda>s. s) eng)"
  by (rule tov_state_mut) simp_all

lemma tov_rechecks:
  assumes "agb_okv cd g eng"
  shows "recheck_fastseal_trigger u eng = (eng', es) \<Longrightarrow> agb_tov cd g R eng es eng'"
    "recheck_skip_vote_trigger u eng = (eng', es) \<Longrightarrow> agb_tov cd g R eng es eng'"
    "recheck_completion_and_direct u d eng re b = (eng', re', b', es) \<Longrightarrow> agb_tov cd g R eng es eng'"
    "agb_tov cd g R eng [] (recheck_lock_release u eng)"
    "agb_tov cd g R eng [] (finalize_mix_if_closed u x eng)"
    "agb_tov cd g R eng [] (eng\<lparr>ae_pending_gate := y\<rparr>)"
    "agb_tov cd g R eng [] (eng\<lparr>ae_recheck_cursor := z\<rparr>)"
  using assms unfolding agb_okv_def agb_tov_def
  by (blast intro: recheck_fastseal_to recheck_skip_vote_to recheck_completion_and_direct_to recheck_lock_release_to finalize_mix_to
      gate_quiet cursor_quiet)+

lemma emit_initial_ready_tov:
  assumes ok: "agb_okv cd g eng" and live: "\<not> agb_pruned eng u" and unsent: "\<not> vs_ready_sent (view_at eng u)"
    and c: "ready_candidate eng u = Some (d, p, k)" and out: "emit_initial_ready u d p k eng re b = (eng', re', b', es)"
  shows "agb_tov cd g R eng es eng'"
proof -
  have "p_view p = u"
    using ready_candidateD(1) [OF agb_okvD(1) [OF ok live] _ c] agb_okvD(4) [OF ok] by (simp add: known_proposal_def)
  then show ?thesis
    using ok emit_initial_ready_to [OF _ live unsent c _ out] by (auto simp: agb_okv_def agb_tov_def)
qed

lemma emit_ready_refinement_tov:
  assumes ok: "agb_okv cd g eng" and live: "\<not> agb_pruned eng u"
    and c: "ready_refinement_candidate eng u = Some (d, p, k)" and out: "emit_ready_refinement u d p k eng re b = (eng', re', b', es)"
  shows "agb_tov cd g R eng es eng'"
proof -
  have "p_view p = u"
    using ready_refinement_candidateD(4) [OF agb_okvD(1) [OF ok live] _ _ c] agb_okvD(2,4) [OF ok] by (simp add: known_proposal_def)
  then show ?thesis
    using ok emit_ready_refinement_to [OF _ live c _ out] by (auto simp: agb_okv_def agb_tov_def)
qed

lemma recheck_ready_tov:
  assumes ok: "agb_okv cd g eng" and out: "recheck_ready u eng re b = (eng', re', b', es)"
  shows "agb_tov cd g R eng es eng'"
proof (cases "agb_pruned eng u")
  case True
  then show ?thesis using ok out by (simp add: recheck_ready_def tov_idle)
next
  case live: False
  define eng1 where "eng1 = state_mut u (\<lambda>s. s) eng"
  have s1: "agb_tov cd g R eng [] eng1" and live1: "\<not> agb_pruned eng1 u"
    using ok live by (simp_all add: eng1_def tov_same)
  note ok1 = agb_tovD(1) [OF s1]
  have out1: "(if \<not> vs_ready_sent (view_at eng1 u) then
                (case ready_candidate eng1 u of
                   Some (d, proposal, grade) \<Rightarrow> emit_initial_ready u d proposal grade eng1 re b
                 | None \<Rightarrow> (eng1, re, b, []))
              else (case ready_refinement_candidate eng1 u of
                      Some (d, proposal, grade) \<Rightarrow> emit_ready_refinement u d proposal grade eng1 re b
                    | None \<Rightarrow> (finalize_mix_if_closed u False eng1, re, b, []))) = (eng', re', b', es)"
    using out live unfolding recheck_ready_def Let_def eng1_def by simp
  have "agb_tov cd g R eng1 es eng'"
    using out1 tov_idle [OF ok1] tov_rechecks(5) [OF ok1] emit_initial_ready_tov [OF ok1 live1] emit_ready_refinement_tov [OF ok1 live1]
    by (auto split: if_splits option.splits prod.splits)
  with s1 show ?thesis by (rule tov_after)
qed

lemma on_ready_timer_tov:
  assumes ok: "agb_okv cd g eng" and out: "on_ready_timer u eng re b = (eng', re', b', es)"
  shows "agb_tov cd g R eng es eng'"
proof (cases "agb_pruned eng u")
  case True
  then show ?thesis using ok out by (simp add: on_ready_timer_def tov_idle)
next
  case live: False
  define eng1 where "eng1 = state_mut u (\<lambda>s. s) eng"
  have s1: "agb_tov cd g R eng [] eng1" and live1: "\<not> agb_pruned eng1 u"
    using ok live by (simp_all add: eng1_def tov_same)
  note ok1 = agb_tovD(1) [OF s1]
  consider (refined) d p k where "ready_refinement_candidate eng1 u = Some (d, p, k)" "emit_ready_refinement u d p k eng1 re b = (eng', re', b', es)"
    | (closed) "eng' = finalize_mix_if_closed u True eng1" "es = []"
    | (first) d p k eng2 where "\<not> vs_ready_sent (view_at eng1 u)" "ready_candidate eng1 u = Some (d, p, k)"
        "emit_initial_ready u d p k eng1 re b = (eng2, re', b', es)" "eng' = finalize_mix_if_closed u True eng2"
    | (none) eng2 es' where "\<not> vs_ready_sent (view_at eng1 u)"
        "eng2 = fst (count_ready_statement u (ae_name eng1) RNoReady (state_mut u (\<lambda>s. s\<lparr>vs_ready_sent := True\<rparr>) eng1))"
        "recheck_skip_vote_trigger u eng2 = (eng', es')" "es = wish_effect eng2 u StageReady @ [BroadcastNoReady u] @ es'"
    using out live by (auto simp: on_ready_timer_def eng1_def [symmetric] Let_def split: if_splits option.splits prod.splits)
  then have "agb_tov cd g R eng1 es eng'"
  proof cases
    case refined
    then show ?thesis using emit_ready_refinement_tov [OF ok1 live1] by blast
  next
    case closed
    then show ?thesis using tov_rechecks(5) [OF ok1] by simp
  next
    case first
    then have s2: "agb_tov cd g R eng1 es eng2" using emit_initial_ready_tov [OF ok1 live1] by blast
    show ?thesis using tov_trans [OF s2 tov_rechecks(5) [OF agb_tovD(1) [OF s2]]] first(4) by simp
  next
    case none
    have "agb_to cd (g\<lparr>bg_view := v\<rparr>) (R v) eng1 (wish_effect eng2 u StageReady @ [BroadcastNoReady u]) eng2" for v
      unfolding none(2)
      by (rule first_ready_to) (use ok1 live1 none(1) in \<open>auto simp: agb_okv_def view_simps intro: view_ok_updates(2)\<close>)
    then have s2: "agb_tov cd g R eng1 (wish_effect eng2 u StageReady @ [BroadcastNoReady u]) eng2"
      by (simp add: agb_tov_def)
    show ?thesis using tov_trans [OF s2 tov_rechecks(2) [OF agb_tovD(1) [OF s2] none(3)]] none(4) by simp
  qed
  with s1 show ?thesis by (rule tov_after)
qed

lemma tov_ready_messages:
  assumes ok: "agb_okv cd g eng" and s: "s \<noteq> bg_name g" "s \<in> members (bg_committee g)"
  shows "heard_ready (g\<lparr>bg_view := u\<rparr>) s st \<Longrightarrow> agb_tov cd g R eng [] (fst (count_ready_statement u s st eng))"
    and "heard_echo (g\<lparr>bg_view := u\<rparr>) s est \<Longrightarrow> agb_tov cd g R eng [] (fst (count_echo_statement u s est eng))"
proof -
  show "agb_tov cd g R eng [] (fst (count_ready_statement u s st eng))" if "heard_ready (g\<lparr>bg_view := u\<rparr>) s st"
    using ok s that unfolding agb_okv_def agb_tov_def by (auto intro!: count_ready_peer)
  show "agb_tov cd g R eng [] (fst (count_echo_statement u s est eng))" if "heard_echo (g\<lparr>bg_view := u\<rparr>) s est"
    using ok s that unfolding agb_okv_def agb_tov_def by (auto intro!: count_echo_peer)
qed

lemma canonical_proposal_tov:
  assumes ok: "agb_okv cd g eng" and p: "p \<in> bg_proposals g" "p_view p = u" and live: "\<not> agb_pruned eng u"
    and out: "canonical_proposal cd u p eng = (eng', p', d)"
  shows "agb_tov cd g R eng [] eng'" "p' = p" "known_proposal (g\<lparr>bg_view := u\<rparr>) p d"
proof -
  have "agb_ok cd (g\<lparr>bg_view := v\<rparr>) eng" for v
    using ok by (simp add: agb_okv_def)
  note c = canonical_proposal_to [OF this _ p(2) out]
  show "agb_tov cd g R eng [] eng'"
    using c(1) p(1) by (simp add: agb_tov_def)
  show "p' = p"
    using c(2) p(1) by simp
  show "known_proposal (g\<lparr>bg_view := u\<rparr>) p d"
    using c(3) [of u] p(1) live by simp
qed

lemma on_ready_any_tov:
  assumes ok: "agb_okv cd g eng" and p: "ready_into_proposal r \<in> bg_proposals g"
    and s: "ready_sender r \<noteq> bg_name g" "ready_sender r \<in> members (bg_committee g)"
    and heard: "bg_heard g (ready_sender r) (SayReady (ready_into_proposal r) (ready_out_grade r))"
    and out: "on_ready_any cd r eng re b = (eng', re', b', es)"
  shows "agb_tov cd g R eng es eng'"
proof (cases "agb_pruned eng (ready_proposal_view r)")
  case True
  then show ?thesis using ok out by (simp add: on_ready_any_def tov_idle)
next
  case live: False
  let ?u = "ready_proposal_view r"
  have u: "p_view (ready_into_proposal r) = ?u" by (cases r) simp_all
  obtain eng1 q d where c: "canonical_proposal cd ?u (ready_into_proposal r) eng = (eng1, q, d)"
    by (cases "canonical_proposal cd ?u (ready_into_proposal r) eng") auto
  note canon = canonical_proposal_tov [OF ok p u live c]
  obtain eng2 acc where n: "count_ready_statement ?u (ready_sender r) (RGraded q d (ready_out_grade r)) eng1 = (eng2, acc)"
    by fastforce
  have "heard_ready (g\<lparr>bg_view := ?u\<rparr>) (ready_sender r) (RGraded q d (ready_out_grade r))"
    using canon(2,3) heard by simp
  then have s2: "agb_tov cd g R eng [] eng2"
    using tov_after [OF canon(1) tov_ready_messages(1) [OF agb_tovD(1) [OF canon(1)] s]] n by fastforce
  show ?thesis
    using out live n s2 tov_after [OF s2 tov_rechecks(3) [OF agb_tovD(1) [OF s2]]]
    by (auto simp: on_ready_any_def Let_def c split: if_splits)
qed

lemma on_noready_tov:
  assumes "agb_okv cd g eng" "s \<noteq> bg_name g" "s \<in> members (bg_committee g)" "bg_heard g s (SayNoReady u)"
  shows "agb_tov cd g R eng [] (on_noready u s eng)"
  using assms tov_ready_messages(1) [OF assms(1-3), of u RNoReady] by (simp add: on_noready_def tov_idle)

section \<open>Echoes and proposals\<close>

text \<open>What the metadata checks leave alone.\<close>

definition same_echo :: "agb_engine \<Rightarrow> agb_engine \<Rightarrow> bool" where
  "same_echo eng eng' \<longleftrightarrow> (\<forall>v. vs_echo_statements (view_at eng' v) = vs_echo_statements (view_at eng v)
      \<and> vs_echo_sent (view_at eng' v) = vs_echo_sent (view_at eng v) \<and> vs_fixed (view_at eng' v) = vs_fixed (view_at eng v))"

lemma same_echo_refl [simp]: "same_echo eng eng"
  and same_echo_trans: "same_echo eng eng1 \<Longrightarrow> same_echo eng1 eng2 \<Longrightarrow> same_echo eng eng2"
  by (simp_all add: same_echo_def)

lemma claim_non_skip_tov:
  assumes ok: "agb_okv cd g eng"
  shows "agb_tov cd g R eng [] (claim_non_skip entry eng)" "same_echo eng (claim_non_skip entry eng)"
proof -
  let ?f = "\<lambda>s. if vs_stance s = Free then s\<lparr>vs_stance := NonSkip\<rparr> else s"
  have step: "ballot_steps g R (ballot_of s) [] (ballot_of (s\<lparr>vs_stance := NonSkip\<rparr>))" if "vs_stance s = Free" for s g R
    using ballot_steps_one [OF ballot_step.claim_non_skip [of "ballot_of s" g R]] that by (simp add: ballot_of_def)
  have "agb_to cd (g\<lparr>bg_view := v\<rparr>) (R v) eng [] (state_mut u ?f eng)" for u v
    using ok by (intro state_mut_to) (auto simp: agb_okv_def said_about_def intro: view_ok_updates(8) step steps_refl)
  then show "agb_tov cd g R eng [] (claim_non_skip entry eng)"
    using tov_idle [OF ok] by (auto simp: claim_non_skip_def agb_tov_def split: resolution_entry.split)
  show "same_echo eng (claim_non_skip entry eng)"
    by (auto simp: claim_non_skip_def same_echo_def view_at_state_mut split: resolution_entry.split)
qed

lemma fold_claim_tov:
  "agb_okv cd g eng \<Longrightarrow> agb_tov cd g R eng [] (fold claim_non_skip entries eng) \<and> same_echo eng (fold claim_non_skip entries eng)"
proof (induction entries arbitrary: eng)
  case Nil
  then show ?case by (simp add: tov_idle)
next
  case (Cons e entries)
  note c = claim_non_skip_tov [OF Cons.prems, where entry = e]
  show ?case
    using Cons.IH [OF agb_tovD(1) [OF c(1)]] c tov_after same_echo_trans by fastforce
qed

lemma try_meta_ok_tov:
  assumes ok: "agb_okv cd g eng" and out: "try_meta_ok w entries lm eng b = (eng', b', acc)"
  shows "agb_tov cd g R eng [] eng'" "same_echo eng eng'"
proof -
  note f = fold_claim_tov [OF ok, of R entries]
  let ?eng = "state_mut w (\<lambda>s. s\<lparr>vs_aux_accepted := True\<rparr>) (fold claim_non_skip entries eng)"
  have "agb_tov cd g R (fold claim_non_skip entries eng) [] ?eng"
    using agb_tovD(1) f by (intro tov_state_mut) (auto simp: view_simps)
  moreover have "same_echo (fold claim_non_skip entries eng) ?eng"
    by (simp add: same_echo_def view_at_state_mut)
  ultimately show "agb_tov cd g R eng [] eng'" "same_echo eng eng'"
    using out f ok by (auto simp: try_meta_ok_def intro: tov_idle tov_after same_echo_trans split: if_splits prod.splits)
qed

lemma positive_gate_tov:
  assumes "agb_okv cd g eng" and "positive_gate_holds p lm eng b = (eng', b', acc)"
  shows "agb_tov cd g R eng [] eng'" "same_echo eng eng'"
  using assms try_meta_ok_tov by (auto simp: positive_gate_holds_def Let_def intro: tov_idle split: if_splits prod.splits)

lemma after_echo_tov:
  assumes ok: "agb_okv cd g eng" and out: "after_echo u eng re b = (eng', re', b', es)"
  shows "agb_tov cd g R eng es eng'"
proof -
  obtain eng1 es1 eng2 es2 es3 where r: "recheck_ready u (recheck_lock_release u eng) re b = (eng1, re', b', es1)"
    "recheck_fastseal_trigger u eng1 = (eng2, es2)" "recheck_skip_vote_trigger u eng2 = (eng', es3)" "es = es1 @ es2 @ es3"
    using out by (auto simp: after_echo_def Let_def split: prod.splits)
  note s0 = tov_rechecks(4) [OF ok, where u = u and R = R]
  note s1 = tov_after [OF s0 recheck_ready_tov [OF agb_tovD(1) [OF s0] r(1)]]
  note s2 = tov_rechecks(1) [OF agb_tovD(1) [OF s1] r(2), where R = R]
  note s3 = tov_rechecks(2) [OF agb_tovD(1) [OF s2] r(3), where R = R]
  show ?thesis using tov_trans [OF s1 tov_trans [OF s2 s3]] r(4) by simp
qed

lemma count_echo_own_tov:
  assumes ok: "agb_okv cd g eng" and live: "\<not> agb_pruned eng u"
    and new: "map_of (vs_echo_statements (view_at eng u)) (bg_name g) = None" and sent: "vs_echo_sent (view_at eng u)"
    and st: "\<And>p d k os. st = EGraded p d k os \<Longrightarrow> known_proposal (g\<lparr>bg_view := u\<rparr>) p d \<and> k \<le> 1" and es: "said es = [echo_speech u st]"
  shows "agb_tov cd g R eng es (fst (count_echo_statement u (ae_name eng) st eng))"
proof -
  have "speech_view (echo_speech u st) = u"
    using st by (cases st) (auto simp: known_proposal_def)
  then have "agb_to cd (g\<lparr>bg_view := v\<rparr>) (R v) eng es (fst (count_echo_statement u (bg_name (g\<lparr>bg_view := v\<rparr>)) st eng))" for v
    using ok live new sent st es by (intro count_echo_own) (auto simp: agb_okv_def)
  then show ?thesis
    using agb_okvD(2) [OF ok] by (simp add: agb_tov_def)
qed

lemma build_echo_simps [simp]:
  "echo_into_proposal (build_echo_out eng p k os) = p" "echo_grade (build_echo_out eng p k os) = k"
  by (simp_all add: build_echo_out_def split: proposal_out.split)

text \<open>The own echo-stage response with the rechecks that follow it.\<close>

lemma own_echo_response_tov:
  assumes ok: "agb_okv cd g eng" and live: "\<not> agb_pruned eng u"
    and new: "map_of (vs_echo_statements (view_at eng u)) (bg_name g) = None" and sent: "vs_echo_sent (view_at eng u)"
    and st: "\<And>p d k os. st = EGraded p d k os \<Longrightarrow> known_proposal (g\<lparr>bg_view := u\<rparr>) p d \<and> k \<le> 1" and es: "said es = [echo_speech u st]"
    and out: "after_echo u (fst (count_echo_statement u (ae_name eng) st eng)) re b = (eng', re', b', es')"
  shows "agb_tov cd g R eng (es @ es') eng'"
proof -
  note s1 = count_echo_own_tov [OF ok live new sent st es, where R = R]
  show ?thesis by (rule tov_trans [OF s1 after_echo_tov [OF agb_tovD(1) [OF s1] out]])
qed

lemma record_lock_tov:
  assumes "agb_okv cd g eng" and "\<not> agb_pruned eng u \<Longrightarrow> known_proposal (g\<lparr>bg_view := u\<rparr>) p d"
  shows "agb_tov cd g R eng [] (record_lock u p d eng)" "same_echo eng (record_lock u p d eng)"
proof -
  show "agb_tov cd g R eng [] (record_lock u p d eng)"
    using assms unfolding agb_okv_def agb_tov_def by (auto intro!: record_lock_to)
  show "same_echo eng (record_lock u p d eng)"
    by (auto simp: record_lock_def same_echo_def view_at_state_mut)
qed

text \<open>Marking the echo as sent and leaving the pending gates.\<close>

definition mark_echo :: "view \<Rightarrow> agb_engine \<Rightarrow> agb_engine" where
  "mark_echo u eng = (let eng = state_mut u (\<lambda>s. s\<lparr>vs_echo_sent := True\<rparr>) eng in eng\<lparr>ae_pending_gate := os_del u (ae_pending_gate eng)\<rparr>)"

lemma mark_echo_tov:
  assumes ok: "agb_okv cd g eng"
  shows "agb_tov cd g R eng [] (mark_echo u eng)" "vs_echo_sent (view_at (mark_echo u eng) u)"
    "vs_echo_statements (view_at (mark_echo u eng) v) = vs_echo_statements (view_at eng v)"
proof -
  have s1: "agb_tov cd g R eng [] (state_mut u (\<lambda>s. s\<lparr>vs_echo_sent := True\<rparr>) eng)"
    using ok by (rule tov_state_mut) (simp add: view_ok_updates view_simps)
  show "agb_tov cd g R eng [] (mark_echo u eng)"
    unfolding mark_echo_def Let_def by (rule tov_after [OF s1 tov_rechecks(6) [OF agb_tovD(1) [OF s1]]])
  show "vs_echo_sent (view_at (mark_echo u eng) u)"
    "vs_echo_statements (view_at (mark_echo u eng) v) = vs_echo_statements (view_at eng v)"
    by (simp_all add: mark_echo_def Let_def view_at_state_mut)
qed

lemma okv_unsent:
  assumes "agb_okv cd g eng" and "\<not> agb_pruned eng u"
  shows "\<not> vs_echo_sent (view_at eng u) \<Longrightarrow> map_of (vs_echo_statements (view_at eng u)) (bg_name g) = None"
    and "vs_fixed (view_at eng u) = FProposal p d \<Longrightarrow> known_proposal (g\<lparr>bg_view := u\<rparr>) p d"
  using agb_okvD(1) [OF assms] by (auto simp: view_ok_def locals_ok_def)

text \<open>The state in which the grade-1 echo is counted, once the gate holds.\<close>

lemma gate_passed_tov:
  assumes ok: "agb_okv cd g eng" and live: "\<not> agb_pruned eng u" and unsent: "\<not> vs_echo_sent (view_at eng u)"
    and fixed: "vs_fixed (view_at eng u) = FProposal p d" and gate: "positive_gate_holds p lm eng b = (eng1, b1, acc)"
  shows "agb_tov cd g R eng [] (mark_echo u (record_lock u p d eng1))" "\<not> agb_pruned (mark_echo u (record_lock u p d eng1)) u"
    "map_of (vs_echo_statements (view_at (mark_echo u (record_lock u p d eng1)) u)) (bg_name g) = None"
    "vs_echo_sent (view_at (mark_echo u (record_lock u p d eng1)) u)"
proof -
  have s1: "agb_tov cd g R eng [] eng1" "same_echo eng eng1"
    using positive_gate_tov [OF ok gate] by auto
  have s2: "agb_tov cd g R eng1 [] (record_lock u p d eng1)" "same_echo eng1 (record_lock u p d eng1)"
    using record_lock_tov [OF agb_tovD(1) [OF s1(1)] okv_unsent(2) [OF ok live fixed]] by auto
  note s3 = mark_echo_tov [OF agb_tovD(1) [OF s2(1)], where u = u]
  show s: "agb_tov cd g R eng [] (mark_echo u (record_lock u p d eng1))"
    by (rule tov_after [OF s1(1) tov_after [OF s2(1) s3(1)]])
  show "\<not> agb_pruned (mark_echo u (record_lock u p d eng1)) u"
    using agb_tovD(2) [OF s] live by simp
  show "map_of (vs_echo_statements (view_at (mark_echo u (record_lock u p d eng1)) u)) (bg_name g) = None"
    using okv_unsent(1) [OF ok live unsent] s1(2) s2(2) s3(3) by (simp add: same_echo_def)
  show "vs_echo_sent (view_at (mark_echo u (record_lock u p d eng1)) u)"
    by (rule s3(2))
qed

lemma recheck_gate_tov:
  assumes ok: "agb_okv cd g eng" and out: "recheck_gate u lm eng re b = (eng', re', b', es)"
  shows "agb_tov cd g R eng es eng'"
proof -
  define eng0 where "eng0 = state_mut u (\<lambda>s. s) eng"
  have s0: "agb_tov cd g R eng [] eng0"
    using ok by (simp add: eng0_def tov_same)
  note ok0 = agb_tovD(1) [OF s0]
  consider (idle) "eng' = eng" "es = []" | (same) "eng' = eng0" "es = []"
    | (gate) p d eng1 b1 acc where "\<not> agb_pruned eng u" "\<not> vs_echo_sent (view_at eng0 u)" "vs_fixed (view_at eng0 u) = FProposal p d"
        "positive_gate_holds p lm eng0 b = (eng1, b1, acc)" "\<not> acc \<longrightarrow> eng' = eng1 \<and> es = []"
        "acc \<longrightarrow> (let eng2 = mark_echo u (record_lock u p d eng1); origin = map (compute_origin_entry eng2) (p_entries p);
              eng3 = fst (count_echo_statement u (ae_name eng2) (EGraded p d 1 origin) eng2)
           in \<exists>es'. after_echo u eng3 re b1 = (eng', re', b', es')
             \<and> es = (wish_effect eng3 u StageEcho @ [BroadcastEcho (build_echo_out eng3 p 1 origin)]) @ es')"
    using out unfolding recheck_gate_def Let_def eng0_def [symmetric] mark_echo_def
    by (auto split: if_splits prod.splits fixed.splits)
  then show ?thesis
  proof cases
    case idle
    then show ?thesis using ok by (simp add: tov_idle)
  next
    case same
    then show ?thesis using s0 by simp
  next
    case gate
    have live: "\<not> agb_pruned eng0 u" using gate(1) by (simp add: eng0_def)
    note s = gate_passed_tov [OF ok0 live gate(2,3,4)]
    have known: "known_proposal (g\<lparr>bg_view := u\<rparr>) p d"
      using okv_unsent(2) [OF ok0 live gate(3)] .
    show ?thesis
    proof (cases acc)
      case False
      then show ?thesis using gate(5) tov_after [OF s0 positive_gate_tov(1) [OF ok0 gate(4)]] by simp
    next
      case True
      define eng2 where "eng2 = mark_echo u (record_lock u p d eng1)"
      define origin where "origin = map (compute_origin_entry eng2) (p_entries p)"
      obtain es' where a: "after_echo u (fst (count_echo_statement u (ae_name eng2) (EGraded p d 1 origin) eng2)) re b1 = (eng', re', b', es')"
        and es: "\<exists>eng3. es = (wish_effect eng3 u StageEcho @ [BroadcastEcho (build_echo_out eng3 p 1 origin)]) @ es'"
        using gate(6) True by (auto simp: eng2_def origin_def Let_def)
      then obtain eng3 where es: "es = (wish_effect eng3 u StageEcho @ [BroadcastEcho (build_echo_out eng3 p 1 origin)]) @ es'" by blast
      have "agb_tov cd g R eng2 es eng'"
        unfolding es
        by (rule own_echo_response_tov [OF _ _ _ _ _ _ a]) (use agb_tovD(1) [OF s(1)] s(2-4) known in \<open>auto simp: eng2_def\<close>)
      then show ?thesis using tov_after [OF s0 s(1)] by (auto simp: eng2_def intro: tov_after)
    qed
  qed
qed

lemma activate_tov:
  assumes ok: "agb_okv cd g eng" and out: "activate u lm eng re b = (eng', re', b', es)"
  shows "agb_tov cd g R eng es eng'"
proof -
  note s0 = tov_same [OF ok, where R = R and u = u]
  have s1: "agb_tov cd g R eng [] (state_mut u (\<lambda>s. s\<lparr>vs_active := True\<rparr>) (state_mut u (\<lambda>s. s) eng))"
    by (rule tov_after [OF s0 tov_state_mut [OF agb_tovD(1) [OF s0]]]) (simp add: view_simps)
  note s2 = tov_after [OF s1 tov_rechecks(6) [OF agb_tovD(1) [OF s1]]]
  show ?thesis
    using out s0 tov_idle [OF ok] tov_after [OF s1 recheck_gate_tov [OF agb_tovD(1) [OF s1]]]
      tov_after [OF s2 recheck_gate_tov [OF agb_tovD(1) [OF s2]]]
    unfolding activate_def Let_def by (auto split: if_splits)
qed

lemma agb_enter_tov:
  assumes ok: "agb_okv cd g eng" and out: "agb_enter u now lm eng re b = (eng', re', b', es)"
  shows "agb_tov cd g R eng es eng'"
proof -
  note s0 = tov_same [OF ok, where R = R and u = u]
  define eng1 where "eng1 = state_mut u (\<lambda>s. s\<lparr>vs_entered := True, vs_entry_instant := Some now\<rparr>) (state_mut u (\<lambda>s. s) eng)"
  have s1: "agb_tov cd g R eng [] eng1"
    unfolding eng1_def by (rule tov_after [OF s0 tov_state_mut [OF agb_tovD(1) [OF s0]]]) (simp add: view_simps)
  obtain engr rer br esr where r: "activate u lm eng1 re b = (engr, rer, br, esr)"
    by (cases "activate u lm eng1 re b") auto
  define es1 where "es1 = [ArmTimer u EchoAbsolute (now + theta_echo eng1), ArmTimer u ReadyAbsolute (now + theta_ready eng1)]
      @ (case (vs_fixed (view_at eng1 u), vs_first_proposal_instant (view_at eng1 u)) of
           (FProposal _ _, Some rho) \<Rightarrow> if vs_echo_sent (view_at eng1 u) then []
             else [ArmTimer u EchoFallback (min (max now rho + ae_delta eng1) (now + theta_echo eng1))]
         | _ \<Rightarrow> [])"
  have "said (es1 @ esr) = said esr"
    by (simp add: es1_def split: fixed.split option.split)
  note entered = tov_silent [OF tov_after [OF s1 activate_tov [OF agb_tovD(1) [OF s1] r]] this]
  show ?thesis
    using out s0 tov_idle [OF ok] entered
    unfolding agb_enter_def Let_def eng1_def [symmetric] es1_def [symmetric] r
    by (simp split: if_splits)
qed

lemma on_propose_any_tov:
  assumes ok: "agb_okv cd g eng" and p: "p \<in> bg_proposals g" and out: "on_propose_any cd s p now lm eng re b = (eng', re', b', es)"
  shows "agb_tov cd g R eng es eng'"
proof -
  let ?u = "p_view p"
  define eng0 where "eng0 = state_mut ?u (\<lambda>s. s) eng"
  define eng1 where "eng1 = state_mut ?u (\<lambda>s. s\<lparr>vs_first_proposal_instant :=
      (case vs_first_proposal_instant s of None \<Rightarrow> Some now | t \<Rightarrow> t)\<rparr>) eng0"
  obtain eng2 q d where c: "canonical_proposal cd ?u p eng1 = (eng2, q, d)"
    by (cases "canonical_proposal cd ?u p eng1") auto
  define eng3 where "eng3 = state_mut ?u (\<lambda>s. s\<lparr>vs_fixed := FProposal q d\<rparr>) eng2"
  have s0: "agb_tov cd g R eng [] eng0"
    unfolding eng0_def by (rule tov_same [OF ok])
  have s1: "agb_tov cd g R eng [] eng1"
    unfolding eng1_def by (rule tov_after [OF s0 tov_state_mut [OF agb_tovD(1) [OF s0]]]) (simp add: view_simps split: option.split)
  have reject: "agb_tov cd g R eng [] (state_mut ?u (\<lambda>s. s\<lparr>vs_fixed := FReject\<rparr>) eng1)"
    by (rule tov_after [OF s1 tov_state_mut [OF agb_tovD(1) [OF s1]]]) (simp add: view_ok_updates view_simps)
  obtain re1 b1 es1 where au: "authorize_all (p_c q @ p_t q @ aux_refs_entries (p_entries q)) re b = (re1, b1, es1)"
    by (cases "authorize_all (p_c q @ p_t q @ aux_refs_entries (p_entries q)) re b") auto
  define eng4 where "eng4 = (if vs_active (view_at eng3 ?u) \<and> \<not> vs_echo_sent (view_at eng3 ?u)
      then eng3\<lparr>ae_pending_gate := os_ins ?u (ae_pending_gate eng3)\<rparr> else eng3)"
  obtain engr rer br esr where r: "recheck_gate ?u lm eng4 re1 b1 = (engr, rer, br, esr)"
    by (cases "recheck_gate ?u lm eng4 re1 b1") auto
  have gate: "agb_tov cd g R eng esr engr" if live: "\<not> agb_pruned eng ?u"
  proof -
    have live1: "\<not> agb_pruned eng1 ?u" using live by (simp add: eng1_def eng0_def)
    note canon = canonical_proposal_tov [OF agb_tovD(1) [OF s1] p refl live1 c]
    have s2: "agb_tov cd g R eng [] eng2"
      by (rule tov_after [OF s1 canon(1)])
    have s3: "agb_tov cd g R eng [] eng3"
      unfolding eng3_def by (rule tov_after [OF s2 tov_state_mut [OF agb_tovD(1) [OF s2]]]) (use canon in \<open>simp add: view_ok_updates view_simps\<close>)
    have s4: "agb_tov cd g R eng [] eng4"
      using s3 tov_after [OF s3 tov_rechecks(6) [OF agb_tovD(1) [OF s3]]] by (simp add: eng4_def)
    show ?thesis by (rule tov_after [OF s4 recheck_gate_tov [OF agb_tovD(1) [OF s4] r]])
  qed
  define es5 where "es5 = (case vs_entry_instant (view_at eng3 ?u) of None \<Rightarrow> [] | Some entry \<Rightarrow>
      [ArmTimer ?u EchoFallback (min (max entry now + ae_delta eng4) (entry + theta_echo eng4))])"
  have "said (es1 @ [FixedProposal ?u True] @ es5) = []"
    using said_authorize_all [of "p_c q @ p_t q @ aux_refs_entries (p_entries q)" re b] au
    by (simp add: es5_def split: option.split)
  then have "said (es1 @ [FixedProposal ?u True] @ es5 @ esr) = said esr"
    by simp
  note formed = tov_silent [OF gate this]
  show ?thesis
    using out s0 tov_idle [OF ok] tov_silent [OF reject, of "[FixedProposal ?u False]"] formed
    unfolding on_propose_any_def Let_def eng0_def [symmetric] eng1_def [symmetric] c prod.case eng3_def [symmetric] eng4_def [symmetric]
      au r es5_def [symmetric]
    by (simp split: if_splits)
qed

lemma recheck_views_tov:
  "agb_okv cd g eng \<Longrightarrow> recheck_views vs lm eng re b = (eng', re', b', es) \<Longrightarrow> agb_tov cd g R eng es eng'"
proof (induction vs arbitrary: eng re b es)
  case Nil
  then show ?case by (simp add: tov_idle)
next
  case (Cons v vs)
  obtain eng1 re1 b1 es1 where r: "recheck_gate v lm eng re b = (eng1, re1, b1, es1)"
    by (cases "recheck_gate v lm eng re b") auto
  obtain es2 where rs: "recheck_views vs lm eng1 re1 b1 = (eng', re', b', es2)" and es: "es = es1 @ es2"
    using Cons.prems(2) by (auto simp: r split: prod.splits)
  note s1 = recheck_gate_tov [OF Cons.prems(1) r, where R = R]
  show ?case unfolding es by (rule tov_trans [OF s1 Cons.IH [OF agb_tovD(1) [OF s1] rs]])
qed

lemma recheck_all_tov:
  assumes ok: "agb_okv cd g eng" and out: "recheck_all lm eng re b = (eng', re', b', es)"
  shows "agb_tov cd g R eng es eng'"
proof -
  note s1 = tov_rechecks(7) [OF ok, where R = R]
  show ?thesis
    using out tov_idle [OF ok] recheck_views_tov [OF ok] tov_after [OF s1 recheck_views_tov [OF agb_tovD(1) [OF s1]]]
    unfolding recheck_all_def Let_def by (auto split: if_splits)
qed

lemma on_echo_absolute_timer_tov:
  assumes ok: "agb_okv cd g eng" and out: "on_echo_absolute_timer u eng re b = (eng', re', b', es)"
  shows "agb_tov cd g R eng es eng'"
proof -
  define eng0 where "eng0 = state_mut u (\<lambda>s. s) eng"
  have s0: "agb_tov cd g R eng [] eng0"
    unfolding eng0_def by (rule tov_same [OF ok])
  note ok0 = agb_tovD(1) [OF s0]
  define eng1 where "eng1 = mark_echo u eng0"
  obtain engr rer br esr where r: "after_echo u (fst (count_echo_statement u (ae_name eng1) ESkip eng1)) re b = (engr, rer, br, esr)"
    by (cases "after_echo u (fst (count_echo_statement u (ae_name eng1) ESkip eng1)) re b") auto
  have main: "agb_tov cd g R eng ((wish_effect eng1 u StageEcho @ [BroadcastEchoSkip u]) @ esr) engr"
    if live: "\<not> agb_pruned eng u" and unsent: "\<not> vs_echo_sent (view_at eng0 u)"
  proof -
    note s1 = mark_echo_tov [OF ok0, where u = u, folded eng1_def]
    have "\<not> agb_pruned eng1 u" "map_of (vs_echo_statements (view_at eng1 u)) (bg_name g) = None"
      using live okv_unsent(1) [OF ok0, of u] unsent s1(3) by (simp_all add: eng1_def eng0_def mark_echo_def Let_def)
    then have "agb_tov cd g R eng1 ((wish_effect eng1 u StageEcho @ [BroadcastEchoSkip u]) @ esr) engr"
      using s1 by (intro own_echo_response_tov [OF _ _ _ _ _ _ r]) (auto dest: agb_tovD(1))
    with tov_after [OF s0 s1(1)] show ?thesis by (rule tov_after)
  qed
  show ?thesis
    using out s0 tov_idle [OF ok] main r
    unfolding on_echo_absolute_timer_def Let_def eng0_def [symmetric] eng1_def mark_echo_def
    by (simp split: if_splits)
qed

lemma refuse_unproposed_view_tov:
  assumes ok: "agb_okv cd g eng" and out: "refuse_unproposed_view u eng re b = (eng', re', b', es)"
  shows "agb_tov cd g R eng es eng'"
proof (cases "agb_pruned eng u \<or> \<not> awaiting_proposal (view_at eng u)")
  case True
  then show ?thesis using out ok by (simp add: refuse_unproposed_view_def tov_idle)
next
  case False
  obtain eng1 re1 b1 es1 where a: "on_echo_absolute_timer u eng re b = (eng1, re1, b1, es1)"
    by (cases "on_echo_absolute_timer u eng re b") auto
  obtain es2 where t: "on_ready_timer u eng1 re1 b1 = (eng', re', b', es2)" and es: "es = es1 @ es2"
    using out False by (auto simp: refuse_unproposed_view_def a split: prod.splits)
  note s1 = on_echo_absolute_timer_tov [OF ok a, where R = R]
  show ?thesis unfolding es by (rule tov_trans [OF s1 on_ready_timer_tov [OF agb_tovD(1) [OF s1] t]])
qed

lemma on_echo_fallback_timer_tov:
  assumes ok: "agb_okv cd g eng" and out: "on_echo_fallback_timer u lm eng re b = (eng', re', b', es)"
  shows "agb_tov cd g R eng es eng'"
proof -
  define eng0 where "eng0 = state_mut u (\<lambda>s. s) eng"
  have s0: "agb_tov cd g R eng [] eng0"
    unfolding eng0_def by (rule tov_same [OF ok])
  note ok0 = agb_tovD(1) [OF s0]
  define eng1 where "eng1 = mark_echo u eng0"
  have mark: "(state_mut u (\<lambda>s. s\<lparr>vs_echo_sent := True\<rparr>) eng0)\<lparr>ae_pending_gate :=
      os_del u (ae_pending_gate (state_mut u (\<lambda>s. s\<lparr>vs_echo_sent := True\<rparr>) eng0))\<rparr> = eng1"
    by (simp add: eng1_def mark_echo_def Let_def)
  show ?thesis
  proof (cases "agb_pruned eng u \<or> vs_echo_sent (view_at eng0 u) \<or> (\<forall>p d. vs_fixed (view_at eng0 u) \<noteq> FProposal p d)")
    case True
    then show ?thesis
      using out s0 tov_idle [OF ok] unfolding on_echo_fallback_timer_def Let_def eng0_def [symmetric]
      by (auto split: if_splits fixed.splits)
  next
    case False
    then obtain p d where live': "\<not> agb_pruned eng u" and unsent: "\<not> vs_echo_sent (view_at eng0 u)" and fixed: "vs_fixed (view_at eng0 u) = FProposal p d"
      by auto
    obtain b1 core where a: "all_refs (author_ok lm) (p_c p) b = (b1, core)" by fastforce
    obtain eng2 b2 acc where m: "(if core then try_meta_ok u (p_entries p) lm eng1 b1 else (eng1, b1, False)) = (eng2, b2, acc)"
      by (cases "if core then try_meta_ok u (p_entries p) lm eng1 b1 else (eng1, b1, False)") auto
    define origin where "origin = map (compute_origin_entry eng2) (p_entries p)"
    define eng3 where "eng3 = fst (count_echo_statement u (ae_name eng2) (if acc then EGraded p d 0 origin else ESkip) eng2)"
    obtain es' where e: "after_echo u eng3 re b2 = (eng', re', b', es')"
      and es: "es = (wish_effect eng1 u StageEcho @ [if acc then BroadcastEcho (build_echo_out eng3 p 0 origin) else BroadcastEchoSkip u]) @ es'"
      using out live' unsent fixed
      unfolding on_echo_fallback_timer_def Let_def eng0_def [symmetric] mark eng3_def origin_def
      by (simp add: a m split: prod.splits)
    have live: "\<not> agb_pruned eng0 u" using live' by (simp add: eng0_def)
    note s1 = mark_echo_tov [OF ok0, where u = u, folded eng1_def]
    have s2: "agb_tov cd g R eng1 [] eng2" "same_echo eng1 eng2"
      using m tov_idle [OF agb_tovD(1) [OF s1(1)]] try_meta_ok_tov [OF agb_tovD(1) [OF s1(1)]] by (auto split: if_splits)
    have s: "agb_tov cd g R eng [] eng2"
      by (rule tov_after [OF s0 tov_after [OF s1(1) s2(1)]])
    have known: "known_proposal (g\<lparr>bg_view := u\<rparr>) p d"
      using okv_unsent(2) [OF ok0 live fixed] .
    have "\<not> agb_pruned eng2 u" "map_of (vs_echo_statements (view_at eng2 u)) (bg_name g) = None" "vs_echo_sent (view_at eng2 u)"
      using agb_tovD(2) [OF s] live' okv_unsent(1) [OF ok0 live unsent] s1(2,3) s2(2) by (simp_all add: same_echo_def)
    then have "agb_tov cd g R eng2 es eng'"
      unfolding es
      by (intro own_echo_response_tov [OF _ _ _ _ _ _ e [unfolded eng3_def]]) (use agb_tovD(1) [OF s] known in \<open>auto split: if_splits\<close>)
    with s show ?thesis by (rule tov_after)
  qed
qed

lemma on_echo_any_tov:
  assumes ok: "agb_okv cd g eng" and p: "echo_into_proposal e \<in> bg_proposals g"
    and s: "echo_sender e \<noteq> bg_name g" "echo_sender e \<in> members (bg_committee g)"
    and heard: "bg_heard g (echo_sender e) (SayEcho (echo_into_proposal e) (echo_grade e))"
    and out: "on_echo_any cd e eng re b = (eng', re', b', es)"
  shows "agb_tov cd g R eng es eng'"
proof (cases "echo_grade e > 1 \<or> agb_pruned eng (echo_proposal_view e)")
  case True
  then show ?thesis using ok out by (simp add: on_echo_any_def tov_idle)
next
  case False
  let ?u = "echo_proposal_view e"
  have u: "p_view (echo_into_proposal e) = ?u" and live: "\<not> agb_pruned eng ?u"
    using False by (cases e; simp)+
  obtain eng1 q d where c: "canonical_proposal cd ?u (echo_into_proposal e) eng = (eng1, q, d)"
    by (cases "canonical_proposal cd ?u (echo_into_proposal e) eng") auto
  note canon = canonical_proposal_tov [OF ok p u live c]
  obtain eng2 acc where n: "count_echo_statement ?u (echo_sender e) (EGraded q d (echo_grade e) (origin_vec e)) eng1 = (eng2, acc)"
    by fastforce
  have "heard_echo (g\<lparr>bg_view := ?u\<rparr>) (echo_sender e) (EGraded q d (echo_grade e) (origin_vec e))"
    using canon(2,3) heard by simp
  then have s2: "agb_tov cd g R eng [] eng2"
    using tov_after [OF canon(1) tov_ready_messages(2) [OF agb_tovD(1) [OF canon(1)] s]] n by fastforce
  show ?thesis
    using out False n s2 tov_after [OF s2 after_echo_tov [OF agb_tovD(1) [OF s2]]]
    by (auto simp: on_echo_any_def Let_def c split: if_splits)
qed

lemma on_echo_tov:
  assumes ok: "agb_okv cd g eng" and p: "echo_into_proposal e \<in> bg_proposals g"
    and s: "echo_sender e \<noteq> bg_name g" "echo_sender e \<in> members (bg_committee g)"
    and heard: "bg_heard g (echo_sender e) (SayEcho (echo_into_proposal e) (echo_grade e))"
    and out: "on_echo cd e eng re b = (eng', re', b', es)"
  shows "agb_tov cd g R eng es eng'"
proof -
  define claim where "claim = (if echo_grade e \<le> 1 \<and> \<not> agb_pruned eng (echo_proposal_view e)
            \<and> \<not> om_has (vs_echo_statements (view_at eng (echo_proposal_view e))) (echo_sender e)
            \<and> map_of (authorities (ae_committee eng)) (echo_sender e) \<noteq> None
            \<and> p_formed (ae_committee eng) (echo_into_proposal e) then echo_claim e else [])"
  obtain re1 b1 es1 where a: "authorize_all (map claim_anchor claim) re b = (re1, b1, es1)"
    by (cases "authorize_all (map claim_anchor claim) re b") auto
  obtain eng2 re2 b2 es2 where r: "on_echo_any cd e eng re1 b1 = (eng2, re2, b2, es2)"
    by (cases "on_echo_any cd e eng re1 b1") auto
  have "said es1 = []"
    using said_authorize_all [of "map claim_anchor claim" re b] a by simp
  then have "said es = said es2" "eng' = eng2"
    using out unfolding on_echo_def Let_def claim_def [symmetric] by (auto simp: a r split: if_splits)
  with on_echo_any_tov [OF ok p s heard r] show ?thesis
    by (auto intro: tov_silent)
qed

lemma on_echo_skip_tov:
  assumes ok: "agb_okv cd g eng" and s: "s \<noteq> bg_name g" "s \<in> members (bg_committee g)" and heard: "bg_heard g s (SayEchoSkip u)"
    and out: "on_echo_skip u s eng = (eng', es)"
  shows "agb_tov cd g R eng es eng'"
proof -
  obtain eng1 acc where n: "count_echo_statement u s ESkip eng = (eng1, acc)" by fastforce
  have s1: "agb_tov cd g R eng [] eng1"
    using tov_ready_messages(2) [OF ok s, of u ESkip] heard n by simp
  note s2 = tov_after [OF s1 tov_rechecks(4) [OF agb_tovD(1) [OF s1], where u = u]]
  note s3 = tov_after [OF s2 tov_rechecks(5) [OF agb_tovD(1) [OF s2], where u = u and x = False]]
  obtain eng4 es4 where f: "recheck_fastseal_trigger u (finalize_mix_if_closed u False (recheck_lock_release u eng1)) = (eng4, es4)" by fastforce
  note s4 = tov_after [OF s3 tov_rechecks(1) [OF agb_tovD(1) [OF s3] f]]
  obtain eng5 es5 where v: "recheck_skip_vote_trigger u eng4 = (eng5, es5)" by fastforce
  note s5 = tov_trans [OF s4 tov_rechecks(2) [OF agb_tovD(1) [OF s4] v]]
  show ?thesis
    using out tov_idle [OF ok] s1 s5 by (auto simp: on_echo_skip_def Let_def n f v split: if_splits)
qed

lemma try_direct_resolution_vote_tov:
  assumes ok: "agb_okv cd g eng" and out: "try_direct_resolution_vote entry fresh lm eng b = (eng', b', vote)"
  shows "agb_tov cd g R eng [] eng'"
  using out tov_idle [OF ok] claim_non_skip_tov(1) [OF ok]
  by (auto simp: try_direct_resolution_vote_def Let_def split: if_splits prod.splits meta_status.splits option.splits)

lemma tov_skip_and_submit:
  assumes "agb_okv cd g eng"
  shows "s \<noteq> bg_name g \<Longrightarrow> s \<in> members (bg_committee g) \<Longrightarrow> bg_heard g s (SaySkipVote u) \<Longrightarrow>
      on_skip_vote u s eng = (eng', es) \<Longrightarrow> agb_tov cd g R eng es eng'"
    and "R u out \<Longrightarrow> submit_resolution u out eng = (eng', es) \<Longrightarrow> agb_tov cd g R eng es eng'"
proof -
  show "agb_tov cd g R eng es eng'"
    if "s \<noteq> bg_name g" "s \<in> members (bg_committee g)" "bg_heard g s (SaySkipVote u)" "on_skip_vote u s eng = (eng', es)"
    using assms that unfolding agb_okv_def agb_tov_def by (auto intro!: on_skip_vote_to [OF _ _ _ _ that(4)])
  show "agb_tov cd g R eng es eng'" if "R u out" "submit_resolution u out eng = (eng', es)"
    using assms that unfolding agb_okv_def agb_tov_def by (auto intro!: submit_resolution_to [OF _ that(2)])
qed

end
