(* ===== verification/Agb_System.thy ===== *)
theory Agb_System
  imports Agb_Refinement
begin

text \<open>
  A set of correct nodes, each running the graded-broadcast engine of \<^verbatim>\<open>primary/src/vantage/agb.rs\<close>. An
  event of a node is one call of a handler by the driver loop of \<^verbatim>\<open>primary/src/vantage/node.rs\<close>, with any
  repairer, cache and lane manager. The driver authenticates senders and drops messages of non-members,
  so a message from a correct node was broadcast by it; other members may send anything.
\<close>

section \<open>Events and runs\<close>

datatype agb_event =
    EvEnter view instant
  | EvPropose public_key proposal_out instant
  | EvRecheck
  | EvFallback view
  | EvAbsolute view
  | EvReadyTimer view
  | EvRefuse view
  | EvEcho echo_out
  | EvEchoSkip view public_key
  | EvReady ready_out
  | EvNoReady view public_key
  | EvSkipVote view public_key
  | EvResolutionVote resolution_entry bool
  | EvSubmit view outcome
  | EvGc view

definition agb_only :: "agb_out \<Rightarrow> agb_engine \<times> effect list" where
  "agb_only out = (case out of (eng, re, b, es) \<Rightarrow> (eng, es))"

fun agb_handle ::
    "codec \<Rightarrow> lane_manager \<Rightarrow> repairer \<Rightarrow> block_cache \<Rightarrow> agb_event \<Rightarrow> agb_engine \<Rightarrow> agb_engine \<times> effect list" where
  "agb_handle cd lm re b (EvEnter u now) eng = agb_only (agb_enter u now lm eng re b)"
| "agb_handle cd lm re b (EvPropose s p now) eng = agb_only (on_propose_any cd s p now lm eng re b)"
| "agb_handle cd lm re b EvRecheck eng = agb_only (recheck_all lm eng re b)"
| "agb_handle cd lm re b (EvFallback u) eng = agb_only (on_echo_fallback_timer u lm eng re b)"
| "agb_handle cd lm re b (EvAbsolute u) eng = agb_only (on_echo_absolute_timer u eng re b)"
| "agb_handle cd lm re b (EvReadyTimer u) eng = agb_only (on_ready_timer u eng re b)"
| "agb_handle cd lm re b (EvRefuse u) eng = agb_only (refuse_unproposed_view u eng re b)"
| "agb_handle cd lm re b (EvEcho e) eng = agb_only (on_echo cd e eng re b)"
| "agb_handle cd lm re b (EvEchoSkip u s) eng = on_echo_skip u s eng"
| "agb_handle cd lm re b (EvReady r) eng = agb_only (on_ready_any cd r eng re b)"
| "agb_handle cd lm re b (EvNoReady u s) eng = (on_noready u s eng, [])"
| "agb_handle cd lm re b (EvSkipVote u s) eng = on_skip_vote u s eng"
| "agb_handle cd lm re b (EvResolutionVote entry fresh) eng = (fst (try_direct_resolution_vote entry fresh lm eng b), [])"
| "agb_handle cd lm re b (EvSubmit u out) eng = submit_resolution u out eng"
| "agb_handle cd lm re b (EvGc u) eng = (agb_gc_below u eng, [])"

text \<open>What the driver lets through to the node of \<open>g\<close>; \<open>R\<close> are the outcomes the resolver may submit.\<close>

definition from_peer :: "ballot_cfg \<Rightarrow> public_key \<Rightarrow> speech \<Rightarrow> bool" where
  "from_peer g s x \<longleftrightarrow> s \<noteq> bg_name g \<and> s \<in> members (bg_committee g) \<and> bg_heard g s x"

fun event_ok :: "ballot_cfg \<Rightarrow> (view \<Rightarrow> outcome \<Rightarrow> bool) \<Rightarrow> agb_event \<Rightarrow> bool" where
  "event_ok g R (EvPropose s p now) \<longleftrightarrow> p \<in> bg_proposals g"
| "event_ok g R (EvEcho e) \<longleftrightarrow> echo_into_proposal e \<in> bg_proposals g
     \<and> from_peer g (echo_sender e) (SayEcho (echo_into_proposal e) (echo_grade e))"
| "event_ok g R (EvEchoSkip u s) \<longleftrightarrow> from_peer g s (SayEchoSkip u)"
| "event_ok g R (EvReady r) \<longleftrightarrow> ready_into_proposal r \<in> bg_proposals g
     \<and> from_peer g (ready_sender r) (SayReady (ready_into_proposal r) (ready_out_grade r))"
| "event_ok g R (EvNoReady u s) \<longleftrightarrow> from_peer g s (SayNoReady u)"
| "event_ok g R (EvSkipVote u s) \<longleftrightarrow> from_peer g s (SaySkipVote u)"
| "event_ok g R (EvSubmit u out) \<longleftrightarrow> R u out"
| "event_ok g R _ \<longleftrightarrow> True"

lemma agb_only_eq: "agb_only out = (eng, es) \<Longrightarrow> \<exists>re b. out = (eng, re, b, es)"
  by (cases out) (auto simp: agb_only_def)

lemma agb_handle_tov:
  assumes ok: "agb_okv cd g eng" and ev: "event_ok g R ev" and out: "agb_handle cd lm re b ev eng = (eng', es)" and "\<And>u. ev \<noteq> EvGc u"
  shows "agb_tov cd g R eng es eng'"
proof (cases ev)
  case (EvNoReady u s)
  then show ?thesis using on_noready_tov [OF ok] ev out by (auto simp: from_peer_def)
next
  case (EvResolutionVote entry fresh)
  then show ?thesis
    using out try_direct_resolution_vote_tov [OF ok] by (cases "try_direct_resolution_vote entry fresh lm eng b") auto
next
  case (EvGc u)
  then show ?thesis using assms(4) by blast
next
  case (EvEchoSkip u s)
  then show ?thesis using on_echo_skip_tov [OF ok] ev out by (auto simp: from_peer_def)
next
  case (EvSkipVote u s)
  then show ?thesis using tov_skip_and_submit(1) [OF ok] ev out by (auto simp: from_peer_def)
next
  case (EvSubmit u oc)
  then show ?thesis using tov_skip_and_submit(2) [OF ok] ev out by auto
next
  case (EvEcho e)
  then show ?thesis using on_echo_tov [OF ok] ev out by (auto simp: from_peer_def dest!: agb_only_eq)
next
  case (EvReady r)
  then show ?thesis using on_ready_any_tov [OF ok] ev out by (auto simp: from_peer_def dest!: agb_only_eq)
qed (use out ev ok in \<open>auto dest!: agb_only_eq intro: agb_enter_tov on_propose_any_tov recheck_all_tov on_echo_fallback_timer_tov
    on_echo_absolute_timer_tov on_ready_timer_tov refuse_unproposed_view_tov\<close>)

text \<open>Pruning drops whole views and keeps the others.\<close>

lemma agb_gc_below_view:
  "\<not> agb_pruned (agb_gc_below u eng) v \<Longrightarrow> view_at (agb_gc_below u eng) v = view_at eng v \<and> \<not> agb_pruned eng v"
  by (auto simp: agb_gc_below_def view_at_def map_of_om_from split: if_splits)

lemma agb_gc_below_ok: "agb_okv cd g eng \<Longrightarrow> agb_okv cd g (agb_gc_below u eng)"
  using agb_gc_below_view [where u = u and eng = eng]
  by (auto simp: agb_okv_def agb_ok_def) (auto simp: agb_gc_below_def)

text \<open>A fresh engine.\<close>

lemma view_ok_default: "view_ok g view_state_default" and ballot_of_default: "ballot_of view_state_default = ballot_new"
proof -
  show b: "ballot_of view_state_default = ballot_new"
    by (simp add: ballot_of_def ballot_new_def view_state_default_def)
  have "echoers ballot_new d x = {}" "skippers ballot_new = {}" "readiers ballot_new d k = {}" "answerers ballot_new d = {}"
    "noreadies ballot_new = {}" "rejecters ballot_new = {}" for d x k
    by (simp_all add: echoers_def skippers_def readiers_def answerers_def noreadies_def rejecters_def ballot_new_def)
  then show "view_ok g view_state_default"
    unfolding view_ok_def tallies_exact_def b
    by (simp add: echo_tally_ok_def ready_tally_ok_def orders_ok_def locals_ok_def view_state_default_def ballot_ok_def, simp add: ballot_new_def)
qed

lemma agb_new_ok:
  assumes "agb_new (bg_name g) (bg_committee g) sid delta = Some eng" and "committee_ok (bg_committee g)"
    and "bg_name g \<in> members (bg_committee g)" and "bg_digest g = p_digest cd sid"
  shows "agb_okv cd g eng" "view_at eng v = view_state_default"
proof -
  have views: "view_at eng v = view_state_default" for v
    using assms(1) by (auto simp: agb_new_def view_at_def)
  then show "view_at eng v = view_state_default" .
  show "agb_okv cd g eng"
    using assms views view_ok_default by (auto simp: agb_okv_def agb_ok_def agb_new_def)
qed

section \<open>Systems of correct nodes\<close>

text \<open>\<open>P\<close> are the proposals that are ever delivered.\<close>

inductive agb_system ::
    "committee \<Rightarrow> codec \<Rightarrow> digest \<Rightarrow> nat \<Rightarrow> proposal_out set \<Rightarrow> public_key set \<Rightarrow> (public_key \<Rightarrow> view \<Rightarrow> outcome \<Rightarrow> bool) \<Rightarrow>
      (public_key \<Rightarrow> agb_engine) \<Rightarrow> (public_key \<Rightarrow> effect list) \<Rightarrow> bool"
  for c cd sid delta P H R where
  sys_start: "(\<And>i. i \<in> H \<Longrightarrow> agb_new i c sid delta = Some (sys i)) \<Longrightarrow> agb_system c cd sid delta P H R sys (\<lambda>_. [])"
| sys_step: "agb_system c cd sid delta P H R sys tr \<Longrightarrow> i \<in> H \<Longrightarrow>
    event_ok (node_cfg c 0 (p_digest cd sid) P H (\<lambda>s. said (tr s)) i) (R i) ev \<Longrightarrow>
    agb_handle cd lm re b ev (sys i) = (eng, es) \<Longrightarrow>
    agb_system c cd sid delta P H R (sys(i := eng)) (tr(i := tr i @ es))"

lemma node_cfg_view [simp]: "(node_cfg c v dg P H T i)\<lparr>bg_view := u\<rparr> = node_cfg c u dg P H T i"
  by (simp add: node_cfg_def)

lemma event_ok_mono:
  assumes "event_ok (node_cfg c v dg P H T i) R ev" and "\<And>s. s \<in> H \<Longrightarrow> set (T s) \<subseteq> set (T' s)"
  shows "event_ok (node_cfg c v dg P H T' i) R ev"
  using assms by (cases ev) (auto simp: from_peer_def)

text \<open>What holds of node \<open>i\<close> after the effects \<open>es\<close>: its speech about every view is a ballot run, which
  the retained views keep.\<close>

definition node_refines ::
    "committee \<Rightarrow> codec \<Rightarrow> digest \<Rightarrow> proposal_out set \<Rightarrow> public_key set \<Rightarrow> (view \<Rightarrow> outcome \<Rightarrow> bool) \<Rightarrow> (public_key \<Rightarrow> speech list) \<Rightarrow>
      public_key \<Rightarrow> effect list \<Rightarrow> agb_engine \<Rightarrow> bool" where
  "node_refines c cd sid P H R T i es eng \<longleftrightarrow>
     agb_okv cd (node_cfg c 0 (p_digest cd sid) P H T i) eng
   \<and> (\<forall>v. \<exists>bl. ballot_steps (node_cfg c v (p_digest cd sid) P H T i) (R v) ballot_new (said_about v es) bl
         \<and> (\<not> agb_pruned eng v \<longrightarrow> bl = ballot_of (view_at eng v)))"

lemma node_refines_step:
  assumes ref: "node_refines c cd sid P H R T i es eng" and ev: "event_ok (node_cfg c 0 (p_digest cd sid) P H T i) R ev"
    and out: "agb_handle cd lm re b ev eng = (eng', es')"
  shows "node_refines c cd sid P H R T i (es @ es') eng'"
proof (cases "\<exists>u. ev = EvGc u")
  case True
  then obtain u where gc: "eng' = agb_gc_below u eng" "es' = []"
    using out by auto
  show ?thesis
    unfolding node_refines_def gc append_Nil2
  proof (intro conjI allI)
    show "agb_okv cd (node_cfg c 0 (p_digest cd sid) P H T i) (agb_gc_below u eng)"
      using ref by (simp add: node_refines_def agb_gc_below_ok)
    fix v
    obtain bl where bl: "ballot_steps (node_cfg c v (p_digest cd sid) P H T i) (R v) ballot_new (said_about v es) bl"
      "\<not> agb_pruned eng v \<longrightarrow> bl = ballot_of (view_at eng v)"
      using ref unfolding node_refines_def by blast
    moreover have "\<not> agb_pruned (agb_gc_below u eng) v \<longrightarrow> bl = ballot_of (view_at (agb_gc_below u eng) v)"
      using bl(2) agb_gc_below_view [where u = u and eng = eng and v = v] by auto
    ultimately show "\<exists>bl. ballot_steps (node_cfg c v (p_digest cd sid) P H T i) (R v) ballot_new (said_about v es) bl
         \<and> (\<not> agb_pruned (agb_gc_below u eng) v \<longrightarrow> bl = ballot_of (view_at (agb_gc_below u eng) v))"
      by blast
  qed
next
  case False
  then have to: "agb_tov cd (node_cfg c 0 (p_digest cd sid) P H T i) R eng es' eng'"
    using ref ev out by (intro agb_handle_tov) (auto simp: node_refines_def)
  show ?thesis
    unfolding node_refines_def
  proof (intro conjI allI)
    show "agb_okv cd (node_cfg c 0 (p_digest cd sid) P H T i) eng'"
      by (rule agb_tovD(1) [OF to])
    fix v
    obtain bl where bl: "ballot_steps (node_cfg c v (p_digest cd sid) P H T i) (R v) ballot_new (said_about v es) bl"
      "\<not> agb_pruned eng v \<longrightarrow> bl = ballot_of (view_at eng v)"
      using ref unfolding node_refines_def by blast
    have "agb_to cd (node_cfg c v (p_digest cd sid) P H T i) (R v) eng es' eng'"
      using to by (simp add: agb_tov_def)
    then show "\<exists>bl. ballot_steps (node_cfg c v (p_digest cd sid) P H T i) (R v) ballot_new (said_about v (es @ es')) bl
         \<and> (\<not> agb_pruned eng' v \<longrightarrow> bl = ballot_of (view_at eng' v))"
      using bl ballot_steps_trans [OF bl(1)] by (cases "agb_pruned eng v") (auto simp: agb_to_def)
  qed
qed

lemma agb_system_refines:
  assumes "agb_system c cd sid delta P H R sys tr" and c: "committee_ok c" and H: "H \<subseteq> members c"
    and "\<And>s. s \<in> H \<Longrightarrow> set (said (tr s)) \<subseteq> set (T s)" and "i \<in> H"
  shows "node_refines c cd sid P H (R i) T i (tr i) (sys i)"
  using assms(1,4,5)
proof (induction arbitrary: i rule: agb_system.induct)
  case (sys_start sys)
  have "i \<in> members c" using sys_start(3) H by blast
  then have new: "agb_okv cd (node_cfg c 0 (p_digest cd sid) P H T i) (sys i)" "view_at (sys i) v = view_state_default" for v
    using agb_new_ok [of "node_cfg c 0 (p_digest cd sid) P H T i" sid delta "sys i"] sys_start(1,3) c by auto
  then show ?case
    by (auto simp: node_refines_def ballot_of_default said_about_def intro: steps_refl)
next
  case (sys_step sys tr j ev lm re b eng es)
  have sub: "set (said (tr s)) \<subseteq> set (T s)" if "s \<in> H" for s
    using sys_step.prems(1) [OF that] by (auto split: if_splits)
  have IH: "node_refines c cd sid P H (R k) T k (tr k) (sys k)" if "k \<in> H" for k
    using sys_step.IH sub that by blast
  show ?case
  proof (cases "i = j")
    case True
    have ev: "event_ok (node_cfg c 0 (p_digest cd sid) P H T j) (R j) ev"
      by (rule event_ok_mono [OF sys_step.hyps(3) sub])
    have "node_refines c cd sid P H (R j) T j (tr j @ es) eng"
      by (rule node_refines_step [OF IH [OF sys_step.hyps(2)] ev sys_step.hyps(4)])
    then show ?thesis using True by simp
  next
    case False
    then show ?thesis using IH [OF sys_step.prems(2)] by simp
  qed
qed

lemma agb_system_ballots:
  assumes "agb_system c cd sid delta P H R sys tr" and "committee_ok c" and "H \<subseteq> members c" and "i \<in> H"
  obtains bl where
    "ballot_steps (node_cfg c v (p_digest cd sid) P H (\<lambda>s. said (tr s)) i) (R i v) ballot_new (said_about v (tr i)) bl"
    "\<not> agb_pruned (sys i) v \<Longrightarrow> bl = ballot_of (view_at (sys i) v)"
  using agb_system_refines [OF assms(1-3), of "\<lambda>s. said (tr s)" i] assms(4) that
  unfolding node_refines_def by blast

lemma sealed_said: "Sealed v out \<in> set es \<longleftrightarrow> SaySealed v out \<in> set (said es)"
  by (induction es rule: said.induct) auto

section \<open>A demonstration run\<close>

text \<open>Running a list of events, each at a correct node and let through by the driver.\<close>

fun play ::
    "committee \<Rightarrow> codec \<Rightarrow> digest \<Rightarrow> proposal_out set \<Rightarrow> public_key set \<Rightarrow> (public_key \<Rightarrow> view \<Rightarrow> outcome \<Rightarrow> bool) \<Rightarrow>
      lane_manager \<Rightarrow> repairer \<Rightarrow> block_cache \<Rightarrow> (public_key \<times> agb_event) list \<Rightarrow>
      (public_key \<Rightarrow> agb_engine) \<times> (public_key \<Rightarrow> effect list) \<Rightarrow>
      ((public_key \<Rightarrow> agb_engine) \<times> (public_key \<Rightarrow> effect list)) option" where
  "play c cd sid P H R lm re b [] st = Some st"
| "play c cd sid P H R lm re b ((i, ev) # evs) (sys, tr) =
     (if i \<in> H \<and> event_ok (node_cfg c 0 (p_digest cd sid) P H (\<lambda>s. said (tr s)) i) (R i) ev
      then let (eng, es) = agb_handle cd lm re b ev (sys i)
           in play c cd sid P H R lm re b evs (sys(i := eng), tr(i := tr i @ es))
      else None)"

lemma play_system:
  "agb_system c cd sid delta P H R sys tr \<Longrightarrow> play c cd sid P H R lm re b evs (sys, tr) = Some (sys', tr') \<Longrightarrow>
   agb_system c cd sid delta P H R sys' tr'"
proof (induction evs arbitrary: sys tr)
  case (Cons e evs)
  obtain i ev where e: "e = (i, ev)" by (cases e)
  obtain eng es where h: "agb_handle cd lm re b ev (sys i) = (eng, es)" by fastforce
  have i: "i \<in> H" "event_ok (node_cfg c 0 (p_digest cd sid) P H (\<lambda>s. said (tr s)) i) (R i) ev"
    and rest: "play c cd sid P H R lm re b evs (sys(i := eng), tr(i := tr i @ es)) = Some (sys', tr')"
    using Cons.prems(2) by (auto simp: e h split: if_splits)
  show ?case by (rule Cons.IH [OF sys_step [OF Cons.prems(1) i h] rest])
qed simp

definition demo_codec_agb :: codec where
  "demo_codec_agb = \<lparr>blake3 = \<lambda>_. Digest 7, ser_view_proposal = \<lambda>_. [], ser_batch_proposal = \<lambda>_. []\<rparr>"

definition demo_vp :: view_proposal where
  "demo_vp = \<lparr>vp_view = 1, vp_c = [], vp_t = [], vp_m = None\<rparr>"

definition demo_echo :: "public_key \<Rightarrow> agb_event" where
  "demo_echo s = EvEcho (EchoSingle \<lparr>e_proposal = demo_vp, e_grade = 1, e_sender = s, e_wish = 0, e_origin = None, e_avail = None\<rparr>)"

definition demo_ready :: "public_key \<Rightarrow> agb_event" where
  "demo_ready s = EvReady (ReadySingle \<lparr>r_proposal = demo_vp, r_grade = GOne, r_sender = s, r_wish = 0\<rparr>)"

definition demo_correct :: "public_key set" where
  "demo_correct = {PublicKey 1, PublicKey 2, PublicKey 3}"

text \<open>Three of four nodes enter view 1, receive the proposal of its proposer, exchange grade-1 echoes, and two of
  them receive the ready responses.\<close>

definition demo_script :: "(public_key \<times> agb_event) list" where
  "demo_script = (let k1 = PublicKey 1; k2 = PublicKey 2; k3 = PublicKey 3 in
     [(k1, EvEnter 1 0), (k2, EvEnter 1 0), (k3, EvEnter 1 0),
      (k1, EvPropose k1 (PSingle demo_vp) 1), (k2, EvPropose k1 (PSingle demo_vp) 1), (k3, EvPropose k1 (PSingle demo_vp) 1),
      (k1, demo_echo k2), (k1, demo_echo k3), (k2, demo_echo k1), (k2, demo_echo k3), (k3, demo_echo k1), (k3, demo_echo k2),
      (k1, demo_ready k2), (k1, demo_ready k3), (k2, demo_ready k1), (k2, demo_ready k3)])"

definition demo_engine :: "public_key \<Rightarrow> agb_engine" where
  "demo_engine i = \<lparr>ae_name = i, ae_committee = demo_committee, ae_sid = Digest 9, ae_delta = 10, ae_n = 4, ae_f_plus_1_parties = 2,
     ae_quorum_parties = 3, ae_quorum = 3, ae_proposers = [PublicKey 1, PublicKey 2, PublicKey 3, PublicKey 4], ae_views = [],
     ae_pending_gate = [], ae_recheck_cursor = 1, ae_min_live_view = 1\<rparr>"

lemma demo_agb_new: "agb_new i demo_committee (Digest 9) 10 = Some (demo_engine i)"
  by (simp add: agb_new_def demo_engine_def round_robin_new_def demo_committee_def committee_size_def from_party_count_def wrap_sub64_def
      quorum_threshold_def total_votes_def Let_def)

abbreviation demo_system :: "(public_key \<Rightarrow> agb_engine) \<Rightarrow> (public_key \<Rightarrow> effect list) \<Rightarrow> bool" where
  "demo_system \<equiv> agb_system demo_committee demo_codec_agb (Digest 9) 10 {PSingle demo_vp} demo_correct (\<lambda>_ _ _. False)"

lemma demo_tolerable: "tolerable demo_committee demo_correct" and demo_inj: "inj_on (p_digest demo_codec_agb (Digest 9)) {PSingle demo_vp}"
proof -
  have "members demo_committee - demo_correct = {PublicKey 4}"
    by (auto simp: demo_members demo_correct_def)
  then show "tolerable demo_committee demo_correct"
    by (simp add: tolerable_def demo_committee_ok demo_members demo_correct_def) (simp add: demo_committee_def)
qed simp

lemmas agb_eval = agb_only_def agb_enter_def Let_def state_mut_def om_upd_def view_at_def view_state_default_def activate_def
  recheck_gate_def on_propose_any_def canonical_proposal_def positive_gate_holds_def record_lock_def nonmatching_echo_count_def
  matching_echo_count_def tip_ok_def try_meta_ok_def count_echo_statement_def record_echo_def add_echo_def after_echo_def
  recheck_lock_release_def recheck_ready_def ready_candidate_def ready_refinement_candidate_def finalize_mix_if_closed_def
  recheck_fastseal_trigger_def recheck_skip_vote_trigger_def wish_effect_def build_echo_out_def on_echo_def on_echo_any_def
  emit_initial_ready_def count_ready_statement_def record_ready_def recheck_completion_and_direct_def completion_step_def direct_step_def
  try_seal_def build_ready_out_def on_ready_any_def ready_guard_def aux_refs_entries_def om_has_def strictly_sorted_and_staked_def
  distinct_hashes_def formed_def stake_of_def rr_one_based_def rr_at_def wrapped_index_def from_peer_def node_cfg_def members_def
  vp_digest_def domain_hash_def

lemma demo_agreed_run:
  obtains sys tr where "demo_system sys tr"
    "Sealed 1 (OFull [] []) \<in> set (tr (PublicKey 1))" "Sealed 1 (OFull [] []) \<in> set (tr (PublicKey 2))"
    "\<not> agb_pruned (sys (PublicKey 1)) 1" "vs_sealed (view_at (sys (PublicKey 1)) 1) = Some (OFull [] [])"
proof -
  have "case play demo_committee demo_codec_agb (Digest 9) {PSingle demo_vp} demo_correct (\<lambda>_ _ _. False) demo_lanes demo_repairer bc_new
      demo_script (demo_engine, \<lambda>_. []) of None \<Rightarrow> False
    | Some (sys, tr) \<Rightarrow> Sealed 1 (OFull [] []) \<in> set (tr (PublicKey 1)) \<and> Sealed 1 (OFull [] []) \<in> set (tr (PublicKey 2))
        \<and> \<not> agb_pruned (sys (PublicKey 1)) 1 \<and> vs_sealed (view_at (sys (PublicKey 1)) 1) = Some (OFull [] [])"
    by (simp add: agb_eval demo_script_def demo_vp_def demo_engine_def demo_codec_agb_def demo_correct_def demo_echo_def demo_ready_def
        demo_committee_def cong: let_weak_cong)
  then obtain sys tr where run: "play demo_committee demo_codec_agb (Digest 9) {PSingle demo_vp} demo_correct (\<lambda>_ _ _. False)
      demo_lanes demo_repairer bc_new demo_script (demo_engine, \<lambda>_. []) = Some (sys, tr)"
    and facts: "Sealed 1 (OFull [] []) \<in> set (tr (PublicKey 1))" "Sealed 1 (OFull [] []) \<in> set (tr (PublicKey 2))"
      "\<not> agb_pruned (sys (PublicKey 1)) 1" "vs_sealed (view_at (sys (PublicKey 1)) 1) = Some (OFull [] [])"
    by (auto split: option.splits)
  have "demo_system sys tr"
    by (rule play_system [OF sys_start run]) (rule demo_agb_new)
  from that [OF this facts] show thesis .
qed

section \<open>Unequal stakes\<close>

text \<open>
  The hypothesis of equal stakes in the agreement property is needed: ready quorums are weighed by stake and skip quorums
  count parties. With stakes 10, 1, 1 and 1 the first node alone is a stake quorum and the other three are a party
  quorum, and a run without any faulty node seals both the proposal and the skip of view 1.
\<close>

definition uneven_committee :: committee where
  "uneven_committee = \<lparr>authorities =
     [(PublicKey 1, \<lparr>a_stake = 10, a_workers = [0]\<rparr>), (PublicKey 2, \<lparr>a_stake = 1, a_workers = [0]\<rparr>),
      (PublicKey 3, \<lparr>a_stake = 1, a_workers = [0]\<rparr>), (PublicKey 4, \<lparr>a_stake = 1, a_workers = [0]\<rparr>)]\<rparr>"

definition uneven_engine :: "public_key \<Rightarrow> agb_engine" where
  "uneven_engine i = (demo_engine i)\<lparr>ae_committee := uneven_committee, ae_quorum := 9\<rparr>"

definition uneven_script :: "(public_key \<times> agb_event) list" where
  "uneven_script = (let k1 = PublicKey 1; k2 = PublicKey 2; k3 = PublicKey 3; k4 = PublicKey 4 in
     [(k1, EvEnter 1 0), (k1, EvPropose k1 (PSingle demo_vp) 1), (k2, EvAbsolute 1), (k3, EvAbsolute 1), (k4, EvAbsolute 1),
      (k2, EvEchoSkip 1 k3), (k2, EvEchoSkip 1 k4), (k3, EvEchoSkip 1 k2), (k3, EvEchoSkip 1 k4), (k4, EvEchoSkip 1 k2), (k4, EvEchoSkip 1 k3),
      (k2, EvReadyTimer 1), (k3, EvReadyTimer 1), (k4, EvReadyTimer 1), (k2, EvSkipVote 1 k3), (k2, EvSkipVote 1 k4)])"

lemma uneven_stakes_disagree:
  "committee_ok uneven_committee"
  "\<exists>sys tr. agb_system uneven_committee demo_codec_agb (Digest 9) 10 {PSingle demo_vp} (members uneven_committee) (\<lambda>_ _ _. False) sys tr
     \<and> Sealed 1 (OFull [] []) \<in> set (tr (PublicKey 1)) \<and> Sealed 1 OSkip \<in> set (tr (PublicKey 2))"
proof -
  show "committee_ok uneven_committee"
    by (simp add: committee_ok_def uneven_committee_def omap_ok_def)
  have "case play uneven_committee demo_codec_agb (Digest 9) {PSingle demo_vp} (members uneven_committee) (\<lambda>_ _ _. False) demo_lanes
      demo_repairer bc_new uneven_script (uneven_engine, \<lambda>_. []) of None \<Rightarrow> False
    | Some (sys, tr) \<Rightarrow> Sealed 1 (OFull [] []) \<in> set (tr (PublicKey 1)) \<and> Sealed 1 OSkip \<in> set (tr (PublicKey 2))"
    by (simp add: agb_eval on_echo_absolute_timer_def on_echo_skip_def on_ready_timer_def recheck_skip_seal_trigger_def on_skip_vote_def
        count_skip_vote_statement_def uneven_script_def uneven_engine_def uneven_committee_def demo_engine_def demo_vp_def demo_codec_agb_def
        cong: let_weak_cong)
  then obtain sys tr where run: "play uneven_committee demo_codec_agb (Digest 9) {PSingle demo_vp} (members uneven_committee) (\<lambda>_ _ _. False)
      demo_lanes demo_repairer bc_new uneven_script (uneven_engine, \<lambda>_. []) = Some (sys, tr)"
    and sealed: "Sealed 1 (OFull [] []) \<in> set (tr (PublicKey 1)) \<and> Sealed 1 OSkip \<in> set (tr (PublicKey 2))"
    by (auto split: option.splits)
  have "agb_new i uneven_committee (Digest 9) 10 = Some (uneven_engine i)" for i
    by (simp add: agb_new_def uneven_engine_def demo_engine_def round_robin_new_def uneven_committee_def committee_size_def
        from_party_count_def wrap_sub64_def quorum_threshold_def total_votes_def Let_def)
  with play_system [OF sys_start run] sealed show
    "\<exists>sys tr. agb_system uneven_committee demo_codec_agb (Digest 9) 10 {PSingle demo_vp} (members uneven_committee) (\<lambda>_ _ _. False) sys tr
     \<and> Sealed 1 (OFull [] []) \<in> set (tr (PublicKey 1)) \<and> Sealed 1 OSkip \<in> set (tr (PublicKey 2))"
    by blast
qed

section \<open>Properties\<close>

text \<open>C2. Seals agree: whatever the faulty nodes send, two outcomes that correct nodes sealed for a view on local
  certificates (and not on a resolver submission) are equal, when stakes are equal, fewer than a third of the
  parties are faulty and no two delivered proposals have the same digest.\<close>

theorem seals_agree_across_nodes:
  assumes run: "agb_system c cd sid delta P H R sys tr" and tol: "tolerable c H" and inj: "inj_on (p_digest cd sid) P"
    and i: "i \<in> H" "Sealed v out \<in> set (tr i)" "\<not> R i v out" and j: "j \<in> H" "Sealed v out' \<in> set (tr j)" "\<not> R j v out'"
  shows "out = out'"
proof -
  have c: "committee_ok c" "H \<subseteq> members c"
    using tol by (simp_all add: tolerable_def)
  have "\<exists>bl. ballot_steps (node_cfg c v (p_digest cd sid) P H (\<lambda>s. said (tr s)) k) (R k v) ballot_new (said_about v (tr k)) bl"
    if "k \<in> H" for k
    using agb_system_ballots [OF run c that, of v] by blast
  then obtain bal where "ballot_steps (node_cfg c v (p_digest cd sid) P H (\<lambda>s. said (tr s)) k) (R k v) ballot_new (said_about v (tr k)) (bal k)"
    if "k \<in> H" for k
    by metis
  then have "correct_ballots c v (p_digest cd sid) P H (\<lambda>k. R k v) (\<lambda>s. said (tr s)) bal"
    using c by (simp add: correct_ballots_def said_about_def)
  from seals_agree [OF this tol inj i(1) _ i(3) j(1) _ j(3)] i(2) j(2) show ?thesis
    by (simp add: sealed_said)
qed

theorem seals_agree_across_nodes_witness:
  "\<exists>sys tr. demo_system sys tr \<and> Sealed 1 (OFull [] []) \<in> set (tr (PublicKey 1))
     \<and> {out. Sealed 1 out \<in> set (tr (PublicKey 2))} = {OFull [] []}"
proof -
  obtain sys tr where run: "demo_system sys tr"
    and sealed: "Sealed 1 (OFull [] []) \<in> set (tr (PublicKey 1))" "Sealed 1 (OFull [] []) \<in> set (tr (PublicKey 2))"
    by (rule demo_agreed_run)
  have k: "PublicKey 1 \<in> demo_correct" "PublicKey 2 \<in> demo_correct"
    by (simp_all add: demo_correct_def)
  have "out = OFull [] []" if "Sealed 1 out \<in> set (tr (PublicKey 2))" for out
    using seals_agree_across_nodes [OF run demo_tolerable demo_inj k(2) that _ k(1) sealed(1)] by simp
  with run sealed show ?thesis by blast
qed

text \<open>C9. In every run of correct nodes among arbitrary peers, what a node says about a view is a run of the ballot
  specification, and while the view is retained its state represents the ballot of that run.\<close>

theorem engine_refines_ballot:
  assumes run: "agb_system c cd sid delta P H R sys tr" and c: "committee_ok c" "H \<subseteq> members c" and i: "i \<in> H"
  shows "\<exists>bl. ballot_steps (node_cfg c v (p_digest cd sid) P H (\<lambda>s. said (tr s)) i) (R i v) ballot_new (said_about v (tr i)) bl
    \<and> (agb_pruned (sys i) v \<or> bl = ballot_of (view_at (sys i) v))"
  using agb_system_ballots [OF run c i, of v] by blast

theorem engine_refines_ballot_witness:
  "\<exists>sys tr bl. demo_system sys tr \<and> ballot_steps (node_cfg demo_committee 1 (p_digest demo_codec_agb (Digest 9)) {PSingle demo_vp} demo_correct
       (\<lambda>s. said (tr s)) (PublicKey 1)) (\<lambda>_. False) ballot_new (said_about 1 (tr (PublicKey 1))) bl
     \<and> bl_sealed bl = Some (OFull [] [])"
proof -
  obtain sys tr where run: "demo_system sys tr"
    and live: "\<not> agb_pruned (sys (PublicKey 1)) 1" "vs_sealed (view_at (sys (PublicKey 1)) 1) = Some (OFull [] [])"
    by (rule demo_agreed_run)
  have k: "demo_correct \<subseteq> members demo_committee" "PublicKey 1 \<in> demo_correct"
    by (simp_all add: demo_correct_def demo_members)
  show ?thesis
    using engine_refines_ballot [OF run demo_committee_ok k, of 1] run live by fastforce
qed

text \<open>C10. A correct node speaks once about a view over its whole life, pruning included: at most one echo-stage
  response, at most one ready-stage response except that a mixed one may be refined once for the same proposal, at
  most one skip vote, which follows a no-ready response, and at most one seal.\<close>

theorem speaks_once_per_view:
  assumes run: "agb_system c cd sid delta P H R sys tr" and c: "committee_ok c" "H \<subseteq> members c" and i: "i \<in> H"
  shows "length (filter is_echo_speech (said_about v (tr i))) \<le> 1
    \<and> (filter is_ready_speech (said_about v (tr i)) \<in> {[], [SayNoReady v]}
       \<or> (\<exists>p k. filter is_ready_speech (said_about v (tr i)) = [SayReady p k])
       \<or> (\<exists>p k. k \<noteq> GMix \<and> filter is_ready_speech (said_about v (tr i)) = [SayReady p GMix, SayReady p k]))
    \<and> length (filter is_skip_speech (said_about v (tr i))) \<le> 1
    \<and> (SaySkipVote v \<in> set (said (tr i)) \<longrightarrow> filter is_ready_speech (said_about v (tr i)) = [SayNoReady v])
    \<and> length (filter is_seal_speech (said_about v (tr i))) \<le> 1"
proof -
  let ?g = "node_cfg c v (p_digest cd sid) P H (\<lambda>s. said (tr s)) i"
  obtain bl where bl: "ballot_steps ?g (R i v) ballot_new (said_about v (tr i)) bl"
    using agb_system_ballots [OF run c i, of v] by blast
  have "bg_name ?g \<in> members (bg_committee ?g)"
    using c i by auto
  note ok = ballot_run_ok [OF bl this]
  have once: "spoken_once ?g (said_about v (tr i)) bl"
    by (rule ballot_run_spoken [OF bl])
  then have ready: "ready_history (bl_ready bl i) v (filter is_ready_speech (said_about v (tr i)))"
    by (simp add: spoken_once_def)
  have "filter is_ready_speech (said_about v (tr i)) = [SayNoReady v]" if "SaySkipVote v \<in> set (said (tr i))"
  proof -
    have "SaySkipVote v \<in> set (said_about v (tr i))"
      using that by (simp add: said_about_def)
    then have "bl_ready bl i = Some RNoReady"
      using ok(2,4) by (simp add: speech_ok_def causes_ok_def)
    then show ?thesis using ready by simp
  qed
  moreover have "filter is_ready_speech (said_about v (tr i)) \<in> {[], [SayNoReady v]}
       \<or> (\<exists>p k. filter is_ready_speech (said_about v (tr i)) = [SayReady p k])
       \<or> (\<exists>p k. k \<noteq> GMix \<and> filter is_ready_speech (said_about v (tr i)) = [SayReady p GMix, SayReady p k])"
    using ready by (cases "(bl_ready bl i, v, filter is_ready_speech (said_about v (tr i)))" rule: ready_history.cases) auto
  ultimately show ?thesis
    using once by (auto simp: spoken_once_def split: if_splits option.splits)
qed

theorem speaks_once_per_view_witness:
  "\<exists>sys tr. demo_system sys tr \<and> Sealed 1 (OFull [] []) \<in> set (tr (PublicKey 1))
     \<and> length (filter is_seal_speech (said_about 1 (tr (PublicKey 1)))) \<le> 1"
proof -
  obtain sys tr where run: "demo_system sys tr" and sealed: "Sealed 1 (OFull [] []) \<in> set (tr (PublicKey 1))"
    by (rule demo_agreed_run)
  have k: "demo_correct \<subseteq> members demo_committee" "PublicKey 1 \<in> demo_correct"
    by (simp_all add: demo_correct_def demo_members)
  show ?thesis
    using speaks_once_per_view [OF run demo_committee_ok k, of 1] run sealed by blast
qed



end
