(* ===== verification/Sequence_Store.thy ===== *)
theory Sequence_Store
  imports Effects "HOL-Library.Product_Lexorder"
begin

text \<open>
  The committed sequence (\<^verbatim>\<open>primary/src/vantage/sequence.rs\<close>, first half): the hash chain of
  terminal views, the store that records it and serves it to other nodes, and the collector that
  certifies checkpoint heads from announcements. BLAKE3 and bincode are the fields of
  \<open>seq_codec\<close>. The properties: the store refines the list of recorded views, a head determines
  the whole history behind it, and a certified head was announced by enough parties.
\<close>

section \<open>The hash chain\<close>

record sequence_record =
  sr_version :: nat
  sr_view :: view
  sr_previous_head :: digest
  sr_outcome_digest :: digest
  sr_delta_len :: nat
  sr_delta_head :: digest

record seq_codec =
  sq_hash :: "bytes \<Rightarrow> digest"
  ser_outcome :: "view \<times> sequence_outcome \<Rightarrow> bytes"
  ser_index :: "view \<times> nat \<Rightarrow> bytes"
  ser_record :: "sequence_record \<Rightarrow> bytes"

definition sequence_version :: nat where
  "sequence_version = 1"

definition so_digest :: "seq_codec \<Rightarrow> digest \<Rightarrow> view \<Rightarrow> sequence_outcome \<Rightarrow> digest" where
  "so_digest cd sid view o' = domain_hash (sq_hash cd) ''vantage-sequence-outcome'' sid (ser_outcome cd (view, o'))"

fun manifest_items :: "sequence_outcome \<Rightarrow> nat" where
  "manifest_items (SFull c t) = sat_add (length c) (length t)"
| "manifest_items (SCore c) = length c"
| "manifest_items SSkip = 0"

definition delta_seed :: "seq_codec \<Rightarrow> digest \<Rightarrow> view \<Rightarrow> digest" where
  "delta_seed cd sid view = domain_hash (sq_hash cd) ''vantage-sequence-delta'' sid (ser_index cd (view, 0))"

definition delta_step :: "seq_codec \<Rightarrow> digest \<Rightarrow> view \<Rightarrow> nat \<Rightarrow> digest \<Rightarrow> digest \<Rightarrow> digest" where
  "delta_step cd sid view index previous item =
     domain_hash (sq_hash cd) ''vantage-sequence-item'' sid
       (ser_index cd (view, index) @ digest_bytes previous @ digest_bytes item)"

fun delta_steps :: "seq_codec \<Rightarrow> digest \<Rightarrow> view \<Rightarrow> nat \<Rightarrow> digest \<Rightarrow> digest list \<Rightarrow> digest" where
  "delta_steps cd sid view index head [] = head"
| "delta_steps cd sid view index head (item # items) =
     delta_steps cd sid view (index + 1) (delta_step cd sid view index head item) items"

definition delta_commitment :: "seq_codec \<Rightarrow> digest \<Rightarrow> view \<Rightarrow> digest list \<Rightarrow> nat \<times> digest" where
  "delta_commitment cd sid view items = (length items, delta_steps cd sid view 0 (delta_seed cd sid view) items)"

definition genesis_head :: "seq_codec \<Rightarrow> digest \<Rightarrow> digest" where
  "genesis_head cd sid = domain_hash (sq_hash cd) ''vantage-sequence-genesis'' sid []"

definition sr_head :: "seq_codec \<Rightarrow> digest \<Rightarrow> sequence_record \<Rightarrow> digest" where
  "sr_head cd sid r = domain_hash (sq_hash cd) ''vantage-sequence-record'' sid (ser_record cd r)"

section \<open>The store\<close>

datatype sequence_error = SequenceOutOfOrder view view

record sequence_store =
  ss_sid :: digest
  ss_interval :: nat
  ss_head :: digest
  ss_next_view :: view
  ss_records :: "(view, sequence_record) omap"
  ss_boundaries :: "(view, digest) omap"
  ss_outcomes :: "(view, sequence_outcome) omap"
  ss_deltas :: "(view, digest list) omap"
  ss_headers :: "(digest, header) omap"

definition sequence_store_new :: "seq_codec \<Rightarrow> digest \<Rightarrow> nat \<Rightarrow> sequence_store" where
  "sequence_store_new cd sid interval =
     \<lparr>ss_sid = sid, ss_interval = max interval 1, ss_head = genesis_head cd sid, ss_next_view = 1,
      ss_records = [], ss_boundaries = [], ss_outcomes = [], ss_deltas = [], ss_headers = []\<rparr>"

definition head_view :: "sequence_store \<Rightarrow> view" where
  "head_view st = ss_next_view st - 1"

definition record_for :: "sequence_store \<Rightarrow> view \<Rightarrow> sequence_record option" where
  "record_for st view = map_of (ss_records st) view"

definition latest_boundary :: "sequence_store \<Rightarrow> (view \<times> digest) option" where
  "latest_boundary st = (if ss_boundaries st = [] then None else Some (last (ss_boundaries st)))"

definition boundary :: "sequence_store \<Rightarrow> view \<Rightarrow> digest option" where
  "boundary st view = map_of (ss_boundaries st) view"

definition retain_verified_headers :: "header list \<Rightarrow> sequence_store \<Rightarrow> sequence_store" where
  "retain_verified_headers hs st =
     st\<lparr>ss_headers := fold (\<lambda>h m. if om_has m (h_id h) then m else om_put (h_id h) h m) hs (ss_headers st)\<rparr>"

definition retained_header :: "sequence_store \<Rightarrow> digest \<Rightarrow> header option" where
  "retained_header st d = map_of (ss_headers st) d"

definition recent_boundaries :: "sequence_store \<Rightarrow> nat \<Rightarrow> (view \<times> digest) list" where
  "recent_boundaries st limit = rev (take limit (rev (ss_boundaries st)))"

definition is_boundary :: "sequence_store \<Rightarrow> view \<Rightarrow> bool" where
  "is_boundary st view \<longleftrightarrow> ss_interval st dvd view"

definition seq_record ::
    "seq_codec \<Rightarrow> view \<Rightarrow> sequence_outcome \<Rightarrow> digest list \<Rightarrow> sequence_store \<Rightarrow> sequence_store \<times> (sequence_error + digest)"
where
  "seq_record cd view outcome output_delta st =
     (if view \<noteq> ss_next_view st then (st, Inl (SequenceOutOfOrder (ss_next_view st) view))
      else
        let (delta_len, delta_head) = delta_commitment cd (ss_sid st) view output_delta;
            r = \<lparr>sr_version = sequence_version, sr_view = view, sr_previous_head = ss_head st,
                 sr_outcome_digest = so_digest cd (ss_sid st) view outcome,
                 sr_delta_len = delta_len, sr_delta_head = delta_head\<rparr>;
            st = st\<lparr>ss_head := sr_head cd (ss_sid st) r, ss_records := om_put view r (ss_records st),
                   ss_outcomes := om_put view outcome (ss_outcomes st),
                   ss_deltas := om_put view output_delta (ss_deltas st), ss_next_view := view + 1\<rparr>;
            st = (if is_boundary st view
                  then st\<lparr>ss_boundaries := om_put view (ss_head st) (ss_boundaries st)\<rparr> else st)
        in (st, Inr (ss_head st)))"

section \<open>Serving\<close>

record sequence_outcome_entry =
  oe_view :: view
  oe_outcome :: sequence_outcome

record sequence_delta_entry =
  de_view :: view
  de_start_index :: nat
  de_items :: "digest list"
  de_complete :: bool

definition serve_floor :: "sequence_store \<Rightarrow> view" where
  "serve_floor st = (case ss_records st of [] \<Rightarrow> ss_next_view st | (v, _) # _ \<Rightarrow> v)"

fun records_from :: "sequence_store \<Rightarrow> view \<Rightarrow> nat \<Rightarrow> sequence_record list" where
  "records_from st view 0 = []"
| "records_from st view (Suc n) =
     (case map_of (ss_records st) view of None \<Rightarrow> [] | Some r \<Rightarrow> r # records_from st (view + 1) n)"

definition outcome_for :: "sequence_store \<Rightarrow> view \<Rightarrow> sequence_outcome option" where
  "outcome_for st view = map_of (ss_outcomes st) view"

text \<open>The loop of \<^verbatim>\<open>outcomes_from\<close>; \<open>first\<close> tells whether nothing was collected yet.\<close>

fun outcomes_walk ::
    "sequence_store \<Rightarrow> view \<Rightarrow> nat \<Rightarrow> bool \<Rightarrow> nat \<Rightarrow> view \<Rightarrow> sequence_outcome_entry list" where
  "outcomes_walk st through 0 first remaining view = []"
| "outcomes_walk st through (Suc n) first remaining view =
     (if view > through then []
      else case map_of (ss_outcomes st) view of
             None \<Rightarrow> []
           | Some outcome \<Rightarrow>
               (let items = manifest_items outcome
                in if \<not> first \<and> items > remaining then []
                   else \<lparr>oe_view = view, oe_outcome = outcome\<rparr> #
                        (if view = through then []
                         else outcomes_walk st through n False (remaining - items) (sat_add view 1))))"

definition outcomes_from :: "sequence_store \<Rightarrow> view \<Rightarrow> view \<Rightarrow> nat \<Rightarrow> nat \<Rightarrow> sequence_outcome_entry list" where
  "outcomes_from st from through max_views max_items = outcomes_walk st through max_views True max_items from"

definition delta_chunk :: "sequence_store \<Rightarrow> view \<Rightarrow> nat \<Rightarrow> nat \<Rightarrow> (digest list \<times> bool) option" where
  "delta_chunk st view start m =
     (case map_of (ss_deltas st) view of
        None \<Rightarrow> None
      | Some delta \<Rightarrow>
          if start > length delta then None
          else let stop = min (length delta) (sat_add start m)
               in Some (take (stop - start) (drop start delta), stop = length delta))"

fun delta_entries_walk ::
    "sequence_store \<Rightarrow> view \<Rightarrow> nat \<Rightarrow> nat \<Rightarrow> view \<Rightarrow> nat \<Rightarrow> sequence_delta_entry list" where
  "delta_entries_walk st through 0 remaining view start = []"
| "delta_entries_walk st through (Suc n) remaining view start =
     (if view > through \<or> remaining = 0 then []
      else case map_of (ss_deltas st) view of
             None \<Rightarrow> []
           | Some delta \<Rightarrow>
               if start > length delta then []
               else let stop = min (length delta) (sat_add start remaining);
                        items = take (stop - start) (drop start delta);
                        complete = (stop = length delta)
                    in \<lparr>de_view = view, de_start_index = start, de_items = items, de_complete = complete\<rparr> #
                       (if \<not> complete \<or> view = through then []
                        else delta_entries_walk st through n (remaining - length items) (sat_add view 1) 0))"

definition delta_entries_from ::
    "sequence_store \<Rightarrow> view \<Rightarrow> nat \<Rightarrow> view \<Rightarrow> nat \<Rightarrow> nat \<Rightarrow> sequence_delta_entry list" where
  "delta_entries_from st from_view start_index through max_views max_items =
     delta_entries_walk st through max_views max_items from_view start_index"

section \<open>Checkpoints\<close>

record sequence_announcement =
  an_version :: nat
  an_view :: view
  an_head :: digest
  an_serve_floor :: view
  an_sender :: public_key

datatype ignore_reason =
  IRSenderMismatch | IRNotAMember | IRVersion | IRDuplicate | IREquivocation | IRTooFarAhead

datatype announcement_outcome = Counted bool | Ignored ignore_reason

record checkpoint_collector =
  cc_threshold :: nat
  cc_max_candidate_views :: nat
  cc_future_view_slack :: view
  cc_candidates :: "(view, (digest, public_key oset) omap) omap"
  cc_first_claim :: "(view \<times> public_key, digest) omap"
  cc_equivocators :: "public_key oset"
  cc_certified :: "(view, digest) omap"

definition checkpoint_collector_new :: "nat \<Rightarrow> nat \<Rightarrow> view \<Rightarrow> checkpoint_collector" where
  "checkpoint_collector_new threshold max_candidate_views future_view_slack =
     \<lparr>cc_threshold = max threshold 1, cc_max_candidate_views = max max_candidate_views 1,
      cc_future_view_slack = future_view_slack, cc_candidates = [], cc_first_claim = [],
      cc_equivocators = [], cc_certified = []\<rparr>"

definition cc_support :: "view \<Rightarrow> digest \<Rightarrow> checkpoint_collector \<Rightarrow> nat" where
  "cc_support view head cc =
     (case map_of (cc_candidates cc) view of
        None \<Rightarrow> 0
      | Some heads \<Rightarrow> (case map_of heads head of None \<Rightarrow> 0 | Some senders \<Rightarrow> length senders))"

definition cc_announcers :: "view \<Rightarrow> digest \<Rightarrow> checkpoint_collector \<Rightarrow> public_key list" where
  "cc_announcers view head cc =
     (case map_of (cc_candidates cc) view of
        None \<Rightarrow> []
      | Some heads \<Rightarrow> (case map_of heads head of None \<Rightarrow> [] | Some senders \<Rightarrow> senders))"

definition retract_heads :: "public_key \<Rightarrow> (digest, public_key oset) omap \<Rightarrow> (digest, public_key oset) omap" where
  "retract_heads sender heads =
     filter (\<lambda>e. snd e \<noteq> []) (map (\<lambda>(h, senders). (h, os_del sender senders)) heads)"

definition cc_retract :: "view \<Rightarrow> public_key \<Rightarrow> checkpoint_collector \<Rightarrow> checkpoint_collector" where
  "cc_retract view sender cc =
     (let cc = (case map_of (cc_candidates cc) view of
                  None \<Rightarrow> cc
                | Some heads \<Rightarrow> cc\<lparr>cc_candidates := om_put view (retract_heads sender heads) (cc_candidates cc)\<rparr>)
      in case map_of (cc_certified cc) view of
           None \<Rightarrow> cc
         | Some head \<Rightarrow>
             if cc_support view head cc < cc_threshold cc
             then cc\<lparr>cc_certified := om_del view (cc_certified cc)\<rparr> else cc)"

text \<open>The lowest view is the head of the ordered map.\<close>

fun evict_lowest ::
    "nat \<Rightarrow> (view, (digest, public_key oset) omap) omap \<Rightarrow> (view \<times> public_key, digest) omap
       \<Rightarrow> (view, (digest, public_key oset) omap) omap \<times> (view \<times> public_key, digest) omap" where
  "evict_lowest m [] claims = ([], claims)"
| "evict_lowest m ((lowest, heads) # cs) claims =
     (if length ((lowest, heads) # cs) > m
      then evict_lowest m cs (filter (\<lambda>e. fst (fst e) \<noteq> lowest) claims)
      else ((lowest, heads) # cs, claims))"

definition cc_evict_if_needed :: "checkpoint_collector \<Rightarrow> checkpoint_collector" where
  "cc_evict_if_needed cc =
     (let (cs, claims) = evict_lowest (cc_max_candidate_views cc) (cc_candidates cc) (cc_first_claim cc)
      in cc\<lparr>cc_candidates := cs, cc_first_claim := claims\<rparr>)"

definition on_announcement ::
    "sequence_announcement \<Rightarrow> public_key \<Rightarrow> bool \<Rightarrow> view \<Rightarrow> checkpoint_collector
       \<Rightarrow> checkpoint_collector \<times> announcement_outcome" where
  "on_announcement a authenticated_sender is_member local_view cc =
     (if an_version a \<noteq> sequence_version then (cc, Ignored IRVersion)
      else if an_sender a \<noteq> authenticated_sender then (cc, Ignored IRSenderMismatch)
      else if \<not> is_member then (cc, Ignored IRNotAMember)
      else if an_view a > sat_add local_view (cc_future_view_slack cc) then (cc, Ignored IRTooFarAhead)
      else case map_of (cc_first_claim cc) (an_view a, authenticated_sender) of
        Some previous \<Rightarrow>
          if previous = an_head a then (cc, Ignored IRDuplicate)
          else (cc_retract (an_view a) authenticated_sender
                  (cc\<lparr>cc_equivocators := os_ins authenticated_sender (cc_equivocators cc)\<rparr>),
                Ignored IREquivocation)
      | None \<Rightarrow>
          if authenticated_sender \<in> set (cc_equivocators cc) then (cc, Ignored IREquivocation)
          else
            let heads = (case map_of (cc_candidates cc) (an_view a) of None \<Rightarrow> [] | Some hs \<Rightarrow> hs);
                senders = os_ins authenticated_sender
                            (case map_of heads (an_head a) of None \<Rightarrow> [] | Some ss \<Rightarrow> ss);
                cc = cc\<lparr>cc_first_claim := om_put (an_view a, authenticated_sender) (an_head a) (cc_first_claim cc),
                        cc_candidates := om_put (an_view a) (om_put (an_head a) senders heads) (cc_candidates cc)\<rparr>;
                reached = length senders \<ge> cc_threshold cc;
                cc = cc_evict_if_needed cc
            in if reached
               then (cc\<lparr>cc_certified := om_put (an_view a) (an_head a) (cc_certified cc)\<rparr>,
                     Counted (\<not> om_has (cc_certified cc) (an_view a)))
               else (cc, Counted False))"

definition certified_head :: "view \<Rightarrow> checkpoint_collector \<Rightarrow> (view \<times> digest) option" where
  "certified_head lo cc = find (\<lambda>(v, _). v > lo) (rev (cc_certified cc))"

section \<open>The recorded history\<close>

text \<open>
  The abstract state of the store is the list of the views recorded so far. The chain over a history
  is computed from left to right.
\<close>

type_synonym history = "(sequence_outcome \<times> digest list) list"

definition mk_record :: "seq_codec \<Rightarrow> digest \<Rightarrow> view \<Rightarrow> digest \<Rightarrow> sequence_outcome \<times> digest list \<Rightarrow> sequence_record" where
  "mk_record cd sid view head x =
     \<lparr>sr_version = sequence_version, sr_view = view, sr_previous_head = head,
      sr_outcome_digest = so_digest cd sid view (fst x),
      sr_delta_len = length (snd x), sr_delta_head = delta_steps cd sid view 0 (delta_seed cd sid view) (snd x)\<rparr>"

fun chain_from :: "seq_codec \<Rightarrow> digest \<Rightarrow> view \<Rightarrow> digest \<Rightarrow> history \<Rightarrow> sequence_record list" where
  "chain_from cd sid view head [] = []"
| "chain_from cd sid view head (x # h) =
     mk_record cd sid view head x # chain_from cd sid (view + 1) (sr_head cd sid (mk_record cd sid view head x)) h"

fun chain_head :: "seq_codec \<Rightarrow> digest \<Rightarrow> view \<Rightarrow> digest \<Rightarrow> history \<Rightarrow> digest" where
  "chain_head cd sid view head [] = head"
| "chain_head cd sid view head (x # h) =
     chain_head cd sid (view + 1) (sr_head cd sid (mk_record cd sid view head x)) h"

definition history_records :: "seq_codec \<Rightarrow> digest \<Rightarrow> history \<Rightarrow> sequence_record list" where
  "history_records cd sid h = chain_from cd sid 1 (genesis_head cd sid) h"

definition history_head :: "seq_codec \<Rightarrow> digest \<Rightarrow> history \<Rightarrow> digest" where
  "history_head cd sid h = chain_head cd sid 1 (genesis_head cd sid) h"

lemma length_chain_from [simp]: "length (chain_from cd sid v x0 h) = length h"
  by (induction h arbitrary: v x0) simp_all

lemma chain_head_append: "chain_head cd sid v x0 (h @ h') = chain_head cd sid (v + length h) (chain_head cd sid v x0 h) h'"
  by (induction h arbitrary: v x0) simp_all

lemma chain_from_append:
  "chain_from cd sid v x0 (h @ h') = chain_from cd sid v x0 h @ chain_from cd sid (v + length h) (chain_head cd sid v x0 h) h'"
  by (induction h arbitrary: v x0) simp_all

lemma chain_from_nth:
  "i < length h \<Longrightarrow> chain_from cd sid v x0 h ! i = mk_record cd sid (v + i) (chain_head cd sid v x0 (take i h)) (h ! i)"
  by (induction h arbitrary: v x0 i) (auto simp: nth_Cons split: nat.splits)

lemma history_snoc:
  "history_records cd sid (h @ [x]) = history_records cd sid h @ [mk_record cd sid (Suc (length h)) (history_head cd sid h) x]"
  "history_head cd sid (h @ [x]) = sr_head cd sid (mk_record cd sid (Suc (length h)) (history_head cd sid h) x)"
  by (simp_all add: history_records_def history_head_def chain_from_append chain_head_append)

lemma length_history_records [simp]: "length (history_records cd sid h) = length h"
  by (simp add: history_records_def)

text \<open>What the store holds after recording a history.\<close>

definition at_view :: "'a list \<Rightarrow> view \<Rightarrow> 'a option" where
  "at_view xs v = (if 1 \<le> v \<and> v \<le> length xs then Some (xs ! (v - 1)) else None)"

lemma at_view_snoc: "at_view (xs @ [x]) = (at_view xs)(Suc (length xs) \<mapsto> x)"
  by (auto simp: at_view_def fun_eq_iff nth_append)

lemma at_view_Nil [simp]: "at_view [] = Map.empty"
  by (simp add: at_view_def fun_eq_iff)

definition store_refines :: "seq_codec \<Rightarrow> digest \<Rightarrow> nat \<Rightarrow> sequence_store \<Rightarrow> history \<Rightarrow> bool" where
  "store_refines cd sid interval st h \<longleftrightarrow>
     ss_sid st = sid \<and> ss_interval st = max interval 1
     \<and> ss_next_view st = length h + 1 \<and> ss_head st = history_head cd sid h
     \<and> map_of (ss_records st) = at_view (history_records cd sid h)
     \<and> map_of (ss_outcomes st) = at_view (map fst h) \<and> map_of (ss_deltas st) = at_view (map snd h)
     \<and> (\<forall>v. boundary st v = (if 1 \<le> v \<and> v \<le> length h \<and> max interval 1 dvd v
                           then Some (history_head cd sid (take v h)) else None))"

lemma store_refines_new: "store_refines cd sid k (sequence_store_new cd sid k) []"
  by (simp add: store_refines_def sequence_store_new_def history_head_def history_records_def boundary_def)

lemma store_refines_record:
  assumes "store_refines cd sid k st h"
  shows "seq_record cd v o' d st =
      (fst (seq_record cd v o' d st),
       if v = length h + 1 then Inr (history_head cd sid (h @ [(o', d)])) else Inl (SequenceOutOfOrder (length h + 1) v))"
    and "store_refines cd sid k (fst (seq_record cd v o' d st)) (if v = length h + 1 then h @ [(o', d)] else h)"
proof -
  have [simp]: "ss_sid st = sid" "ss_interval st = max k 1" "ss_next_view st = Suc (length h)" "ss_head st = history_head cd sid h"
      "map_of (ss_records st) = at_view (history_records cd sid h)" "map_of (ss_outcomes st) = at_view (map fst h)"
      "map_of (ss_deltas st) = at_view (map snd h)"
    and b: "\<And>v. map_of (ss_boundaries st) v = (if 1 \<le> v \<and> v \<le> length h \<and> max k 1 dvd v
        then Some (history_head cd sid (take v h)) else None)"
    using assms by (simp_all add: store_refines_def boundary_def)
  let ?st = "fst (seq_record cd v o' d st)"
  show "seq_record cd v o' d st =
      (?st, if v = length h + 1 then Inr (history_head cd sid (h @ [(o', d)])) else Inl (SequenceOutOfOrder (length h + 1) v))"
    by (auto simp: seq_record_def Let_def delta_commitment_def is_boundary_def mk_record_def history_snoc split: if_splits)
  show "store_refines cd sid k ?st (if v = length h + 1 then h @ [(o', d)] else h)"
  proof (cases "v = length h + 1")
    case True
    then have v: "v = Suc (length h)" by simp
    have "boundary ?st u = (if 1 \<le> u \<and> u \<le> Suc (length h) \<and> max k 1 dvd u
        then Some (history_head cd sid (take u (h @ [(o', d)]))) else None)" for u
      unfolding v by (auto simp: seq_record_def Let_def delta_commitment_def is_boundary_def boundary_def b omap_simps
          history_snoc mk_record_def le_Suc_eq)
    then show ?thesis
      unfolding v by (simp add: store_refines_def at_view_snoc history_snoc)
        (simp add: seq_record_def Let_def delta_commitment_def omap_simps mk_record_def)
  next
    case False
    then show ?thesis
      using assms by (simp add: seq_record_def)
  qed
qed

section \<open>Heads bind histories\<close>

text \<open>
  The byte strings that are hashed for a history. Serialisation is injective on the values of the
  Rust types; the hash function is only ever assumed injective on explicitly listed inputs.
\<close>

definition codec_injective :: "seq_codec \<Rightarrow> bool" where
  "codec_injective cd \<longleftrightarrow> inj (ser_record cd) \<and> inj (ser_outcome cd)"

definition genesis_input :: "digest \<Rightarrow> bytes" where
  "genesis_input sid = tag_bytes ''vantage-sequence-genesis'' @ digest_bytes sid @ []"

definition record_input :: "seq_codec \<Rightarrow> digest \<Rightarrow> sequence_record \<Rightarrow> bytes" where
  "record_input cd sid r = tag_bytes ''vantage-sequence-record'' @ digest_bytes sid @ ser_record cd r"

definition outcome_input :: "seq_codec \<Rightarrow> digest \<Rightarrow> view \<Rightarrow> sequence_outcome \<Rightarrow> bytes" where
  "outcome_input cd sid v o' = tag_bytes ''vantage-sequence-outcome'' @ digest_bytes sid @ ser_outcome cd (v, o')"

definition item_input :: "seq_codec \<Rightarrow> digest \<Rightarrow> view \<Rightarrow> nat \<Rightarrow> digest \<Rightarrow> digest \<Rightarrow> bytes" where
  "item_input cd sid v i previous item =
     tag_bytes ''vantage-sequence-item'' @ digest_bytes sid @ ser_index cd (v, i) @ digest_bytes previous @ digest_bytes item"

fun item_inputs :: "seq_codec \<Rightarrow> digest \<Rightarrow> view \<Rightarrow> nat \<Rightarrow> digest \<Rightarrow> digest list \<Rightarrow> bytes list" where
  "item_inputs cd sid v i head [] = []"
| "item_inputs cd sid v i head (x # xs) =
     item_input cd sid v i head x # item_inputs cd sid v (i + 1) (delta_step cd sid v i head x) xs"

text \<open>The inputs of one view: its record, its outcome and the steps of its delta.\<close>

definition view_inputs :: "seq_codec \<Rightarrow> digest \<Rightarrow> sequence_record \<times> sequence_outcome \<times> digest list \<Rightarrow> bytes list" where
  "view_inputs cd sid x = (case x of (r, o', d) \<Rightarrow>
     record_input cd sid r # outcome_input cd sid (sr_view r) o'
       # item_inputs cd sid (sr_view r) 0 (delta_seed cd sid (sr_view r)) d)"

definition history_inputs :: "seq_codec \<Rightarrow> digest \<Rightarrow> history \<Rightarrow> bytes list" where
  "history_inputs cd sid h = genesis_input sid # concat (map (view_inputs cd sid) (zip (history_records cd sid h) h))"

lemma hash_inputs:
  "genesis_head cd sid = sq_hash cd (genesis_input sid)"
  "sr_head cd sid r = sq_hash cd (record_input cd sid r)"
  "so_digest cd sid v o' = sq_hash cd (outcome_input cd sid v o')"
  "delta_step cd sid v i p x = sq_hash cd (item_input cd sid v i p x)"
  by (simp_all add: genesis_head_def sr_head_def so_digest_def delta_step_def domain_hash_def genesis_input_def
      record_input_def outcome_input_def item_input_def)

lemma input_inject [simp]:
  "codec_injective cd \<Longrightarrow> record_input cd sid r = record_input cd sid r' \<longleftrightarrow> r = r'"
  "codec_injective cd \<Longrightarrow> outcome_input cd sid v o1 = outcome_input cd sid v o2 \<longleftrightarrow> o1 = o2"
  "item_input cd sid v i p x = item_input cd sid v i p' x' \<longleftrightarrow> p = p' \<and> x = x'"
  by (auto simp: codec_injective_def record_input_def outcome_input_def item_input_def dest: injD)

lemma genesis_not_record [simp]: "genesis_input sid \<noteq> record_input cd sid r"
proof
  assume "genesis_input sid = record_input cd sid r"
  then have "genesis_input sid ! 17 = record_input cd sid r ! 17" by simp
  then show False
    by (simp add: genesis_input_def record_input_def tag_bytes_def nth_append)
qed

lemma delta_steps_bind:
  assumes "inj_on (sq_hash cd) (set (item_inputs cd sid v i p xs) \<union> set (item_inputs cd sid v i q ys))"
    and "delta_steps cd sid v i p xs = delta_steps cd sid v i q ys" "length xs = length ys"
  shows "p = q \<and> xs = ys"
  using assms(3,1,2)
proof (induction xs ys arbitrary: i p q rule: list_induct2)
  case (Cons x xs y ys)
  have "inj_on (sq_hash cd) (set (item_inputs cd sid v (i + 1) (delta_step cd sid v i p x) xs)
      \<union> set (item_inputs cd sid v (i + 1) (delta_step cd sid v i q y) ys))"
    using Cons.prems(1) by (rule inj_on_subset) auto
  then have "delta_step cd sid v i p x = delta_step cd sid v i q y \<and> xs = ys"
    using Cons.IH Cons.prems(2) by simp
  moreover from this have "item_input cd sid v i p x = item_input cd sid v i q y"
    by (intro inj_onD [OF Cons.prems(1)]) (simp_all add: hash_inputs(4) [symmetric])
  ultimately show ?case by simp
qed simp

text \<open>A record fixes the outcome and the delta it commits to.\<close>

definition commits :: "seq_codec \<Rightarrow> digest \<Rightarrow> sequence_record \<Rightarrow> sequence_outcome \<times> digest list \<Rightarrow> bool" where
  "commits cd sid r x \<longleftrightarrow> so_digest cd sid (sr_view r) (fst x) = sr_outcome_digest r
     \<and> length (snd x) = sr_delta_len r
     \<and> delta_steps cd sid (sr_view r) 0 (delta_seed cd sid (sr_view r)) (snd x) = sr_delta_head r"

lemma commits_mk_record [simp]: "commits cd sid (mk_record cd sid v p x) x"
  by (simp add: commits_def mk_record_def)

lemma commits_bind:
  assumes "codec_injective cd" "commits cd sid r x" "commits cd sid r y"
    and "inj_on (sq_hash cd) (set (view_inputs cd sid (r, x)) \<union> set (view_inputs cd sid (r, y)))"
  shows "x = y"
proof (rule prod_eqI)
  have "outcome_input cd sid (sr_view r) (fst x) = outcome_input cd sid (sr_view r) (fst y)"
    using assms(2,3)
    by (intro inj_onD [OF assms(4)]) (simp_all add: commits_def hash_inputs(3) [symmetric] view_inputs_def case_prod_beta)
  then show "fst x = fst y"
    using assms(1) by simp
  have "inj_on (sq_hash cd) (set (item_inputs cd sid (sr_view r) 0 (delta_seed cd sid (sr_view r)) (snd x))
      \<union> set (item_inputs cd sid (sr_view r) 0 (delta_seed cd sid (sr_view r)) (snd y)))"
    using assms(4) by (rule inj_on_subset) (auto simp: view_inputs_def case_prod_beta)
  then show "snd x = snd y"
    using delta_steps_bind assms(2,3) by (fastforce simp: commits_def)
qed

text \<open>Records that extend a head one view after the other.\<close>

fun linked :: "seq_codec \<Rightarrow> digest \<Rightarrow> view \<Rightarrow> digest \<Rightarrow> sequence_record list \<Rightarrow> bool" where
  "linked cd sid v p [] = True"
| "linked cd sid v p (r # rs) \<longleftrightarrow> sr_version r = sequence_version \<and> sr_view r = v \<and> sr_previous_head r = p
     \<and> linked cd sid (v + 1) (sr_head cd sid r) rs"

fun last_head :: "seq_codec \<Rightarrow> digest \<Rightarrow> digest \<Rightarrow> sequence_record list \<Rightarrow> digest" where
  "last_head cd sid p [] = p"
| "last_head cd sid p (r # rs) = last_head cd sid (sr_head cd sid r) rs"

lemma last_head_append: "last_head cd sid p (rs @ rs') = last_head cd sid (last_head cd sid p rs) rs'"
  by (induction rs arbitrary: p) simp_all

lemma linked_append:
  "linked cd sid v p (rs @ rs') \<longleftrightarrow> linked cd sid v p rs \<and> linked cd sid (v + length rs) (last_head cd sid p rs) rs'"
  by (induction rs arbitrary: v p) auto

lemma chain_linked:
  "linked cd sid v p (chain_from cd sid v p h)" "last_head cd sid p (chain_from cd sid v p h) = chain_head cd sid v p h"
  by (induction h arbitrary: v p) (simp_all add: mk_record_def)

lemma linked_bind:
  assumes "codec_injective cd" "linked cd sid v p rs" "linked cd sid v q rs'" "length rs = length rs'"
    and "last_head cd sid p rs = last_head cd sid q rs'"
    and "inj_on (sq_hash cd) (record_input cd sid ` (set rs \<union> set rs'))"
  shows "p = q \<and> rs = rs'"
  using assms(4,2,3,5,6)
proof (induction rs rs' arbitrary: v p q rule: list_induct2)
  case (Cons r rs r' rs')
  have "inj_on (sq_hash cd) (record_input cd sid ` (set rs \<union> set rs'))"
    using Cons.prems(4) by (rule inj_on_subset) auto
  then have "sr_head cd sid r = sr_head cd sid r' \<and> rs = rs'"
    using Cons.IH [of "v + 1" "sr_head cd sid r" "sr_head cd sid r'"] Cons.prems by simp
  moreover from this have "record_input cd sid r = record_input cd sid r'"
    by (intro inj_onD [OF Cons.prems(4)]) (simp_all add: hash_inputs(2) [symmetric])
  ultimately show ?case
    using assms(1) Cons.prems by simp
qed simp

lemma history_linked:
  "linked cd sid 1 (genesis_head cd sid) (history_records cd sid h)"
  "last_head cd sid (genesis_head cd sid) (history_records cd sid h) = history_head cd sid h"
  by (simp_all add: history_records_def history_head_def chain_linked)

lemma history_records_nth:
  "i < length h \<Longrightarrow> history_records cd sid h ! i = mk_record cd sid (Suc i) (history_head cd sid (take i h)) (h ! i)"
  by (simp add: history_records_def history_head_def chain_from_nth)

lemma history_inputs_nth:
  "i < length h \<Longrightarrow> set (view_inputs cd sid (history_records cd sid h ! i, h ! i)) \<subseteq> set (history_inputs cd sid h)"
proof -
  assume i: "i < length h"
  let ?z = "zip (history_records cd sid h) h"
  have "?z ! i = (history_records cd sid h ! i, h ! i)" "?z ! i \<in> set ?z"
    using i by (simp_all add: in_set_conv_nth exI [of _ i])
  then show ?thesis
    unfolding history_inputs_def by (auto simp del: nth_zip intro: bexI [rotated])
qed

lemma record_inputs_subset: "record_input cd sid ` set (history_records cd sid h) \<subseteq> set (history_inputs cd sid h)"
proof clarify
  fix r assume "r \<in> set (history_records cd sid h)"
  then obtain i where "i < length h" "r = history_records cd sid h ! i"
    by (metis in_set_conv_nth length_history_records)
  then show "record_input cd sid r \<in> set (history_inputs cd sid h)"
    using history_inputs_nth [of i h cd sid] by (auto simp: view_inputs_def case_prod_beta)
qed

lemma history_records_bind:
  assumes "codec_injective cd" "history_records cd sid h = history_records cd sid h'"
    and "inj_on (sq_hash cd) (set (history_inputs cd sid h) \<union> set (history_inputs cd sid h'))"
  shows "h = h'"
proof (rule nth_equalityI)
  show len: "length h = length h'"
    using arg_cong [OF assms(2), of length] by simp
  fix i assume i: "i < length h"
  let ?r = "history_records cd sid h ! i"
  have "inj_on (sq_hash cd) (set (view_inputs cd sid (?r, h ! i)) \<union> set (view_inputs cd sid (?r, h' ! i)))"
    using history_inputs_nth [of i h cd sid] history_inputs_nth [of i h' cd sid] i len assms(2)
    by (intro inj_on_subset [OF assms(3)]) auto
  moreover have "commits cd sid ?r (h ! i)"
    using i by (simp add: history_records_nth)
  moreover have "commits cd sid ?r (h' ! i)"
    unfolding assms(2) using i len by (simp add: history_records_nth)
  ultimately show "h ! i = h' ! i"
    using commits_bind [OF assms(1)] by blast
qed

lemma history_head_length:
  assumes "codec_injective cd" "history_head cd sid h = history_head cd sid h'"
    and inj: "inj_on (sq_hash cd) (set (history_inputs cd sid h) \<union> set (history_inputs cd sid h'))"
  shows "length h = length h'"
proof -
  have gen: "genesis_input sid \<in> set (history_inputs cd sid k)" for k
    by (simp add: history_inputs_def)
  have last: "\<exists>r. history_head cd sid k = sq_hash cd (record_input cd sid r) \<and> sr_view r = length k
      \<and> record_input cd sid r \<in> set (history_inputs cd sid k)" if ne: "k \<noteq> []" for k
  proof -
    obtain k0 x where k: "k = k0 @ [x]"
      using ne by (cases k rule: rev_cases) auto
    let ?r = "mk_record cd sid (Suc (length k0)) (history_head cd sid k0) x"
    have "record_input cd sid ?r \<in> set (history_inputs cd sid k)"
      using record_inputs_subset [of cd sid k] by (simp add: k history_snoc)
    then show ?thesis
      by (intro exI [of _ ?r]) (simp add: k history_snoc(2) hash_inputs(2) mk_record_def(1))
  qed
  have empty: False
    if ne: "k \<noteq> []" "history_head cd sid [] = history_head cd sid k" "k = h \<or> k = h'" for k
  proof -
    obtain r where r: "history_head cd sid k = sq_hash cd (record_input cd sid r)"
        "record_input cd sid r \<in> set (history_inputs cd sid k)"
      using last ne(1) by blast
    have "genesis_input sid = record_input cd sid r"
    proof (rule inj_onD [OF inj])
      show "sq_hash cd (genesis_input sid) = sq_hash cd (record_input cd sid r)"
        using r(1) ne(2) by (simp add: history_head_def hash_inputs(1))
    qed (use r(2) ne(3) gen in auto)
    then show False by simp
  qed
  show ?thesis
  proof (cases "h = []"; cases "h' = []")
    assume "h = []" "h' \<noteq> []"
    then show ?thesis
      using empty [of h'] assms(2) by simp
  next
    assume "h \<noteq> []" "h' = []"
    then show ?thesis
      using empty [of h] assms(2) by simp
  next
    assume ne: "h \<noteq> []" "h' \<noteq> []"
    obtain r where r: "history_head cd sid h = sq_hash cd (record_input cd sid r)" "sr_view r = length h"
        "record_input cd sid r \<in> set (history_inputs cd sid h)"
      using last [OF ne(1)] by blast
    obtain r' where r': "history_head cd sid h' = sq_hash cd (record_input cd sid r')" "sr_view r' = length h'"
        "record_input cd sid r' \<in> set (history_inputs cd sid h')"
      using last [OF ne(2)] by blast
    have "record_input cd sid r = record_input cd sid r'"
      using assms(2) r r' by (intro inj_onD [OF inj]) simp_all
    then show ?thesis
      using r(2) r'(2) assms(1) by simp
  qed simp
qed

section \<open>Certified checkpoints\<close>

type_synonym announcement_event = "sequence_announcement \<times> public_key \<times> bool \<times> view"

definition collector_run :: "nat \<Rightarrow> nat \<Rightarrow> view \<Rightarrow> announcement_event list \<Rightarrow> checkpoint_collector" where
  "collector_run threshold max_views slack evs =
     foldl (\<lambda>cc (a, auth, is_member, local_view). fst (on_announcement a auth is_member local_view cc))
       (checkpoint_collector_new threshold max_views slack) evs"

text \<open>The members that announced a head for a view over their own authenticated connection.\<close>

definition announced :: "announcement_event list \<Rightarrow> view \<Rightarrow> digest \<Rightarrow> public_key set" where
  "announced evs v h = {s. \<exists>a lv. (a, s, True, lv) \<in> set evs \<and> an_sender a = s \<and> an_view a = v \<and> an_head a = h}"

definition candidates_ok :: "announcement_event list \<Rightarrow> (view, (digest, public_key oset) omap) omap \<Rightarrow> bool" where
  "candidates_ok evs cs \<longleftrightarrow>
     (\<forall>v heads h ss. (v, heads) \<in> set cs \<longrightarrow> (h, ss) \<in> set heads \<longrightarrow> oset_ok ss \<and> set ss \<subseteq> announced evs v h)"

definition collector_inv :: "nat \<Rightarrow> announcement_event list \<Rightarrow> checkpoint_collector \<Rightarrow> bool" where
  "collector_inv t evs cc \<longleftrightarrow> cc_threshold cc = t \<and> candidates_ok evs (cc_candidates cc)
     \<and> (\<forall>v h. (v, h) \<in> set (cc_certified cc) \<longrightarrow> t \<le> card (announced evs v h))"

lemma finite_announced [simp]: "finite (announced evs v h)"
  by (rule finite_subset [of _ "(\<lambda>e. fst (snd e)) ` set evs"]) (force simp: announced_def)+

lemma announced_mono: "announced evs v h \<subseteq> announced (evs @ evs') v h"
  by (auto simp: announced_def)

lemma collector_inv_mono: "collector_inv t evs cc \<Longrightarrow> collector_inv t (evs @ evs') cc"
  unfolding collector_inv_def candidates_ok_def
  using announced_mono [of evs _ _ evs'] card_mono [OF finite_announced announced_mono] by (meson order_trans)

lemma candidates_ok_put:
  assumes "candidates_ok evs cs" "\<And>h ss. (h, ss) \<in> set heads \<Longrightarrow> oset_ok ss \<and> set ss \<subseteq> announced evs v h"
  shows "candidates_ok evs (om_put v heads cs)"
  using assms set_om_put_subset [of v heads cs] by (fastforce simp: candidates_ok_def)

lemma set_evict_lowest: "set (fst (evict_lowest m cs claims)) \<subseteq> set cs"
  by (induction m cs claims rule: evict_lowest.induct) auto

lemma candidates_ok_evict: "candidates_ok evs cs \<Longrightarrow> candidates_ok evs (fst (evict_lowest m cs claims))"
  using set_evict_lowest [of m cs claims] by (fastforce simp: candidates_ok_def)

lemma retract_inv:
  assumes "collector_inv t evs cc"
  shows "collector_inv t evs (cc_retract v s cc)"
proof -
  have cands: "candidates_ok evs (cc_candidates cc)"
    using assms by (simp add: collector_inv_def)
  have "candidates_ok evs (om_put v (retract_heads s heads) (cc_candidates cc))"
    if "map_of (cc_candidates cc) v = Some heads" for heads
    using cands map_of_SomeD [OF that]
    by (intro candidates_ok_put) (fastforce simp: retract_heads_def candidates_ok_def oset_ok_del)+
  then show ?thesis
    using assms by (auto simp: cc_retract_def Let_def collector_inv_def om_del_def split: option.splits)
qed

lemma announcement_inv:
  assumes inv: "collector_inv t evs cc"
  shows "collector_inv t (evs @ [(a, auth, mem, lv)]) (fst (on_announcement a auth mem lv cc))"
proof -
  let ?evs = "evs @ [(a, auth, mem, lv)]"
  have inv': "collector_inv t ?evs cc"
    using inv by (rule collector_inv_mono)
  then have cands: "candidates_ok ?evs (cc_candidates cc)" and thr: "cc_threshold cc = t"
    by (simp_all add: collector_inv_def)
  define heads where "heads = (case map_of (cc_candidates cc) (an_view a) of None \<Rightarrow> [] | Some hs \<Rightarrow> hs)"
  define senders where "senders = os_ins auth (case map_of heads (an_head a) of None \<Rightarrow> [] | Some ss \<Rightarrow> ss)"
  have heads: "oset_ok ss \<and> set ss \<subseteq> announced ?evs (an_view a) h" if "(h, ss) \<in> set heads" for h ss
    using cands that map_of_SomeD [of "cc_candidates cc" "an_view a"]
    by (cases "map_of (cc_candidates cc) (an_view a)") (auto simp: heads_def candidates_ok_def)
  have senders: "oset_ok senders \<and> set senders \<subseteq> announced ?evs (an_view a) (an_head a)" if "mem" "an_sender a = auth"
  proof -
    have "auth \<in> announced ?evs (an_view a) (an_head a)"
      using that by (auto simp: announced_def)
    then show ?thesis
      using heads map_of_SomeD [of heads "an_head a"]
      by (cases "map_of heads (an_head a)") (auto simp: senders_def oset_ok_ins, simp add: oset_ok_def)
  qed
  have put: "candidates_ok ?evs (om_put (an_view a) (om_put (an_head a) senders heads) (cc_candidates cc))"
    if "mem" "an_sender a = auth"
    using heads senders [OF that] set_om_put_subset [of "an_head a" senders heads]
    by (intro candidates_ok_put cands) blast
  have "t \<le> card (announced ?evs (an_view a) (an_head a))" if "mem" "an_sender a = auth" "t \<le> length senders"
    using senders [OF that(1,2)] that(3) oset_length_card [of senders]
      card_mono [of "announced ?evs (an_view a) (an_head a)" "set senders"] by simp
  then have cert: "t \<le> card (announced ?evs v h)"
    if "mem" "an_sender a = auth" "t \<le> length senders" "(v, h) \<in> set (om_put (an_view a) (an_head a) (cc_certified cc))" for v h
    using that inv' set_om_put_subset [of "an_view a" "an_head a" "cc_certified cc"] by (auto simp: collector_inv_def)
  let ?eq = "cc\<lparr>cc_equivocators := os_ins auth (cc_equivocators cc)\<rparr>"
  let ?new = "cc_evict_if_needed (cc\<lparr>cc_first_claim := om_put (an_view a, auth) (an_head a) (cc_first_claim cc),
      cc_candidates := om_put (an_view a) (om_put (an_head a) senders heads) (cc_candidates cc)\<rparr>)"
  have eq: "collector_inv t ?evs (cc_retract (an_view a) auth ?eq)"
    using inv' by (intro retract_inv) (simp add: collector_inv_def)
  have new: "collector_inv t ?evs ?new" "cc_certified ?new = cc_certified cc" if "mem" "an_sender a = auth"
    using inv' candidates_ok_evict [OF put [OF that]]
    by (simp_all add: collector_inv_def cc_evict_if_needed_def case_prod_beta)
  show ?thesis
  proof (cases "an_version a = sequence_version \<and> an_sender a = auth \<and> mem \<and> an_view a \<le> sat_add lv (cc_future_view_slack cc)
      \<and> map_of (cc_first_claim cc) (an_view a, auth) = None \<and> auth \<notin> set (cc_equivocators cc)")
    case True
    then have "fst (on_announcement a auth mem lv cc) =
        (if t \<le> length senders then ?new\<lparr>cc_certified := om_put (an_view a) (an_head a) (cc_certified cc)\<rparr> else ?new)"
      by (simp add: on_announcement_def Let_def heads_def [symmetric] senders_def [symmetric] thr new(2))
    then show ?thesis
      using True new cert by (auto simp: collector_inv_def)
  next
    case False
    then have "fst (on_announcement a auth mem lv cc) \<in> {cc, cc_retract (an_view a) auth ?eq}"
      by (cases "map_of (cc_first_claim cc) (an_view a, auth)") (auto simp: on_announcement_def)
    then show ?thesis
      using inv' eq by auto
  qed
qed

lemma collector_run_inv: "collector_inv (max t 1) evs (collector_run t m s evs)"
proof (induction evs rule: rev_induct)
  case Nil
  show ?case
    by (simp add: collector_run_def checkpoint_collector_new_def collector_inv_def candidates_ok_def)
next
  case (snoc e evs)
  then show ?case
    using announcement_inv by (cases e) (simp add: collector_run_def)
qed

section \<open>Properties\<close>

text \<open>The record calls that the store accepts.\<close>

definition accepted :: "(view \<times> sequence_outcome \<times> digest list) list \<Rightarrow> history" where
  "accepted calls = foldl (\<lambda>h (v, o', d). if v = length h + 1 then h @ [(o', d)] else h) [] calls"

definition store_after :: "seq_codec \<Rightarrow> digest \<Rightarrow> nat \<Rightarrow> (view \<times> sequence_outcome \<times> digest list) list \<Rightarrow> sequence_store" where
  "store_after cd sid k calls = foldl (\<lambda>st (v, o', d). fst (seq_record cd v o' d st)) (sequence_store_new cd sid k) calls"

lemma store_after_snoc:
  "store_after cd sid k (calls @ [(v, o', d)]) = fst (seq_record cd v o' d (store_after cd sid k calls))"
  "accepted (calls @ [(v, o', d)]) =
     (if v = length (accepted calls) + 1 then accepted calls @ [(o', d)] else accepted calls)"
  by (simp_all add: store_after_def accepted_def)

lemma store_after_refines: "store_refines cd sid k (store_after cd sid k calls) (accepted calls)"
proof (induction calls rule: rev_induct)
  case Nil
  show ?case
    by (simp add: store_after_def accepted_def store_refines_new)
next
  case (snoc x calls)
  then show ?case
    by (cases x) (simp only: store_after_snoc store_refines_record(2))
qed

lemma records_from_history:
  assumes "store_refines cd sid k st h"
  shows "1 \<le> v \<Longrightarrow> records_from st v n = take n (drop (v - 1) (history_records cd sid h))"
proof (induction n arbitrary: v)
  case (Suc n)
  have "map_of (ss_records st) v = at_view (history_records cd sid h) v"
    using assms by (simp add: store_refines_def)
  then show ?case
    using Suc.IH [of "v + 1"] Suc.prems
    by (auto simp: at_view_def Cons_nth_drop_Suc [symmetric] split: option.splits)
qed simp

text \<open>C6. The sequence store implements the list of the views recorded in order. Whatever record
  calls arrive, a call for another view than the next is refused and changes nothing; the head is the
  hash chain over the accepted views, a request for records returns exactly the part of that chain it
  asks for, outcomes and deltas are those recorded, and the boundaries are the heads at the
  multiples of the interval.\<close>

theorem store_refines_history:
  "let st = store_after cd sid k calls; h = accepted calls
   in snd (seq_record cd v o' d st) =
      (if v = length h + 1 then Inr (history_head cd sid (h @ [(o', d)])) else Inl (SequenceOutOfOrder (length h + 1) v))
    \<and> (v = length h + 1 \<or> fst (seq_record cd v o' d st) = st)
    \<and> head_view st = length h \<and> ss_head st = history_head cd sid h
    \<and> records_from st (Suc i) n = take n (drop i (history_records cd sid h))
    \<and> outcome_for st = at_view (map fst h) \<and> map_of (ss_deltas st) = at_view (map snd h)
    \<and> boundary st u = (if 1 \<le> u \<and> u \<le> length h \<and> max k 1 dvd u then Some (history_head cd sid (take u h)) else None)"
proof -
  define st where "st = store_after cd sid k calls"
  define h where "h = accepted calls"
  have ref: "store_refines cd sid k st h"
    unfolding st_def h_def by (rule store_after_refines)
  have "snd (seq_record cd v o' d st) =
      (if v = length h + 1 then Inr (history_head cd sid (h @ [(o', d)])) else Inl (SequenceOutOfOrder (length h + 1) v))"
    using arg_cong [OF store_refines_record(1) [OF ref, of v o' d], of snd] by simp
  moreover have "v = length h + 1 \<or> fst (seq_record cd v o' d st) = st"
    using ref by (auto simp: seq_record_def store_refines_def)
  ultimately show ?thesis
    using ref records_from_history [OF ref, of "Suc i" n]
    unfolding st_def [symmetric] h_def [symmetric] Let_def
    by (simp add: store_refines_def head_view_def outcome_for_def fun_eq_iff)
qed

text \<open>C5. A head determines the history behind it: two recorded histories of one session whose heads
  are equal are equal, outcomes and ordered output included, or two of the byte strings hashed for
  them collide.\<close>

theorem head_binds_history:
  assumes "codec_injective cd"
    and "inj_on (sq_hash cd) (set (history_inputs cd sid h) \<union> set (history_inputs cd sid h'))"
    and "history_head cd sid h = history_head cd sid h'"
  shows "h = h'"
proof -
  have len: "length h = length h'"
    using history_head_length assms by blast
  have inj: "inj_on (sq_hash cd) (record_input cd sid ` (set (history_records cd sid h) \<union> set (history_records cd sid h')))"
    using record_inputs_subset [of cd sid h] record_inputs_subset [of cd sid h']
    by (intro inj_on_subset [OF assms(2)]) auto
  have "history_records cd sid h = history_records cd sid h'"
    using linked_bind [OF assms(1) history_linked(1) history_linked(1) _ _ inj] len assms(3)
    by (simp add: history_linked(2))
  then show ?thesis
    using history_records_bind assms(1,2) by blast
qed

text \<open>C7. A certified checkpoint was announced, each over its own authenticated connection, by as many
  members as the threshold; so with the threshold \<open>f + 1\<close> one of them is correct, whatever the
  order of the announcements and whatever the collector evicted.\<close>

theorem certified_head_announced:
  assumes "certified_head lo (collector_run t m s evs) = Some (v, h)"
  shows "lo < v \<and> t \<le> card (announced evs v h) \<and> (\<forall>B. finite B \<and> card B < t \<longrightarrow> announced evs v h - B \<noteq> {})"
proof -
  have "lo < v" "(v, h) \<in> set (cc_certified (collector_run t m s evs))"
    using assms by (auto simp: certified_head_def find_Some_iff) (metis nth_mem length_rev set_rev)
  moreover from this have "t \<le> card (announced evs v h)"
    using collector_run_inv [of t evs m s] by (force simp: collector_inv_def)
  moreover have "announced evs v h - B \<noteq> {}" if "finite B" "card B < t" for B
    using that calculation(3) card_mono [of B "announced evs v h"] by auto
  ultimately show ?thesis by blast
qed

section \<open>Witnesses\<close>

text \<open>A prefix-free encoding and a hash that separates the inputs of small histories.\<close>

definition enc_nat :: "nat \<Rightarrow> bytes" where
  "enc_nat n = replicate n 1 @ [0]"

fun enc_manifest :: "manifest \<Rightarrow> bytes" where
  "enc_manifest [] = [0]"
| "enc_manifest ((a, h, d) # m) = 1 # key_bytes a @ enc_nat h @ digest_bytes d @ enc_manifest m"

fun enc_outcome :: "sequence_outcome \<Rightarrow> bytes" where
  "enc_outcome (SFull c t) = 0 # enc_manifest c @ enc_manifest t"
| "enc_outcome (SCore c) = 1 # enc_manifest c"
| "enc_outcome SSkip = [2]"

definition demo_codec :: seq_codec where
  "demo_codec =
     \<lparr>sq_hash = (\<lambda>b. Digest (of_nat (length b))),
      ser_outcome = (\<lambda>(v, o'). enc_nat v @ enc_outcome o'),
      ser_index = (\<lambda>(v, i). enc_nat v @ enc_nat i),
      ser_record = (\<lambda>r. enc_nat (sr_version r) @ enc_nat (sr_view r) @ digest_bytes (sr_previous_head r)
         @ digest_bytes (sr_outcome_digest r) @ enc_nat (sr_delta_len r) @ digest_bytes (sr_delta_head r))\<rparr>"

lemma enc_nat_cancel [simp]: "enc_nat m @ xs = enc_nat n @ ys \<longleftrightarrow> m = n \<and> xs = ys"
proof (induction m arbitrary: n)
  case 0
  then show ?case by (cases n) (auto simp: enc_nat_def)
next
  case (Suc m)
  then show ?case by (cases n) (auto simp: enc_nat_def)
qed

lemma enc_manifest_cancel [simp]: "enc_manifest m @ xs = enc_manifest n @ ys \<longleftrightarrow> m = n \<and> xs = ys"
proof (induction m arbitrary: n rule: enc_manifest.induct)
  case 1
  then show ?case by (cases n rule: enc_manifest.cases) auto
next
  case (2 a h d m)
  then show ?case by (cases n rule: enc_manifest.cases) auto
qed

lemma enc_outcome_inject [simp]: "enc_outcome x = enc_outcome y \<longleftrightarrow> x = y"
  using enc_manifest_cancel [of _ "[]" _ "[]"] by (cases x; cases y) auto

lemma demo_codec_injective: "codec_injective demo_codec"
  unfolding codec_injective_def inj_def by (auto simp: demo_codec_def)

lemma length_encodings [simp]: "length (enc_nat n) = Suc n" "length (tag_bytes t) = length t"
  by (simp_all add: enc_nat_def tag_bytes_def)

lemma demo_codec_separates:
  assumes "distinct (map length bs)" "list_all (\<lambda>b. length b < 1000) bs"
  shows "inj_on (sq_hash demo_codec) (set bs)"
proof (rule inj_onI)
  fix x y assume xy: "x \<in> set bs" "y \<in> set bs" "sq_hash demo_codec x = sq_hash demo_codec y"
  then have "unat (of_nat (length x) :: 256 word) = unat (of_nat (length y) :: 256 word)"
    by (simp add: demo_codec_def)
  moreover have "length x < 1000" "length y < 1000"
    using assms(2) xy by (simp_all add: list_all_iff)
  ultimately have "length x = length y"
    by (simp add: unat_of_nat)
  then show "x = y"
    using assms(1) xy by (auto simp: distinct_map dest: inj_onD)
qed

definition demo_history :: history where
  "demo_history = [(SSkip, [])]"

lemma demo_history_inputs: "inj_on (sq_hash demo_codec) (set (history_inputs demo_codec (Digest 1) demo_history))"
  by (rule demo_codec_separates)
    (simp_all add: history_inputs_def demo_history_def history_records_def view_inputs_def genesis_input_def
      record_input_def outcome_input_def mk_record_def sequence_version_def demo_codec_def)

theorem head_binds_history_witness:
  "history_head demo_codec (Digest 1) demo_history = history_head demo_codec (Digest 1) [(SSkip, [])]
   \<and> demo_history = [(SSkip, [])]"
  using head_binds_history [OF demo_codec_injective, of "Digest 1" demo_history "[(SSkip, [])]"] demo_history_inputs
  by (simp add: demo_history_def)

definition demo_announcement :: "public_key \<Rightarrow> announcement_event" where
  "demo_announcement a = (\<lparr>an_version = 1, an_view = 8, an_head = Digest 3, an_serve_floor = 1, an_sender = a\<rparr>, a, True, 5)"

theorem certified_head_announced_witness:
  "certified_head 4 (collector_run 2 4 10 [demo_announcement (PublicKey 1), demo_announcement (PublicKey 2)]) = Some (8, Digest 3)
   \<and> 2 \<le> card (announced [demo_announcement (PublicKey 1), demo_announcement (PublicKey 2)] 8 (Digest 3))"
proof -
  have "certified_head 4 (collector_run 2 4 10 [demo_announcement (PublicKey 1), demo_announcement (PublicKey 2)])
      = Some (8, Digest 3)"
    by (simp add: certified_head_def collector_run_def demo_announcement_def on_announcement_def checkpoint_collector_new_def
        sequence_version_def sat_add_def u64_max_def cc_evict_if_needed_def)
  then show ?thesis
    using certified_head_announced by blast
qed

text \<open>
  Eviction forgets first claims: after it, one sender is counted for a second head of a view, and
  the certified head of that view is replaced.
\<close>

lemma evicted_view_recertified:
  "let a = (\<lambda>v h. (\<lparr>an_version = 1, an_view = v, an_head = Digest h, an_serve_floor = 1, an_sender = PublicKey 1\<rparr>,
       PublicKey 1, True, 5))
   in certified_head 0 (collector_run 1 1 10 [a 1 3]) = Some (1, Digest 3)
    \<and> map_of (cc_certified (collector_run 1 1 10 [a 1 3, a 2 3, a 1 4])) 1 = Some (Digest 4)
    \<and> cc_equivocators (collector_run 1 1 10 [a 1 3, a 2 3, a 1 4]) = []"
  by (simp add: certified_head_def collector_run_def on_announcement_def checkpoint_collector_new_def
      sequence_version_def sat_add_def u64_max_def cc_evict_if_needed_def)

end
