(* ===== verification/Sequence_Transfer.thy ===== *)
theory Sequence_Transfer
  imports Sequence_Store
begin

text \<open>
  The transfer of a certified sequence (\<^verbatim>\<open>primary/src/vantage/sequence.rs\<close>, second half): the
  verifier of record chains, the verifier of deltas and the transfer that downloads records,
  outcomes and deltas from untrusted sources. A verified transfer has exactly the history of the
  store whose head was certified, and a transfer that an honest store serves gets verified.
\<close>

section \<open>Messages\<close>

record sequence_record_chunk =
  rc_version :: nat
  rc_transfer_id :: nat
  rc_target_head :: digest
  rc_records :: "sequence_record list"
  rc_serve_floor :: view
  rc_sender :: public_key

record sequence_delta_chunk =
  dc_version :: nat
  dc_transfer_id :: nat
  dc_target_head :: digest
  dc_view :: view
  dc_start_index :: nat
  dc_items :: "digest list"
  dc_complete :: bool
  dc_sender :: public_key

record sequence_delta_range_chunk =
  dr_version :: nat
  dr_transfer_id :: nat
  dr_target_head :: digest
  dr_entries :: "sequence_delta_entry list"
  dr_sender :: public_key

record sequence_outcome_serve =
  os_version :: nat
  os_transfer_id :: nat
  os_target_head :: digest
  os_outcomes :: "sequence_outcome_entry list"
  os_sender :: public_key

record sequence_unavailable =
  su_version :: nat
  su_transfer_id :: nat
  su_target_head :: digest
  su_serve_floor :: view
  su_sender :: public_key

datatype chain_error =
    CEVersion
  | UnexpectedView view view
  | BrokenLink view
  | HeadMismatch view
  | PastTarget view
  | UnexpectedIndex nat nat
  | DeltaMismatch view
  | DeltaTooLong view
  | SkipWithDelta view
  | OutcomeMismatch view

section \<open>The chain verifier\<close>

record chain_verifier =
  cv_sid :: digest
  cv_target_view :: view
  cv_target_head :: digest
  cv_next_view :: view
  cv_head :: digest
  cv_verified :: "(view, sequence_record) omap"
  cv_complete :: bool

definition chain_verifier_new :: "digest \<Rightarrow> view \<Rightarrow> digest \<Rightarrow> view \<Rightarrow> digest \<Rightarrow> chain_verifier" where
  "chain_verifier_new sid base_view base_head target_view' target_head =
     \<lparr>cv_sid = sid, cv_target_view = target_view', cv_target_head = target_head, cv_next_view = base_view + 1,
      cv_head = base_head, cv_verified = [], cv_complete = False\<rparr>"

definition verified_record :: "view \<Rightarrow> chain_verifier \<Rightarrow> sequence_record option" where
  "verified_record view cv = map_of (cv_verified cv) view"

fun check_records ::
    "seq_codec \<Rightarrow> digest \<Rightarrow> view \<Rightarrow> view \<Rightarrow> digest \<Rightarrow> sequence_record list \<Rightarrow> chain_error + view \<times> digest" where
  "check_records cd sid target view head [] = Inr (view, head)"
| "check_records cd sid target view head (r # rs) =
     (if sr_version r \<noteq> sequence_version then Inl CEVersion
      else if view > target then Inl (PastTarget target)
      else if sr_view r \<noteq> view then Inl (UnexpectedView view (sr_view r))
      else if sr_previous_head r \<noteq> head then Inl (BrokenLink view)
      else check_records cd sid target (view + 1) (sr_head cd sid r) rs)"

definition absorb_records :: "seq_codec \<Rightarrow> sequence_record list \<Rightarrow> chain_verifier \<Rightarrow> chain_verifier \<times> (chain_error + bool)" where
  "absorb_records cd records cv =
     (case check_records cd (cv_sid cv) (cv_target_view cv) (cv_next_view cv) (cv_head cv) records of
        Inl e \<Rightarrow> (cv, Inl e)
      | Inr (view, head) \<Rightarrow>
          (let reached = view > cv_target_view cv
           in if reached \<and> head \<noteq> cv_target_head cv then (cv, Inl (HeadMismatch (cv_target_view cv)))
              else (cv\<lparr>cv_verified := fold (\<lambda>r. om_put (sr_view r) r) records (cv_verified cv),
                       cv_next_view := view, cv_head := head, cv_complete := reached\<rparr>, Inr reached)))"

definition check_outcome :: "seq_codec \<Rightarrow> view \<Rightarrow> sequence_outcome \<Rightarrow> chain_verifier \<Rightarrow> chain_error + unit" where
  "check_outcome cd view outcome cv =
     (case map_of (cv_verified cv) view of
        None \<Rightarrow> Inl (UnexpectedView (cv_next_view cv) view)
      | Some r \<Rightarrow>
          if so_digest cd (cv_sid cv) view outcome \<noteq> sr_outcome_digest r then Inl (OutcomeMismatch view)
          else if outcome = SSkip \<and> sr_delta_len r \<noteq> 0 then Inl (SkipWithDelta view)
          else Inr ())"

section \<open>The delta verifier\<close>

record delta_verifier =
  dv_sid :: digest
  dv_view :: view
  dv_expected_len :: nat
  dv_expected_head :: digest
  dv_next_index :: nat
  dv_running :: digest
  dv_items :: "digest list"

definition delta_verifier_new :: "seq_codec \<Rightarrow> digest \<Rightarrow> view \<Rightarrow> sequence_record \<Rightarrow> delta_verifier" where
  "delta_verifier_new cd sid view r =
     \<lparr>dv_sid = sid, dv_view = view, dv_expected_len = sr_delta_len r, dv_expected_head = sr_delta_head r,
      dv_next_index = 0, dv_running = delta_seed cd sid view, dv_items = []\<rparr>"

definition dv_is_complete :: "delta_verifier \<Rightarrow> bool" where
  "dv_is_complete dv \<longleftrightarrow> dv_next_index dv = dv_expected_len dv"

definition dv_take_items :: "delta_verifier \<Rightarrow> digest list option" where
  "dv_take_items dv = (if dv_is_complete dv then Some (dv_items dv) else None)"

definition dv_absorb :: "seq_codec \<Rightarrow> nat \<Rightarrow> digest list \<Rightarrow> delta_verifier \<Rightarrow> delta_verifier \<times> (chain_error + bool)" where
  "dv_absorb cd start_index items dv =
     (if start_index \<noteq> dv_next_index dv then (dv, Inl (UnexpectedIndex (dv_next_index dv) start_index))
      else if dv_next_index dv + length items > dv_expected_len dv then (dv, Inl (DeltaTooLong (dv_view dv)))
      else
        let running = delta_steps cd (dv_sid dv) (dv_view dv) (dv_next_index dv) (dv_running dv) items;
            index = dv_next_index dv + length items;
            complete = (index = dv_expected_len dv)
        in if complete \<and> running \<noteq> dv_expected_head dv then (dv, Inl (DeltaMismatch (dv_view dv)))
           else (dv\<lparr>dv_running := running, dv_next_index := index, dv_items := dv_items dv @ items\<rparr>, Inr complete))"

section \<open>The transfer\<close>

datatype sequence_want = WantRecords view | WantOutcomes view | WantDeltas view nat

datatype transfer_state = FetchingRecords | FetchingOutcomes | FetchingDeltas | Verified | Exhausted

abbreviation max_invalid_per_source :: nat where
  "max_invalid_per_source \<equiv> 2"

record sequence_transfer =
  tr_sid :: digest
  tr_transfer_id :: nat
  tr_target_view :: view
  tr_target_head :: digest
  tr_sources :: "public_key list"
  tr_cursor :: nat
  tr_invalid :: "(public_key, nat) omap"
  tr_chain :: chain_verifier
  tr_outcomes :: "(view, sequence_outcome) omap"
  tr_deltas :: "(view, digest list) omap"
  tr_delta_in_flight :: "(view, delta_verifier) omap"
  tr_outcome_scan_from :: view
  tr_delta_scan_from :: view
  tr_state :: transfer_state

definition sequence_transfer_new ::
    "digest \<Rightarrow> nat \<Rightarrow> view \<Rightarrow> digest \<Rightarrow> view \<Rightarrow> digest \<Rightarrow> public_key list \<Rightarrow> sequence_transfer" where
  "sequence_transfer_new sid transfer_id base_view base_head target_view' target_head sources =
     \<lparr>tr_sid = sid, tr_transfer_id = transfer_id, tr_target_view = target_view', tr_target_head = target_head,
      tr_sources = sources, tr_cursor = 0, tr_invalid = [],
      tr_chain = chain_verifier_new sid base_view base_head target_view' target_head,
      tr_outcomes = [], tr_deltas = [], tr_delta_in_flight = [],
      tr_outcome_scan_from = 1, tr_delta_scan_from = 1,
      tr_state = (if sources = [] then Exhausted else FetchingRecords)\<rparr>"

definition is_verified :: "sequence_transfer \<Rightarrow> bool" where
  "is_verified tr \<longleftrightarrow> tr_state tr = Verified"

definition verified_output :: "sequence_transfer \<Rightarrow> (view \<times> sequence_outcome \<times> digest list) list option" where
  "verified_output tr =
     (if \<not> is_verified tr then None
      else Some (List.map_filter (\<lambda>(view, outcome).
             map_option (\<lambda>delta. (view, outcome, delta)) (map_of (tr_deltas tr) view)) (tr_outcomes tr)))"

definition verified_heads :: "seq_codec \<Rightarrow> sequence_transfer \<Rightarrow> (view \<times> digest) list option" where
  "verified_heads cd tr =
     (if \<not> is_verified tr then None
      else Some (List.map_filter (\<lambda>view.
             map_option (\<lambda>r. (view, sr_head cd (tr_sid tr) r)) (verified_record view (tr_chain tr)))
             [1..<tr_target_view tr + 1]))"

text \<open>
  The scan cursors are interior state of the transfer: a scan returns the advanced cursor with its
  answer.
\<close>

function advance_scan :: "view \<Rightarrow> (view \<Rightarrow> bool) \<Rightarrow> (view \<Rightarrow> bool) \<Rightarrow> view \<Rightarrow> view \<times> view option" where
  "advance_scan target recorded have' view =
     (if view > target \<or> \<not> recorded view then (view, None)
      else if \<not> have' view then (view, Some view)
      else advance_scan target recorded have' (view + 1))"
  by pat_completeness auto
termination
  by (relation "measure (\<lambda>(target, _, _, view). target + 1 - view)") auto

declare advance_scan.simps [simp del]

definition first_missing_from :: "view \<Rightarrow> (view \<Rightarrow> bool) \<Rightarrow> (view \<Rightarrow> bool) \<Rightarrow> view \<Rightarrow> view \<times> view option" where
  "first_missing_from target recorded have' scan =
     (case advance_scan target recorded have' scan of
        (scan, Some view) \<Rightarrow> (scan, Some view)
      | (scan, None) \<Rightarrow> (scan, find (\<lambda>v. \<not> have' v) (filter recorded [scan..<target + 1])))"

definition recorded :: "sequence_transfer \<Rightarrow> view \<Rightarrow> bool" where
  "recorded tr view \<longleftrightarrow> verified_record view (tr_chain tr) \<noteq> None"

definition first_missing_outcome :: "sequence_transfer \<Rightarrow> sequence_transfer \<times> view option" where
  "first_missing_outcome tr =
     (let (scan, r) = first_missing_from (tr_target_view tr) (recorded tr) (om_has (tr_outcomes tr)) (tr_outcome_scan_from tr)
      in (tr\<lparr>tr_outcome_scan_from := scan\<rparr>, r))"

definition first_missing_delta :: "sequence_transfer \<Rightarrow> sequence_transfer \<times> view option" where
  "first_missing_delta tr =
     (let (scan, r) = first_missing_from (tr_target_view tr) (recorded tr) (om_has (tr_deltas tr)) (tr_delta_scan_from tr)
      in (tr\<lparr>tr_delta_scan_from := scan\<rparr>, r))"

definition delta_next_index :: "sequence_transfer \<Rightarrow> view \<Rightarrow> nat" where
  "delta_next_index tr view = (case map_of (tr_delta_in_flight tr) view of None \<Rightarrow> 0 | Some dv \<Rightarrow> dv_next_index dv)"

definition want :: "sequence_transfer \<Rightarrow> sequence_transfer \<times> sequence_want option" where
  "want tr =
     (case tr_state tr of
        FetchingRecords \<Rightarrow> (tr, Some (WantRecords (cv_next_view (tr_chain tr))))
      | FetchingOutcomes \<Rightarrow> (case first_missing_outcome tr of (tr, r) \<Rightarrow> (tr, map_option WantOutcomes r))
      | FetchingDeltas \<Rightarrow>
          (case first_missing_delta tr of
             (tr, r) \<Rightarrow> (tr, map_option (\<lambda>view. WantDeltas view (delta_next_index tr view)) r))
      | Verified \<Rightarrow> (tr, None)
      | Exhausted \<Rightarrow> (tr, None))"

text \<open>Further missing views, at least \<open>span\<close> apart.\<close>

fun spaced_from :: "view \<Rightarrow> (view \<Rightarrow> bool) \<Rightarrow> view \<Rightarrow> nat \<Rightarrow> view \<Rightarrow> view list" where
  "spaced_from target missing span 0 from = []"
| "spaced_from target missing span (Suc n) from =
     (if from > target then []
      else case find missing [from..<target + 1] of
             None \<Rightarrow> []
           | Some view \<Rightarrow> view # spaced_from target missing span n (sat_add view span))"

definition missing_spaced ::
    "view \<Rightarrow> (view \<Rightarrow> bool) \<Rightarrow> (view \<Rightarrow> bool) \<Rightarrow> view \<Rightarrow> view \<Rightarrow> nat \<Rightarrow> view \<times> view list" where
  "missing_spaced target has_record have' scan span m =
     (case first_missing_from target has_record have' scan of
        (scan, None) \<Rightarrow> (scan, [])
      | (scan, Some first) \<Rightarrow>
          (scan, first # spaced_from target (\<lambda>v. has_record v \<and> \<not> have' v) (max span 1) (max m 1 - 1)
                          (sat_add first (max span 1))))"

definition wants :: "nat \<Rightarrow> view \<Rightarrow> view \<Rightarrow> sequence_transfer \<Rightarrow> sequence_transfer \<times> sequence_want list" where
  "wants m outcome_span delta_span tr =
     (case tr_state tr of
        FetchingOutcomes \<Rightarrow>
          (case missing_spaced (tr_target_view tr) (recorded tr) (om_has (tr_outcomes tr)) (tr_outcome_scan_from tr) outcome_span m of
             (scan, vs) \<Rightarrow> (tr\<lparr>tr_outcome_scan_from := scan\<rparr>, map WantOutcomes vs))
      | FetchingDeltas \<Rightarrow>
          (case missing_spaced (tr_target_view tr) (recorded tr) (om_has (tr_deltas tr)) (tr_delta_scan_from tr) delta_span m of
             (scan, vs) \<Rightarrow> (tr\<lparr>tr_delta_scan_from := scan\<rparr>, map (\<lambda>v. WantDeltas v (delta_next_index tr v)) vs))
      | _ \<Rightarrow> (case want tr of (tr, w) \<Rightarrow> (tr, case w of None \<Rightarrow> [] | Some w \<Rightarrow> [w])))"

definition next_sources :: "nat \<Rightarrow> sequence_transfer \<Rightarrow> public_key list" where
  "next_sources m tr =
     (let n = length (tr_sources tr)
      in if tr_sources tr = [] then []
         else map (\<lambda>i. tr_sources tr ! ((tr_cursor tr + i) mod n)) [0..<min (max m 1) n])"

definition accepts :: "public_key \<Rightarrow> nat \<Rightarrow> digest \<Rightarrow> sequence_transfer \<Rightarrow> bool" where
  "accepts from transfer_id head tr \<longleftrightarrow>
     transfer_id = tr_transfer_id tr \<and> head = tr_target_head tr \<and> from \<in> set (tr_sources tr)"

definition drop_source :: "public_key \<Rightarrow> sequence_transfer \<Rightarrow> sequence_transfer" where
  "drop_source from tr =
     (let tr = (case position from (tr_sources tr) of
                  None \<Rightarrow> tr
                | Some index \<Rightarrow>
                    tr\<lparr>tr_sources := take index (tr_sources tr) @ drop (index + 1) (tr_sources tr),
                       tr_cursor := (if index < tr_cursor tr then tr_cursor tr - 1 else tr_cursor tr)\<rparr>)
      in if tr_sources tr = [] then tr\<lparr>tr_state := Exhausted\<rparr>
         else tr\<lparr>tr_cursor := tr_cursor tr mod length (tr_sources tr)\<rparr>)"

definition penalize :: "public_key \<Rightarrow> sequence_transfer \<Rightarrow> sequence_transfer" where
  "penalize from tr =
     (let count = (case map_of (tr_invalid tr) from of None \<Rightarrow> 0 | Some n \<Rightarrow> n) + 1;
          tr = tr\<lparr>tr_invalid := om_put from count (tr_invalid tr)\<rparr>
      in if count \<ge> max_invalid_per_source then drop_source from tr else tr)"

definition rotate_source :: "sequence_transfer \<Rightarrow> sequence_transfer" where
  "rotate_source tr =
     (if tr_sources tr = [] then tr
      else tr\<lparr>tr_cursor := (tr_cursor tr + 1) mod length (tr_sources tr)\<rparr>)"

definition advance_if_done :: "sequence_transfer \<Rightarrow> sequence_transfer" where
  "advance_if_done tr =
     (if \<not> cv_complete (tr_chain tr) then tr
      else case first_missing_outcome tr of
             (tr, Some _) \<Rightarrow> tr
           | (tr, None) \<Rightarrow>
               (case first_missing_delta tr of
                  (tr, Some _) \<Rightarrow> tr
                | (tr, None) \<Rightarrow> tr\<lparr>tr_state := Verified\<rparr>))"

definition on_records ::
    "seq_codec \<Rightarrow> sequence_record_chunk \<Rightarrow> public_key \<Rightarrow> sequence_transfer \<Rightarrow> sequence_transfer \<times> (chain_error + unit)" where
  "on_records cd chunk from tr =
     (if tr_state tr \<noteq> FetchingRecords \<or> \<not> accepts from (rc_transfer_id chunk) (rc_target_head chunk) tr then (tr, Inr ())
      else
        let already = cv_next_view (tr_chain tr); target = tr_target_view tr;
            fresh = filter (\<lambda>r. sr_view r \<ge> already \<and> sr_view r \<le> target) (rc_records chunk)
        in if fresh = [] then (tr, Inr ())
           else case absorb_records cd fresh (tr_chain tr) of
                  (cv, Inr complete) \<Rightarrow>
                    (let tr = tr\<lparr>tr_chain := cv\<rparr>
                     in (if complete then advance_if_done (tr\<lparr>tr_state := FetchingOutcomes\<rparr>) else tr, Inr ()))
                | (cv, Inl e) \<Rightarrow> (penalize from (tr\<lparr>tr_chain := cv\<rparr>), Inl e))"

fun on_outcome_entries ::
    "seq_codec \<Rightarrow> public_key \<Rightarrow> sequence_outcome_entry list \<Rightarrow> sequence_transfer \<Rightarrow> sequence_transfer \<times> (chain_error + unit)" where
  "on_outcome_entries cd from [] tr =
     (case first_missing_outcome tr of
        (tr, None) \<Rightarrow> (advance_if_done (tr\<lparr>tr_state := FetchingDeltas\<rparr>), Inr ())
      | (tr, Some _) \<Rightarrow> (tr, Inr ()))"
| "on_outcome_entries cd from (e # es) tr =
     (if om_has (tr_outcomes tr) (oe_view e) \<or> verified_record (oe_view e) (tr_chain tr) = None
      then on_outcome_entries cd from es tr
      else case check_outcome cd (oe_view e) (oe_outcome e) (tr_chain tr) of
             Inl err \<Rightarrow> (penalize from tr, Inl err)
           | Inr _ \<Rightarrow>
               on_outcome_entries cd from es
                 (tr\<lparr>tr_outcomes := om_put (oe_view e) (oe_outcome e) (tr_outcomes tr)\<rparr>))"

definition on_outcomes ::
    "seq_codec \<Rightarrow> sequence_outcome_serve \<Rightarrow> public_key \<Rightarrow> sequence_transfer \<Rightarrow> sequence_transfer \<times> (chain_error + unit)" where
  "on_outcomes cd serve from tr =
     (if tr_state tr \<noteq> FetchingOutcomes \<or> \<not> accepts from (os_transfer_id serve) (os_target_head serve) tr then (tr, Inr ())
      else on_outcome_entries cd from (os_outcomes serve) tr)"

definition on_delta_entry ::
    "seq_codec \<Rightarrow> sequence_delta_entry \<Rightarrow> public_key \<Rightarrow> sequence_transfer \<Rightarrow> sequence_transfer \<times> (chain_error + unit)" where
  "on_delta_entry cd e from tr =
     (case verified_record (de_view e) (tr_chain tr) of
        None \<Rightarrow> (tr, Inr ())
      | Some r \<Rightarrow>
          if om_has (tr_deltas tr) (de_view e) then (tr, Inr ())
          else if (case map_of (tr_delta_in_flight tr) (de_view e) of
                     None \<Rightarrow> False | Some dv \<Rightarrow> de_start_index e < dv_next_index dv)
          then (tr, Inr ())
          else
            let dv = (case map_of (tr_delta_in_flight tr) (de_view e) of
                        None \<Rightarrow> delta_verifier_new cd (tr_sid tr) (de_view e) r | Some dv \<Rightarrow> dv)
            in case dv_absorb cd (de_start_index e) (de_items e) dv of
                 (dv, Inr False) \<Rightarrow> (tr\<lparr>tr_delta_in_flight := om_put (de_view e) dv (tr_delta_in_flight tr)\<rparr>, Inr ())
               | (dv, Inr True) \<Rightarrow>
                   (advance_if_done (tr\<lparr>tr_delta_in_flight := om_del (de_view e) (tr_delta_in_flight tr),
                                       tr_deltas := om_put (de_view e) (dv_items dv) (tr_deltas tr)\<rparr>), Inr ())
               | (dv, Inl err) \<Rightarrow>
                   (penalize from (tr\<lparr>tr_delta_in_flight := om_del (de_view e) (tr_delta_in_flight tr)\<rparr>), Inl err))"

definition on_delta ::
    "seq_codec \<Rightarrow> sequence_delta_chunk \<Rightarrow> public_key \<Rightarrow> sequence_transfer \<Rightarrow> sequence_transfer \<times> (chain_error + unit)" where
  "on_delta cd chunk from tr =
     (if tr_state tr \<noteq> FetchingDeltas \<or> \<not> accepts from (dc_transfer_id chunk) (dc_target_head chunk) tr then (tr, Inr ())
      else on_delta_entry cd \<lparr>de_view = dc_view chunk, de_start_index = dc_start_index chunk, de_items = dc_items chunk,
             de_complete = dc_complete chunk\<rparr> from tr)"

fun on_delta_entries ::
    "seq_codec \<Rightarrow> public_key \<Rightarrow> sequence_delta_entry list \<Rightarrow> sequence_transfer \<Rightarrow> sequence_transfer \<times> (chain_error + unit)" where
  "on_delta_entries cd from [] tr = (tr, Inr ())"
| "on_delta_entries cd from (e # es) tr =
     (case on_delta_entry cd e from tr of
        (tr, Inl err) \<Rightarrow> (tr, Inl err)
      | (tr, Inr _) \<Rightarrow> on_delta_entries cd from es tr)"

definition on_delta_range ::
    "seq_codec \<Rightarrow> sequence_delta_range_chunk \<Rightarrow> public_key \<Rightarrow> sequence_transfer \<Rightarrow> sequence_transfer \<times> (chain_error + unit)" where
  "on_delta_range cd chunk from tr =
     (if tr_state tr \<noteq> FetchingDeltas \<or> \<not> accepts from (dr_transfer_id chunk) (dr_target_head chunk) tr then (tr, Inr ())
      else on_delta_entries cd from (dr_entries chunk) tr)"

definition on_unavailable :: "sequence_unavailable \<Rightarrow> public_key \<Rightarrow> sequence_transfer \<Rightarrow> sequence_transfer" where
  "on_unavailable u from tr =
     (if su_transfer_id u \<noteq> tr_transfer_id tr \<or> su_target_head u \<noteq> tr_target_head tr then tr else drop_source from tr)"

section \<open>What the verifiers accept\<close>

lemma om_put_last: "\<forall>x \<in> set m. fst x < k \<Longrightarrow> om_put k v m = m @ [(k, v)]"
  by (induction m) auto

lemma fold_om_put_linked:
  assumes "linked cd sid n p rs" "\<forall>x \<in> set m. fst x < n"
  shows "fold (\<lambda>r. om_put (sr_view r) r) rs m = m @ zip [n..<n + length rs] rs"
  using assms
proof (induction rs arbitrary: n p m)
  case (Cons r rs)
  have upt: "[n..<n + length (r # rs)] = n # [n + 1..<n + 1 + length rs]"
    by (simp add: upt_conv_Cons del: upt_Suc)
  have "\<forall>x \<in> set (m @ [(n, r)]). fst x < n + 1"
    using Cons.prems(2) by fastforce
  then have "fold (\<lambda>r. om_put (sr_view r) r) rs (m @ [(n, r)]) = (m @ [(n, r)]) @ zip [n + 1..<n + 1 + length rs] rs"
    using Cons.IH [of "n + 1" "sr_head cd sid r"] Cons.prems(1) by (simp del: upt_Suc)
  then show ?case
    using Cons.prems unfolding upt by (simp add: om_put_last del: upt_Suc)
qed simp

lemma zip_views_append:
  "zip [n..<n + length (rs @ rs')] (rs @ rs') = zip [n..<n + length rs] rs @ zip [n + length rs..<n + length rs + length rs'] rs'"
proof -
  have "[n..<n + length (rs @ rs')] = [n..<n + length rs] @ [n + length rs..<n + length rs + length rs']"
    using upt_add_eq_append [of n "n + length rs" "length rs'"] by (simp add: add.assoc)
  then show ?thesis by simp
qed

lemma check_records_ok:
  "check_records cd sid target v p rs = Inr (v', p') \<longleftrightarrow>
     linked cd sid v p rs \<and> v' = v + length rs \<and> p' = last_head cd sid p rs \<and> (rs = [] \<or> v + length rs \<le> target + 1)"
  by (induction rs arbitrary: v p) auto

lemma linked_view: "linked cd sid v p rs \<Longrightarrow> i < length rs \<Longrightarrow> sr_view (rs ! i) = v + i"
  by (induction rs arbitrary: v p i) (auto simp: nth_Cons split: nat.splits)

text \<open>The verified records are a chain that extends the base.\<close>

definition chain_inv :: "seq_codec \<Rightarrow> view \<Rightarrow> digest \<Rightarrow> chain_verifier \<Rightarrow> bool" where
  "chain_inv cd bv bh cv \<longleftrightarrow>
     (\<exists>rs. cv_verified cv = zip [bv + 1..<bv + 1 + length rs] rs \<and> linked cd (cv_sid cv) (bv + 1) bh rs
        \<and> cv_next_view cv = bv + 1 + length rs \<and> cv_head cv = last_head cd (cv_sid cv) bh rs
        \<and> (rs = [] \<or> bv + length rs \<le> cv_target_view cv)
        \<and> (cv_complete cv \<longrightarrow> cv_next_view cv > cv_target_view cv \<and> cv_head cv = cv_target_head cv))"

lemma chain_inv_new: "chain_inv cd bv bh (chain_verifier_new sid bv bh tv th)"
  by (simp add: chain_inv_def chain_verifier_new_def)

lemma absorb_records_inv:
  assumes inv: "chain_inv cd bv bh cv" and res: "absorb_records cd new cv = (cv', r)"
  shows "chain_inv cd bv bh cv' \<and> cv_sid cv' = cv_sid cv \<and> cv_target_view cv' = cv_target_view cv
    \<and> cv_target_head cv' = cv_target_head cv \<and> (\<forall>x \<in> set (cv_verified cv). x \<in> set (cv_verified cv'))
    \<and> (case r of Inl _ \<Rightarrow> cv' = cv | Inr b \<Rightarrow> b = cv_complete cv')"
proof (cases r)
  case (Inl e)
  then have "cv' = cv"
    using res by (auto simp: absorb_records_def Let_def split: sum.splits prod.splits if_splits)
  then show ?thesis
    using inv Inl by simp
next
  case (Inr b)
  obtain rs where rs: "cv_verified cv = zip [bv + 1..<bv + 1 + length rs] rs" "linked cd (cv_sid cv) (bv + 1) bh rs"
      "cv_next_view cv = bv + 1 + length rs" "cv_head cv = last_head cd (cv_sid cv) bh rs"
      "rs = [] \<or> bv + length rs \<le> cv_target_view cv"
    using inv by (auto simp: chain_inv_def)
  have new: "linked cd (cv_sid cv) (cv_next_view cv) (cv_head cv) new" "new = [] \<or> cv_next_view cv + length new \<le> cv_target_view cv + 1"
    and cv': "cv' = cv\<lparr>cv_verified := fold (\<lambda>r. om_put (sr_view r) r) new (cv_verified cv),
        cv_next_view := cv_next_view cv + length new, cv_head := last_head cd (cv_sid cv) (cv_head cv) new, cv_complete := b\<rparr>"
    and b: "b \<longleftrightarrow> cv_next_view cv + length new > cv_target_view cv"
      "b \<Longrightarrow> last_head cd (cv_sid cv) (cv_head cv) new = cv_target_head cv"
    using res Inr by (auto simp: absorb_records_def Let_def check_records_ok split: sum.splits prod.splits if_splits)
  have below: "\<forall>x \<in> set (cv_verified cv). fst x < cv_next_view cv"
    unfolding rs(1,3) by (auto dest!: set_zip_leftD)
  have fold: "fold (\<lambda>r. om_put (sr_view r) r) new (cv_verified cv) = zip [bv + 1..<bv + 1 + length (rs @ new)] (rs @ new)"
    using fold_om_put_linked [OF new(1) below] unfolding rs(1,3) zip_views_append .
  have f: "cv_verified cv' = zip [bv + 1..<bv + 1 + length (rs @ new)] (rs @ new)" "cv_sid cv' = cv_sid cv"
      "cv_next_view cv' = bv + 1 + length (rs @ new)" "cv_head cv' = last_head cd (cv_sid cv) bh (rs @ new)"
      "cv_target_view cv' = cv_target_view cv" "cv_target_head cv' = cv_target_head cv" "cv_complete cv' = b"
    unfolding fold [symmetric] by (simp_all add: cv' rs(3,4) last_head_append)
  have "linked cd (cv_sid cv) (bv + 1) bh (rs @ new)"
    using rs(2) new(1) unfolding rs(3,4) linked_append by simp
  moreover have "rs @ new = [] \<or> bv + length (rs @ new) \<le> cv_target_view cv"
    using rs(3,5) new(2) by auto
  moreover have "b \<Longrightarrow> cv_target_view cv < bv + 1 + length (rs @ new) \<and> last_head cd (cv_sid cv) bh (rs @ new) = cv_target_head cv"
    using b rs(3,4) by (simp add: last_head_append)
  ultimately have "chain_inv cd bv bh cv'"
    unfolding chain_inv_def f by blast
  moreover have "\<forall>x \<in> set (cv_verified cv). x \<in> set (cv_verified cv')"
    unfolding f(1) rs(1) zip_views_append by simp
  ultimately show ?thesis
    using Inr by (simp add: cv')
qed

lemma delta_steps_append:
  "delta_steps cd sid v i p (xs @ ys) = delta_steps cd sid v (i + length xs) (delta_steps cd sid v i p xs) ys"
  by (induction xs arbitrary: i p) simp_all

definition delta_of :: "seq_codec \<Rightarrow> digest \<Rightarrow> view \<Rightarrow> digest list \<Rightarrow> digest" where
  "delta_of cd sid v d = delta_steps cd sid v 0 (delta_seed cd sid v) d"

definition dv_ok :: "seq_codec \<Rightarrow> digest \<Rightarrow> view \<Rightarrow> sequence_record \<Rightarrow> delta_verifier \<Rightarrow> bool" where
  "dv_ok cd sid v r dv \<longleftrightarrow> dv_sid dv = sid \<and> dv_view dv = v \<and> dv_expected_len dv = sr_delta_len r
     \<and> dv_expected_head dv = sr_delta_head r \<and> dv_next_index dv = length (dv_items dv)
     \<and> dv_running dv = delta_of cd sid v (dv_items dv)"

lemma dv_ok_new: "dv_ok cd sid v r (delta_verifier_new cd sid v r)"
  by (simp add: dv_ok_def delta_verifier_new_def delta_of_def)

lemma dv_absorb_ok:
  assumes "dv_ok cd sid v r dv" "dv_absorb cd i items dv = (dv', Inr c)"
  shows "dv_ok cd sid v r dv'" "dv_items dv' = dv_items dv @ items"
    and "c \<Longrightarrow> length (dv_items dv') = sr_delta_len r \<and> delta_of cd sid v (dv_items dv') = sr_delta_head r"
  using assms by (auto simp: dv_ok_def dv_absorb_def Let_def delta_of_def delta_steps_append split: if_splits)

section \<open>The invariant of a transfer\<close>

definition data_inv :: "seq_codec \<Rightarrow> view \<Rightarrow> digest \<Rightarrow> sequence_transfer \<Rightarrow> bool" where
  "data_inv cd bv bh tr \<longleftrightarrow>
     chain_inv cd bv bh (tr_chain tr) \<and> cv_sid (tr_chain tr) = tr_sid tr
     \<and> cv_target_view (tr_chain tr) = tr_target_view tr \<and> cv_target_head (tr_chain tr) = tr_target_head tr
     \<and> omap_ok (tr_outcomes tr) \<and> omap_ok (tr_deltas tr)
     \<and> (\<forall>(v, o') \<in> set (tr_outcomes tr). \<exists>r. (v, r) \<in> set (cv_verified (tr_chain tr))
          \<and> so_digest cd (tr_sid tr) v o' = sr_outcome_digest r)
     \<and> (\<forall>(v, d) \<in> set (tr_deltas tr). \<exists>r. (v, r) \<in> set (cv_verified (tr_chain tr))
          \<and> length d = sr_delta_len r \<and> delta_of cd (tr_sid tr) v d = sr_delta_head r)
     \<and> (\<forall>(v, dv) \<in> set (tr_delta_in_flight tr). \<exists>r. (v, r) \<in> set (cv_verified (tr_chain tr)) \<and> dv_ok cd (tr_sid tr) v r dv)"

definition scan_inv :: "sequence_transfer \<Rightarrow> bool" where
  "scan_inv tr \<longleftrightarrow> (\<forall>v. 1 \<le> v \<and> v < tr_outcome_scan_from tr \<longrightarrow> om_has (tr_outcomes tr) v)
     \<and> (\<forall>v. 1 \<le> v \<and> v < tr_delta_scan_from tr \<longrightarrow> om_has (tr_deltas tr) v)"

definition state_inv :: "sequence_transfer \<Rightarrow> bool" where
  "state_inv tr \<longleftrightarrow>
     (tr_state tr \<in> {FetchingOutcomes, FetchingDeltas, Verified} \<longrightarrow> cv_complete (tr_chain tr))
     \<and> (tr_state tr = Verified \<longrightarrow> (\<forall>v. recorded tr v \<longrightarrow> om_has (tr_outcomes tr) v \<and> om_has (tr_deltas tr) v))"

definition transfer_inv :: "seq_codec \<Rightarrow> view \<Rightarrow> digest \<Rightarrow> sequence_transfer \<Rightarrow> bool" where
  "transfer_inv cd bv bh tr \<longleftrightarrow> data_inv cd bv bh tr \<and> scan_inv tr \<and> state_inv tr"

lemmas transfer_invs = transfer_inv_def data_inv_def scan_inv_def state_inv_def

lemma advance_scan_spec:
  "advance_scan target rec have' v = (v', r) \<Longrightarrow> v \<le> v' \<and> (\<forall>u. v \<le> u \<and> u < v' \<longrightarrow> have' u)
    \<and> (\<forall>u. r = Some u \<longrightarrow> rec u \<and> \<not> have' u \<and> u \<le> target)"
proof (induction target rec have' v rule: advance_scan.induct)
  case (1 target rec have' v)
  show ?case
  proof (cases "v > target \<or> \<not> rec v \<or> \<not> have' v")
    case True
    then show ?thesis
      using 1(2) by (auto simp: advance_scan.simps [of target rec have' v] split: if_splits)
  next
    case False
    then have "advance_scan target rec have' (v + 1) = (v', r)"
      using 1(2) by (simp add: advance_scan.simps [of target rec have' v])
    then have ih: "v + 1 \<le> v'" "\<forall>u. v + 1 \<le> u \<and> u < v' \<longrightarrow> have' u"
        "\<forall>u. r = Some u \<longrightarrow> rec u \<and> \<not> have' u \<and> u \<le> target"
      using 1(1) False by auto
    have "have' u" if "v \<le> u" "u < v'" for u
      using ih(2) False that by (cases "u = v") auto
    then show ?thesis
      using ih by simp
  qed
qed

lemma find_SomeD: "find P xs = Some x \<Longrightarrow> x \<in> set xs \<and> P x"
  by (induction xs) (auto split: if_splits)

lemma first_missing_spec:
  assumes "first_missing_from target rec have' scan = (scan', r)" "\<forall>u. 1 \<le> u \<and> u < scan \<longrightarrow> have' u"
  shows "\<forall>u. 1 \<le> u \<and> u < scan' \<longrightarrow> have' u"
    and "r = None \<Longrightarrow> 1 \<le> u \<Longrightarrow> u \<le> target \<Longrightarrow> rec u \<Longrightarrow> have' u"
    and "r = Some u \<Longrightarrow> rec u \<and> \<not> have' u \<and> u \<le> target"
proof -
  obtain s q where a: "advance_scan target rec have' scan = (s, q)"
    by (cases "advance_scan target rec have' scan")
  note spec = advance_scan_spec [OF a]
  have s: "scan' = s"
    using assms(1) a by (auto simp: first_missing_from_def split: option.splits)
  then show have': "\<forall>u. 1 \<le> u \<and> u < scan' \<longrightarrow> have' u"
    using spec assms(2) by (meson leI)
  have r: "r = (case q of Some v \<Rightarrow> Some v | None \<Rightarrow> find (\<lambda>v. \<not> have' v) (filter rec [s..<target + 1]))"
    using assms(1) a by (auto simp: first_missing_from_def split: option.splits)
  show "have' u" if "r = None" "1 \<le> u" "u \<le> target" "rec u"
  proof (cases "u < s")
    case True
    then show ?thesis
      using have' s that(2) by blast
  next
    case False
    have "find (\<lambda>v. \<not> have' v) (filter rec [s..<target + 1]) = None"
      using that(1) r by (cases q) auto
    then have "\<not> (\<exists>v. v \<in> set (filter rec [s..<target + 1]) \<and> \<not> have' v)"
      unfolding find_None_iff .
    moreover have "u \<in> set (filter rec [s..<target + 1])"
      using False that by (simp del: upt_Suc)
    ultimately show ?thesis by blast
  qed
  show "rec u \<and> \<not> have' u \<and> u \<le> target" if "r = Some u"
  proof (cases q)
    case None
    then have "u \<in> set (filter rec [s..<target + 1]) \<and> \<not> have' u"
      using that r by (intro find_SomeD) simp
    then show ?thesis by auto
  next
    case (Some v)
    then show ?thesis
      using that r spec by simp
  qed
qed

text \<open>Choosing and dropping sources leaves the downloaded data alone.\<close>

definition same_data :: "sequence_transfer \<Rightarrow> sequence_transfer \<Rightarrow> bool" where
  "same_data tr tr' \<longleftrightarrow> tr_sid tr' = tr_sid tr \<and> tr_target_view tr' = tr_target_view tr
     \<and> tr_target_head tr' = tr_target_head tr \<and> tr_transfer_id tr' = tr_transfer_id tr \<and> tr_chain tr' = tr_chain tr
     \<and> tr_outcomes tr' = tr_outcomes tr \<and> tr_deltas tr' = tr_deltas tr \<and> tr_delta_in_flight tr' = tr_delta_in_flight tr
     \<and> tr_outcome_scan_from tr' = tr_outcome_scan_from tr \<and> tr_delta_scan_from tr' = tr_delta_scan_from tr
     \<and> tr_state tr' \<in> {tr_state tr, Exhausted}"

lemma same_data_inv: "same_data tr tr' \<Longrightarrow> transfer_inv cd bv bh tr \<Longrightarrow> transfer_inv cd bv bh tr'"
  by (auto simp: transfer_invs same_data_def recorded_def)

lemma drop_source_same: "same_data tr (drop_source from tr)"
  by (simp add: same_data_def drop_source_def Let_def split: option.splits)

lemma penalize_same: "same_data tr (penalize from tr)"
  using drop_source_same [of "tr\<lparr>tr_invalid := i\<rparr>" "from" for i] by (simp add: penalize_def same_data_def Let_def)

lemma rotate_same: "same_data tr (rotate_source tr)"
  by (simp add: same_data_def rotate_source_def)

lemma recorded_bounds:
  assumes "data_inv cd bv bh tr" "recorded tr v"
  shows "bv < v" "v \<le> tr_target_view tr" "1 \<le> v"
proof -
  obtain rs where rs: "cv_verified (tr_chain tr) = zip [bv + 1..<bv + 1 + length rs] rs" "rs = [] \<or> bv + length rs \<le> tr_target_view tr"
    using assms(1) by (auto simp: data_inv_def chain_inv_def)
  obtain r where "(v, r) \<in> set (cv_verified (tr_chain tr))"
    using assms(2) by (auto simp: recorded_def verified_record_def dest: map_of_SomeD)
  then have "v \<in> set [bv + 1..<bv + 1 + length rs]" "rs \<noteq> []"
    unfolding rs(1) by (auto dest: set_zip_leftD)
  then show "bv < v" "v \<le> tr_target_view tr" "1 \<le> v"
    using rs(2) by auto
qed

lemma first_missing_outcome_spec:
  assumes "first_missing_outcome tr = (tr', m)" "scan_inv tr" "data_inv cd bv bh tr"
  shows "\<exists>s. tr' = tr\<lparr>tr_outcome_scan_from := s\<rparr>" "scan_inv tr'"
    and "m = None \<Longrightarrow> recorded tr v \<Longrightarrow> om_has (tr_outcomes tr) v"
    and "m = Some v \<Longrightarrow> recorded tr v \<and> \<not> om_has (tr_outcomes tr) v"
proof -
  obtain s where s: "first_missing_from (tr_target_view tr) (recorded tr) (om_has (tr_outcomes tr)) (tr_outcome_scan_from tr) = (s, m)"
      "tr' = tr\<lparr>tr_outcome_scan_from := s\<rparr>"
    using assms(1) by (auto simp: first_missing_outcome_def Let_def split: prod.splits)
  note spec = first_missing_spec [OF s(1)]
  show "\<exists>s. tr' = tr\<lparr>tr_outcome_scan_from := s\<rparr>" "scan_inv tr'"
    using s(2) spec(1) assms(2) by (auto simp: scan_inv_def)
  show "m = None \<Longrightarrow> recorded tr v \<Longrightarrow> om_has (tr_outcomes tr) v"
    using spec(2) assms(2) recorded_bounds [OF assms(3)] by (simp add: scan_inv_def)
  show "m = Some v \<Longrightarrow> recorded tr v \<and> \<not> om_has (tr_outcomes tr) v"
    using spec(3) assms(2) by (simp add: scan_inv_def)
qed

lemma first_missing_delta_spec:
  assumes "first_missing_delta tr = (tr', m)" "scan_inv tr" "data_inv cd bv bh tr"
  shows "\<exists>s. tr' = tr\<lparr>tr_delta_scan_from := s\<rparr>" "scan_inv tr'"
    and "m = None \<Longrightarrow> recorded tr v \<Longrightarrow> om_has (tr_deltas tr) v"
    and "m = Some v \<Longrightarrow> recorded tr v \<and> \<not> om_has (tr_deltas tr) v"
proof -
  obtain s where s: "first_missing_from (tr_target_view tr) (recorded tr) (om_has (tr_deltas tr)) (tr_delta_scan_from tr) = (s, m)"
      "tr' = tr\<lparr>tr_delta_scan_from := s\<rparr>"
    using assms(1) by (auto simp: first_missing_delta_def Let_def split: prod.splits)
  note spec = first_missing_spec [OF s(1)]
  show "\<exists>s. tr' = tr\<lparr>tr_delta_scan_from := s\<rparr>" "scan_inv tr'"
    using s(2) spec(1) assms(2) by (auto simp: scan_inv_def)
  show "m = None \<Longrightarrow> recorded tr v \<Longrightarrow> om_has (tr_deltas tr) v"
    using spec(2) assms(2) recorded_bounds [OF assms(3)] by (simp add: scan_inv_def)
  show "m = Some v \<Longrightarrow> recorded tr v \<and> \<not> om_has (tr_deltas tr) v"
    using spec(3) assms(2) by (simp add: scan_inv_def)
qed

text \<open>Moving a scan cursor or the state forward.\<close>

lemma scan_update:
  "data_inv cd bv bh (tr\<lparr>tr_outcome_scan_from := s\<rparr>) = data_inv cd bv bh tr"
  "data_inv cd bv bh (tr\<lparr>tr_delta_scan_from := s\<rparr>) = data_inv cd bv bh tr"
  "data_inv cd bv bh (tr\<lparr>tr_state := x\<rparr>) = data_inv cd bv bh tr"
  "state_inv (tr\<lparr>tr_outcome_scan_from := s\<rparr>) = state_inv tr" "state_inv (tr\<lparr>tr_delta_scan_from := s\<rparr>) = state_inv tr"
  "scan_inv (tr\<lparr>tr_state := x\<rparr>) = scan_inv tr" "recorded (tr\<lparr>tr_outcome_scan_from := s\<rparr>) = recorded tr"
  "recorded (tr\<lparr>tr_delta_scan_from := s\<rparr>) = recorded tr" "recorded (tr\<lparr>tr_state := x\<rparr>) = recorded tr"
  by (simp_all add: data_inv_def state_inv_def scan_inv_def recorded_def fun_eq_iff)

lemma advance_if_done_inv:
  assumes "transfer_inv cd bv bh tr"
  shows "transfer_inv cd bv bh (advance_if_done tr)"
proof (cases "cv_complete (tr_chain tr)")
  case True
  have inv: "data_inv cd bv bh tr" "scan_inv tr" "state_inv tr"
    using assms by (simp_all add: transfer_inv_def)
  obtain t1 m1 where m1: "first_missing_outcome tr = (t1, m1)"
    by (cases "first_missing_outcome tr")
  note s1 = first_missing_outcome_spec [OF m1 inv(2,1)]
  have i1: "data_inv cd bv bh t1" "scan_inv t1" "state_inv t1"
    using s1(1,2) inv by (auto simp: scan_update)
  obtain t2 m2 where m2: "first_missing_delta t1 = (t2, m2)"
    by (cases "first_missing_delta t1")
  note s2 = first_missing_delta_spec [OF m2 i1(2,1)]
  have i2: "data_inv cd bv bh t2" "scan_inv t2" "state_inv t2"
    using s2(1,2) i1 by (auto simp: scan_update)
  have "transfer_inv cd bv bh (t2\<lparr>tr_state := Verified\<rparr>)" if "m1 = None" "m2 = None"
    using that i2 s1(1,3) s2(1,3) True by (auto simp: transfer_inv_def scan_update) (auto simp: state_inv_def recorded_def)
  then show ?thesis
    using True m1 m2 i1 i2 by (auto simp: advance_if_done_def transfer_inv_def split: option.splits)
qed (use assms in \<open>simp add: advance_if_done_def\<close>)

text \<open>Absorbing records extends the verified chain and keeps what rests on it.\<close>

lemma chain_update_inv:
  assumes inv: "transfer_inv cd bv bh tr" and st: "tr_state tr = FetchingRecords"
    and res: "absorb_records cd new (tr_chain tr) = (cv, r)"
  shows "transfer_inv cd bv bh (tr\<lparr>tr_chain := cv\<rparr>)"
    and "r = Inr True \<Longrightarrow> transfer_inv cd bv bh (tr\<lparr>tr_chain := cv, tr_state := FetchingOutcomes\<rparr>)"
proof -
  have chain: "chain_inv cd bv bh (tr_chain tr)"
    using inv by (simp add: transfer_inv_def data_inv_def)
  note a = absorb_records_inv [OF chain res]
  have "data_inv cd bv bh (tr\<lparr>tr_chain := cv\<rparr>)"
    using inv a unfolding transfer_inv_def data_inv_def by fastforce
  moreover have "scan_inv (tr\<lparr>tr_chain := cv\<rparr>)"
    using inv by (simp add: transfer_invs)
  ultimately show "transfer_inv cd bv bh (tr\<lparr>tr_chain := cv\<rparr>)"
      "r = Inr True \<Longrightarrow> transfer_inv cd bv bh (tr\<lparr>tr_chain := cv, tr_state := FetchingOutcomes\<rparr>)"
    using st a by (simp_all add: transfer_inv_def scan_update state_inv_def)
qed

lemma on_records_inv:
  assumes "transfer_inv cd bv bh tr"
  shows "transfer_inv cd bv bh (fst (on_records cd chunk from tr))"
proof -
  have "transfer_inv cd bv bh (penalize from (tr\<lparr>tr_chain := cv\<rparr>))"
    if "tr_state tr = FetchingRecords" "absorb_records cd new (tr_chain tr) = (cv, r)" for new cv r
    using same_data_inv [OF penalize_same] chain_update_inv(1) [OF assms that] by blast
  then show ?thesis
    using assms chain_update_inv [OF assms] advance_if_done_inv
    by (auto simp: on_records_def Let_def split: prod.splits sum.splits)
qed

lemma outcome_update_inv:
  assumes inv: "transfer_inv cd bv bh tr" and "check_outcome cd v o' (tr_chain tr) = Inr x" "tr_state tr \<noteq> Verified"
  shows "transfer_inv cd bv bh (tr\<lparr>tr_outcomes := om_put v o' (tr_outcomes tr)\<rparr>)"
proof -
  let ?ok = "\<lambda>(v, o'). \<exists>r. (v, r) \<in> set (cv_verified (tr_chain tr)) \<and> so_digest cd (tr_sid tr) v o' = sr_outcome_digest r"
  have "?ok (v, o')"
    using assms by (auto simp: check_outcome_def transfer_inv_def data_inv_def split: option.splits if_splits dest: map_of_SomeD)
  moreover have "\<forall>x \<in> set (tr_outcomes tr). ?ok x"
    using inv by (simp add: transfer_inv_def data_inv_def)
  ultimately have "\<forall>x \<in> set (om_put v o' (tr_outcomes tr)). ?ok x"
    using set_om_put_subset [of v o' "tr_outcomes tr"] by blast
  then have "data_inv cd bv bh (tr\<lparr>tr_outcomes := om_put v o' (tr_outcomes tr)\<rparr>)"
    using inv by (simp add: transfer_inv_def data_inv_def omap_ok_put)
  then show ?thesis
    using assms by (auto simp: transfer_inv_def scan_inv_def state_inv_def recorded_def omap_simps)
qed

lemma on_outcome_entries_inv:
  "transfer_inv cd bv bh tr \<Longrightarrow> tr_state tr = FetchingOutcomes \<Longrightarrow> transfer_inv cd bv bh (fst (on_outcome_entries cd from es tr))"
proof (induction es arbitrary: tr)
  case Nil
  obtain t m where m: "first_missing_outcome tr = (t, m)"
    by (cases "first_missing_outcome tr")
  have inv: "data_inv cd bv bh tr" "scan_inv tr" "state_inv tr"
    using Nil by (simp_all add: transfer_inv_def)
  note s = first_missing_outcome_spec [OF m inv(2,1)]
  have "transfer_inv cd bv bh t"
    using s(1,2) inv by (auto simp: transfer_inv_def scan_update)
  moreover from this have "transfer_inv cd bv bh (t\<lparr>tr_state := FetchingDeltas\<rparr>)"
    using s(1) Nil(2) inv(3) by (auto simp: transfer_inv_def scan_update state_inv_def)
  ultimately show ?case
    using m advance_if_done_inv by (auto split: option.splits)
next
  case (Cons e es)
  show ?case
  proof (cases "check_outcome cd (oe_view e) (oe_outcome e) (tr_chain tr)")
    case (Inl err)
    then show ?thesis
      using Cons same_data_inv [OF penalize_same Cons.prems(1)] by simp
  next
    case (Inr x)
    then show ?thesis
      using Cons outcome_update_inv [OF Cons.prems(1) Inr] by simp
  qed
qed

lemma verified_unique:
  assumes "data_inv cd bv bh tr"
  shows "verified_record v (tr_chain tr) = Some r \<longleftrightarrow> (v, r) \<in> set (cv_verified (tr_chain tr))"
proof -
  obtain rs where "cv_verified (tr_chain tr) = zip [bv + 1..<bv + 1 + length rs] rs"
    using assms by (auto simp: data_inv_def chain_inv_def)
  then have "distinct (map fst (cv_verified (tr_chain tr)))"
    by (simp del: upt_Suc)
  then show ?thesis
    by (simp add: verified_record_def map_of_eq_Some_iff)
qed

definition in_flight_ok :: "seq_codec \<Rightarrow> sequence_transfer \<Rightarrow> view \<times> delta_verifier \<Rightarrow> bool" where
  "in_flight_ok cd tr x \<longleftrightarrow> (\<exists>r. (fst x, r) \<in> set (cv_verified (tr_chain tr)) \<and> dv_ok cd (tr_sid tr) (fst x) r (snd x))"

definition delta_ok :: "seq_codec \<Rightarrow> sequence_transfer \<Rightarrow> view \<times> digest list \<Rightarrow> bool" where
  "delta_ok cd tr x \<longleftrightarrow> (\<exists>r. (fst x, r) \<in> set (cv_verified (tr_chain tr)) \<and> length (snd x) = sr_delta_len r
     \<and> delta_of cd (tr_sid tr) (fst x) (snd x) = sr_delta_head r)"

lemma in_flight_update_inv:
  assumes inv: "transfer_inv cd bv bh tr" and "\<forall>x \<in> set fl. in_flight_ok cd tr x"
  shows "transfer_inv cd bv bh (tr\<lparr>tr_delta_in_flight := fl\<rparr>)"
  using assms by (simp add: transfer_invs recorded_def in_flight_ok_def case_prod_beta)

lemma delta_update_inv:
  assumes inv: "transfer_inv cd bv bh tr" and ok: "delta_ok cd tr (v, d)"
  shows "transfer_inv cd bv bh (tr\<lparr>tr_deltas := om_put v d (tr_deltas tr)\<rparr>)"
proof -
  have "\<forall>x \<in> set (tr_deltas tr). delta_ok cd tr x"
    using inv by (simp add: transfer_inv_def data_inv_def delta_ok_def case_prod_beta)
  then have "\<forall>x \<in> set (om_put v d (tr_deltas tr)). delta_ok cd tr x"
    using ok set_om_put_subset [of v d "tr_deltas tr"] by blast
  then have "data_inv cd bv bh (tr\<lparr>tr_deltas := om_put v d (tr_deltas tr)\<rparr>)"
    using inv by (simp add: transfer_inv_def data_inv_def omap_ok_put delta_ok_def case_prod_beta)
  then show ?thesis
    using inv by (simp add: transfer_inv_def scan_inv_def state_inv_def recorded_def omap_simps)
qed

lemma in_flight_all_ok: "transfer_inv cd bv bh tr \<Longrightarrow> \<forall>x \<in> set (tr_delta_in_flight tr). in_flight_ok cd tr x"
  by (simp add: transfer_inv_def data_inv_def in_flight_ok_def case_prod_beta)

lemma on_delta_entry_inv:
  assumes inv: "transfer_inv cd bv bh tr"
  shows "transfer_inv cd bv bh (fst (on_delta_entry cd e from tr))"
proof (cases "verified_record (de_view e) (tr_chain tr)")
  case (Some r)
  have data: "data_inv cd bv bh tr"
    using inv by (simp add: transfer_inv_def)
  note r = verified_unique [OF data, THEN iffD1, OF Some] and all = in_flight_all_ok [OF inv]
  define dv where "dv = (case map_of (tr_delta_in_flight tr) (de_view e) of
      None \<Rightarrow> delta_verifier_new cd (tr_sid tr) (de_view e) r | Some dv \<Rightarrow> dv)"
  have dv: "dv_ok cd (tr_sid tr) (de_view e) r dv"
  proof (cases "map_of (tr_delta_in_flight tr) (de_view e)")
    case (Some x)
    then obtain r' where "(de_view e, r') \<in> set (cv_verified (tr_chain tr))" "dv_ok cd (tr_sid tr) (de_view e) r' x"
      using all map_of_SomeD [OF Some] by (auto simp: in_flight_ok_def)
    then show ?thesis
      using Some verified_unique [OF data] r by (simp add: dv_def) (metis option.inject)
  qed (simp add: dv_def dv_ok_new)
  obtain dv' res where a: "dv_absorb cd (de_start_index e) (de_items e) dv = (dv', res)"
    by (cases "dv_absorb cd (de_start_index e) (de_items e) dv")
  let ?del = "tr\<lparr>tr_delta_in_flight := om_del (de_view e) (tr_delta_in_flight tr)\<rparr>"
  have del: "transfer_inv cd bv bh ?del"
    using inv all by (intro in_flight_update_inv) (auto simp: om_del_def)
  have pen: "transfer_inv cd bv bh (penalize from ?del)"
    using same_data_inv [OF penalize_same del] .
  have put: "transfer_inv cd bv bh (tr\<lparr>tr_delta_in_flight := om_put (de_view e) dv' (tr_delta_in_flight tr)\<rparr>)" if "res = Inr c" for c
  proof (rule in_flight_update_inv [OF inv])
    have "in_flight_ok cd tr (de_view e, dv')"
      using dv_absorb_ok(1) [OF dv a [unfolded that]] r by (auto simp: in_flight_ok_def)
    then show "\<forall>x \<in> set (om_put (de_view e) dv' (tr_delta_in_flight tr)). in_flight_ok cd tr x"
      using all set_om_put_subset [of "de_view e" dv' "tr_delta_in_flight tr"] by blast
  qed
  have "delta_ok cd ?del (de_view e, dv_items dv')" if "res = Inr True"
    using dv_absorb_ok(3) [OF dv a [unfolded that]] r by (auto simp: delta_ok_def)
  from delta_update_inv [OF del this] have
    "transfer_inv cd bv bh (?del\<lparr>tr_deltas := om_put (de_view e) (dv_items dv') (tr_deltas tr)\<rparr>)" if "res = Inr True"
    using that by simp
  note fin = advance_if_done_inv [OF this]
  show ?thesis
    using inv Some a pen put fin
    by (auto simp: on_delta_entry_def Let_def dv_def [symmetric] split: sum.splits bool.splits)
qed (use assms in \<open>simp add: on_delta_entry_def\<close>)

lemma on_delta_entries_inv:
  "transfer_inv cd bv bh tr \<Longrightarrow> transfer_inv cd bv bh (fst (on_delta_entries cd from es tr))"
proof (induction es arbitrary: tr)
  case (Cons e es)
  then show ?case
    using on_delta_entry_inv [OF Cons.prems, of e "from"] by (auto split: prod.splits sum.splits)
qed simp

section \<open>Runs of a transfer\<close>

text \<open>What can happen to a transfer, with arbitrary responses from arbitrary senders.\<close>

datatype transfer_event =
    EvRecords sequence_record_chunk public_key
  | EvOutcomes sequence_outcome_serve public_key
  | EvDelta sequence_delta_chunk public_key
  | EvDeltaRange sequence_delta_range_chunk public_key
  | EvUnavailable sequence_unavailable public_key
  | EvDropSource public_key
  | EvRotate
  | EvWant
  | EvWants nat view view

fun transfer_apply :: "seq_codec \<Rightarrow> transfer_event \<Rightarrow> sequence_transfer \<Rightarrow> sequence_transfer" where
  "transfer_apply cd (EvRecords chunk s) tr = fst (on_records cd chunk s tr)"
| "transfer_apply cd (EvOutcomes serve s) tr = fst (on_outcomes cd serve s tr)"
| "transfer_apply cd (EvDelta chunk s) tr = fst (on_delta cd chunk s tr)"
| "transfer_apply cd (EvDeltaRange chunk s) tr = fst (on_delta_range cd chunk s tr)"
| "transfer_apply cd (EvUnavailable u s) tr = on_unavailable u s tr"
| "transfer_apply cd (EvDropSource s) tr = drop_source s tr"
| "transfer_apply cd EvRotate tr = rotate_source tr"
| "transfer_apply cd EvWant tr = fst (want tr)"
| "transfer_apply cd (EvWants m a b) tr = fst (wants m a b tr)"

definition transfer_run :: "seq_codec \<Rightarrow> transfer_event list \<Rightarrow> sequence_transfer \<Rightarrow> sequence_transfer" where
  "transfer_run cd evs tr = foldl (\<lambda>tr e. transfer_apply cd e tr) tr evs"

lemma want_inv:
  assumes "transfer_inv cd bv bh tr"
  shows "transfer_inv cd bv bh (fst (want tr))"
proof -
  have inv: "data_inv cd bv bh tr" "scan_inv tr" "state_inv tr"
    using assms by (simp_all add: transfer_inv_def)
  obtain t m u n where m: "first_missing_outcome tr = (t, m)" "first_missing_delta tr = (u, n)"
    by (cases "first_missing_outcome tr"; cases "first_missing_delta tr")
  have "transfer_inv cd bv bh t" "transfer_inv cd bv bh u"
    using first_missing_outcome_spec(1,2) [OF m(1) inv(2,1)] first_missing_delta_spec(1,2) [OF m(2) inv(2,1)] inv
    by (auto simp: transfer_inv_def scan_update)
  then show ?thesis
    using assms m by (simp add: want_def split: transfer_state.splits)
qed

lemma missing_spaced_scan:
  "fst (missing_spaced target rec have' scan span m) = fst (first_missing_from target rec have' scan)"
  by (simp add: missing_spaced_def split: prod.splits option.splits)

lemma wants_inv:
  assumes "transfer_inv cd bv bh tr"
  shows "transfer_inv cd bv bh (fst (wants m a b tr))"
proof -
  have inv: "data_inv cd bv bh tr" "scan_inv tr" "state_inv tr"
    using assms by (simp_all add: transfer_inv_def)
  have o': "fst (first_missing_outcome tr) = tr\<lparr>tr_outcome_scan_from :=
      fst (missing_spaced (tr_target_view tr) (recorded tr) (om_has (tr_outcomes tr)) (tr_outcome_scan_from tr) a m)\<rparr>"
    and d: "fst (first_missing_delta tr) = tr\<lparr>tr_delta_scan_from :=
      fst (missing_spaced (tr_target_view tr) (recorded tr) (om_has (tr_deltas tr)) (tr_delta_scan_from tr) b m)\<rparr>"
    by (simp_all add: first_missing_outcome_def first_missing_delta_def missing_spaced_scan case_prod_beta)
  have "transfer_inv cd bv bh (fst (first_missing_outcome tr))" "transfer_inv cd bv bh (fst (first_missing_delta tr))"
    using first_missing_outcome_spec(1,2) [OF prod.collapse [symmetric] inv(2,1)]
      first_missing_delta_spec(1,2) [OF prod.collapse [symmetric] inv(2,1)] inv
    by (auto simp: transfer_inv_def scan_update)
  then show ?thesis
    using want_inv [OF assms] unfolding o' d
    by (auto simp: wants_def case_prod_beta split: transfer_state.splits)
qed

lemma transfer_apply_inv:
  assumes "transfer_inv cd bv bh tr"
  shows "transfer_inv cd bv bh (transfer_apply cd e tr)"
proof (cases e)
  case (EvUnavailable u s)
  then show ?thesis
    using assms same_data_inv [OF drop_source_same assms] by (simp add: on_unavailable_def)
qed (use assms in \<open>auto simp: on_records_inv on_outcomes_def on_outcome_entries_inv on_delta_def on_delta_entry_inv
  on_delta_range_def on_delta_entries_inv want_inv wants_inv intro: same_data_inv [OF drop_source_same] same_data_inv [OF rotate_same]\<close>)

lemma transfer_new_inv: "transfer_inv cd bv bh (sequence_transfer_new sid i bv bh tv th srcs)"
  using chain_inv_new [of cd bv bh sid tv th]
  by (auto simp: transfer_invs sequence_transfer_new_def recorded_def chain_verifier_new_def)

lemma transfer_run_inv: "transfer_inv cd bv bh tr \<Longrightarrow> transfer_inv cd bv bh (transfer_run cd evs tr)"
  unfolding transfer_run_def by (induction evs arbitrary: tr) (simp_all add: transfer_apply_inv)

text \<open>The session and the target of a transfer never change.\<close>

definition target_of :: "sequence_transfer \<Rightarrow> digest \<times> nat \<times> view \<times> digest" where
  "target_of tr = (tr_sid tr, tr_transfer_id tr, tr_target_view tr, tr_target_head tr)"

lemma target_of_simps [simp]:
  "target_of (tr\<lparr>tr_chain := x\<rparr>) = target_of tr" "target_of (tr\<lparr>tr_state := y\<rparr>) = target_of tr"
  "target_of (tr\<lparr>tr_outcomes := a\<rparr>) = target_of tr" "target_of (tr\<lparr>tr_deltas := b\<rparr>) = target_of tr"
  "target_of (tr\<lparr>tr_delta_in_flight := c\<rparr>) = target_of tr" "target_of (tr\<lparr>tr_outcome_scan_from := d\<rparr>) = target_of tr"
  "target_of (tr\<lparr>tr_delta_scan_from := e\<rparr>) = target_of tr"
  by (simp_all add: target_of_def)

lemma same_data_target: "same_data tr tr' \<Longrightarrow> target_of tr' = target_of tr"
  by (simp add: same_data_def target_of_def)

lemmas source_targets [simp] = same_data_target [OF drop_source_same] same_data_target [OF penalize_same]
  same_data_target [OF rotate_same]

lemma first_missing_target [simp]:
  "target_of (fst (first_missing_outcome tr)) = target_of tr" "target_of (fst (first_missing_delta tr)) = target_of tr"
  by (simp_all add: first_missing_outcome_def first_missing_delta_def case_prod_beta)

lemma advance_target [simp]: "target_of (advance_if_done tr) = target_of tr"
proof -
  obtain t m where t: "first_missing_outcome tr = (t, m)"
    by (cases "first_missing_outcome tr")
  obtain u n where u: "first_missing_delta t = (u, n)"
    by (cases "first_missing_delta t")
  show ?thesis
    using first_missing_target(1) [of tr] first_missing_target(2) [of t] t u
    by (simp add: advance_if_done_def split: option.splits)
qed

lemma on_outcome_entries_target [simp]: "target_of (fst (on_outcome_entries cd from es tr)) = target_of tr"
proof (induction es arbitrary: tr)
  case Nil
  obtain t m where t: "first_missing_outcome tr = (t, m)"
    by (cases "first_missing_outcome tr")
  then show ?case
    using first_missing_target(1) [of tr] by (simp split: option.splits)
qed (simp split: sum.splits)

lemma on_delta_entry_target [simp]: "target_of (fst (on_delta_entry cd e from tr)) = target_of tr"
  by (simp add: on_delta_entry_def Let_def split: option.splits prod.splits sum.splits bool.splits)

lemma on_delta_entries_target [simp]: "target_of (fst (on_delta_entries cd from es tr)) = target_of tr"
proof (induction es arbitrary: tr)
  case (Cons e es)
  obtain t r where t: "on_delta_entry cd e from tr = (t, r)"
    by (cases "on_delta_entry cd e from tr")
  then show ?case
    using Cons on_delta_entry_target [of cd e "from" tr] by (simp split: sum.splits)
qed simp

lemma on_records_target [simp]: "target_of (fst (on_records cd chunk from tr)) = target_of tr"
  by (auto simp: on_records_def Let_def split: prod.splits sum.splits)

lemma want_target [simp]: "target_of (fst (want tr)) = target_of tr" "target_of (fst (wants m a b tr)) = target_of tr"
proof -
  show want: "target_of (fst (want tr)) = target_of tr"
    by (simp add: want_def case_prod_beta split: transfer_state.splits)
  then show "target_of (fst (wants m a b tr)) = target_of tr"
    by (auto simp: wants_def case_prod_beta split: transfer_state.splits)
qed

lemma transfer_run_target [simp]: "target_of (transfer_run cd evs tr) = target_of tr"
proof -
  have "target_of (transfer_apply cd e tr) = target_of tr" for e tr
    by (cases e) (simp_all add: on_outcomes_def on_delta_def on_delta_range_def on_unavailable_def)
  then show ?thesis
    unfolding transfer_run_def by (induction evs arbitrary: tr) simp_all
qed

section \<open>A verified transfer has the certified history\<close>

definition transfer_inputs :: "seq_codec \<Rightarrow> sequence_transfer \<Rightarrow> bytes list" where
  "transfer_inputs cd tr = concat (map (\<lambda>(v, r).
     record_input cd (tr_sid tr) r
     # (case map_of (tr_outcomes tr) v of None \<Rightarrow> [] | Some o' \<Rightarrow> [outcome_input cd (tr_sid tr) v o'])
     @ (case map_of (tr_deltas tr) v of
          None \<Rightarrow> [] | Some d \<Rightarrow> item_inputs cd (tr_sid tr) v 0 (delta_seed cd (tr_sid tr) v) d)) (cv_verified (tr_chain tr)))"

text \<open>What a verified transfer holds: a chain from the base to the target with matching bodies.\<close>

lemma verified_contents:
  assumes inv: "transfer_inv cd bv bh tr" and "is_verified tr" "bv < tr_target_view tr"
  obtains rs where "linked cd (tr_sid tr) (bv + 1) bh rs" "length rs = tr_target_view tr - bv"
    and "last_head cd (tr_sid tr) bh rs = tr_target_head tr"
    and "cv_verified (tr_chain tr) = zip [bv + 1..<bv + 1 + length rs] rs"
    and "\<And>i. i < length rs \<Longrightarrow> \<exists>o' d. map_of (tr_outcomes tr) (bv + 1 + i) = Some o'
        \<and> map_of (tr_deltas tr) (bv + 1 + i) = Some d \<and> commits cd (tr_sid tr) (rs ! i) (o', d)"
proof -
  have data: "data_inv cd bv bh tr" and state: "state_inv tr"
    using inv by (simp_all add: transfer_inv_def)
  then have complete: "cv_complete (tr_chain tr)" and bodies: "\<And>v. recorded tr v \<Longrightarrow> om_has (tr_outcomes tr) v \<and> om_has (tr_deltas tr) v"
    using assms(2) by (simp_all add: state_inv_def is_verified_def)
  obtain rs where rs: "cv_verified (tr_chain tr) = zip [bv + 1..<bv + 1 + length rs] rs" "linked cd (tr_sid tr) (bv + 1) bh rs"
      "cv_next_view (tr_chain tr) = bv + 1 + length rs" "cv_head (tr_chain tr) = last_head cd (tr_sid tr) bh rs"
      "rs = [] \<or> bv + length rs \<le> tr_target_view tr" "cv_next_view (tr_chain tr) > tr_target_view tr"
      "cv_head (tr_chain tr) = tr_target_head tr"
    using data complete unfolding data_inv_def chain_inv_def by auto
  have "\<exists>o' d. map_of (tr_outcomes tr) (bv + 1 + i) = Some o' \<and> map_of (tr_deltas tr) (bv + 1 + i) = Some d
      \<and> commits cd (tr_sid tr) (rs ! i) (o', d)" if i: "i < length rs" for i
  proof -
    let ?v = "bv + 1 + i"
    have v: "(?v, rs ! i) \<in> set (cv_verified (tr_chain tr))"
      unfolding rs(1) set_zip using i by (auto intro!: exI [of _ i] simp del: upt_Suc)
    then have "recorded tr ?v"
      using verified_unique [OF data, of ?v "rs ! i"] by (simp add: recorded_def)
    then obtain o' d where od: "map_of (tr_outcomes tr) ?v = Some o'" "map_of (tr_deltas tr) ?v = Some d"
      using bodies [of ?v] by (auto simp: om_has_def)
    obtain r where r: "(?v, r) \<in> set (cv_verified (tr_chain tr))" "so_digest cd (tr_sid tr) ?v o' = sr_outcome_digest r"
      using data map_of_SomeD [OF od(1)] unfolding data_inv_def by blast
    obtain r' where r': "(?v, r') \<in> set (cv_verified (tr_chain tr))" "length d = sr_delta_len r'"
        "delta_of cd (tr_sid tr) ?v d = sr_delta_head r'"
      using data map_of_SomeD [OF od(2)] unfolding data_inv_def by blast
    have "r = rs ! i" "r' = rs ! i"
      using r(1) r'(1) v verified_unique [OF data, symmetric] by (metis option.inject)+
    moreover have "sr_view (rs ! i) = ?v"
      using linked_view [OF rs(2) i] .
    ultimately show ?thesis
      using od r r' by (simp add: commits_def delta_of_def)
  qed
  then show thesis
    using that [OF rs(2)] rs assms(3) by fastforce
qed

lemma history_suffix_linked:
  assumes "n \<le> length h"
  shows "\<exists>p. linked cd sid (n + 1) p (drop n (history_records cd sid h))
    \<and> last_head cd sid p (drop n (history_records cd sid h)) = history_head cd sid h"
proof -
  let ?rs = "history_records cd sid h" and ?g = "genesis_head cd sid"
  have "linked cd sid 1 ?g (take n ?rs @ drop n ?rs)" "last_head cd sid ?g (take n ?rs @ drop n ?rs) = history_head cd sid h"
    unfolding append_take_drop_id by (rule history_linked)+
  then show ?thesis
    unfolding linked_append last_head_append using assms
    by (intro exI [of _ "last_head cd sid ?g (take n ?rs)"]) (simp add: min_absorb2)
qed

lemma transfer_inputs_view:
  assumes "(v, r) \<in> set (cv_verified (tr_chain tr))" "map_of (tr_outcomes tr) v = Some o'" "map_of (tr_deltas tr) v = Some d"
    and "sr_view r = v"
  shows "set (view_inputs cd (tr_sid tr) (r, o', d)) \<subseteq> set (transfer_inputs cd tr)"
proof -
  have "set (view_inputs cd (tr_sid tr) (r, o', d)) \<subseteq> set (case (v, r) of (v, r) \<Rightarrow>
     record_input cd (tr_sid tr) r
     # (case map_of (tr_outcomes tr) v of None \<Rightarrow> [] | Some o' \<Rightarrow> [outcome_input cd (tr_sid tr) v o'])
     @ (case map_of (tr_deltas tr) v of
          None \<Rightarrow> [] | Some d \<Rightarrow> item_inputs cd (tr_sid tr) v 0 (delta_seed cd (tr_sid tr) v) d))"
    using assms(2-4) by (simp add: view_inputs_def)
  then show ?thesis
    using assms(1) unfolding transfer_inputs_def set_concat set_map by blast
qed

lemma transfer_inputs_record:
  "(v, r) \<in> set (cv_verified (tr_chain tr)) \<Longrightarrow> record_input cd (tr_sid tr) r \<in> set (transfer_inputs cd tr)"
  unfolding transfer_inputs_def by auto

lemma map_filter_all: "(\<And>x. x \<in> set xs \<Longrightarrow> g (f x) = Some (k x)) \<Longrightarrow> List.map_filter g (map f xs) = map k xs"
  by (induction xs) (simp_all add: List.map_filter_simps)

text \<open>The bodies of a verified transfer, once each of them is known.\<close>

lemma verified_output_map:
  assumes inv: "transfer_inv cd bv bh tr" and ver: "is_verified tr" and "bv < tr_target_view tr"
    and body: "\<And>i. bv \<le> i \<Longrightarrow> i < tr_target_view tr \<Longrightarrow> map_of (tr_outcomes tr) (Suc i) = Some (fst (h ! i))
      \<and> map_of (tr_deltas tr) (Suc i) = Some (snd (h ! i))"
  shows "verified_output tr = Some (map (\<lambda>i. (Suc i, h ! i)) [bv..<tr_target_view tr])"
proof -
  let ?f = "\<lambda>i. (Suc i, fst (h ! i))" and ?is = "[bv..<tr_target_view tr]"
  have data: "data_inv cd bv bh tr"
    using inv by (simp add: transfer_inv_def)
  have ok: "omap_ok (map ?f ?is)"
    by (simp add: omap_ok_def comp_def sorted_wrt_map)
  have keys: "bv < v \<and> v \<le> tr_target_view tr" if some: "map_of (tr_outcomes tr) v = Some x" for v x
  proof -
    obtain r where "(v, r) \<in> set (cv_verified (tr_chain tr))"
      using data map_of_SomeD [OF some] unfolding data_inv_def by blast
    then have "recorded tr v"
      using verified_unique [OF data, of v r] by (simp add: recorded_def)
    then show ?thesis
      using recorded_bounds [OF data] by simp
  qed
  have "map_of (tr_outcomes tr) v = map_of (map ?f ?is) v" for v
  proof (cases "bv < v \<and> v \<le> tr_target_view tr")
    case True
    then have "(v, fst (h ! (v - 1))) \<in> set (map ?f ?is)"
      by (auto intro!: image_eqI [of _ _ "v - 1"])
    then have "map_of (map ?f ?is) v = Some (fst (h ! (v - 1)))"
      using ok by (simp add: omap_ok_map_of)
    then show ?thesis
      using body [of "v - 1"] True by (cases v) auto
  next
    case False
    then have "map_of (map ?f ?is) v = None"
      by (auto simp: map_of_eq_None_iff)
    then show ?thesis
      using keys [of v] False by (cases "map_of (tr_outcomes tr) v") auto
  qed
  then have "tr_outcomes tr = map ?f ?is"
    using ok data by (intro omap_ext) (auto simp: data_inv_def)
  moreover have "List.map_filter (\<lambda>(view, outcome). map_option (\<lambda>delta. (view, outcome, delta)) (map_of (tr_deltas tr) view)) (map ?f ?is)
      = map (\<lambda>i. (Suc i, h ! i)) ?is"
    using body by (intro map_filter_all) simp
  ultimately show ?thesis
    using ver by (simp add: verified_output_def)
qed

lemma mk_record_view [simp]: "sr_view (mk_record cd sid v p x) = v"
  by (simp add: mk_record_def case_prod_beta)

text \<open>The records of a verified transfer are those of the history with the target head.\<close>

lemma verified_records_bind:
  assumes cod: "codec_injective cd" and inv: "transfer_inv cd bv bh tr" and ver: "is_verified tr"
    and len: "length h = tr_target_view tr" "bv < length h" and hd: "tr_target_head tr = history_head cd (tr_sid tr) h"
    and inj: "inj_on (sq_hash cd) (set (history_inputs cd (tr_sid tr) h) \<union> set (transfer_inputs cd tr))"
    and k: "bv \<le> k" "k < length h"
  obtains o' d where "map_of (tr_outcomes tr) (Suc k) = Some o'" "map_of (tr_deltas tr) (Suc k) = Some d"
    and "(Suc k, history_records cd (tr_sid tr) h ! k) \<in> set (cv_verified (tr_chain tr))"
    and "commits cd (tr_sid tr) (history_records cd (tr_sid tr) h ! k) (o', d)"
proof -
  let ?sid = "tr_sid tr"
  obtain rs where rs: "linked cd ?sid (bv + 1) bh rs" "length rs = length h - bv" "last_head cd ?sid bh rs = history_head cd ?sid h"
      "cv_verified (tr_chain tr) = zip [bv + 1..<bv + 1 + length rs] rs"
    and bodies: "\<And>j. j < length rs \<Longrightarrow> \<exists>o' d. map_of (tr_outcomes tr) (bv + 1 + j) = Some o'
        \<and> map_of (tr_deltas tr) (bv + 1 + j) = Some d \<and> commits cd ?sid (rs ! j) (o', d)"
    using verified_contents [OF inv ver] len hd by metis
  let ?rs' = "drop bv (history_records cd ?sid h)"
  obtain p where p: "linked cd ?sid (bv + 1) p ?rs'" "last_head cd ?sid p ?rs' = history_head cd ?sid h"
    using history_suffix_linked [of bv h cd ?sid] len by auto
  have v_in: "(bv + 1 + j, rs ! j) \<in> set (cv_verified (tr_chain tr))" if "j < length rs" for j
    unfolding rs(4) set_zip using that by (auto intro!: exI [of _ j] simp del: upt_Suc)
  have "record_input cd ?sid r \<in> set (transfer_inputs cd tr)" if r: "r \<in> set rs" for r
  proof -
    obtain j where "j < length rs" "r = rs ! j"
      using r by (auto simp: in_set_conv_nth)
    then show ?thesis
      using transfer_inputs_record [OF v_in, of j cd] by simp
  qed
  then have "record_input cd ?sid ` (set rs \<union> set ?rs') \<subseteq> set (history_inputs cd ?sid h) \<union> set (transfer_inputs cd tr)"
    using record_inputs_subset [of cd ?sid h] set_drop_subset [of bv "history_records cd ?sid h"] by blast
  then have "rs = ?rs'"
    using linked_bind [OF cod rs(1) p(1)] rs(2,3) p(2) inj_on_subset [OF inj] by simp
  then have r: "rs ! (k - bv) = history_records cd ?sid h ! k" and j: "k - bv < length rs" "bv + 1 + (k - bv) = Suc k"
    using k rs(2) by auto
  show thesis
    using bodies [OF j(1)] v_in [OF j(1)] unfolding j(2) r by (blast intro: that)
qed

text \<open>C4. Whatever responses arrive from whomever, a transfer that reports itself verified has, for
  every view above its base up to the certified target, exactly the outcome and the ordered output
  that the store with the certified head recorded, or two of the byte strings hashed on the two
  sides collide.\<close>

theorem verified_transfer_matches_history:
  assumes cod: "codec_injective cd" and "bv < tv" "tv \<le> length h"
    and tr: "tr = transfer_run cd evs (sequence_transfer_new sid i bv bh tv (history_head cd sid (take tv h)) sources)"
    and ver: "is_verified tr"
    and inj: "inj_on (sq_hash cd) (set (history_inputs cd sid (take tv h)) \<union> set (transfer_inputs cd tr))"
  shows "verified_output tr = Some (map (\<lambda>i. (Suc i, h ! i)) [bv..<tv])"
proof -
  let ?h = "take tv h"
  have inv: "transfer_inv cd bv bh tr"
    unfolding tr by (rule transfer_run_inv [OF transfer_new_inv])
  have "target_of tr = (sid, i, tv, history_head cd sid ?h)"
    unfolding tr transfer_run_target by (simp add: target_of_def sequence_transfer_new_def)
  then have f: "tr_sid tr = sid" "tr_target_view tr = tv" "tr_target_head tr = history_head cd sid ?h"
    by (simp_all add: target_of_def)
  have len: "length ?h = tr_target_view tr" "bv < length ?h" "length ?h = tv"
    using assms(2,3) f(2) by simp_all
  have "map_of (tr_outcomes tr) (Suc k) = Some (fst (h ! k)) \<and> map_of (tr_deltas tr) (Suc k) = Some (snd (h ! k))"
    if k: "bv \<le> k" "k < tv" for k
  proof -
    let ?r = "history_records cd sid ?h ! k"
    obtain o' d where od: "map_of (tr_outcomes tr) (Suc k) = Some o'" "map_of (tr_deltas tr) (Suc k) = Some d"
        "(Suc k, ?r) \<in> set (cv_verified (tr_chain tr))" "commits cd sid ?r (o', d)"
      using verified_records_bind [OF cod inv ver len(1,2), of k] f inj k len(3) by metis
    have "?r = mk_record cd sid (Suc k) (history_head cd sid (take k ?h)) (h ! k)"
      using history_records_nth [of k ?h cd sid] k len(3) by simp
    then have r: "sr_view ?r = Suc k" "commits cd sid ?r (h ! k)"
      by simp_all
    have "set (view_inputs cd sid (?r, o', d)) \<subseteq> set (transfer_inputs cd tr)"
      using transfer_inputs_view [OF od(3,1,2) r(1), of cd] f(1) by simp
    moreover have "set (view_inputs cd sid (?r, h ! k)) \<subseteq> set (history_inputs cd sid ?h)"
      using history_inputs_nth [of k ?h cd sid] k len(3) by simp
    ultimately have "inj_on (sq_hash cd) (set (view_inputs cd sid (?r, (o', d))) \<union> set (view_inputs cd sid (?r, h ! k)))"
      by (intro inj_on_subset [OF inj]) auto
    then have "(o', d) = h ! k"
      using commits_bind [OF cod od(4) r(2)] by blast
    then show ?thesis
      using od(1,2) by (metis fst_conv snd_conv)
  qed
  then show ?thesis
    using verified_output_map [OF inv ver, of h] assms(2) unfolding f by blast
qed

definition demo_transfer_events :: "transfer_event list" where
  "demo_transfer_events =
     (let t = history_head demo_codec (Digest 1) demo_history; s = PublicKey 2
      in [EvWant,
          EvRecords \<lparr>rc_version = 1, rc_transfer_id = 7, rc_target_head = t,
            rc_records = history_records demo_codec (Digest 1) demo_history, rc_serve_floor = 1, rc_sender = s\<rparr> s,
          EvOutcomes \<lparr>os_version = 1, os_transfer_id = 7, os_target_head = t,
            os_outcomes = [\<lparr>oe_view = 1, oe_outcome = SSkip\<rparr>], os_sender = s\<rparr> s,
          EvDeltaRange \<lparr>dr_version = 1, dr_transfer_id = 7, dr_target_head = t,
            dr_entries = [\<lparr>de_view = 1, de_start_index = 0, de_items = [], de_complete = True\<rparr>], dr_sender = s\<rparr> s])"

definition demo_transfer :: sequence_transfer where
  "demo_transfer = sequence_transfer_new (Digest 1) 7 0 (genesis_head demo_codec (Digest 1)) 1
     (history_head demo_codec (Digest 1) (take 1 demo_history)) [PublicKey 2]"

lemmas transfer_defs =
  on_records_def accepts_def absorb_records_def check_outcome_def verified_record_def advance_if_done_def
  first_missing_outcome_def first_missing_delta_def first_missing_from_def advance_scan.simps recorded_def
  on_outcomes_def on_delta_range_def on_delta_entry_def dv_absorb_def delta_verifier_new_def want_def
  sequence_transfer_new_def chain_verifier_new_def

lemma demo_transfer_run:
  "is_verified (transfer_run demo_codec demo_transfer_events demo_transfer)
   \<and> set (transfer_inputs demo_codec (transfer_run demo_codec demo_transfer_events demo_transfer))
     \<subseteq> set (history_inputs demo_codec (Digest 1) demo_history)"
proof -
  define g where "g = genesis_head demo_codec (Digest 1)"
  define t where "t = history_head demo_codec (Digest 1) demo_history"
  define r where "r = mk_record demo_codec (Digest 1) 1 g (SSkip, [])"
  have rs: "history_records demo_codec (Digest 1) demo_history = [r]" "sr_head demo_codec (Digest 1) r = t"
    by (simp_all add: r_def g_def t_def demo_history_def history_records_def history_head_def)
  have fields: "sr_version r = sequence_version" "sr_view r = 1" "sr_previous_head r = g"
      "sr_outcome_digest r = so_digest demo_codec (Digest 1) 1 SSkip" "sr_delta_len r = 0"
      "sr_delta_head r = delta_seed demo_codec (Digest 1) 1"
    by (simp_all add: r_def mk_record_def delta_commitment_def)
  have t1: "history_head demo_codec (Digest 1) (take 1 demo_history) = t"
    by (simp add: t_def demo_history_def)
  show ?thesis
    unfolding demo_transfer_events_def demo_transfer_def t1 g_def [symmetric] t_def [symmetric] Let_def transfer_run_def rs(1)
    by (simp add: transfer_defs fields rs is_verified_def Let_def om_has_def transfer_inputs_def
        history_inputs_def view_inputs_def rs(1) [unfolded demo_history_def] demo_history_def)
qed

theorem verified_transfer_matches_history_witness:
  "verified_output (transfer_run demo_codec demo_transfer_events demo_transfer) = Some [(1, SSkip, [])]"
proof -
  let ?tr = "transfer_run demo_codec demo_transfer_events demo_transfer"
  have "set (history_inputs demo_codec (Digest 1) (take 1 demo_history)) \<union> set (transfer_inputs demo_codec ?tr)
      = set (history_inputs demo_codec (Digest 1) demo_history)"
    using demo_transfer_run by (auto simp: demo_history_def)
  then have "verified_output ?tr = Some (map (\<lambda>i. (Suc i, demo_history ! i)) [0..<1])"
    using demo_transfer_run demo_history_inputs
    by (intro verified_transfer_matches_history [OF demo_codec_injective _ _ 
          arg_cong [OF demo_transfer_def, of "transfer_run demo_codec demo_transfer_events"]]) (simp_all add: demo_history_def)
  then show ?thesis
    by (simp add: demo_history_def)
qed

end
