(* ===== verification/Cursor.thy ===== *)
theory Cursor
  imports Block_Cache "HOL-Library.Sublist"
begin

text \<open>
  The output cursor (\<^verbatim>\<open>primary/src/vantage/cursor.rs\<close>): it turns completed and sealed views into the
  committed sequence of block digests, in strict view order, and installs views verified by a
  checkpoint transfer. The shared block cache and the clock reading of a call are arguments of the
  operations; log-only fields are left out. The batches of a commit are grouped in the order of the
  worker identifiers, which the source leaves open.
\<close>

section \<open>State\<close>

datatype install_error =
    InstallOutOfOrder view view
  | PrefixMismatch view nat nat
  | AlreadyOutput view digest
  | BlocksMissing view digest

record view_input =
  vi_completed :: "(manifest \<times> manifest) option"
  vi_sealed :: "outcome option"

definition vi_default :: view_input where
  "vi_default = \<lparr>vi_completed = None, vi_sealed = None\<rparr>"

record install_progress =
  ip_view :: view
  ip_outcome :: sequence_outcome
  ip_verified :: "digest list"
  ip_prefix_checked :: nat
  ip_prefix_len :: nat

type_synonym watermarks = "(public_key, height \<times> digest) omap"

record cursor =
  cu_genesis :: digest
  cu_next_view :: view
  cu_forked_dropped :: nat
  cu_output :: "digest oset"
  cu_core_emitted :: "view oset"
  cu_delta :: "digest list"
  cu_installing :: "install_progress option"
  cu_pending :: "(view, view_input) omap"
  cu_watermarks :: watermarks

definition cursor_new :: "digest \<Rightarrow> cursor" where
  "cursor_new genesis =
     \<lparr>cu_genesis = genesis, cu_next_view = 1, cu_forked_dropped = 0, cu_output = [genesis],
      cu_core_emitted = [], cu_delta = [], cu_installing = None, cu_pending = [], cu_watermarks = []\<rparr>"

section \<open>Expanding a manifest\<close>

text \<open>
  The first pass collects the suffix of every entry above its author's watermark. It stops at a
  pending entry and counts the forked ones that it drops.
\<close>

fun expand_scan ::
    "block_cache \<Rightarrow> digest \<Rightarrow> watermarks \<Rightarrow> manifest \<Rightarrow> nat \<times> (public_key \<times> height \<times> digest list) list option"
where
  "expand_scan b genesis wm [] = (0, Some [])"
| "expand_scan b genesis wm ((author, height, digest) # m) =
     (let (stop_height, stop_digest) = (case map_of wm author of Some w \<Rightarrow> w | None \<Rightarrow> (0, genesis))
      in if height \<le> stop_height then expand_scan b genesis wm m
         else case classify_suffix stop_height stop_digest digest b of
                SWPending \<Rightarrow> (0, None)
              | SWForked \<Rightarrow> (let (dropped, r) = expand_scan b genesis wm m in (dropped + 1, r))
              | SWReady sfx \<Rightarrow>
                  (let (dropped, r) = expand_scan b genesis wm m
                   in (dropped, map_option (\<lambda>ss. (author, height, sfx) # ss) r)))"

text \<open>The second pass drops digests that are already output and advances the watermarks.\<close>

fun collect_new :: "digest list \<Rightarrow> digest list \<Rightarrow> digest list \<Rightarrow> digest list" where
  "collect_new output out [] = out"
| "collect_new output out (h # hs) =
     (if h \<in> set output \<or> h \<in> set out then collect_new output out hs else collect_new output (out @ [h]) hs)"

fun expand_apply ::
    "digest list \<Rightarrow> (public_key \<times> height \<times> digest list) list \<Rightarrow> watermarks \<times> digest list \<Rightarrow> watermarks \<times> digest list"
where
  "expand_apply output [] (wm, out) = (wm, out)"
| "expand_apply output ((author, height, sfx) # ss) (wm, out) =
     expand_apply output ss
       (if sfx = [] then wm else om_put author (height, last sfx) wm, collect_new output out sfx)"

definition expand :: "block_cache \<Rightarrow> manifest \<Rightarrow> cursor \<Rightarrow> cursor \<times> digest list option" where
  "expand b m c =
     (case expand_scan b (cu_genesis c) (cu_watermarks c) m of
        (dropped, None) \<Rightarrow> (c\<lparr>cu_forked_dropped := cu_forked_dropped c + dropped\<rparr>, None)
      | (dropped, Some ss) \<Rightarrow>
          (let (wm, out) = expand_apply (cu_output c) ss (cu_watermarks c, [])
           in (c\<lparr>cu_forked_dropped := cu_forked_dropped c + dropped, cu_watermarks := wm\<rparr>, Some out)))"

section \<open>Emission\<close>

definition batches_by_worker :: "block_cache \<Rightarrow> digest list \<Rightarrow> (worker_id, digest list) omap" where
  "batches_by_worker b hashes =
     foldl (\<lambda>acc h. case bc_get b h of
                     None \<Rightarrow> acc
                   | Some e \<Rightarrow> foldl (\<lambda>acc (digest, worker_id). om_upd worker_id [] (\<lambda>ds. ds @ [digest]) acc)
                                acc (h_payload (be_block e))) [] hashes"

definition headers_of :: "block_cache \<Rightarrow> digest list \<Rightarrow> header list" where
  "headers_of b hashes = concat (map (\<lambda>h. case bc_get b h of None \<Rightarrow> [] | Some e \<Rightarrow> [be_block e]) hashes)"

definition emit :: "nat \<Rightarrow> block_cache \<Rightarrow> digest list \<Rightarrow> cursor \<Rightarrow> cursor \<times> effect list" where
  "emit now b hashes c =
     (if hashes = [] then (c, [])
      else (c\<lparr>cu_output := fold os_ins hashes (cu_output c), cu_delta := cu_delta c @ hashes\<rparr>,
            [NotifyCommitted now (batches_by_worker b hashes) (headers_of b hashes)]))"

definition cu_advance :: "cursor \<Rightarrow> cursor" where
  "cu_advance c = c\<lparr>cu_pending := om_del (cu_next_view c) (cu_pending c),
     cu_core_emitted := os_del (cu_next_view c) (cu_core_emitted c), cu_next_view := cu_next_view c + 1\<rparr>"

definition finalize :: "sequence_outcome \<Rightarrow> cursor \<Rightarrow> cursor \<times> effect" where
  "finalize outcome c =
     (let view = cu_next_view c; output_delta = cu_delta c
      in (cu_advance (c\<lparr>cu_delta := []\<rparr>), SequenceFinalized view outcome output_delta))"

section \<open>The pump\<close>

definition core_is_emitted :: "cursor \<Rightarrow> bool" where
  "core_is_emitted c \<longleftrightarrow> cu_next_view c \<in> set (cu_core_emitted c)"

text \<open>Expanding and emitting the core; the flag tells whether the expansion succeeded.\<close>

definition emit_core :: "nat \<Rightarrow> block_cache \<Rightarrow> manifest \<Rightarrow> cursor \<Rightarrow> cursor \<times> effect list \<times> bool" where
  "emit_core now b m c =
     (case expand b m c of
        (c, None) \<Rightarrow> (c, [], False)
      | (c, Some hashes) \<Rightarrow>
          (let c = c\<lparr>cu_core_emitted := os_ins (cu_next_view c) (cu_core_emitted c)\<rparr>;
               (c, es) = emit now b hashes c
           in (c, es, True)))"

definition emit_completed_core :: "nat \<Rightarrow> block_cache \<Rightarrow> view_input \<Rightarrow> cursor \<Rightarrow> cursor \<times> effect list" where
  "emit_completed_core now b input c =
     (if core_is_emitted c then (c, [])
      else case vi_completed input of
             None \<Rightarrow> (c, [])
           | Some (m, _) \<Rightarrow> (let (c, es, _) = emit_core now b m c in (c, es)))"

definition require_core :: "nat \<Rightarrow> block_cache \<Rightarrow> manifest \<Rightarrow> cursor \<Rightarrow> cursor \<times> effect list \<times> bool" where
  "require_core now b m c = (if core_is_emitted c then (c, [], True) else emit_core now b m c)"

definition conclude :: "nat \<Rightarrow> block_cache \<Rightarrow> outcome \<Rightarrow> cursor \<Rightarrow> cursor \<times> effect list \<times> bool" where
  "conclude now b outcome c =
     (case outcome of
        OFull m t \<Rightarrow>
          (case require_core now b m c of
             (c, es, False) \<Rightarrow> (c, es, False)
           | (c, es, True) \<Rightarrow>
               (case expand b t c of
                  (c, None) \<Rightarrow> (c, es, False)
                | (c, Some t_hashes) \<Rightarrow>
                    (let (c, es') = emit now b t_hashes c; (c, fin) = finalize (SFull m t) c
                     in (c, es @ es' @ [fin], True))))
      | OCore m \<Rightarrow>
          (case require_core now b m c of
             (c, es, False) \<Rightarrow> (c, es, False)
           | (c, es, True) \<Rightarrow> (let (c, fin) = finalize (SCore m) c in (c, es @ [fin], True)))
      | OSkip \<Rightarrow> (let (c, fin) = finalize SSkip c in (c, [fin], True)))"

text \<open>One round of the loop; the flag tells whether it continues.\<close>

definition pump_round :: "nat \<Rightarrow> block_cache \<Rightarrow> cursor \<Rightarrow> cursor \<times> effect list \<times> bool" where
  "pump_round now b c =
     (case map_of (cu_pending c) (cu_next_view c) of
        None \<Rightarrow> (c, [], False)
      | Some input \<Rightarrow>
          if (case cu_installing c of None \<Rightarrow> False | Some ip \<Rightarrow> ip_view ip = cu_next_view c) then (c, [], False)
          else
            let (c, es) = emit_completed_core now b input c
            in case vi_sealed input of
                 None \<Rightarrow> (c, es, False)
               | Some outcome \<Rightarrow> (let (c, es', go) = conclude now b outcome c in (c, es @ es', go)))"

lemma expand_keeps [simp]:
  "cu_pending (fst (expand b m c)) = cu_pending c" "cu_next_view (fst (expand b m c)) = cu_next_view c"
  "cu_genesis (fst (expand b m c)) = cu_genesis c" "cu_output (fst (expand b m c)) = cu_output c"
  "cu_delta (fst (expand b m c)) = cu_delta c" "cu_core_emitted (fst (expand b m c)) = cu_core_emitted c"
  "cu_installing (fst (expand b m c)) = cu_installing c"
  by (auto simp: expand_def split: prod.splits option.splits)

lemma emit_keeps [simp]:
  "cu_pending (fst (emit now b hs c)) = cu_pending c" "cu_next_view (fst (emit now b hs c)) = cu_next_view c"
  "cu_genesis (fst (emit now b hs c)) = cu_genesis c" "cu_core_emitted (fst (emit now b hs c)) = cu_core_emitted c"
  "cu_watermarks (fst (emit now b hs c)) = cu_watermarks c"
  "cu_installing (fst (emit now b hs c)) = cu_installing c"
  by (simp_all add: emit_def)

lemma emit_state:
  "cu_output (fst (emit now b hs c)) = fold os_ins hs (cu_output c)"
  "cu_delta (fst (emit now b hs c)) = cu_delta c @ hs"
  by (simp_all add: emit_def)

lemma emit_core_keeps:
  assumes "emit_core now b m c = (c', es, ok)"
  shows "cu_pending c' = cu_pending c" "cu_next_view c' = cu_next_view c" "cu_genesis c' = cu_genesis c"
    "cu_installing c' = cu_installing c"
  using assms expand_keeps [of b m c]
  by (auto simp: emit_core_def Let_def case_prod_beta split: prod.splits option.splits)

lemma emit_completed_core_keeps:
  assumes "emit_completed_core now b input c = (c', es)"
  shows "cu_pending c' = cu_pending c" "cu_next_view c' = cu_next_view c" "cu_genesis c' = cu_genesis c"
    "cu_installing c' = cu_installing c"
  using assms emit_core_keeps [of now b _ c]
  by (auto simp: emit_completed_core_def Let_def split: if_splits option.splits prod.splits)

lemma require_core_keeps:
  assumes "require_core now b m c = (c', es, ok)"
  shows "cu_pending c' = cu_pending c" "cu_next_view c' = cu_next_view c" "cu_genesis c' = cu_genesis c"
    "cu_installing c' = cu_installing c"
  using assms emit_core_keeps [of now b m c c' es ok] unfolding require_core_def by (simp_all split: if_splits)

lemma finalize_state:
  "fst (finalize outcome c) = c\<lparr>cu_delta := [], cu_pending := om_del (cu_next_view c) (cu_pending c),
     cu_core_emitted := os_del (cu_next_view c) (cu_core_emitted c), cu_next_view := cu_next_view c + 1\<rparr>"
  "snd (finalize outcome c) = SequenceFinalized (cu_next_view c) outcome (cu_delta c)"
  by (simp_all add: finalize_def cu_advance_def Let_def)

lemma conclude_more:
  assumes "conclude now b outcome c = (c', es, True)"
  shows "cu_pending c' = om_del (cu_next_view c) (cu_pending c)"
proof (cases outcome)
  case (OFull m t)
  obtain c1 es1 ok1 where r: "require_core now b m c = (c1, es1, ok1)"
    by (cases "require_core now b m c")
  show ?thesis
    using assms OFull r require_core_keeps [OF r]
    by (auto simp: conclude_def Let_def case_prod_beta finalize_state split: bool.splits option.splits)
next
  case (OCore m)
  obtain c1 es1 ok1 where r: "require_core now b m c = (c1, es1, ok1)"
    by (cases "require_core now b m c")
  show ?thesis
    using assms OCore r require_core_keeps [OF r]
    by (auto simp: conclude_def Let_def case_prod_beta finalize_state split: bool.splits)
qed (use assms in \<open>auto simp: conclude_def Let_def case_prod_beta finalize_state\<close>)

lemma conclude_genesis:
  assumes "conclude now b outcome c = (c', es, go)"
  shows "cu_genesis c' = cu_genesis c"
proof (cases outcome)
  case (OFull m t)
  obtain c1 es1 ok1 where r: "require_core now b m c = (c1, es1, ok1)"
    by (cases "require_core now b m c")
  show ?thesis
    using assms OFull r require_core_keeps(3) [OF r] expand_keeps(3) [of b t c1]
    by (auto simp: conclude_def Let_def case_prod_beta finalize_state split: bool.splits option.splits)
next
  case (OCore m)
  obtain c1 es1 ok1 where r: "require_core now b m c = (c1, es1, ok1)"
    by (cases "require_core now b m c")
  show ?thesis
    using assms OCore r require_core_keeps(3) [OF r]
    by (auto simp: conclude_def Let_def case_prod_beta finalize_state split: bool.splits)
qed (use assms in \<open>auto simp: conclude_def Let_def case_prod_beta finalize_state\<close>)

lemma pump_round_more:
  assumes "pump_round now b c = (c', es, True)"
  shows "om_has (cu_pending c) (cu_next_view c)" "cu_pending c' = om_del (cu_next_view c) (cu_pending c)"
proof -
  obtain input where input: "map_of (cu_pending c) (cu_next_view c) = Some input"
    using assms by (cases "map_of (cu_pending c) (cu_next_view c)") (auto simp: pump_round_def)
  then show "om_has (cu_pending c) (cu_next_view c)"
    by (simp add: om_has_def)
  obtain c1 es1 where c1: "emit_completed_core now b input c = (c1, es1)"
    by (cases "emit_completed_core now b input c")
  obtain outcome c2 es2 where "conclude now b outcome c1 = (c2, es2, True)" "c' = c2"
    using assms input c1
    by (auto simp: pump_round_def Let_def split: if_splits option.splits prod.splits)
  then show "cu_pending c' = om_del (cu_next_view c) (cu_pending c)"
    using conclude_more emit_completed_core_keeps [OF c1] by metis
qed

lemma length_om_del: "om_has m k \<Longrightarrow> length (om_del k m) < length m"
proof -
  assume "om_has m k"
  then obtain v where "(k, v) \<in> set m"
    by (auto simp: om_has_def split: option.splits dest: map_of_SomeD)
  then show ?thesis
    unfolding om_del_def by (intro length_filter_less) auto
qed

text \<open>Every round that continues removes the entry of its view.\<close>

function pump :: "nat \<Rightarrow> block_cache \<Rightarrow> cursor \<Rightarrow> cursor \<times> effect list" where
  "pump now b c =
     (case pump_round now b c of
        (c', es, False) \<Rightarrow> (c', es)
      | (c', es, True) \<Rightarrow> (case pump now b c' of (c'', es') \<Rightarrow> (c'', es @ es')))"
  by pat_completeness auto
termination
  by (relation "measure (\<lambda>(now, b, c). length (cu_pending c))")
    (auto dest!: sym [where t = "pump_round _ _ _"] simp: pump_round_more length_om_del)

declare pump.simps [simp del]

section \<open>Handlers\<close>

definition on_completed :: "nat \<Rightarrow> block_cache \<Rightarrow> view \<Rightarrow> manifest \<Rightarrow> manifest \<Rightarrow> cursor \<Rightarrow> cursor \<times> effect list" where
  "on_completed now b view m t c =
     (if view < cu_next_view c then (c, [])
      else pump now b (c\<lparr>cu_pending :=
             om_upd view vi_default (\<lambda>i. i\<lparr>vi_completed := Some (m, t)\<rparr>) (cu_pending c)\<rparr>))"

definition on_sealed :: "nat \<Rightarrow> block_cache \<Rightarrow> view \<Rightarrow> outcome \<Rightarrow> cursor \<Rightarrow> cursor \<times> effect list" where
  "on_sealed now b view outcome c =
     (if view < cu_next_view c then (c, [])
      else pump now b (c\<lparr>cu_pending :=
             om_upd view vi_default (\<lambda>i. i\<lparr>vi_sealed := Some outcome\<rparr>) (cu_pending c)\<rparr>))"

definition cu_retry :: "nat \<Rightarrow> block_cache \<Rightarrow> cursor \<Rightarrow> cursor \<times> effect list" where
  "cu_retry now b c = pump now b c"

definition open_delta :: "cursor \<Rightarrow> digest list" where
  "open_delta c = cu_delta c"

section \<open>Installing verified views\<close>

text \<open>The prefix check against what the open view already emitted, within the budget.\<close>

function check_prefix :: "digest list \<Rightarrow> nat \<Rightarrow> install_progress \<times> nat \<Rightarrow> (install_progress \<times> nat) \<times> bool" where
  "check_prefix delta budget (ip, examined) =
     (if ip_prefix_checked ip < ip_prefix_len ip \<and> examined < budget
      then if delta ! ip_prefix_checked ip \<noteq> ip_verified ip ! ip_prefix_checked ip
           then ((ip, examined), False)
           else check_prefix delta budget (ip\<lparr>ip_prefix_checked := ip_prefix_checked ip + 1\<rparr>, examined + 1)
      else ((ip, examined), True))"
  by pat_completeness auto
termination
  by (relation "measure (\<lambda>(delta, budget, ip, examined). budget - examined)") auto

declare check_prefix.simps [simp del]

definition apply_watermarks :: "block_cache \<Rightarrow> digest list \<Rightarrow> watermarks \<Rightarrow> watermarks" where
  "apply_watermarks b delivered wm =
     foldl (\<lambda>wm digest. case bc_get b digest of
                None \<Rightarrow> wm
              | Some e \<Rightarrow>
                  (let author = h_author (be_block e); height = h_height (be_block e);
                       old = (case map_of wm author of Some w \<Rightarrow> w | None \<Rightarrow> (0, digest))
                   in om_put author (if height > fst old then (height, digest) else old) wm))
       wm delivered"

text \<open>The first call of an installation fixes its view, outcome and digests.\<close>

definition install_begin :: "view \<Rightarrow> sequence_outcome \<Rightarrow> digest list \<Rightarrow> cursor \<Rightarrow> install_error + install_progress" where
  "install_begin view outcome delta c =
     (if view \<noteq> cu_next_view c then Inl (InstallOutOfOrder (cu_next_view c) view)
      else case cu_installing c of
             None \<Rightarrow>
               if length delta < length (cu_delta c)
               then Inl (PrefixMismatch view (length (cu_delta c)) (length delta))
               else Inr \<lparr>ip_view = view, ip_outcome = outcome, ip_verified = delta,
                         ip_prefix_checked = 0, ip_prefix_len = length (cu_delta c)\<rparr>
           | Some ip \<Rightarrow> if ip_view ip \<noteq> view then Inl (InstallOutOfOrder (ip_view ip) view) else Inr ip)"

definition install_missing :: "block_cache \<Rightarrow> view \<Rightarrow> digest list \<Rightarrow> cursor \<Rightarrow> install_error option" where
  "install_missing b view chunk c =
     (case find (\<lambda>d. d \<in> set (cu_output c)) chunk of
        Some d \<Rightarrow> Some (AlreadyOutput view d)
      | None \<Rightarrow>
          map_option (BlocksMissing view)
            (find (\<lambda>d. \<not> (case bc_get b d of None \<Rightarrow> False | Some e \<Rightarrow> be_block_ok_verified e)) chunk))"

text \<open>The digests beyond the open prefix are emitted; the last of them finalises the view.\<close>

definition install_chunk ::
    "nat \<Rightarrow> block_cache \<Rightarrow> view \<Rightarrow> nat \<Rightarrow> nat \<Rightarrow> install_progress \<Rightarrow> cursor
       \<Rightarrow> cursor \<times> (install_error + effect list \<times> bool \<times> nat)" where
  "install_chunk now b view budget examined ip c =
     (let start = length (cu_delta c);
          stop = min (length (ip_verified ip)) (start + (budget - examined));
          chunk = take (stop - start) (drop start (ip_verified ip))
      in case install_missing b view chunk c of
           Some err \<Rightarrow> (c, Inl err)
         | None \<Rightarrow>
             (let (c, es) = emit now b chunk c;
                  examined = examined + length chunk
              in if stop \<noteq> length (ip_verified ip) then (c, Inr (es, False, examined))
                 else let c = c\<lparr>cu_installing := None,
                               cu_watermarks := apply_watermarks b (ip_verified ip) (cu_watermarks c)\<rparr>;
                          (c, fin) = finalize (ip_outcome ip) c
                      in (c, Inr (es @ [fin], True, examined))))"

definition install_budgeted ::
    "nat \<Rightarrow> block_cache \<Rightarrow> view \<Rightarrow> sequence_outcome \<Rightarrow> digest list \<Rightarrow> nat \<Rightarrow> cursor
       \<Rightarrow> cursor \<times> (install_error + effect list \<times> bool \<times> nat)" where
  "install_budgeted now b view outcome delta budget0 c =
     (case install_begin view outcome delta c of
        Inl err \<Rightarrow> (c, Inl err)
      | Inr ip \<Rightarrow>
          (let budget = max budget0 1
           in case check_prefix (cu_delta c) budget (ip, 0) of
                ((ip, examined), False) \<Rightarrow>
                  (c\<lparr>cu_installing := Some ip\<rparr>, Inl (PrefixMismatch view (ip_prefix_len ip) (length (ip_verified ip))))
              | ((ip, examined), True) \<Rightarrow>
                  if ip_prefix_checked ip < ip_prefix_len ip
                  then (c\<lparr>cu_installing := Some ip\<rparr>, Inr ([], False, examined))
                  else install_chunk now b view budget examined ip (c\<lparr>cu_installing := Some ip\<rparr>)))"

definition install ::
    "nat \<Rightarrow> block_cache \<Rightarrow> view \<Rightarrow> sequence_outcome \<Rightarrow> digest list \<Rightarrow> nat \<Rightarrow> cursor
       \<Rightarrow> cursor \<times> (install_error + effect list \<times> bool)" where
  "install now b view outcome delta budget c =
     (case install_budgeted now b view outcome delta budget c of
        (c, Inl e) \<Rightarrow> (c, Inl e)
      | (c, Inr (es, finalized, _)) \<Rightarrow> (c, Inr (es, finalized)))"

definition abort_install :: "nat \<Rightarrow> block_cache \<Rightarrow> cursor \<Rightarrow> cursor \<times> effect list" where
  "abort_install now b c = pump now b (c\<lparr>cu_installing := None\<rparr>)"

section \<open>The reference sequence\<close>

text \<open>
  What the committed sequence is, given the terminal outcome \<open>O v\<close> of every view and a cache
  \<open>W\<close> that holds the blocks of all nodes: a ledger of watermarks and output digests is extended
  by the manifests of one view after the other.
\<close>

fun finalized :: "effect list \<Rightarrow> (view \<times> sequence_outcome \<times> digest list) list" where
  "finalized [] = []"
| "finalized (SequenceFinalized v o' d # es) = (v, o', d) # finalized es"
| "finalized (_ # es) = finalized es"

lemma finalized_append [simp]: "finalized (xs @ ys) = finalized xs @ finalized ys"
  by (induction xs rule: finalized.induct) auto

lemma finalized_emit [simp]: "finalized (snd (emit now b hs c)) = []"
  by (simp add: emit_def)

type_synonym ledger = "watermarks \<times> digest list"

definition ref_manifest :: "block_cache \<Rightarrow> digest \<Rightarrow> manifest \<Rightarrow> ledger \<Rightarrow> (ledger \<times> digest list) option" where
  "ref_manifest W g m L =
     (case snd (expand_scan W g (fst L) m) of
        None \<Rightarrow> None
      | Some ss \<Rightarrow>
          (case expand_apply (snd L) ss (fst L, []) of
             (wm, hs) \<Rightarrow> Some ((wm, fold os_ins hs (snd L)), hs)))"

definition ref_view :: "block_cache \<Rightarrow> digest \<Rightarrow> outcome \<Rightarrow> ledger \<Rightarrow> (ledger \<times> digest list) option" where
  "ref_view W g o' L =
     (case o' of
        OSkip \<Rightarrow> Some (L, [])
      | OCore m \<Rightarrow> ref_manifest W g m L
      | OFull m t \<Rightarrow>
          (case ref_manifest W g m L of
             None \<Rightarrow> None
           | Some (L1, h1) \<Rightarrow>
               (case ref_manifest W g t L1 of None \<Rightarrow> None | Some (L2, h2) \<Rightarrow> Some (L2, h1 @ h2))))"

fun ref_run ::
    "block_cache \<Rightarrow> digest \<Rightarrow> (view \<Rightarrow> outcome) \<Rightarrow> nat \<Rightarrow> (ledger \<times> (view \<times> sequence_outcome \<times> digest list) list) option"
where
  "ref_run W g O' 0 = Some (([], [g]), [])"
| "ref_run W g O' (Suc n) =
     (case ref_run W g O' n of
        None \<Rightarrow> None
      | Some (L, fins) \<Rightarrow>
          (case ref_view W g (O' (Suc n)) L of
             None \<Rightarrow> None
           | Some (L', d) \<Rightarrow> Some (L', fins @ [(Suc n, sequence_outcome_of (O' (Suc n)), d)])))"

fun core_of :: "outcome \<Rightarrow> manifest option" where
  "core_of (OFull m t) = Some m"
| "core_of (OCore m) = Some m"
| "core_of OSkip = None"

lemma scan_known:
  assumes "known b W"
  shows "snd (expand_scan b g wm m) = Some ss \<Longrightarrow> snd (expand_scan W g wm m) = Some ss"
proof (induction m arbitrary: ss)
  case (Cons r m)
  obtain a h d where r: "r = (a, h, d)"
    by (cases r)
  obtain n w where w: "(case map_of wm a of Some w \<Rightarrow> w | None \<Rightarrow> (0, g)) = (n, w)"
    by (cases "case map_of wm a of Some w \<Rightarrow> w | None \<Rightarrow> (0, g)")
  show ?case
  proof (cases "h \<le> n")
    case True
    then show ?thesis
      using Cons by (simp add: r w)
  next
    case False
    then have "classify_suffix n w d b \<noteq> SWPending"
      using Cons.prems by (auto simp: r w)
    from classify_known [OF assms this] False show ?thesis
      using Cons by (cases "classify_suffix n w d b") (auto simp: r w Let_def case_prod_beta)
  qed
qed simp

section \<open>The cursor follows the reference\<close>

definition inputs_ok :: "(view \<Rightarrow> outcome) \<Rightarrow> cursor \<Rightarrow> bool" where
  "inputs_ok O' c \<longleftrightarrow> (\<forall>v i. map_of (cu_pending c) v = Some i \<longrightarrow>
     (\<forall>m t. vi_completed i = Some (m, t) \<longrightarrow> core_of (O' v) = Some m)
     \<and> (\<forall>o'. vi_sealed i = Some o' \<longrightarrow> o' = O' v))"

definition cursor_inv ::
    "(view \<Rightarrow> outcome) \<Rightarrow> block_cache \<Rightarrow> cursor \<Rightarrow> (view \<times> sequence_outcome \<times> digest list) list \<Rightarrow> bool" where
  "cursor_inv O' W c fins \<longleftrightarrow>
     inputs_ok O' c \<and> set (cu_core_emitted c) \<subseteq> {cu_next_view c} \<and> cu_installing c = None
     \<and> (\<exists>n L. cu_next_view c = Suc n \<and> ref_run W (cu_genesis c) O' n = Some (L, fins)
          \<and> (if core_is_emitted c
             then (\<exists>m. core_of (O' (Suc n)) = Some m
                  \<and> ref_manifest W (cu_genesis c) m L = Some ((cu_watermarks c, cu_output c), cu_delta c))
             else L = (cu_watermarks c, cu_output c) \<and> cu_delta c = []))"

lemma expand_known:
  assumes "known b W" "expand b m c = (c', Some hs)"
  shows "ref_manifest W (cu_genesis c) m (cu_watermarks c, cu_output c) =
      Some ((cu_watermarks c', fold os_ins hs (cu_output c)), hs)"
proof -
  obtain dropped ss where ss: "expand_scan b (cu_genesis c) (cu_watermarks c) m = (dropped, Some ss)"
    using assms(2) by (cases "expand_scan b (cu_genesis c) (cu_watermarks c) m")
      (auto simp: expand_def split: option.splits)
  then have "snd (expand_scan W (cu_genesis c) (cu_watermarks c) m) = Some ss"
    using scan_known [OF assms(1), of "cu_genesis c" "cu_watermarks c" m ss] by simp
  then show ?thesis
    using assms(2) ss by (auto simp: expand_def ref_manifest_def Let_def split: prod.splits)
qed

lemma expand_none: "expand b m c = (c', None) \<Longrightarrow> \<exists>k. c' = c\<lparr>cu_forked_dropped := k\<rparr>"
  by (auto simp: expand_def Let_def split: prod.splits option.splits)

lemma cursor_inv_forked [simp]: "cursor_inv O' W (c\<lparr>cu_forked_dropped := k\<rparr>) fins = cursor_inv O' W c fins"
  by (simp add: cursor_inv_def inputs_ok_def core_is_emitted_def)

lemma inputs_ok_cong: "cu_pending c' = cu_pending c \<Longrightarrow> inputs_ok O' c' = inputs_ok O' c"
  by (simp add: inputs_ok_def)

lemma emit_core_inv:
  assumes inv: "cursor_inv O' W c fins" and known: "known b W" and "\<not> core_is_emitted c"
    and core: "core_of (O' (cu_next_view c)) = Some m" and res: "emit_core now b m c = (c', es, ok)"
  shows "cursor_inv O' W c' fins \<and> finalized es = [] \<and> (ok \<longrightarrow> core_is_emitted c')"
proof -
  obtain n L where n: "cu_next_view c = Suc n" "ref_run W (cu_genesis c) O' n = Some (L, fins)"
      "L = (cu_watermarks c, cu_output c)" "cu_delta c = []"
    using inv assms(3) by (auto simp: cursor_inv_def)
  obtain c1 r where e: "expand b m c = (c1, r)"
    by (cases "expand b m c")
  note keep = expand_keeps [of b m c, unfolded e fst_conv]
  show ?thesis
  proof (cases r)
    case None
    then have "c' = c1" "es = []" "\<not> ok"
      using res e by (auto simp: emit_core_def)
    moreover have "cursor_inv O' W c1 fins"
      using inv expand_none [OF e [unfolded None]] by auto
    ultimately show ?thesis by simp
  next
    case (Some hs)
    let ?c2 = "c1\<lparr>cu_core_emitted := os_ins (cu_next_view c1) (cu_core_emitted c1)\<rparr>"
    have c': "c' = fst (emit now b hs ?c2)" "es = snd (emit now b hs ?c2)" "ok"
      using res e Some by (auto simp: emit_core_def Let_def case_prod_beta)
    have "ref_manifest W (cu_genesis c) m L = Some ((cu_watermarks c1, fold os_ins hs (cu_output c)), hs)"
      using expand_known [OF known e [unfolded Some]] n(3) by simp
    then have "cursor_inv O' W c' fins"
      using inv n core keep
      by (auto simp: cursor_inv_def c' core_is_emitted_def inputs_ok_def emit_state)
    then show ?thesis
      by (simp add: c' core_is_emitted_def)
  qed
qed

lemma finalize_inv:
  assumes pend: "inputs_ok O' c" and em: "set (cu_core_emitted c) \<subseteq> {cu_next_view c}" and ins: "cu_installing c = None"
    and n: "cu_next_view c = Suc n" "ref_run W (cu_genesis c) O' n = Some (L, fins)"
    and view: "ref_view W (cu_genesis c) (O' (Suc n)) L = Some ((cu_watermarks c, cu_output c), cu_delta c)"
  shows "cursor_inv O' W (fst (finalize (sequence_outcome_of (O' (Suc n))) c))
    (fins @ finalized [snd (finalize (sequence_outcome_of (O' (Suc n))) c)])"
proof -
  have "inputs_ok O' (fst (finalize (sequence_outcome_of (O' (Suc n))) c))"
    using pend by (auto simp: inputs_ok_def finalize_state omap_simps)
  moreover have "Suc (Suc n) \<notin> set (cu_core_emitted c)" "set (cu_core_emitted c) - {Suc n} \<subseteq> {Suc (Suc n)}"
    using em n(1) by auto
  ultimately show ?thesis
    using ins n view by (simp add: cursor_inv_def finalize_state core_is_emitted_def)
qed

lemma require_core_inv:
  assumes inv: "cursor_inv O' W c fins" and known: "known b W"
    and core: "core_of (O' (cu_next_view c)) = Some m" and res: "require_core now b m c = (c', es, ok)"
  shows "cursor_inv O' W c' fins \<and> finalized es = [] \<and> (ok \<longrightarrow> core_is_emitted c')"
proof (cases "core_is_emitted c")
  case True
  then show ?thesis
    using inv res by (auto simp: require_core_def)
next
  case False
  then show ?thesis
    using emit_core_inv [OF inv known False core] res by (simp add: require_core_def)
qed

lemma conclude_core_inv:
  assumes inv: "cursor_inv O' W c fins" and em: "core_is_emitted c" and o': "O' (cu_next_view c) = OCore m"
  shows "cursor_inv O' W (fst (finalize (SCore m) c)) (fins @ finalized [snd (finalize (SCore m) c)])"
proof -
  obtain n L where c: "inputs_ok O' c" "set (cu_core_emitted c) \<subseteq> {cu_next_view c}" "cu_installing c = None"
      "cu_next_view c = Suc n" "ref_run W (cu_genesis c) O' n = Some (L, fins)"
      "\<exists>m. core_of (O' (Suc n)) = Some m \<and> ref_manifest W (cu_genesis c) m L = Some ((cu_watermarks c, cu_output c), cu_delta c)"
    using inv em unfolding cursor_inv_def by auto
  then have "ref_view W (cu_genesis c) (O' (Suc n)) L = Some ((cu_watermarks c, cu_output c), cu_delta c)"
    using o' by (auto simp: ref_view_def)
  from finalize_inv [OF c(1-5) this] show ?thesis
    using o' c(4) by simp
qed

lemma conclude_full_inv:
  assumes inv: "cursor_inv O' W c fins" and em: "core_is_emitted c" and o': "O' (cu_next_view c) = OFull m t"
    and known: "known b W" and e: "expand b t c = (c1, Some hs)"
  shows "cursor_inv O' W (fst (finalize (SFull m t) (fst (emit now b hs c1))))
    (fins @ finalized [snd (finalize (SFull m t) (fst (emit now b hs c1)))])"
proof -
  let ?c2 = "fst (emit now b hs c1)"
  obtain n L where c: "inputs_ok O' c" "set (cu_core_emitted c) \<subseteq> {cu_next_view c}" "cu_installing c = None"
      "cu_next_view c = Suc n" "ref_run W (cu_genesis c) O' n = Some (L, fins)"
      "\<exists>m. core_of (O' (Suc n)) = Some m \<and> ref_manifest W (cu_genesis c) m L = Some ((cu_watermarks c, cu_output c), cu_delta c)"
    using inv em unfolding cursor_inv_def by auto
  note keep = expand_keeps [of b t c, unfolded e fst_conv]
  have core: "ref_manifest W (cu_genesis c) m L = Some ((cu_watermarks c, cu_output c), cu_delta c)"
    using c(4,6) o' by auto
  have view: "ref_view W (cu_genesis ?c2) (O' (Suc n)) L = Some ((cu_watermarks ?c2, cu_output ?c2), cu_delta ?c2)"
    using expand_known [OF known e] core o' c(4) keep by (simp add: ref_view_def emit_state)
  have "inputs_ok O' ?c2"
    using c(1) keep by (simp add: inputs_ok_def)
  from finalize_inv [OF this _ _ _ _ view] show ?thesis
    using c keep o' by simp
qed

lemma conclude_inv:
  assumes inv: "cursor_inv O' W c fins" and known: "known b W"
    and res: "conclude now b (O' (cu_next_view c)) c = (c', es, go)"
  shows "cursor_inv O' W c' (fins @ finalized es)"
proof (cases "O' (cu_next_view c)")
  case (OFull m t)
  obtain c1 es1 ok where r: "require_core now b m c = (c1, es1, ok)"
    by (cases "require_core now b m c")
  note i = require_core_inv [OF inv known _ r] and keep = require_core_keeps [OF r]
  show ?thesis
  proof (cases ok)
    case True
    obtain c2 h2 where e: "expand b t c1 = (c2, h2)"
      by (cases "expand b t c1")
    show ?thesis
    proof (cases h2)
      case None
      then have "cursor_inv O' W c2 fins"
        using i OFull expand_none [OF e [unfolded None]] by auto
      then show ?thesis
        using res OFull r True e None i by (auto simp: conclude_def)
    next
      case (Some hs)
      then show ?thesis
        using res OFull r True e i keep conclude_full_inv [of O' W c1 fins m t b c2 hs now] known
        by (auto simp: conclude_def Let_def case_prod_beta)
    qed
  qed (use res OFull r i in \<open>auto simp: conclude_def\<close>)
next
  case (OCore m)
  obtain c1 es1 ok where r: "require_core now b m c = (c1, es1, ok)"
    by (cases "require_core now b m c")
  note i = require_core_inv [OF inv known _ r] and keep = require_core_keeps [OF r]
  show ?thesis
    using res OCore r i keep conclude_core_inv [of O' W c1 fins m]
    by (cases ok) (auto simp: conclude_def Let_def case_prod_beta)
next
  case OSkip
  then have "\<not> core_is_emitted c"
    using inv by (auto simp: cursor_inv_def)
  then obtain n L where c: "inputs_ok O' c" "set (cu_core_emitted c) \<subseteq> {cu_next_view c}" "cu_installing c = None"
      "cu_next_view c = Suc n" "ref_run W (cu_genesis c) O' n = Some (L, fins)"
      "L = (cu_watermarks c, cu_output c) \<and> cu_delta c = []"
    using inv unfolding cursor_inv_def by auto
  then have "ref_view W (cu_genesis c) (O' (Suc n)) L = Some ((cu_watermarks c, cu_output c), cu_delta c)"
    using OSkip by (simp add: ref_view_def)
  from finalize_inv [OF c(1-5) this] show ?thesis
    using res OSkip c(4) by (auto simp: conclude_def Let_def case_prod_beta)
qed

lemma emit_completed_core_inv:
  assumes inv: "cursor_inv O' W c fins" and known: "known b W"
    and input: "map_of (cu_pending c) (cu_next_view c) = Some i"
    and res: "emit_completed_core now b i c = (c', es)"
  shows "cursor_inv O' W c' fins \<and> finalized es = []"
proof (cases "core_is_emitted c \<or> vi_completed i = None")
  case True
  then show ?thesis
    using res inv by (auto simp: emit_completed_core_def split: if_splits option.splits)
next
  case False
  then obtain m t where m: "vi_completed i = Some (m, t)" by auto
  have "core_of (O' (cu_next_view c)) = Some m"
    using inv input m by (simp add: cursor_inv_def inputs_ok_def)
  moreover obtain c1 es1 ok where r: "emit_core now b m c = (c1, es1, ok)"
    by (cases "emit_core now b m c")
  ultimately show ?thesis
    using emit_core_inv [OF inv known _ _ r] False m res by (simp add: emit_completed_core_def Let_def)
qed

lemma pump_round_inv:
  assumes inv: "cursor_inv O' W c fins" and known: "known b W" and res: "pump_round now b c = (c', es, go)"
  shows "cursor_inv O' W c' (fins @ finalized es)"
proof (cases "map_of (cu_pending c) (cu_next_view c)")
  case None
  then show ?thesis
    using inv res by (simp add: pump_round_def)
next
  case (Some i)
  obtain c1 es1 where c1: "emit_completed_core now b i c = (c1, es1)"
    by (cases "emit_completed_core now b i c")
  note i1 = emit_completed_core_inv [OF inv known Some c1] and keep = emit_completed_core_keeps [OF c1]
  have ins: "cu_installing c = None"
    using inv by (simp add: cursor_inv_def)
  show ?thesis
  proof (cases "vi_sealed i")
    case None
    then show ?thesis
      using res i1 by (simp add: pump_round_def Some c1 ins)
  next
    case sealed: (Some o')
    then have o': "o' = O' (cu_next_view c1)"
      using inv Some keep by (simp add: cursor_inv_def inputs_ok_def)
    obtain c2 es2 go2 where c2: "conclude now b o' c1 = (c2, es2, go2)"
      by (cases "conclude now b o' c1")
    then have "cursor_inv O' W c2 (fins @ finalized es2)"
      using conclude_inv [OF _ known] i1 o' by blast
    then show ?thesis
      using res i1 by (auto simp: pump_round_def Some c1 ins sealed c2)
  qed
qed

lemma pump_round_genesis:
  assumes "pump_round now b c = (c', es, go)"
  shows "cu_genesis c' = cu_genesis c"
  using assms emit_completed_core_keeps(3) [of now b _ c] conclude_genesis
  by (auto simp: pump_round_def Let_def split: if_splits option.splits prod.splits)

text \<open>What every round keeps, of the state and of the views finalised so far, the pump keeps.\<close>

lemma pump_keeps:
  assumes "\<And>c fins c' es go. P c fins \<Longrightarrow> pump_round now b c = (c', es, go) \<Longrightarrow> P c' (fins @ finalized es)"
  shows "P c fins \<Longrightarrow> pump now b c = (c', es) \<Longrightarrow> P c' (fins @ finalized es)"
  using assms
proof (induction now b c arbitrary: fins c' es rule: pump.induct)
  case (1 now b c)
  obtain c1 es1 go where r: "pump_round now b c = (c1, es1, go)"
    by (cases "pump_round now b c")
  note i = 1(4) [OF 1(2) r]
  show ?case
  proof (cases go)
    case True
    obtain c2 es2 where p: "pump now b c1 = (c2, es2)"
      by (cases "pump now b c1")
    have "c' = c2" "es = es1 @ es2"
      using 1(3) r True p by (simp_all add: pump.simps [of now b c])
    then show ?thesis
      using 1(1) [OF r [symmetric] refl _ i p 1(4)] True by simp
  next
    case False
    then show ?thesis
      using 1(3) r i by (simp add: pump.simps [of now b c])
  qed
qed

lemma pump_genesis: "cu_genesis (fst (pump now b c)) = cu_genesis c"
  by (rule pump_keeps [OF _ _ prod.collapse [symmetric], where P = "\<lambda>c' _. cu_genesis c' = cu_genesis c"])
    (auto dest: pump_round_genesis)

lemma pump_inv:
  "cursor_inv O' W c fins \<Longrightarrow> known b W \<Longrightarrow> pump now b c = (c', es) \<Longrightarrow> cursor_inv O' W c' (fins @ finalized es)"
  using pump_keeps [of "cursor_inv O' W" now b] pump_round_inv by blast

section \<open>Runs\<close>

datatype cursor_event =
    Complete view manifest manifest | Seal view outcome | Retry
  | Install view sequence_outcome "digest list" nat | Abort

fun cursor_apply :: "cursor_event \<Rightarrow> nat \<Rightarrow> block_cache \<Rightarrow> cursor \<Rightarrow> cursor \<times> effect list" where
  "cursor_apply (Complete v m t) now b c = on_completed now b v m t c"
| "cursor_apply (Seal v o') now b c = on_sealed now b v o' c"
| "cursor_apply Retry now b c = cu_retry now b c"
| "cursor_apply (Install v o' d budget) now b c =
     (case install_budgeted now b v o' d budget c of
        (c, Inl _) \<Rightarrow> (c, [])
      | (c, Inr (es, _, _)) \<Rightarrow> (c, es))"
| "cursor_apply Abort now b c = abort_install now b c"

fun cursor_run :: "(cursor_event \<times> nat \<times> block_cache) list \<Rightarrow> cursor \<Rightarrow> cursor \<times> effect list" where
  "cursor_run [] c = (c, [])"
| "cursor_run ((e, now, b) # rest) c =
     (case cursor_apply e now b c of (c1, es1) \<Rightarrow>
        (case cursor_run rest c1 of (c2, es2) \<Rightarrow> (c2, es1 @ es2)))"

text \<open>The three ways in which an installation call ends.\<close>

lemma install_chunk_cases:
  assumes "install_chunk now b view budget examined ip c = (c', r)"
  obtains (refused) err where "c' = c" "r = Inl err"
  | (partial) chunk where "c' = fst (emit now b chunk c)" "r = Inr (snd (emit now b chunk c), False, examined + length chunk)"
      "prefix chunk (drop (length (cu_delta c)) (ip_verified ip))" "length chunk = budget - examined"
      "set chunk \<inter> set (cu_output c) = {}"
  | (final) chunk wm where
      "c' = fst (finalize (ip_outcome ip) ((fst (emit now b chunk c))\<lparr>cu_installing := None, cu_watermarks := wm\<rparr>))"
      "r = Inr (snd (emit now b chunk c) @ [snd (finalize (ip_outcome ip) ((fst (emit now b chunk c))\<lparr>cu_installing := None, cu_watermarks := wm\<rparr>))],
                True, examined + length chunk)"
      "chunk = drop (length (cu_delta c)) (ip_verified ip)" "set chunk \<inter> set (cu_output c) = {}"
proof -
  define stop where "stop = min (length (ip_verified ip)) (length (cu_delta c) + (budget - examined))"
  define chunk where "chunk = take (stop - length (cu_delta c)) (drop (length (cu_delta c)) (ip_verified ip))"
  have new: "set chunk \<inter> set (cu_output c) = {}" if "install_missing b view chunk c = None"
    using that by (auto simp: install_missing_def find_None_iff split: option.splits)
  have all: "chunk = drop (length (cu_delta c)) (ip_verified ip)" if "stop = length (ip_verified ip)"
    using that by (simp add: chunk_def)
  have "prefix chunk (drop (length (cu_delta c)) (ip_verified ip))"
    by (simp add: chunk_def take_is_prefix)
  moreover have "length chunk = budget - examined" if "stop \<noteq> length (ip_verified ip)"
    using that by (simp add: chunk_def stop_def)
  note pre = calculation and len = this and res = assms [unfolded install_chunk_def Let_def, folded stop_def, folded chunk_def, symmetric]
  show ?thesis
  proof (cases "install_missing b view chunk c")
    case None
    then show ?thesis
      using partial [OF _ _ pre len new [OF None]] final [OF _ _ all new [OF None]] res
      by (cases "stop = length (ip_verified ip)") (simp_all add: case_prod_beta)
  next
    case (Some err)
    then show ?thesis
      using refused res by simp
  qed
qed

lemma install_genesis:
  "cu_genesis (fst (install_budgeted now b v o' d budget c)) = cu_genesis c"
proof -
  have "cu_genesis (fst (install_chunk now b v k n ip c)) = cu_genesis c" for k n ip c
    by (rule install_chunk_cases [OF prod.collapse [symmetric], of now b v k n ip c]) (simp_all add: finalize_state)
  then show ?thesis
    by (auto simp: install_budgeted_def Let_def split: sum.splits prod.splits bool.splits)
qed

text \<open>
  The inputs of a node agree with the terminal outcomes: a completed view has its core, a sealed
  view is its outcome, and the cache holds blocks of \<open>W\<close>.
\<close>

fun event_ok :: "(view \<Rightarrow> outcome) \<Rightarrow> cursor_event \<Rightarrow> bool" where
  "event_ok O' (Complete v m t) = (core_of (O' v) = Some m)"
| "event_ok O' (Seal v o') = (o' = O' v)"
| "event_ok O' Retry = True"
| "event_ok O' _ = False"

definition run_inputs_ok :: "(view \<Rightarrow> outcome) \<Rightarrow> block_cache \<Rightarrow> (cursor_event \<times> nat \<times> block_cache) list \<Rightarrow> bool" where
  "run_inputs_ok O' W es \<longleftrightarrow> list_all (\<lambda>(e, now, b). event_ok O' e \<and> known b W) es"

lemma cursor_inv_pending:
  assumes inv: "cursor_inv O' W c fins"
    and f: "\<And>i. f i = i\<lparr>vi_completed := Some (m, t)\<rparr> \<and> core_of (O' v) = Some m \<or> f i = i\<lparr>vi_sealed := Some (O' v)\<rparr>"
  shows "cursor_inv O' W (c\<lparr>cu_pending := om_upd v vi_default f (cu_pending c)\<rparr>) fins"
proof -
  have "inputs_ok O' (c\<lparr>cu_pending := om_upd v vi_default f (cu_pending c)\<rparr>)"
    unfolding inputs_ok_def
  proof (intro allI impI)
    fix u i
    assume i: "map_of (cu_pending (c\<lparr>cu_pending := om_upd v vi_default f (cu_pending c)\<rparr>)) u = Some i"
    have old: "\<And>u i. map_of (cu_pending c) u = Some i \<Longrightarrow>
       (\<forall>m t. vi_completed i = Some (m, t) \<longrightarrow> core_of (O' u) = Some m) \<and> (\<forall>o'. vi_sealed i = Some o' \<longrightarrow> o' = O' u)"
      using inv by (simp add: cursor_inv_def inputs_ok_def)
    show "(\<forall>m t. vi_completed i = Some (m, t) \<longrightarrow> core_of (O' u) = Some m) \<and> (\<forall>o'. vi_sealed i = Some o' \<longrightarrow> o' = O' u)"
    proof (cases "u = v")
      case True
      obtain j where j: "i = f j" "j = vi_default \<or> map_of (cu_pending c) v = Some j"
        using i True by (auto simp: omap_simps split: option.splits)
      then show ?thesis
        using f [of j] old [of v j] True by (auto simp: vi_default_def)
    next
      case False
      then show ?thesis
        using i old [of u i] by (simp add: omap_simps)
    qed
  qed
  then show ?thesis
    using inv unfolding cursor_inv_def core_is_emitted_def by (simp split del: if_split cong del: if_weak_cong)
qed

lemma cursor_apply_inv:
  assumes inv: "cursor_inv O' W c fins" and "known b W" "event_ok O' e" and res: "cursor_apply e now b c = (c', es)"
  shows "cursor_inv O' W c' (fins @ finalized es)"
proof (cases e)
  case (Complete v m t)
  then show ?thesis
    using assms pump_inv [OF cursor_inv_pending [OF inv, of "\<lambda>i. i\<lparr>vi_completed := Some (m, t)\<rparr>" m t v] assms(2)]
    by (auto simp: on_completed_def split: if_splits)
next
  case (Seal v o')
  then show ?thesis
    using assms pump_inv [OF cursor_inv_pending [OF inv, of "\<lambda>i. i\<lparr>vi_sealed := Some o'\<rparr>" _ _ v] assms(2)]
    by (auto simp: on_sealed_def split: if_splits)
next
  case Retry
  then show ?thesis
    using assms pump_inv [OF inv assms(2)] by (auto simp: cu_retry_def)
qed (use assms in auto)

lemma cursor_run_keeps:
  assumes "\<And>e now b c fins c' es. (e, now, b) \<in> set rs \<Longrightarrow> P c fins \<Longrightarrow> cursor_apply e now b c = (c', es)
      \<Longrightarrow> P c' (fins @ finalized es)"
  shows "P c fins \<Longrightarrow> cursor_run rs c = (c', es) \<Longrightarrow> P c' (fins @ finalized es)"
  using assms
proof (induction rs arbitrary: c fins es c')
  case (Cons r rs)
  obtain e now b where r: "r = (e, now, b)"
    by (cases r)
  obtain c1 es1 c2 es2 where s: "cursor_apply e now b c = (c1, es1)" "cursor_run rs c1 = (c2, es2)"
    by (cases "cursor_apply e now b c"; cases "cursor_run rs (fst (cursor_apply e now b c))") auto
  have "P c2 ((fins @ finalized es1) @ finalized es2)"
    using Cons.IH [OF _ s(2), of "fins @ finalized es1"] Cons.prems(1,3) s(1) r by fastforce
  then show ?case
    using Cons.prems(2) r s by auto
qed simp

lemma cursor_run_inv:
  assumes "cursor_inv O' W c fins" "run_inputs_ok O' W rs" "cursor_run rs c = (c', es)"
  shows "cursor_inv O' W c' (fins @ finalized es)"
proof (rule cursor_run_keeps [where P = "cursor_inv O' W", OF _ assms(1,3)])
  show "cursor_inv O' W d' (fs @ finalized es)"
    if "(e, now, b) \<in> set rs" "cursor_inv O' W d fs" "cursor_apply e now b d = (d', es)" for e now b d fs d' es
    using that assms(2) by (intro cursor_apply_inv) (auto simp: run_inputs_ok_def list_all_iff)
qed

lemma cursor_apply_install:
  "fst (cursor_apply (Install v o' d budget) now b c) = fst (install_budgeted now b v o' d budget c)"
  by (simp split: prod.splits sum.splits)

lemma cursor_apply_genesis: "cu_genesis (fst (cursor_apply e now b c)) = cu_genesis c"
  by (cases e) (simp_all add: cursor_apply_install on_completed_def on_sealed_def cu_retry_def abort_install_def
      pump_genesis install_genesis del: cursor_apply.simps(4))

lemma cursor_run_genesis: "cursor_run rs c = (c', es) \<Longrightarrow> cu_genesis c' = cu_genesis c"
proof (rule cursor_run_keeps [where P = "\<lambda>c' _. cu_genesis c' = cu_genesis c"])
  show "cu_genesis d' = cu_genesis c" if "cu_genesis d = cu_genesis c" "cursor_apply e now b d = (d', es)" for e now b d d' es
    using that cursor_apply_genesis [of e now b d] by simp
qed auto

lemma cursor_inv_new: "cursor_inv O' W (cursor_new g) []"
  by (simp add: cursor_inv_def cursor_new_def inputs_ok_def core_is_emitted_def)

lemma ref_run_prefix:
  "ref_run W g O' n = Some (L, fins) \<Longrightarrow> ref_run W g O' (n + k) = Some (L', fins') \<Longrightarrow> prefix fins fins'"
proof (induction k arbitrary: L' fins')
  case (Suc k)
  then obtain L1 fins1 where "ref_run W g O' (n + k) = Some (L1, fins1)" "prefix fins1 fins'"
    by (auto split: option.splits)
  with Suc.IH [OF Suc.prems(1)] show ?case
    using prefix_order.trans by blast
qed simp

section \<open>What is output\<close>

text \<open>
  The digests output so far are those of the finalised views and of the open one. They are distinct
  and form the output set; the views finalised are the first ones.
\<close>

definition committed :: "(view \<times> sequence_outcome \<times> digest list) list \<Rightarrow> cursor \<Rightarrow> digest list" where
  "committed fins c = concat (map (snd \<circ> snd) fins) @ cu_delta c"

definition output_inv :: "digest \<Rightarrow> cursor \<Rightarrow> (view \<times> sequence_outcome \<times> digest list) list \<Rightarrow> bool" where
  "output_inv g c fins \<longleftrightarrow>
     distinct (g # committed fins c) \<and> set (cu_output c) = set (g # committed fins c)
     \<and> 1 \<le> cu_next_view c \<and> map fst fins = [1..<cu_next_view c]"

text \<open>
  An installation in progress belongs to the open view; what is output of that view agrees with its
  verified digests wherever it has been compared.
\<close>

definition progress_ok :: "install_progress \<Rightarrow> cursor \<Rightarrow> bool" where
  "progress_ok ip c \<longleftrightarrow> ip_view ip = cu_next_view c \<and> distinct (ip_verified ip)
     \<and> ip_prefix_checked ip \<le> ip_prefix_len ip \<and> ip_prefix_len ip \<le> length (cu_delta c)
     \<and> length (cu_delta c) \<le> length (ip_verified ip)
     \<and> (ip_prefix_checked ip < ip_prefix_len ip \<longrightarrow> length (cu_delta c) = ip_prefix_len ip)
     \<and> (\<forall>i < length (cu_delta c). i < ip_prefix_checked ip \<or> ip_prefix_len ip \<le> i \<longrightarrow> cu_delta c ! i = ip_verified ip ! i)"

definition install_ok :: "cursor \<Rightarrow> bool" where
  "install_ok c \<longleftrightarrow> (case cu_installing c of None \<Rightarrow> True | Some ip \<Rightarrow> progress_ok ip c)"

lemma collect_new_fresh:
  "distinct out \<Longrightarrow> set out \<inter> set output = {} \<Longrightarrow>
    distinct (collect_new output out hs) \<and> set (collect_new output out hs) \<inter> set output = {}"
  by (induction "output" out hs rule: collect_new.induct) auto

lemma expand_apply_fresh:
  "distinct (snd wo) \<Longrightarrow> set (snd wo) \<inter> set output = {} \<Longrightarrow>
    distinct (snd (expand_apply output ss wo)) \<and> set (snd (expand_apply output ss wo)) \<inter> set output = {}"
  by (induction "output" ss wo rule: expand_apply.induct) (simp_all add: collect_new_fresh)

lemma expand_fresh:
  "snd (expand b m c) = Some hs \<Longrightarrow> distinct hs \<and> set hs \<inter> set (cu_output c) = {}"
  using expand_apply_fresh [of "(cu_watermarks c, [])" "cu_output c"]
  by (auto simp: expand_def Let_def case_prod_beta split: prod.splits option.splits)

lemma set_fold_os_ins: "set (fold os_ins hs xs) = set xs \<union> set hs"
  by (induction hs arbitrary: xs) (auto simp: oset_simps)

lemma committed_simps [simp]:
  "committed fins (fst (emit now b hs c)) = committed fins c @ hs"
  "committed (fins @ finalized [snd (finalize o' c)]) (fst (finalize o' c)) = committed fins c"
  by (simp_all add: committed_def emit_state finalize_state)

lemma emit_output_inv:
  assumes "output_inv g c fins" "distinct hs" "set hs \<inter> set (cu_output c) = {}"
  shows "output_inv g (fst (emit now b hs c)) fins"
  using assms by (auto simp: output_inv_def emit_state set_fold_os_ins)

lemma output_inv_cong:
  assumes "cu_output c' = cu_output c" "cu_delta c' = cu_delta c" "cu_next_view c' = cu_next_view c"
  shows "output_inv g c' fins = output_inv g c fins"
  using assms by (simp add: output_inv_def committed_def)

lemma finalize_output_inv:
  assumes "output_inv g c fins"
  shows "output_inv g (fst (finalize o' c)) (fins @ finalized [snd (finalize o' c)])"
  using assms by (simp add: output_inv_def) (simp add: finalize_state)

text \<open>The pump, while no installation is in progress.\<close>

definition idle_inv :: "digest \<Rightarrow> cursor \<Rightarrow> (view \<times> sequence_outcome \<times> digest list) list \<Rightarrow> bool" where
  "idle_inv g c fins \<longleftrightarrow> output_inv g c fins \<and> cu_installing c = None"

lemma expand_idle: "idle_inv g c fins \<Longrightarrow> idle_inv g (fst (expand b m c)) fins"
  using output_inv_cong [of "fst (expand b m c)" c] by (simp add: idle_inv_def)

lemma emit_idle:
  assumes "idle_inv g c fins" "snd (expand b m d) = Some hs" "cu_output d = cu_output c"
  shows "idle_inv g (fst (emit now b hs c)) fins"
  using assms expand_fresh [OF assms(2)] by (simp add: idle_inv_def emit_output_inv)

lemma finalize_idle:
  "idle_inv g c fins \<Longrightarrow> idle_inv g (fst (finalize o' c)) (fins @ finalized [snd (finalize o' c)])"
  using finalize_output_inv [of g c fins o'] by (simp add: idle_inv_def finalize_state)

lemma emit_core_idle:
  assumes "idle_inv g c fins" "emit_core now b m c = (c', es, ok)"
  shows "idle_inv g c' fins \<and> finalized es = []"
proof (cases "snd (expand b m c)")
  case None
  then show ?thesis
    using assms expand_idle [OF assms(1), of b m] by (auto simp: emit_core_def split: prod.splits)
next
  case (Some hs)
  let ?d = "(fst (expand b m c))\<lparr>cu_core_emitted := os_ins (cu_next_view c) (cu_core_emitted c)\<rparr>"
  have "idle_inv g ?d fins"
    using expand_idle [OF assms(1), of b m] by (simp add: idle_inv_def output_inv_def committed_def)
  from emit_idle [OF this Some] show ?thesis
    using assms(2) Some expand_keeps [of b m c]
    by (cases "expand b m c") (auto simp: emit_core_def Let_def case_prod_beta)
qed

lemma require_core_idle:
  assumes "idle_inv g c fins" "require_core now b m c = (c', es, ok)"
  shows "idle_inv g c' fins \<and> finalized es = []"
  using assms emit_core_idle [OF assms(1), of now b m c' es ok] by (auto simp: require_core_def split: if_splits)

lemma conclude_idle:
  assumes inv: "idle_inv g c fins" and res: "conclude now b o' c = (c', es, go)"
  shows "idle_inv g c' (fins @ finalized es)"
proof (cases o')
  case (OFull m t)
  obtain c1 es1 ok where r: "require_core now b m c = (c1, es1, ok)"
    by (cases "require_core now b m c")
  note i = require_core_idle [OF inv r]
  obtain c2 h where e: "expand b t c1 = (c2, h)"
    by (cases "expand b t c1")
  have i2: "idle_inv g c2 fins" "cu_output c1 = cu_output c2"
    using expand_idle [of g c1 fins b t] i e expand_keeps(4) [of b t c1] by simp_all
  show ?thesis
  proof (cases h)
    case None
    then show ?thesis
      using res OFull r i i2 e by (cases ok) (auto simp: conclude_def)
  next
    case (Some hs)
    then have "idle_inv g (fst (emit now b hs c2)) fins"
      using emit_idle [OF i2(1), of b t c1] e i2(2) by simp
    from finalize_idle [OF this] show ?thesis
      using res OFull r i e Some by (cases ok) (auto simp: conclude_def Let_def case_prod_beta)
  qed
next
  case (OCore m)
  obtain c1 es1 ok where r: "require_core now b m c = (c1, es1, ok)"
    by (cases "require_core now b m c")
  show ?thesis
    using res OCore r require_core_idle [OF inv r] finalize_idle [of g c1 fins "SCore m"]
    by (cases ok) (auto simp: conclude_def Let_def case_prod_beta)
next
  case OSkip
  then show ?thesis
    using res finalize_idle [OF inv] by (auto simp: conclude_def Let_def case_prod_beta)
qed

lemma pump_round_idle:
  assumes "idle_inv g c fins" "pump_round now b c = (c', es, go)"
  shows "idle_inv g c' (fins @ finalized es)"
proof (cases "map_of (cu_pending c) (cu_next_view c)")
  case None
  then show ?thesis
    using assms by (simp add: pump_round_def)
next
  case (Some i)
  obtain c1 es1 where c1: "emit_completed_core now b i c = (c1, es1)"
    by (cases "emit_completed_core now b i c")
  have i1: "idle_inv g c1 fins \<and> finalized es1 = []"
    using c1 assms(1) emit_core_idle [OF assms(1)]
    by (auto simp: emit_completed_core_def Let_def split: if_splits option.splits prod.splits)
  then show ?thesis
    using assms Some c1 conclude_idle [of g c1 fins now b]
    by (auto simp: pump_round_def Let_def idle_inv_def split: option.splits prod.splits)
qed

lemma pump_idle: "idle_inv g c fins \<Longrightarrow> pump now b c = (c', es) \<Longrightarrow> idle_inv g c' (fins @ finalized es)"
  using pump_keeps [of "idle_inv g" now b] pump_round_idle by blast

text \<open>An installation of the open view stops the pump.\<close>

lemma pump_output:
  assumes "output_inv g c fins" "install_ok c" "pump now b c = (c', es)"
  shows "output_inv g c' (fins @ finalized es) \<and> install_ok c'"
proof (cases "cu_installing c")
  case None
  then have "idle_inv g c' (fins @ finalized es)"
    using pump_idle assms(1,3) by (simp add: idle_inv_def)
  then show ?thesis
    by (simp add: idle_inv_def install_ok_def)
next
  case (Some ip)
  then have "ip_view ip = cu_next_view c"
    using assms(2) by (simp add: install_ok_def progress_ok_def)
  then have "pump_round now b c = (c, [], False)"
    using Some by (simp add: pump_round_def split: option.splits)
  then have "pump now b c = (c, [])"
    by (subst pump.simps) simp
  then have "c' = c" "es = []"
    using assms(3) by simp_all
  then show ?thesis
    using assms by simp
qed

lemma check_prefix_ok:
  assumes "progress_ok ip c" "n \<le> budget" "check_prefix (cu_delta c) budget (ip, n) = ((ip', n'), r)"
  shows "progress_ok ip' c \<and> ip_verified ip' = ip_verified ip \<and> ip_outcome ip' = ip_outcome ip \<and> n' \<le> budget
    \<and> (r \<longrightarrow> ip_prefix_checked ip' < ip_prefix_len ip' \<longrightarrow> n' = budget)"
  using assms
proof (induction "cu_delta c" budget "(ip, n)" arbitrary: ip n rule: check_prefix.induct)
  case (1 budget ip n)
  show ?case
  proof (cases "ip_prefix_checked ip < ip_prefix_len ip \<and> n < budget
      \<and> cu_delta c ! ip_prefix_checked ip = ip_verified ip ! ip_prefix_checked ip")
    case True
    then have "progress_ok (ip\<lparr>ip_prefix_checked := ip_prefix_checked ip + 1\<rparr>) c"
      using 1(2) by (auto simp: progress_ok_def less_Suc_eq)
    then show ?thesis
      using 1(1) 1(4) True by (simp add: check_prefix.simps [of _ _ ip])
  next
    case False
    then show ?thesis
      using 1(2-) by (auto simp: check_prefix.simps [of _ _ ip] split: if_splits)
  qed
qed

lemma progress_agrees:
  assumes "progress_ok ip c" "\<not> ip_prefix_checked ip < ip_prefix_len ip"
  shows "take (length (cu_delta c)) (ip_verified ip) = cu_delta c"
  using assms by (auto simp: progress_ok_def intro!: nth_equalityI)

lemma progress_emit:
  assumes "progress_ok ip c" "\<not> ip_prefix_checked ip < ip_prefix_len ip"
    and "prefix chunk (drop (length (cu_delta c)) (ip_verified ip))"
  shows "progress_ok ip (fst (emit now b chunk c))"
proof -
  obtain rest where rest: "drop (length (cu_delta c)) (ip_verified ip) = chunk @ rest"
    using assms(3) by (auto simp: prefix_def)
  have v: "ip_verified ip = (cu_delta c @ chunk) @ rest"
    using append_take_drop_id [of "length (cu_delta c)" "ip_verified ip"] progress_agrees [OF assms(1,2)] rest by simp
  have "(cu_delta c @ chunk) ! i = ip_verified ip ! i" if "i < length (cu_delta c @ chunk)" for i
    unfolding v nth_append [of "cu_delta c @ chunk" rest] using that by simp
  moreover have "length (cu_delta c @ chunk) \<le> length (ip_verified ip)"
    unfolding v by simp
  ultimately show ?thesis
    using assms(1,2) unfolding progress_ok_def emit_state emit_keeps by auto
qed

lemma install_begin_ok:
  assumes "install_ok c" "distinct d" "install_begin v o' d c = Inr ip"
  shows "progress_ok ip c"
    and "ip_outcome ip = (case cu_installing c of None \<Rightarrow> o' | Some i \<Rightarrow> ip_outcome i)"
    and "ip_verified ip = (case cu_installing c of None \<Rightarrow> d | Some i \<Rightarrow> ip_verified i)"
  using assms by (auto simp: install_begin_def install_ok_def progress_ok_def split: if_splits option.splits)

text \<open>A call of the installation keeps the invariant, and finalises with the verified digests.\<close>

lemma install_chunk_output:
  assumes inv: "output_inv g c fins" and ok: "progress_ok ip c" "\<not> ip_prefix_checked ip < ip_prefix_len ip"
    and ins: "cu_installing c = Some ip" and res: "install_chunk now b v k n ip c = (c', r)"
  shows "case r of
      Inl _ \<Rightarrow> c' = c
    | Inr (es, done, n') \<Rightarrow> output_inv g c' (fins @ finalized es) \<and> install_ok c'
        \<and> finalized es = (if done then [(cu_next_view c, ip_outcome ip, ip_verified ip)] else [])
        \<and> (\<not> done \<longrightarrow> n \<le> k \<longrightarrow> n' = k)"
proof -
  have fresh: "distinct (drop (length (cu_delta c)) (ip_verified ip))"
    using ok(1) by (simp add: progress_ok_def)
  from res show ?thesis
  proof (cases rule: install_chunk_cases)
    case (partial chunk)
    then have "distinct chunk"
      using fresh by (auto simp: prefix_def)
    then show ?thesis
      using partial emit_output_inv [OF inv] progress_emit [OF ok] ins by (simp add: install_ok_def)
  next
    case (final chunk wm)
    let ?d = "(fst (emit now b chunk c))\<lparr>cu_installing := None, cu_watermarks := wm\<rparr>"
    have "cu_delta c @ chunk = ip_verified ip"
      using final(3) progress_agrees [OF ok] append_take_drop_id [of "length (cu_delta c)" "ip_verified ip"] by simp
    then have "finalized [snd (finalize (ip_outcome ip) ?d)] = [(cu_next_view c, ip_outcome ip, ip_verified ip)]"
      by (simp add: finalize_state emit_state)
    moreover have "output_inv g ?d fins"
      using emit_output_inv [OF inv, of chunk now b] fresh final(3,4) output_inv_cong [of ?d "fst (emit now b chunk c)"]
      by simp
    ultimately show ?thesis
      using final(1,2) finalize_output_inv [of g ?d fins "ip_outcome ip"]
      by (simp add: install_ok_def finalize_state(1))
  qed simp
qed

definition install_result_ok ::
    "digest \<Rightarrow> (view \<times> sequence_outcome \<times> digest list) list \<Rightarrow> nat \<Rightarrow> view \<times> sequence_outcome \<times> digest list \<Rightarrow> cursor
       \<Rightarrow> cursor \<times> (install_error + effect list \<times> bool \<times> nat) \<Rightarrow> bool" where
  "install_result_ok g fins k fin c res \<longleftrightarrow>
     (case res of
        (c', Inl _) \<Rightarrow> output_inv g c' fins \<and> install_ok c' \<and> cu_output c' = cu_output c \<and> cu_delta c' = cu_delta c \<and> cu_next_view c' = cu_next_view c
      | (c', Inr (es, done, n)) \<Rightarrow> output_inv g c' (fins @ finalized es) \<and> install_ok c'
          \<and> finalized es = (if done then [fin] else []) \<and> (\<not> done \<longrightarrow> n = k))"

lemma install_output:
  assumes inv: "output_inv g c fins" "install_ok c" and "distinct d"
  shows "install_result_ok g fins (max k 1)
     (v, case cu_installing c of None \<Rightarrow> (o', d) | Some ip \<Rightarrow> (ip_outcome ip, ip_verified ip)) c
     (install_budgeted now b v o' d k c)"
proof (cases "install_begin v o' d c")
  case (Inl e)
  then show ?thesis
    using inv by (simp add: install_budgeted_def install_result_ok_def)
next
  case (Inr ip)
  note ip = install_begin_ok [OF inv(2) assms(3) Inr]
  have v: "v = cu_next_view c"
    using Inr by (simp add: install_begin_def split: if_splits)
  obtain ip' n r where p: "check_prefix (cu_delta c) (max k 1) (ip, 0) = ((ip', n), r)"
    by (metis prod.collapse)
  let ?c = "c\<lparr>cu_installing := Some ip'\<rparr>"
  have p': "progress_ok ip' c" "ip_verified ip' = ip_verified ip" "ip_outcome ip' = ip_outcome ip" "n \<le> max k 1"
      "r \<Longrightarrow> ip_prefix_checked ip' < ip_prefix_len ip' \<Longrightarrow> n = max k 1"
    using check_prefix_ok [OF ip(1) _ p] by simp_all
  have ok: "progress_ok ip' ?c" "output_inv g ?c fins"
    using p'(1) inv(1) output_inv_cong [of ?c c] by (simp_all add: progress_ok_def)
  show ?thesis
  proof (cases "r \<and> \<not> ip_prefix_checked ip' < ip_prefix_len ip'")
    case True
    obtain c' res where r: "install_chunk now b v (max k 1) n ip' ?c = (c', res)"
      by (metis prod.collapse)
    have "install_budgeted now b v o' d k c = (c', res)"
      using Inr p True r by (simp add: install_budgeted_def Let_def)
    then show ?thesis
      using install_chunk_output [OF ok(2,1) _ _ r] True ok p'(2-4) ip(2,3) v
      by (auto simp: install_result_ok_def install_ok_def split: sum.splits option.splits)
  next
    case False
    then show ?thesis
      using Inr p p' ok by (cases r) (auto simp: install_budgeted_def Let_def install_result_ok_def install_ok_def)
  qed
qed

text \<open>The runs whose installations are given distinct digests.\<close>

definition installs_distinct :: "(cursor_event \<times> nat \<times> block_cache) list \<Rightarrow> bool" where
  "installs_distinct rs \<longleftrightarrow> list_all (\<lambda>(e, _). case e of Install _ _ d _ \<Rightarrow> distinct d | _ \<Rightarrow> True) rs"

lemma pending_output:
  "output_inv g (c\<lparr>cu_pending := p\<rparr>) fins = output_inv g c fins" "install_ok (c\<lparr>cu_pending := p\<rparr>) = install_ok c"
  "output_inv g (c\<lparr>cu_installing := ip\<rparr>) fins = output_inv g c fins"
  by (simp_all add: output_inv_def committed_def install_ok_def progress_ok_def split: option.splits)

lemma pump_pending_output:
  assumes "output_inv g c fins" "install_ok c" "pump now b (c\<lparr>cu_pending := p\<rparr>) = (c', es)"
  shows "output_inv g c' (fins @ finalized es) \<and> install_ok c'"
  using pump_output [OF _ _ assms(3)] assms(1,2) by (simp add: pending_output)

lemma cursor_apply_output:
  assumes inv: "output_inv g c fins" "install_ok c" and d: "case e of Install _ _ d _ \<Rightarrow> distinct d | _ \<Rightarrow> True"
    and res: "cursor_apply e now b c = (c', es)"
  shows "output_inv g c' (fins @ finalized es) \<and> install_ok c'"
proof (cases e)
  case (Complete v m t)
  then show ?thesis
    using inv res pump_pending_output [OF inv] by (simp add: on_completed_def split: if_splits)
next
  case (Seal v o')
  then show ?thesis
    using inv res pump_pending_output [OF inv] by (simp add: on_sealed_def split: if_splits)
next
  case Retry
  then show ?thesis
    using res pump_output [OF inv] by (simp add: cu_retry_def)
next
  case (Install v o' dl k)
  then show ?thesis
    using install_output [OF inv, of dl k v o' now b] d res inv
    by (auto simp: install_result_ok_def split: prod.splits sum.splits)
next
  case Abort
  then show ?thesis
    using inv res pump_output [of g "c\<lparr>cu_installing := None\<rparr>"] pending_output
    by (simp add: abort_install_def install_ok_def)
qed

lemma cursor_run_output:
  assumes "installs_distinct rs" "cursor_run rs (cursor_new g) = (c, es)"
  shows "output_inv g c (finalized es) \<and> install_ok c"
proof -
  have "output_inv g (cursor_new g) [] \<and> install_ok (cursor_new g)"
    by (simp add: output_inv_def committed_def cursor_new_def install_ok_def)
  then have "output_inv g c ([] @ finalized es) \<and> install_ok c"
  proof (rule cursor_run_keeps [where P = "\<lambda>c fins. output_inv g c fins \<and> install_ok c", OF _ _ assms(2), rotated])
    show "output_inv g d' (fs @ finalized es) \<and> install_ok d'"
      if "(e, now, b) \<in> set rs" "output_inv g d fs \<and> install_ok d" "cursor_apply e now b d = (d', es)" for e now b d fs d' es
      using that assms(1) cursor_apply_output [of g d fs e now b d' es]
      by (auto simp: installs_distinct_def list_all_iff)
  qed
  then show ?thesis by simp
qed

section \<open>Properties\<close>

text \<open>C1. Nodes commit the same sequence: whatever the order in which completions, seals and blocks
  reach two cursors, if their inputs agree with one assignment of terminal outcomes to views and
  their caches hold the same block under a digest, then the views one of them has finalised, with
  their outcomes and their output digests, are a prefix of those of the other.\<close>

theorem cursors_agree:
  assumes "run_inputs_ok O' W es1" "run_inputs_ok O' W es2"
  shows "prefix (finalized (snd (cursor_run es1 (cursor_new g)))) (finalized (snd (cursor_run es2 (cursor_new g))))
    \<or> prefix (finalized (snd (cursor_run es2 (cursor_new g)))) (finalized (snd (cursor_run es1 (cursor_new g))))"
proof -
  obtain c1 o1 c2 o2 where r: "cursor_run es1 (cursor_new g) = (c1, o1)" "cursor_run es2 (cursor_new g) = (c2, o2)"
    by (cases "cursor_run es1 (cursor_new g)"; cases "cursor_run es2 (cursor_new g)")
  have i1: "cursor_inv O' W c1 (finalized o1)" and i2: "cursor_inv O' W c2 (finalized o2)"
    using cursor_run_inv [OF cursor_inv_new] assms r by fastforce+
  have g: "cu_genesis c1 = g" "cu_genesis c2 = g"
    using cursor_run_genesis [OF r(1)] cursor_run_genesis [OF r(2)] by (simp_all add: cursor_new_def)
  obtain n1 L1 where n1: "ref_run W g O' n1 = Some (L1, finalized o1)"
    using i1 g by (auto simp: cursor_inv_def)
  obtain n2 L2 where n2: "ref_run W g O' n2 = Some (L2, finalized o2)"
    using i2 g by (auto simp: cursor_inv_def)
  show ?thesis
    using ref_run_prefix [of W g O' n1 L1 _ "n2 - n1"] ref_run_prefix [of W g O' n2 L2 _ "n1 - n2"] n1 n2 r
    by (cases "n1 \<le> n2") auto
qed


text \<open>C25. An installation call at a reachable cursor either is refused and outputs nothing, or it
  outputs a part of the verified digests fixed by the first call and uses its whole budget, or it
  finalises the view with exactly the fixed outcome and digests.\<close>

theorem install_delivers_verified:
  assumes "installs_distinct rs" "cursor_run rs (cursor_new g) = (c, es)" "distinct d"
  shows "case install_budgeted now b v o' d k c of
      (c', Inl _) \<Rightarrow> cu_output c' = cu_output c \<and> cu_delta c' = cu_delta c \<and> cu_next_view c' = cu_next_view c
    | (c', Inr (es', False, n)) \<Rightarrow> finalized es' = [] \<and> n = max k 1
    | (c', Inr (es', True, n)) \<Rightarrow>
        finalized es' = [(v, case cu_installing c of None \<Rightarrow> (o', d) | Some ip \<Rightarrow> (ip_outcome ip, ip_verified ip))]"
  using install_output [OF conjunct1 [OF cursor_run_output] conjunct2 [OF cursor_run_output], OF assms(1,2,1-3), of k v o' now b]
  by (auto simp: install_result_ok_def split: prod.splits sum.splits bool.splits)

section \<open>Witnesses\<close>

definition demo_outcome :: "view \<Rightarrow> outcome" where
  "demo_outcome v = (if v = 1 then OFull [(PublicKey 1, 1, Digest 11)] [(PublicKey 1, 2, Digest 12)] else OSkip)"

definition demo_seals :: "(cursor_event \<times> nat \<times> block_cache) list" where
  "demo_seals = [(Seal 2 OSkip, 0, demo_cache), (Seal 1 (demo_outcome 1), 0, demo_cache)]"

definition demo_completes :: "(cursor_event \<times> nat \<times> block_cache) list" where
  "demo_completes = [(Complete 1 [(PublicKey 1, 1, Digest 11)] [(PublicKey 1, 2, Digest 12)], 0, demo_cache),
     (Seal 1 (demo_outcome 1), 0, demo_cache)]"

lemma demo_suffixes:
  "classify_suffix 0 (Digest 0) (Digest 11) demo_cache = SWReady [Digest 11]"
  "classify_suffix (Suc 0) (Digest 11) (Digest 12) demo_cache = SWReady [Digest 12]"
  by (simp_all add: classify_suffix_def demo_cache_simps)

lemma pump_eval:
  "pump now b c =
     (if snd (snd (pump_round now b c))
      then map_prod id (\<lambda>es. fst (snd (pump_round now b c)) @ es) (pump now b (fst (pump_round now b c)))
      else (fst (pump_round now b c), fst (snd (pump_round now b c))))"
  by (subst pump.simps) (simp add: case_prod_beta map_prod_def split: bool.split)

lemmas cursor_evals = pump_eval pump_round_def emit_completed_core_def conclude_def require_core_def emit_core_def
  expand_def emit_def finalize_def cu_advance_def core_is_emitted_def om_upd_def om_del_def os_del_def vi_default_def
  cursor_new_def on_sealed_def on_completed_def demo_outcome_def demo_suffixes

lemma demo_finalized:
  "finalized (snd (cursor_run demo_seals (cursor_new (Digest 0)))) =
     [(1, SFull [(PublicKey 1, 1, Digest 11)] [(PublicKey 1, 2, Digest 12)], [Digest 11, Digest 12]), (2, SSkip, [])]"
  by (simp add: demo_seals_def cursor_evals)

lemma known_refl: "known b b"
  by (simp add: known_def same_position_def)

theorem cursors_agree_witness:
  "run_inputs_ok demo_outcome demo_cache demo_seals \<and> run_inputs_ok demo_outcome demo_cache demo_completes
   \<and> length (finalized (snd (cursor_run demo_seals (cursor_new (Digest 0))))) = 2
   \<and> (prefix (finalized (snd (cursor_run demo_seals (cursor_new (Digest 0)))))
        (finalized (snd (cursor_run demo_completes (cursor_new (Digest 0)))))
     \<or> prefix (finalized (snd (cursor_run demo_completes (cursor_new (Digest 0)))))
        (finalized (snd (cursor_run demo_seals (cursor_new (Digest 0))))))"
proof -
  have "run_inputs_ok demo_outcome demo_cache demo_seals" "run_inputs_ok demo_outcome demo_cache demo_completes"
    by (simp_all add: run_inputs_ok_def demo_seals_def demo_completes_def known_refl demo_outcome_def)
  then show ?thesis
    using cursors_agree [of demo_outcome demo_cache demo_seals demo_completes "Digest 0"] demo_finalized by simp
qed


lemma demo_install:
  "\<exists>c' es' n. install_budgeted 0 demo_cache 1 (SCore [(PublicKey 1, 1, Digest 11)]) [Digest 11] 1 (cursor_new (Digest 0))
     = (c', Inr (es', True, n))"
  by (simp add: install_budgeted_def install_begin_def install_chunk_def install_missing_def check_prefix.simps
      cursor_new_def emit_def finalize_def Let_def demo_cache_simps)

theorem install_delivers_verified_witness:
  "\<exists>c' es' n. install_budgeted 0 demo_cache 1 (SCore [(PublicKey 1, 1, Digest 11)]) [Digest 11] 1 (cursor_new (Digest 0))
     = (c', Inr (es', True, n)) \<and> finalized es' = [(1, SCore [(PublicKey 1, 1, Digest 11)], [Digest 11])]"
proof -
  obtain c' es' n where r: "install_budgeted 0 demo_cache 1 (SCore [(PublicKey 1, 1, Digest 11)]) [Digest 11] 1
      (cursor_new (Digest 0)) = (c', Inr (es', True, n))"
    using demo_install by blast
  have "cursor_run [] (cursor_new (Digest 0)) = (cursor_new (Digest 0), [])" "installs_distinct []"
    by (simp_all add: installs_distinct_def)
  from install_delivers_verified [OF this(2,1), where d = "[Digest 11]" and now = 0 and b = demo_cache and v = 1
      and o' = "SCore [(PublicKey 1, 1, Digest 11)]" and k = 1]
  have "finalized es' = [(1, SCore [(PublicKey 1, 1, Digest 11)], [Digest 11])]"
    unfolding r by (simp add: cursor_new_def)
  with r show ?thesis by blast
qed

end
