(* ===== verification/Pacemaker.thy ===== *)
theory Pacemaker
  imports Effects "HOL-Library.Multiset"
begin

text \<open>
  View entry by wishes (\<^verbatim>\<open>primary/src/vantage/pacemaker.rs\<close>): every node keeps the largest wish it
  received first-hand from each author, amplifies a wish that \<open>f + 1\<close> authors reached and enters
  views up to the one that \<open>n - f\<close> authors reached. A failed index or \<^verbatim>\<open>expect\<close> of the source is
  \<^const>\<open>None\<close>.
\<close>

section \<open>State and operations\<close>

record pacemaker =
  omega :: "view list"
  pm_index_of :: "(public_key, nat) omap"
  pm_own_index :: nat
  pm_f_plus_1_parties :: nat
  pm_quorum_parties :: nat
  own_watermark :: view
  entry_target :: view
  largest_entered_view :: view

definition pacemaker_new :: "public_key \<Rightarrow> committee \<Rightarrow> pacemaker option" where
  "pacemaker_new name c =
     (let names = map fst (authorities c);
          n = length names;
          th = from_party_count n;
          index_of = zip names [0..<n]
      in case map_of index_of name of
           None \<Rightarrow> None
         | Some own_index \<Rightarrow> Some
             \<lparr>omega = replicate n 0, pm_index_of = index_of, pm_own_index = own_index,
              pm_f_plus_1_parties = f_plus_1_parties th, pm_quorum_parties = n_minus_f_parties th,
              own_watermark = 0, entry_target = 0, largest_entered_view = 0\<rparr>)"

text \<open>\<^verbatim>\<open>select_nth_unstable_by\<close> in descending order, at \<open>k - 1\<close>.\<close>

definition kth_largest :: "nat \<Rightarrow> pacemaker \<Rightarrow> view option" where
  "kth_largest k p =
     (if 1 \<le> k \<and> k \<le> length (omega p) then Some (rev (sort (omega p)) ! (k - 1)) else None)"

definition omega_plus :: "pacemaker \<Rightarrow> view option" where
  "omega_plus p = kth_largest (pm_f_plus_1_parties p) p"

definition omega_q :: "pacemaker \<Rightarrow> view option" where
  "omega_q p = kth_largest (pm_quorum_parties p) p"

definition omega_of :: "pacemaker \<Rightarrow> public_key \<Rightarrow> view option" where
  "omega_of p author =
     (case map_of (pm_index_of p) author of
        None \<Rightarrow> None
      | Some i \<Rightarrow> if i < length (omega p) then Some (omega p ! i) else None)"

function enter_loop :: "view \<Rightarrow> pacemaker \<times> effect list \<Rightarrow> pacemaker \<times> effect list" where
  "enter_loop target (p, es) =
     (if largest_entered_view p < target
      then let p = p\<lparr>largest_entered_view := largest_entered_view p + 1\<rparr>
           in enter_loop target (p, es @ [Enter (largest_entered_view p)])
      else (p, es))"
  by pat_completeness auto
termination
  by (relation "measure (\<lambda>(target, p, es). target - largest_entered_view p)") auto

definition advance_entry_target :: "view \<Rightarrow> pacemaker \<Rightarrow> pacemaker \<times> effect list" where
  "advance_entry_target w p =
     (if w > entry_target p then enter_loop w (p\<lparr>entry_target := w\<rparr>, []) else (p, []))"

definition set_own :: "view \<Rightarrow> pacemaker \<Rightarrow> pacemaker" where
  "set_own x p = p\<lparr>omega := (omega p)[pm_own_index p := x], own_watermark := x\<rparr>"

definition raise_own_wish :: "view \<Rightarrow> pacemaker \<Rightarrow> (pacemaker \<times> effect list) option" where
  "raise_own_wish x p =
     (if x \<le> own_watermark p then Some (p, [])
      else let p = set_own x p
           in case omega_q p of None \<Rightarrow> None | Some w \<Rightarrow> Some (advance_entry_target w p))"

definition pm_genesis :: "pacemaker \<Rightarrow> (pacemaker \<times> effect list) option" where
  "pm_genesis p =
     (case raise_own_wish 2 (p\<lparr>largest_entered_view := 1\<rparr>) of
        None \<Rightarrow> None
      | Some (p', es) \<Rightarrow> Some (p', BroadcastWish 2 # es))"

definition on_wish :: "public_key \<Rightarrow> view \<Rightarrow> pacemaker \<Rightarrow> (pacemaker \<times> effect list) option" where
  "on_wish sender x p =
     (case map_of (pm_index_of p) sender of
        None \<Rightarrow> Some (p, [])
      | Some idx \<Rightarrow>
          if idx < length (omega p) then
            let p = (if x > omega p ! idx then p\<lparr>omega := (omega p)[idx := x]\<rparr> else p)
            in case omega_plus p of
                 None \<Rightarrow> None
               | Some w \<Rightarrow>
                   let (p, amplified) =
                         (if w > own_watermark p then (set_own w p, [BroadcastWish w]) else (p, []))
                   in case omega_q p of
                        None \<Rightarrow> None
                      | Some wq \<Rightarrow>
                          let (p, es) = advance_entry_target wq p in Some (p, amplified @ es)
          else None)"

definition fast_forward_installed_entry :: "view \<Rightarrow> pacemaker \<Rightarrow> pacemaker" where
  "fast_forward_installed_entry next_live p =
     (let p = (if next_live > entry_target p then p\<lparr>entry_target := next_live\<rparr> else p);
          p = (if next_live > largest_entered_view p then p\<lparr>largest_entered_view := next_live\<rparr> else p)
      in if next_live > own_watermark p then set_own next_live p else p)"

section \<open>Runs\<close>

datatype pm_event = Wish public_key view | OwnWish view | FastForward view

fun pm_apply :: "pm_event \<Rightarrow> pacemaker \<Rightarrow> (pacemaker \<times> effect list) option" where
  "pm_apply (Wish a x) p = on_wish a x p"
| "pm_apply (OwnWish x) p = raise_own_wish x p"
| "pm_apply (FastForward v) p = Some (fast_forward_installed_entry v p, [])"

fun pm_run :: "pm_event list \<Rightarrow> pacemaker \<Rightarrow> (pacemaker \<times> effect list) option" where
  "pm_run [] p = Some (p, [])"
| "pm_run (e # es) p =
     (case pm_apply e p of
        None \<Rightarrow> None
      | Some (p1, out1) \<Rightarrow>
          (case pm_run es p1 of None \<Rightarrow> None | Some (p2, out2) \<Rightarrow> Some (p2, out1 @ out2)))"

section \<open>The k-th largest wish\<close>

lemma sorted_desc_nth_ge:
  fixes vs :: "view list"
  assumes "1 \<le> k" "k \<le> length vs"
  shows "x \<le> rev (sort vs) ! (k - 1) \<longleftrightarrow> k \<le> length (filter (\<lambda>y. x \<le> y) vs)"
proof -
  define s where "s = sort vs"
  have s: "sorted s" "length s = length vs"
    by (simp_all add: s_def)
  have "length (filter (\<lambda>y. x \<le> y) vs) = length (filter (\<lambda>y. x \<le> y) s)"
    unfolding s_def by (metis mset_filter mset_sort size_mset)
  also have "\<dots> = card {i. i < length s \<and> x \<le> s ! i}"
    by (simp add: length_filter_conv_card)
  finally have len: "length (filter (\<lambda>y. x \<le> y) vs) = card {i. i < length s \<and> x \<le> s ! i}" .
  have nth: "rev (sort vs) ! (k - 1) = s ! (length s - k)"
    using assms s by (simp add: rev_nth flip: s_def)
  show ?thesis
  proof
    assume "x \<le> rev (sort vs) ! (k - 1)"
    then have "{length s - k..<length s} \<subseteq> {i. i < length s \<and> x \<le> s ! i}"
      unfolding nth using s(1) by (auto simp: sorted_iff_nth_mono intro: order_trans)
    then have "card {length s - k..<length s} \<le> card {i. i < length s \<and> x \<le> s ! i}"
      by (intro card_mono) auto
    then show "k \<le> length (filter (\<lambda>y. x \<le> y) vs)"
      unfolding len using assms s by simp
  next
    assume k: "k \<le> length (filter (\<lambda>y. x \<le> y) vs)"
    show "x \<le> rev (sort vs) ! (k - 1)"
    proof (rule ccontr)
      assume neg: "\<not> x \<le> rev (sort vs) ! (k - 1)"
      have "{i. i < length s \<and> x \<le> s ! i} \<subseteq> {Suc (length s - k)..<length s}"
      proof
        fix i assume i: "i \<in> {i. i < length s \<and> x \<le> s ! i}"
        have "\<not> i \<le> length s - k"
        proof
          assume "i \<le> length s - k"
          then have "s ! i \<le> s ! (length s - k)"
            using s assms by (intro sorted_nth_mono) auto
          with i neg show False
            unfolding nth by auto
        qed
        with i show "i \<in> {Suc (length s - k)..<length s}" by auto
      qed
      then have "card {i. i < length s \<and> x \<le> s ! i} \<le> card {Suc (length s - k)..<length s}"
        by (rule card_mono [OF finite_atLeastLessThan])
      also have "\<dots> \<le> k - 1"
        using assms s by simp
      finally have "card {i. i < length s \<and> x \<le> s ! i} \<le> k - 1" .
      with k assms(1) show False
        unfolding len by simp
    qed
  qed
qed

definition wished :: "view \<Rightarrow> pacemaker \<Rightarrow> nat set" where
  "wished x p = {i. i < length (omega p) \<and> x \<le> omega p ! i}"

lemma finite_wished [simp]: "finite (wished x p)"
  by (simp add: wished_def)

lemma kth_largest_ge:
  "kth_largest k p = Some v \<Longrightarrow> x \<le> v \<longleftrightarrow> k \<le> card (wished x p)"
  using sorted_desc_nth_ge [of k "omega p" x]
  by (auto simp: kth_largest_def wished_def length_filter_conv_card split: if_splits)

lemma kth_largest_le_iff:
  assumes "1 \<le> k" "k \<le> length (omega p)"
  shows "(\<exists>v. kth_largest k p = Some v \<and> v \<le> m) \<longleftrightarrow> card (wished (Suc m) p) < k"
proof -
  obtain v where v: "kth_largest k p = Some v"
    using assms by (simp add: kth_largest_def)
  show ?thesis
    using kth_largest_ge [OF v, of "Suc m"] v by auto
qed

lemma kth_largest_bound: "kth_largest k p = Some v \<Longrightarrow> v \<le> m \<Longrightarrow> card (wished (Suc m) p) < k"
  using kth_largest_ge [of k p v "Suc m"] by simp

lemma kth_largest_le: "kth_largest k p = Some v \<Longrightarrow> card (wished (Suc m) p) < k \<Longrightarrow> v \<le> m"
  using kth_largest_ge [of k p v "Suc m"] by simp

declare enter_loop.simps [simp del]

lemma enter_loop_eq:
  "enter_loop target (p, es) =
     (p\<lparr>largest_entered_view := max (largest_entered_view p) target\<rparr>,
      es @ map Enter [Suc (largest_entered_view p)..<Suc target])"
proof (induction target "(p, es)" arbitrary: p es rule: enter_loop.induct)
  case (1 target p es)
  show ?case
  proof (cases "largest_entered_view p < target")
    case True
    then have "[Suc (largest_entered_view p)..<Suc target] =
        Suc (largest_entered_view p) # [Suc (Suc (largest_entered_view p))..<Suc target]"
      by (intro upt_conv_Cons) simp
    with True show ?thesis
      using 1 [OF True refl] by (simp add: enter_loop.simps [of target p es] Let_def max_def del: upt_Suc)
  next
    case False
    then show ?thesis
      by (simp add: enter_loop.simps [of target p es] max_def)
  qed
qed

lemma advance_entry_target_eq:
  "advance_entry_target w p =
     (if w > entry_target p
      then (p\<lparr>entry_target := w, largest_entered_view := max (largest_entered_view p) w\<rparr>,
            map Enter [Suc (largest_entered_view p)..<Suc w])
      else (p, []))"
  by (simp add: advance_entry_target_def enter_loop_eq)

section \<open>Invariant\<close>

definition party_index :: "committee \<Rightarrow> (public_key, nat) omap" where
  "party_index c = zip (map fst (authorities c)) [0..<committee_size c]"

definition pm_ok :: "committee \<Rightarrow> public_key \<Rightarrow> pacemaker \<Rightarrow> bool" where
  "pm_ok c name p \<longleftrightarrow>
     length (omega p) = committee_size c
     \<and> pm_index_of p = party_index c
     \<and> map_of (party_index c) name = Some (pm_own_index p)
     \<and> pm_f_plus_1_parties p = f_plus_1_parties (from_committee c)
     \<and> pm_quorum_parties p = n_minus_f_parties (from_committee c)
     \<and> omega p ! pm_own_index p = own_watermark p"

definition pm_settled :: "pacemaker \<Rightarrow> bool" where
  "pm_settled p \<longleftrightarrow>
     card (wished (Suc (own_watermark p)) p) < pm_f_plus_1_parties p
     \<and> card (wished (Suc (entry_target p)) p) < pm_quorum_parties p
     \<and> entry_target p \<le> largest_entered_view p"

text \<open>What the later state may differ in: wishes and registers only grow.\<close>

definition pm_le :: "pacemaker \<Rightarrow> pacemaker \<Rightarrow> bool" where
  "pm_le p q \<longleftrightarrow>
     length (omega q) = length (omega p)
     \<and> (\<forall>i < length (omega p). omega p ! i \<le> omega q ! i)
     \<and> own_watermark p \<le> own_watermark q \<and> entry_target p \<le> entry_target q
     \<and> largest_entered_view p \<le> largest_entered_view q"

lemma pm_le_refl [simp]: "pm_le p p"
  by (simp add: pm_le_def)

lemma pm_le_trans: "pm_le p q \<Longrightarrow> pm_le q r \<Longrightarrow> pm_le p r"
  by (auto simp: pm_le_def intro: order_trans)

lemma wished_mono: "pm_le p q \<Longrightarrow> wished x p \<subseteq> wished x q"
  by (auto simp: pm_le_def wished_def intro: order_trans)

lemma zip_upt_lookup:
  "map_of (zip ks [0..<n]) a = Some i \<Longrightarrow> n = length ks \<Longrightarrow> i < n \<and> ks ! i = a"
  by (drule map_of_SomeD) (auto simp: set_zip)

lemma index_lookup:
  assumes "pm_ok c name p" "map_of (pm_index_of p) a = Some i"
  shows "i < length (omega p) \<and> map fst (authorities c) ! i = a"
proof -
  have "pm_index_of p = zip (map fst (authorities c)) [0..<committee_size c]"
    "length (omega p) = committee_size c"
    using assms(1) by (simp_all add: pm_ok_def party_index_def)
  with assms(2) zip_upt_lookup [of "map fst (authorities c)" "committee_size c" a i] show ?thesis
    by (simp add: committee_size_def)
qed

lemma own_index_bound: "pm_ok c name p \<Longrightarrow> pm_own_index p < length (omega p)"
  by (rule index_lookup [THEN conjunct1]) (auto simp: pm_ok_def)

lemma own_value: "pm_ok c name p \<Longrightarrow> omega p ! pm_own_index p = own_watermark p"
  by (simp add: pm_ok_def)

lemma wished_list_update:
  "i < length (omega p) \<Longrightarrow> wished x (p\<lparr>omega := (omega p)[i := v]\<rparr>) =
     (if x \<le> v then insert i (wished x p) else wished x p - {i})"
  by (auto simp: wished_def nth_list_update split: if_splits)

lemma wished_set_own:
  assumes "pm_ok c name p"
  shows "wished x (set_own v p) =
     (if x \<le> v then insert (pm_own_index p) (wished x p) else wished x p - {pm_own_index p})"
proof -
  have "wished x (set_own v p) = wished x (p\<lparr>omega := (omega p)[pm_own_index p := v]\<rparr>)"
    by (simp add: set_own_def wished_def)
  then show ?thesis
    using own_index_bound [OF assms] by (simp add: wished_list_update)
qed

lemma pm_ok_set_own:
  assumes "pm_ok c name p"
  shows "pm_ok c name (set_own v p)"
  using assms own_index_bound [OF assms] unfolding pm_ok_def set_own_def by simp

lemma pm_le_update:
  "i < length (omega p) \<Longrightarrow> omega p ! i \<le> v \<Longrightarrow> pm_le p (p\<lparr>omega := (omega p)[i := v]\<rparr>)"
  by (auto simp: pm_le_def nth_list_update)

lemma pm_le_set_own:
  assumes "pm_ok c name p" "own_watermark p \<le> v"
  shows "pm_le p (set_own v p)"
  using pm_le_update [OF own_index_bound [OF assms(1)], of v] assms(2) own_value [OF assms(1)]
  by (simp add: pm_le_def set_own_def)

lemma pm_ok_cong:
  "pm_ok c name p \<Longrightarrow> pm_ok c name (p\<lparr>entry_target := e, largest_entered_view := l\<rparr>)"
  "pm_ok c name p \<Longrightarrow> pm_ok c name (p\<lparr>entry_target := e\<rparr>)"
  "pm_ok c name p \<Longrightarrow> pm_ok c name (p\<lparr>largest_entered_view := l\<rparr>)"
  unfolding pm_ok_def by simp_all

lemma pm_ok_record:
  assumes "pm_ok c name p" "i < length (omega p)" "i \<noteq> pm_own_index p"
  shows "pm_ok c name (p\<lparr>omega := (omega p)[i := v]\<rparr>)"
  using assms unfolding pm_ok_def by simp

section \<open>Steps keep the invariant and fail nowhere\<close>

text \<open>
  A node's own messages carry its registered wish, so a wish under its own name is at most its
  watermark.
\<close>

fun pm_admissible :: "public_key \<Rightarrow> pacemaker \<Rightarrow> pm_event \<Rightarrow> bool" where
  "pm_admissible name p (Wish a x) = (a = name \<longrightarrow> x \<le> own_watermark p)"
| "pm_admissible name p (OwnWish x) = True"
| "pm_admissible name p (FastForward v) = True"

fun pm_valid_run :: "public_key \<Rightarrow> pm_event list \<Rightarrow> pacemaker \<Rightarrow> bool" where
  "pm_valid_run name [] p = True"
| "pm_valid_run name (e # es) p =
     (pm_admissible name p e \<and>
      (case pm_apply e p of None \<Rightarrow> True | Some (p1, _) \<Rightarrow> pm_valid_run name es p1))"

lemma thresholds_in_range:
  assumes "party_count_ok (committee_size c)"
  shows "1 \<le> f_plus_1_parties (from_committee c) \<and> f_plus_1_parties (from_committee c) \<le> committee_size c
    \<and> 1 \<le> n_minus_f_parties (from_committee c) \<and> n_minus_f_parties (from_committee c) \<le> committee_size c"
proof -
  have n: "1 \<le> committee_size c" "committee_size c < 2 ^ 64"
    using assms by (simp_all add: party_count_ok_def)
  define d where "d = (committee_size c - 1) div 3"
  have "d \<le> committee_size c - 1"
    unfolding d_def by (rule div_le_dividend)
  with n(1) show ?thesis
    unfolding from_committee_def from_party_count_eq [OF n] d_def [symmetric] by (simp, arith)
qed

lemma omega_defined:
  assumes "party_count_ok (committee_size c)" "pm_ok c name p"
  shows "\<exists>w. omega_plus p = Some w" "\<exists>w. omega_q p = Some w"
  using thresholds_in_range [OF assms(1)] assms(2)
  by (simp_all add: omega_plus_def omega_q_def kth_largest_def pm_ok_def)

lemma wished_cong: "omega q = omega p \<Longrightarrow> wished x q = wished x p"
  by (simp add: wished_def)

lemma wished_antimono: "x \<le> y \<Longrightarrow> wished y p \<subseteq> wished x p"
  by (auto simp: wished_def)

definition half_settled :: "pacemaker \<Rightarrow> bool" where
  "half_settled p \<longleftrightarrow> card (wished (Suc (own_watermark p)) p) < pm_f_plus_1_parties p
     \<and> entry_target p \<le> largest_entered_view p"

text \<open>The contract of the last phase of every step: entering up to the quorum wish.\<close>

lemma advance_spec:
  assumes ok: "pm_ok c name p" and half: "half_settled p" and wq: "omega_q p = Some wq"
    and adv: "advance_entry_target wq p = (q, es)"
  shows "pm_ok c name q \<and> pm_settled q \<and> pm_le p q \<and> omega q = omega p
    \<and> es = map Enter [Suc (largest_entered_view p)..<Suc (largest_entered_view q)]
    \<and> (\<forall>v \<in> set (entered es). pm_quorum_parties q \<le> card (wished v q))"
proof (cases "wq > entry_target p")
  case True
  then have q: "q = p\<lparr>entry_target := wq, largest_entered_view := max (largest_entered_view p) wq\<rparr>"
    and es: "es = map Enter [Suc (largest_entered_view p)..<Suc wq]"
    using adv by (auto simp: advance_entry_target_eq)
  have bound: "card (wished (Suc wq) p) < pm_quorum_parties p"
    using wq kth_largest_bound unfolding omega_q_def by blast
  have quorum: "pm_quorum_parties p \<le> card (wished v p)" if "v \<le> wq" for v
    using kth_largest_ge [of "pm_quorum_parties p" p wq v] wq that unfolding omega_q_def by blast
  have "pm_ok c name q"
    unfolding q by (rule pm_ok_cong [OF ok])
  moreover have "pm_settled q"
    using half bound by (simp add: q pm_settled_def half_settled_def wished_def)
  moreover have "pm_le p q"
    using True by (simp add: q pm_le_def)
  moreover have "\<forall>v \<in> set (entered es). pm_quorum_parties q \<le> card (wished v q)"
    using quorum by (auto simp: es q wished_def)
  moreover have "es = map Enter [Suc (largest_entered_view p)..<Suc (largest_entered_view q)]"
    by (cases "largest_entered_view p \<le> wq") (simp_all add: es q max_def)
  ultimately show ?thesis
    by (simp add: q)
next
  case False
  then have "q = p" "es = []"
    using adv by (auto simp: advance_entry_target_eq)
  moreover have "card (wished (Suc (entry_target p)) p) < pm_quorum_parties p"
    using wq False kth_largest_bound [of "pm_quorum_parties p" p wq "entry_target p"]
    unfolding omega_q_def by simp
  ultimately show ?thesis
    using ok half by (simp add: pm_settled_def half_settled_def)
qed

text \<open>The parties other than the node itself whose wish reaches \<open>x\<close>.\<close>

definition peers_wished :: "view \<Rightarrow> pacemaker \<Rightarrow> nat set" where
  "peers_wished x p = wished x p - {pm_own_index p}"

definition amplify :: "view \<Rightarrow> pacemaker \<Rightarrow> pacemaker \<times> effect list" where
  "amplify w p = (if w > own_watermark p then (set_own w p, [BroadcastWish w]) else (p, []))"

lemma amplify_spec:
  assumes ok: "pm_ok c name p" and entry: "entry_target p \<le> largest_entered_view p"
    and w: "omega_plus p = Some w" and amp: "amplify w p = (q, es)"
  shows "pm_ok c name q \<and> half_settled q \<and> pm_le p q \<and> largest_entered_view q = largest_entered_view p
    \<and> (\<forall>i. i \<noteq> pm_own_index p \<longrightarrow> omega q ! i = omega p ! i) \<and> entered es = []
    \<and> (\<forall>x. BroadcastWish x \<in> set es \<longrightarrow> 0 < x \<and> pm_f_plus_1_parties p \<le> card (peers_wished x p))"
proof (cases "w > own_watermark p")
  case True
  then have q: "q = set_own w p" "es = [BroadcastWish w]"
    using amp by (auto simp: amplify_def)
  have "card (wished (Suc w) p) < pm_f_plus_1_parties p"
    using w kth_largest_bound unfolding omega_plus_def by blast
  moreover have "card (wished (Suc w) p - {pm_own_index p}) \<le> card (wished (Suc w) p)"
    by (intro card_mono) auto
  ultimately have "card (wished (Suc w) q) < pm_f_plus_1_parties p"
    by (simp add: q wished_set_own [OF ok])
  moreover have "pm_own_index p \<notin> wished w p"
    using True own_value [OF ok] by (simp add: wished_def)
  then have "peers_wished w p = wished w p"
    by (simp add: peers_wished_def)
  moreover have "pm_f_plus_1_parties p \<le> card (wished w p)"
    using kth_largest_ge [of "pm_f_plus_1_parties p" p w w] w unfolding omega_plus_def by simp
  ultimately show ?thesis
    using pm_ok_set_own [OF ok] pm_le_set_own [OF ok, of w] True entry
    by (simp add: q half_settled_def set_own_def)
next
  case False
  then have "q = p" "es = []"
    using amp by (auto simp: amplify_def)
  moreover have "card (wished (Suc (own_watermark p)) p) < pm_f_plus_1_parties p"
    using w False kth_largest_bound [of "pm_f_plus_1_parties p" p w "own_watermark p"]
    unfolding omega_plus_def by simp
  ultimately show ?thesis
    using ok entry by (simp add: half_settled_def)
qed

definition record_wish :: "nat \<Rightarrow> view \<Rightarrow> pacemaker \<Rightarrow> pacemaker" where
  "record_wish i x p = (if x > omega p ! i then p\<lparr>omega := (omega p)[i := x]\<rparr> else p)"

lemma record_wish_spec:
  assumes ok: "pm_ok c name p" and i: "map_of (pm_index_of p) a = Some i"
    and own: "a = name \<longrightarrow> x \<le> own_watermark p"
  shows "pm_ok c name (record_wish i x p) \<and> pm_le p (record_wish i x p)
    \<and> own_watermark (record_wish i x p) = own_watermark p
    \<and> entry_target (record_wish i x p) = entry_target p
    \<and> largest_entered_view (record_wish i x p) = largest_entered_view p
    \<and> pm_own_index (record_wish i x p) = pm_own_index p
    \<and> pm_f_plus_1_parties (record_wish i x p) = pm_f_plus_1_parties p
    \<and> (\<forall>j < length (omega p). omega p ! j < omega (record_wish i x p) ! j \<longrightarrow> j = i \<and> omega (record_wish i x p) ! j = x)"
proof (cases "x > omega p ! i")
  case True
  have "i < length (omega p)"
    using index_lookup [OF ok i] by simp
  moreover have "i \<noteq> pm_own_index p"
  proof
    assume eq: "i = pm_own_index p"
    have "map fst (authorities c) ! i = a" "map fst (authorities c) ! pm_own_index p = name"
      using index_lookup [OF ok i] index_lookup [OF ok, of name "pm_own_index p"] ok
      by (simp_all add: pm_ok_def)
    with eq own own_value [OF ok] True show False by simp
  qed
  ultimately show ?thesis
    using True pm_ok_record [OF ok] pm_le_update [of i p x]
    by (auto simp: record_wish_def nth_list_update)
qed (simp add: record_wish_def ok)

lemma on_wish_phases:
  "on_wish sender x p =
     (case map_of (pm_index_of p) sender of
        None \<Rightarrow> Some (p, [])
      | Some i \<Rightarrow>
          if i < length (omega p) then
            case omega_plus (record_wish i x p) of
              None \<Rightarrow> None
            | Some w \<Rightarrow>
                (case amplify w (record_wish i x p) of (q, amplified) \<Rightarrow>
                   (case omega_q q of
                      None \<Rightarrow> None
                    | Some wq \<Rightarrow> (case advance_entry_target wq q of (r, es) \<Rightarrow> Some (r, amplified @ es))))
          else None)"
  unfolding on_wish_def record_wish_def amplify_def Let_def by (rule refl)

text \<open>The contract of a step: from a good state it succeeds, keeps the state good, only raises
  the registers, enters consecutive views that a quorum wished, and changes the wish of a peer
  only to the value this peer sent.\<close>

definition step_ok :: "committee \<Rightarrow> public_key \<Rightarrow> pm_event \<Rightarrow> pacemaker \<Rightarrow> pacemaker \<Rightarrow> effect list \<Rightarrow> bool" where
  "step_ok c name e p q es \<longleftrightarrow>
     pm_ok c name q \<and> pm_settled q \<and> pm_le p q
     \<and> (entered es = [] \<or> entered es = [Suc (largest_entered_view p)..<Suc (largest_entered_view q)])
     \<and> (\<forall>v \<in> set (entered es). pm_quorum_parties q \<le> card (wished v q))
     \<and> (\<forall>x. BroadcastWish x \<in> set es \<longrightarrow> 0 < x \<and> pm_f_plus_1_parties q \<le> card (peers_wished x q))
     \<and> (\<forall>i < length (omega p). i \<noteq> pm_own_index p \<longrightarrow> omega p ! i < omega q ! i \<longrightarrow>
          (\<exists>a. e = Wish a (omega q ! i) \<and> map_of (pm_index_of p) a = Some i))"

lemma pm_le_wished_card: "pm_le p q \<Longrightarrow> card (wished x p) \<le> card (wished x q)"
  by (intro card_mono wished_mono finite_wished)

lemma peers_wished_mono:
  "pm_le p q \<Longrightarrow> pm_own_index q = pm_own_index p \<Longrightarrow> card (peers_wished x p) \<le> card (peers_wished x q)"
  unfolding peers_wished_def by (intro card_mono Diff_mono wished_mono) auto

lemma pm_ok_params:
  assumes "pm_ok c name p" "pm_ok c name q"
  shows "pm_own_index q = pm_own_index p" "pm_index_of q = pm_index_of p"
    "pm_f_plus_1_parties q = pm_f_plus_1_parties p" "pm_quorum_parties q = pm_quorum_parties p"
    "length (omega q) = length (omega p)"
  using assms by (auto simp: pm_ok_def)

lemma on_wish_step:
  assumes pc: "party_count_ok (committee_size c)" and ok: "pm_ok c name p" and st: "pm_settled p"
    and own: "a = name \<longrightarrow> x \<le> own_watermark p"
  shows "\<exists>q es. on_wish a x p = Some (q, es) \<and> step_ok c name (Wish a x) p q es"
proof (cases "map_of (pm_index_of p) a")
  case None
  then show ?thesis
    using ok st by (simp add: on_wish_phases step_ok_def)
next
  case (Some i)
  define p1 where "p1 = record_wish i x p"
  note rec = record_wish_spec [OF ok Some own, folded p1_def]
  have ok1: "pm_ok c name p1" and le1: "pm_le p p1" and l1: "largest_entered_view p1 = largest_entered_view p"
    and e1: "entry_target p1 \<le> largest_entered_view p1"
    and rec1: "\<And>j. j < length (omega p) \<Longrightarrow> omega p ! j < omega p1 ! j \<Longrightarrow> j = i \<and> omega p1 ! j = x"
    using rec st by (auto simp: pm_settled_def)
  obtain w where w: "omega_plus p1 = Some w"
    using omega_defined(1) [OF pc ok1] by blast
  obtain p2 es2 where amp: "amplify w p1 = (p2, es2)"
    by (cases "amplify w p1")
  note a = amplify_spec [OF ok1 e1 w amp]
  have ok2: "pm_ok c name p2" and half: "half_settled p2" and le2: "pm_le p1 p2"
    using a by auto
  obtain wq where wq: "omega_q p2 = Some wq"
    using omega_defined(2) [OF pc ok2] by blast
  obtain q es3 where adv: "advance_entry_target wq p2 = (q, es3)"
    by (cases "advance_entry_target wq p2")
  note ad = advance_spec [OF ok2 half wq adv]
  have okq: "pm_ok c name q" and leq: "pm_le p2 q" and omq: "omega q = omega p2"
    using ad by auto
  have le1q: "pm_le p1 q"
    by (rule pm_le_trans [OF le2 leq])
  have bc: "0 < y \<and> pm_f_plus_1_parties q \<le> card (peers_wished y q)" if "BroadcastWish y \<in> set (es2 @ es3)" for y
  proof -
    have "BroadcastWish y \<in> set es2"
      using that ad by auto
    then have "0 < y \<and> pm_f_plus_1_parties p1 \<le> card (peers_wished y p1)"
      using a by blast
    then show ?thesis
      using pm_ok_params(3) [OF ok1 okq] peers_wished_mono [OF le1q pm_ok_params(1) [OF ok1 okq], of y] by simp
  qed
  have first_hand: "\<exists>b. Wish a x = Wish b (omega q ! j) \<and> map_of (pm_index_of p) b = Some j"
    if "j < length (omega p)" "j \<noteq> pm_own_index p" "omega p ! j < omega q ! j" for j
  proof -
    have "omega q ! j = omega p1 ! j"
      using a that(2) pm_ok_params(1) [OF ok ok1] by (simp add: omq)
    then show ?thesis
      using rec1 [OF that(1)] that(3) Some by auto
  qed
  have "on_wish a x p = Some (q, es2 @ es3)"
    using Some index_lookup [OF ok Some] w amp wq adv by (simp add: on_wish_phases p1_def)
  moreover have "step_ok c name (Wish a x) p q (es2 @ es3)"
    unfolding step_ok_def using ad a bc first_hand l1 pm_le_trans [OF le1 le1q] by (simp add: okq)
  ultimately show ?thesis by blast
qed

lemma raise_own_wish_step:
  assumes pc: "party_count_ok (committee_size c)" and ok: "pm_ok c name p" and st: "pm_settled p"
  shows "\<exists>q es. raise_own_wish x p = Some (q, es) \<and> step_ok c name (OwnWish x) p q es"
proof (cases "x \<le> own_watermark p")
  case True
  then show ?thesis
    using ok st by (simp add: raise_own_wish_def step_ok_def)
next
  case False
  define p1 where "p1 = set_own x p"
  have ok1: "pm_ok c name p1" and le1: "pm_le p p1"
    using pm_ok_set_own [OF ok] pm_le_set_own [OF ok, of x] False by (auto simp: p1_def)
  have "wished (Suc x) p1 = wished (Suc x) p - {pm_own_index p}"
    by (simp add: p1_def wished_set_own [OF ok])
  also have "\<dots> \<subseteq> wished (Suc (own_watermark p)) p"
    using False wished_antimono [of "Suc (own_watermark p)" "Suc x" p] by auto
  finally have "wished (Suc x) p1 \<subseteq> wished (Suc (own_watermark p)) p" .
  then have "card (wished (Suc x) p1) \<le> card (wished (Suc (own_watermark p)) p)"
    by (intro card_mono finite_wished)
  then have half: "half_settled p1"
    using st by (simp add: half_settled_def pm_settled_def p1_def set_own_def)
  obtain wq where wq: "omega_q p1 = Some wq"
    using omega_defined(2) [OF pc ok1] by blast
  obtain q es where adv: "advance_entry_target wq p1 = (q, es)"
    by (cases "advance_entry_target wq p1")
  note ad = advance_spec [OF ok1 half wq adv]
  have "omega q ! i = omega p ! i" if "i \<noteq> pm_own_index p" for i
    using ad that by (simp add: p1_def set_own_def)
  moreover have "pm_le p q" "largest_entered_view p1 = largest_entered_view p"
    using ad pm_le_trans [OF le1] by (auto simp: p1_def set_own_def)
  ultimately have "step_ok c name (OwnWish x) p q es"
    unfolding step_ok_def using ad by auto
  then show ?thesis
    using False wq adv by (simp add: raise_own_wish_def p1_def)
qed

lemma fast_forward_step:
  assumes ok: "pm_ok c name p" and st: "pm_settled p"
  shows "step_ok c name (FastForward v) p (fast_forward_installed_entry v p) []"
proof -
  define q where "q = p\<lparr>entry_target := max (entry_target p) v, largest_entered_view := max (largest_entered_view p) v\<rparr>"
  have okq: "pm_ok c name q" and leq: "pm_le p q"
    by (auto simp: q_def pm_le_def intro: pm_ok_cong ok)
  have ff: "fast_forward_installed_entry v p = (if v > own_watermark p then set_own v q else q)"
    by (auto simp: fast_forward_installed_entry_def q_def Let_def max_def)
  have wq: "wished x q = wished x p" for x
    by (rule wished_cong) (simp add: q_def)
  have sub: "wished (Suc m) (set_own v q) \<subseteq> wished (Suc m) p" if "v \<le> m" for m
    using that by (auto simp: wished_set_own [OF okq] wq)
  have mono: "card (wished (Suc m) p) \<le> card (wished (Suc m') p)" if "m' \<le> m" for m m'
    using that by (intro card_mono wished_antimono finite_wished) simp
  show ?thesis
  proof (cases "v > own_watermark p")
    case True
    let ?r = "set_own v q"
    have "card (wished (Suc v) ?r) \<le> card (wished (Suc (own_watermark p)) p)"
      using True card_mono [OF finite_wished sub [of v]] mono [of "own_watermark p" v] by simp
    moreover have "card (wished (Suc (entry_target ?r)) ?r) \<le> card (wished (Suc (entry_target p)) p)"
      using card_mono [OF finite_wished sub [of "max (entry_target p) v"]] mono [of "entry_target p" "max (entry_target p) v"]
      by (simp add: set_own_def q_def)
    ultimately have "pm_settled ?r"
      using st by (auto simp: pm_settled_def set_own_def q_def)
    moreover have "pm_le p ?r"
      using True pm_le_trans [OF leq pm_le_set_own [OF okq]] by (simp add: q_def)
    moreover have "omega ?r ! i = omega p ! i" if "i \<noteq> pm_own_index p" for i
      using that by (simp add: set_own_def q_def)
    ultimately show ?thesis
      using True pm_ok_set_own [OF okq] by (auto simp: ff step_ok_def)
  next
    case False
    have "card (wished (Suc (entry_target q)) q) \<le> card (wished (Suc (entry_target p)) p)"
      using mono [of "entry_target p" "max (entry_target p) v"] by (simp add: q_def wished_def)
    then have "pm_settled q"
      using st by (auto simp: pm_settled_def q_def wished_def)
    then show ?thesis
      using False okq leq by (auto simp: ff step_ok_def q_def)
  qed
qed

lemma pm_step:
  assumes "party_count_ok (committee_size c)" "pm_ok c name p" "pm_settled p" "pm_admissible name p e"
  shows "\<exists>q es. pm_apply e p = Some (q, es) \<and> step_ok c name e p q es"
  using assms on_wish_step raise_own_wish_step fast_forward_step by (cases e) auto

section \<open>Runs\<close>

text \<open>The parties whose own message in the run carries a wish of at least \<open>x\<close>.\<close>

definition sent :: "committee \<Rightarrow> pm_event list \<Rightarrow> view \<Rightarrow> public_key set" where
  "sent c es x = {a \<in> members c. \<exists>y \<ge> x. Wish a y \<in> set es}"

definition run_ok :: "committee \<Rightarrow> public_key \<Rightarrow> pm_event list \<Rightarrow> pacemaker \<Rightarrow> pacemaker \<Rightarrow> effect list \<Rightarrow> bool" where
  "run_ok c name es p q out \<longleftrightarrow>
     pm_ok c name q \<and> pm_settled q \<and> pm_le p q
     \<and> sorted_wrt (<) (entered out)
     \<and> (\<forall>v \<in> set (entered out). largest_entered_view p < v \<and> v \<le> largest_entered_view q
          \<and> pm_quorum_parties q \<le> card (wished v q))
     \<and> (\<forall>x. BroadcastWish x \<in> set out \<longrightarrow> 0 < x \<and> pm_f_plus_1_parties q \<le> card (peers_wished x q))
     \<and> (\<forall>i < length (omega p). i \<noteq> pm_own_index p \<longrightarrow> omega p ! i < omega q ! i \<longrightarrow>
          (\<exists>a. Wish a (omega q ! i) \<in> set es \<and> map_of (pm_index_of p) a = Some i))"

lemma run_ok_Cons:
  assumes step: "step_ok c name e p q out1" and ok: "pm_ok c name p" and run: "run_ok c name es q r out2"
  shows "run_ok c name (e # es) p r (out1 @ out2)"
proof -
  have okq: "pm_ok c name q" and leq: "pm_le p q" and ler: "pm_le q r" and okr: "pm_ok c name r"
    using step run by (auto simp: step_ok_def run_ok_def)
  note pq = pm_ok_params [OF ok okq] and qr = pm_ok_params [OF okq okr]
  have range1: "largest_entered_view p < v \<and> v \<le> largest_entered_view q" if "v \<in> set (entered out1)" for v
    using step that by (auto simp: step_ok_def)
  have sorted1: "sorted_wrt (<) (entered out1)"
    using step by (auto simp: step_ok_def simp del: upt_Suc)
  have range2: "largest_entered_view q < v \<and> v \<le> largest_entered_view r" if "v \<in> set (entered out2)" for v
    using run that by (auto simp: run_ok_def)
  have "sorted_wrt (<) (entered (out1 @ out2))"
    using sorted1 run range1 range2 by (fastforce simp: run_ok_def sorted_wrt_append)
  moreover have "pm_quorum_parties r \<le> card (wished v r)" if "v \<in> set (entered out1)" for v
    using step that qr(4) pm_le_wished_card [OF ler, of v] by (fastforce simp: step_ok_def)
  moreover have "0 < x \<and> pm_f_plus_1_parties r \<le> card (peers_wished x r)" if "BroadcastWish x \<in> set out1" for x
    using step that qr(3) peers_wished_mono [OF ler qr(1), of x] by (fastforce simp: step_ok_def)
  moreover have "\<exists>a. Wish a (omega r ! i) \<in> set (e # es) \<and> map_of (pm_index_of p) a = Some i"
    if i: "i < length (omega p)" "i \<noteq> pm_own_index p" "omega p ! i < omega r ! i" for i
  proof (cases "omega q ! i < omega r ! i")
    case True
    then show ?thesis
      using run i pq by (auto simp: run_ok_def)
  next
    case False
    then have "omega r ! i = omega q ! i"
      using ler i pq(5) by (force simp: pm_le_def)
    then show ?thesis
      using step i by (auto simp: step_ok_def)
  qed
  ultimately show ?thesis
    using run range1 range2 pm_le_trans [OF leq ler] leq ler
    by (fastforce simp: run_ok_def pm_le_def)
qed

lemma pm_run_ok:
  assumes pc: "party_count_ok (committee_size c)"
  shows "pm_ok c name p \<Longrightarrow> pm_settled p \<Longrightarrow> pm_valid_run name es p \<Longrightarrow>
    \<exists>q out. pm_run es p = Some (q, out) \<and> run_ok c name es p q out"
proof (induction es arbitrary: p)
  case Nil
  then show ?case by (simp add: run_ok_def)
next
  case (Cons e es)
  have "pm_admissible name p e"
    using Cons.prems(3) by simp
  then obtain q out1 where q: "pm_apply e p = Some (q, out1)" "step_ok c name e p q out1"
    using pm_step [OF pc Cons.prems(1,2)] by blast
  then have "pm_ok c name q" "pm_settled q"
    by (simp_all add: step_ok_def)
  moreover have "pm_valid_run name es q"
    using Cons.prems(3) q(1) by simp
  ultimately obtain r out2 where r: "pm_run es q = Some (r, out2)" "run_ok c name es q r out2"
    using Cons.IH by blast
  then show ?case
    using q run_ok_Cons [OF q(2) Cons.prems(1) r(2)] by auto
qed

text \<open>The state in which a node starts to receive wishes.\<close>

definition pm_start :: "public_key \<Rightarrow> committee \<Rightarrow> pacemaker option" where
  "pm_start name c =
     (case pacemaker_new name c of
        None \<Rightarrow> None
      | Some p0 \<Rightarrow> (case pm_genesis p0 of None \<Rightarrow> None | Some (p1, _) \<Rightarrow> Some p1))"

lemma pm_start_ok:
  assumes pc: "party_count_ok (committee_size c)" and name: "name \<in> members c"
  shows "\<exists>p. pm_start name c = Some p \<and> pm_ok c name p \<and> pm_settled p
    \<and> (\<forall>i < length (omega p). i \<noteq> pm_own_index p \<longrightarrow> omega p ! i = 0)"
proof -
  have "\<exists>i. map_of (party_index c) name = Some i"
    using name map_of_zip_is_Some [of "map fst (authorities c)" "[0..<committee_size c]" name]
    by (simp add: party_index_def committee_size_def members_def)
  then obtain i where i: "map_of (party_index c) name = Some i" by blast
  define p0 where "p0 = \<lparr>omega = replicate (committee_size c) 0, pm_index_of = party_index c, pm_own_index = i,
              pm_f_plus_1_parties = f_plus_1_parties (from_committee c), pm_quorum_parties = n_minus_f_parties (from_committee c),
              own_watermark = 0, entry_target = 0, largest_entered_view = 1\<rparr>"
  have new: "pacemaker_new name c = Some (p0\<lparr>largest_entered_view := 0\<rparr>)"
    using i by (simp add: pacemaker_new_def p0_def party_index_def committee_size_def from_committee_def Let_def)
  have "i < committee_size c"
    using zip_upt_lookup [of "map fst (authorities c)" "committee_size c" name i] i
    by (simp add: party_index_def committee_size_def)
  then have ok0: "pm_ok c name p0"
    using i by (simp add: pm_ok_def p0_def)
  have none: "wished (Suc 0) p0 = {}"
    by (auto simp: wished_def p0_def)
  have st0: "pm_settled p0"
  proof -
    have "own_watermark p0 = 0" "entry_target p0 = 0" "largest_entered_view p0 = 1"
      "pm_f_plus_1_parties p0 = f_plus_1_parties (from_committee c)"
      "pm_quorum_parties p0 = n_minus_f_parties (from_committee c)"
      by (simp_all add: p0_def)
    then show ?thesis
      using thresholds_in_range [OF pc] none by (simp add: pm_settled_def)
  qed
  obtain p es where p: "raise_own_wish 2 p0 = Some (p, es)" "step_ok c name (OwnWish 2) p0 p es"
    using raise_own_wish_step [OF pc ok0 st0] by blast
  then have "pm_start name c = Some p"
    by (simp add: pm_start_def new pm_genesis_def p0_def)
  moreover have "omega p ! j = 0" if "j < length (omega p)" "j \<noteq> pm_own_index p" for j
  proof -
    have okp: "pm_ok c name p"
      using p(2) by (simp add: step_ok_def)
    have "\<not> omega p0 ! j < omega p ! j"
      using p(2) that pm_ok_params [OF ok0 okp] by (auto simp: step_ok_def)
    then show ?thesis
      using that pm_ok_params(5) [OF ok0 okp] by (simp add: p0_def)
  qed
  ultimately show ?thesis
    using p(2) by (auto simp: step_ok_def)
qed

lemma card_wished_le_senders:
  assumes keys: "omap_ok (authorities c)" and ok: "pm_ok c name p"
    and zero: "\<forall>i < length (omega p). i \<noteq> pm_own_index p \<longrightarrow> omega p ! i = 0"
    and run: "run_ok c name es p q out" and v: "0 < v"
  shows "card (wished v q) \<le> card (insert name (sent c es v))"
    and "card (peers_wished v q) \<le> card (sent c es v)"
proof -
  let ?names = "map fst (authorities c)"
  have okq: "pm_ok c name q"
    using run by (simp add: run_ok_def)
  note pq = pm_ok_params [OF ok okq]
  have len: "length (omega q) = length ?names"
    using okq by (simp add: pm_ok_def committee_size_def)
  have inj: "inj_on ((!) ?names) {..<length ?names}"
    using omap_ok_distinct [OF keys] by (simp add: inj_on_nth)
  have own: "?names ! pm_own_index q = name"
    using index_lookup [OF okq, of name "pm_own_index q"] okq by (simp add: pm_ok_def)
  have peer: "?names ! i \<in> sent c es v" if i: "i \<in> wished v q" "i \<noteq> pm_own_index q" for i
  proof -
    have "i < length (omega p)" "omega p ! i < omega q ! i" "v \<le> omega q ! i" "i < length (omega q)"
      using i pq zero v by (auto simp: wished_def)
    then obtain a where a: "Wish a (omega q ! i) \<in> set es" "map_of (pm_index_of p) a = Some i"
      using run i pq by (auto simp: run_ok_def)
    then have "?names ! i = a"
      using index_lookup [OF ok] by blast
    moreover have "?names ! i \<in> members c"
      using \<open>i < length (omega q)\<close> len by (simp add: members_def nth_mem)
    ultimately show ?thesis
      using a(1) \<open>v \<le> omega q ! i\<close> by (auto simp: sent_def)
  qed
  have fin: "finite (sent c es v)"
    by (simp add: sent_def members_def)
  have sub: "wished v q \<subseteq> {..<length ?names}"
    using len by (auto simp: wished_def)
  show "card (wished v q) \<le> card (insert name (sent c es v))"
    using peer own by (intro card_inj_on_le [OF inj_on_subset [OF inj sub]]) (auto simp: fin)
  have "peers_wished v q \<subseteq> {..<length ?names}"
    using sub by (auto simp: peers_wished_def)
  then show "card (peers_wished v q) \<le> card (sent c es v)"
    using peer by (intro card_inj_on_le [OF inj_on_subset [OF inj]]) (auto simp: fin peers_wished_def)
qed

section \<open>Properties\<close>

text \<open>C28. A committee member's pacemaker never fails: every run of wishes, own wishes and
  installed views succeeds, and after it the amplification and entry rules are exhausted: the
  \<open>f + 1\<close>-st largest wish is at most the node's own, the \<open>(n - f)\<close>-th largest is at most
  the entry target, and every view up to the target is entered.\<close>

theorem pacemaker_run_settled:
  assumes "party_count_ok (committee_size c)" and "name \<in> members c"
  shows "\<exists>p. pm_start name c = Some p \<and> (\<forall>es. pm_valid_run name es p \<longrightarrow>
    (\<exists>q out wp wq. pm_run es p = Some (q, out) \<and> omega_plus q = Some wp \<and> omega_q q = Some wq
      \<and> wp \<le> own_watermark q \<and> wq \<le> entry_target q \<and> entry_target q \<le> largest_entered_view q))"
proof -
  obtain p where p: "pm_start name c = Some p" "pm_ok c name p" "pm_settled p"
    using pm_start_ok [OF assms] by blast
  have "\<exists>q out wp wq. pm_run es p = Some (q, out) \<and> omega_plus q = Some wp \<and> omega_q q = Some wq
      \<and> wp \<le> own_watermark q \<and> wq \<le> entry_target q \<and> entry_target q \<le> largest_entered_view q"
    if valid: "pm_valid_run name es p" for es
  proof -
    obtain q out where q: "pm_run es p = Some (q, out)" "pm_ok c name q" "pm_settled q"
      using pm_run_ok [OF assms(1) p(2,3) valid] by (auto simp: run_ok_def)
    obtain wp wq where w: "omega_plus q = Some wp" "omega_q q = Some wq"
      using omega_defined [OF assms(1) q(2)] by blast
    have "wp \<le> own_watermark q"
      using kth_largest_le w(1) q(3) unfolding omega_plus_def pm_settled_def by blast
    moreover have "wq \<le> entry_target q"
      using kth_largest_le w(2) q(3) unfolding omega_q_def pm_settled_def by blast
    ultimately show ?thesis
      using q w by (auto simp: pm_settled_def)
  qed
  with p(1) show ?thesis by blast
qed

text \<open>C26. The views a node enters are entered in increasing order, each at most once, and
  each of them was wished, counting the node itself, by \<open>n - f\<close> parties in their own messages.\<close>

theorem entered_views_have_wish_quorum:
  assumes "committee_ok c" "party_count_ok (committee_size c)" "pm_start name c = Some p"
    and "name \<in> members c" "pm_valid_run name es p" "pm_run es p = Some (q, out)"
  shows "sorted_wrt (<) (entered out)
    \<and> (\<forall>v \<in> set (entered out). n_minus_f_parties (from_committee c) \<le> card (insert name (sent c es v)))"
proof -
  have keys: "omap_ok (authorities c)"
    using assms(1) by (simp add: committee_ok_def)
  have p: "pm_ok c name p" "pm_settled p" "\<forall>i < length (omega p). i \<noteq> pm_own_index p \<longrightarrow> omega p ! i = 0"
    using pm_start_ok [OF assms(2,4)] assms(3) by auto
  have run: "run_ok c name es p q out"
    using pm_run_ok [OF assms(2) p(1,2) assms(5)] assms(6) by auto
  have "n_minus_f_parties (from_committee c) \<le> card (insert name (sent c es v))"
    if "v \<in> set (entered out)" for v
  proof -
    have "0 < v" "pm_quorum_parties q \<le> card (wished v q)"
      using run that by (auto simp: run_ok_def)
    moreover have "pm_quorum_parties q = n_minus_f_parties (from_committee c)"
      using run by (simp add: run_ok_def pm_ok_def)
    ultimately show ?thesis
      using card_wished_le_senders(1) [OF keys p(1,3) run, of v] by linarith
  qed
  then show ?thesis
    using run by (simp add: run_ok_def)
qed

text \<open>C27. A wish that a node amplifies was sent by a correct party: whatever \<open>f\<close> parties are
  faulty, some other party sent a wish at least as large in its own message.\<close>

theorem amplified_wish_has_correct_origin:
  assumes "committee_ok c" "party_count_ok (committee_size c)" "pm_start name c = Some p"
    and "name \<in> members c" "pm_valid_run name es p" "pm_run es p = Some (q, out)"
    and "BroadcastWish w \<in> set out" "finite B" "card B \<le> f_parties (from_committee c)"
  shows "\<exists>a y. a \<in> members c - B \<and> w \<le> y \<and> Wish a y \<in> set es"
proof -
  have keys: "omap_ok (authorities c)"
    using assms(1) by (simp add: committee_ok_def)
  have p: "pm_ok c name p" "pm_settled p" "\<forall>i < length (omega p). i \<noteq> pm_own_index p \<longrightarrow> omega p ! i = 0"
    using pm_start_ok [OF assms(2,4)] assms(3) by auto
  have run: "run_ok c name es p q out"
    using pm_run_ok [OF assms(2) p(1,2) assms(5)] assms(6) by auto
  then have "0 < w" "pm_f_plus_1_parties q \<le> card (peers_wished w q)"
    using assms(7) by (auto simp: run_ok_def)
  moreover have "pm_f_plus_1_parties q = f_plus_1_parties (from_committee c)"
    using run by (simp add: run_ok_def pm_ok_def)
  moreover have "f_plus_1_parties (from_committee c) = Suc (f_parties (from_committee c))"
    by (simp add: from_committee_def from_party_count_def Let_def)
  ultimately have "card B < card (sent c es w)"
    using card_wished_le_senders(2) [OF keys p(1,3) run, of w] assms(9) by linarith
  then have "\<not> sent c es w \<subseteq> B"
    using assms(8) card_mono [of B "sent c es w"] by linarith
  then show ?thesis
    by (auto simp: sent_def)
qed

definition demo_run :: "pm_event list" where
  "demo_run = [Wish (PublicKey 2) 5, OwnWish 3, Wish (PublicKey 3) 5]"

definition demo_pacemaker :: "view list \<Rightarrow> view \<Rightarrow> view \<Rightarrow> view \<Rightarrow> pacemaker" where
  "demo_pacemaker om own target entered_view =
     \<lparr>omega = om, pm_index_of = map (\<lambda>i. (PublicKey (of_nat (Suc i)), i)) [0, 1, 2, 3], pm_own_index = 0,
      pm_f_plus_1_parties = 2, pm_quorum_parties = 3, own_watermark = own, entry_target = target,
      largest_entered_view = entered_view\<rparr>"

lemma demo_thresholds:
  "from_party_count 4 = \<lparr>th_n = 4, f_parties = 1, f_plus_1_parties = 2, n_minus_f_parties = 3\<rparr>"
  by (simp add: from_party_count_eq)

lemmas pm_eval = raise_own_wish_def on_wish_def set_own_def omega_q_def omega_plus_def kth_largest_def
  advance_entry_target_eq demo_pacemaker_def Let_def

lemma demo_new:
  "pacemaker_new (PublicKey 1) demo_committee = Some (demo_pacemaker [0, 0, 0, 0] 0 0 0)"
proof -
  have names: "map fst (authorities demo_committee) = [PublicKey 1, PublicKey 2, PublicKey 3, PublicKey 4]"
    by (simp add: demo_committee_def)
  have range: "[0..<4] = [0, 1, 2, 3 :: nat]"
    by (simp add: upt_rec)
  have len: "length [PublicKey 1, PublicKey 2, PublicKey 3, PublicKey 4] = 4"
    by simp
  show ?thesis
    unfolding pacemaker_new_def names Let_def len range demo_thresholds
    by (simp add: demo_pacemaker_def numeral_eq_Suc)
qed

lemma demo_start: "pm_start (PublicKey 1) demo_committee = Some (demo_pacemaker [2, 0, 0, 0] 2 0 1)"
  by (simp add: pm_start_def demo_new pm_genesis_def pm_eval)

lemma demo_run_result:
  "pm_valid_run (PublicKey 1) demo_run (demo_pacemaker [2, 0, 0, 0] 2 0 1)"
  "pm_run demo_run (demo_pacemaker [2, 0, 0, 0] 2 0 1) =
     Some (demo_pacemaker [5, 5, 5, 0] 5 5 5, [BroadcastWish 5, Enter 2, Enter 3, Enter 4, Enter 5])"
  by (simp_all add: demo_run_def pm_eval upt_rec)

lemma demo_party_count: "party_count_ok (committee_size demo_committee)"
  by (simp add: party_count_ok_def committee_size_def demo_committee_def)

theorem pacemaker_run_settled_witness:
  "\<exists>q out. pm_run demo_run (demo_pacemaker [2, 0, 0, 0] 2 0 1) = Some (q, out)
     \<and> entry_target q \<le> largest_entered_view q"
proof -
  have "PublicKey 1 \<in> members demo_committee"
    by (simp add: demo_members)
  from pacemaker_run_settled [OF demo_party_count this] demo_run_result(1) show ?thesis
    unfolding demo_start by blast
qed

theorem entered_views_have_wish_quorum_witness:
  "n_minus_f_parties (from_committee demo_committee) \<le>
     card (insert (PublicKey 1) (sent demo_committee demo_run 4))"
  using entered_views_have_wish_quorum [OF demo_committee_ok demo_party_count demo_start _ demo_run_result]
  by (simp add: demo_members)

theorem amplified_wish_has_correct_origin_witness:
  "\<exists>a y. a \<in> members demo_committee - {PublicKey 2} \<and> 5 \<le> y \<and> Wish a y \<in> set demo_run"
proof -
  have "f_parties (from_committee demo_committee) = 1"
    using demo_party_count
    by (simp add: party_count_ok_def from_committee_def from_party_count_eq)
      (simp add: committee_size_def demo_committee_def)
  then show ?thesis
    using amplified_wish_has_correct_origin [OF demo_committee_ok demo_party_count demo_start _ demo_run_result,
        of 5 "{PublicKey 2}"]
    by (simp add: demo_members)
qed

end
