(* ===== verification/Spec2Isabelle.thy ===== *)
theory Spec2Isabelle
  imports Agb_System Sequence_Transfer Cursor Pacemaker Claims Member_Index
begin

text \<open>
  A verification library for the Vantage protocol of the \<^verbatim>\<open>vantage-bft\<close> testbed. Paths are relative to
  \<^verbatim>\<open>src/\<close>.

  \<^bold>\<open>The program.\<close> A committee of nodes runs views in parallel. Every node publishes a lane of
  hash-linked blocks and acknowledges the blocks of others; the designated proposer of a view proposes two
  manifests of block references, a core and tips. Nodes answer with graded echoes and ready responses, and a
  quorum seals the view with an outcome: full, core or skip. A pacemaker decides which views are entered.
  Missing blocks are repaired from peers. The output cursor expands sealed views into one sequence of block
  digests, which is hash-chained, announced, certified, and transferred to nodes that lag behind. Blocks and
  the own frontier are kept by a storage actor over RocksDB.

  \<^bold>\<open>Foundations.\<close>
  \<^item> Prelude: ordered maps and sets (\<^verbatim>\<open>BTreeMap\<close>, \<^verbatim>\<open>BTreeSet\<close>) as sorted lists, saturating and wrapping
    arithmetic written out, counting lemmas. A \<^verbatim>\<open>HashMap\<close> is an ordered map too; where the code iterates one,
    the theory that does says so.
  \<^item> Committee: \<^verbatim>\<open>crypto/src/lib.rs\<close> keys and digests, the committee of \<^verbatim>\<open>config/src/lib.rs\<close>,
    \<^verbatim>\<open>primary/src/vantage/threshold.rs\<close>, \<^verbatim>\<open>primary/src/leader.rs\<close>. The locale \<^verbatim>\<open>quorum_system\<close> states what the
    protocol needs of a threshold and is interpreted on the stake quorum and on the party quorum. Shown: quorum
    intersection, the thresholds under unit stakes, fairness of the schedules, freedom from overflow.
  \<^item> Member_Index: \<^verbatim>\<open>primary/src/vantage/index.rs\<close>; the dense and overflow containers refine maps and sets.
  \<^item> Agb_Types, Effects, Messages, Claims: the data of \<^verbatim>\<open>agb.rs\<close>, \<^verbatim>\<open>mod.rs\<close>, \<^verbatim>\<open>messages.rs\<close>, \<^verbatim>\<open>block.rs\<close> and
    \<^verbatim>\<open>claim.rs\<close> with their digests and checks. Shown: what the well-formedness check accepts, that block
    identifiers bind content up to hash collisions, that honest claims are read back as built.

  \<^bold>\<open>Lanes, availability and repair.\<close>
  \<^item> Block_Cache: the block cache of \<^verbatim>\<open>primary/src/vantage/lanes.rs\<close>. The memoised prefix walks decide the
    unmemoised conditions; suffix classification agrees between caches; eviction is exact.
  \<^item> Ack_Aggregator: acknowledgement counting of \<^verbatim>\<open>lanes.rs\<close>, exact threshold crossings.
  \<^item> Avail: \<^verbatim>\<open>primary/src/vantage/avail.rs\<close>, the memoised lane segments agree with the cache.
  \<^item> Lanes: the lane manager of \<^verbatim>\<open>lanes.rs\<close>. A record holds the manager; each handler returns it with the
    shared cache and its effects. Shown: acknowledgements are direct and never repeated, no reference is lost,
    the own lane never equivocates over restarts, every reachable state is well formed.
  \<^item> Repair: \<^verbatim>\<open>primary/src/vantage/repair.rs\<close>. Shown: settled references are linked to genesis, an authorised
    reference settles when its chain arrives, each peer is served a block once, counters and limits are exact.
  \<^item> Store: \<^verbatim>\<open>store/src/lib.rs\<close>, which serves a plain map over any database that behaves as one.

  \<^bold>\<open>Agreement on views.\<close>
  \<^item> Pacemaker: \<^verbatim>\<open>primary/src/vantage/pacemaker.rs\<close>. Entered views have a quorum of wishes, amplification starts
    at a correct node, every run settles.
  \<^item> Agb_Engine: the engine \<^verbatim>\<open>AgbEngine\<close> of \<^verbatim>\<open>primary/src/vantage/agb.rs\<close>, one record per view and one definition
    per handler, recheck and timer.
  \<^item> Agb_Spec: the specification of one view, a ballot with a step relation, the four certificates of a seal,
    invariants by rule induction, and agreement of the seals of correct ballots.
  \<^item> Agb_Refinement: the engine refines the ballots. An abstraction function gives the ballot of a view state;
    the invariant says that the incremental tallies count the ballot; there is one simulation lemma per
    operation.
  \<^item> Agb_System: correct nodes among arbitrary peers, with interleaved events, messages and pruning. Shown:
    seals agree, a node speaks once per view, the tallies are exact. Agreement assumes equal stakes, and
    \<open>uneven_stakes_disagree\<close> is a run of correct nodes with unequal stakes that seals a view twice.

  \<^bold>\<open>Output.\<close>
  \<^item> Cursor: \<^verbatim>\<open>primary/src/vantage/cursor.rs\<close>. Cursors fed from one history finalise comparable sequences, no
    digest is output twice, installation delivers exactly the verified digests.
  \<^item> Sequence_Store, Sequence_Transfer: \<^verbatim>\<open>primary/src/vantage/sequence.rs\<close>. A head binds its history, the store
    refines the list of recorded views, certified heads were announced by a threshold, a transfer that reports
    itself verified holds the certified history whatever its sources sent.

  \<^bold>\<open>Conventions.\<close> Handlers take and return their state; effects are lists in the order of the code; an early
  return or a failed \<^verbatim>\<open>Option\<close> is a branch. The block cache, shared behind a mutex in the code, is an argument and a result of
  every function that may change it. Instants are milliseconds. BLAKE3, bincode and RocksDB are arguments, with
  what is needed of them (distinct hashed inputs have distinct digests, a decoder inverts its encoder, the
  database behaves as a map) as hypotheses of the properties that use them. Counters, instants and fields that
  only logs and metrics read are left out.

  \<^bold>\<open>Bounds and fuel.\<close> Stakes and views are natural numbers with the wrapping operations of their width written out
  where the code computes near the bound; \<^const>\<open>committee_ok\<close> keeps the total stake below \<open>2 ^ 31\<close>, so sums of
  stakes do not wrap. Walks down a lane recurse on the height and need no fuel. Loops with a budget in the code
  have that budget. The only counters used as fuel are those of the serving and scanning loops of \<^verbatim>\<open>sequence.rs\<close>,
  which are bounded by the requested count or by the target view. The entry loop of the pacemaker is a function
  with a termination proof, by the distance to the target view.

  \<^bold>\<open>Not modelled.\<close>
  \<^item> \<^verbatim>\<open>primary/src/vantage/node.rs\<close>, the driver loop: channels, timers, configuration and dispatch. Its sender
    checks are the conditions on events in Agb_System.
  \<^item> The target-local resolver (\<^verbatim>\<open>direct_resolution.rs\<close>, \<^verbatim>\<open>resolution_evidence.rs\<close>): what it may submit is a
    parameter of Agb_System, and agreement is stated for seals it did not submit.
  \<^item> \<^verbatim>\<open>DigestStatements\<close> of \<^verbatim>\<open>agb.rs\<close>: it matches digest-form echoes and readies with their bodies and calls the
    handlers modelled in Agb_Engine.
  \<^item> \<^verbatim>\<open>install.rs\<close>, \<^verbatim>\<open>resume.rs\<close>, \<^verbatim>\<open>outbox.rs\<close>, \<^verbatim>\<open>payload.rs\<close>, \<^verbatim>\<open>frontier.rs\<close>, \<^verbatim>\<open>pipeline.rs\<close>: fetching, replay and tracing
    around the components above.
  \<^item> \<^verbatim>\<open>wire.rs\<close> and \<^verbatim>\<open>legacy_control_wire.rs\<close>: bincode layouts and message admission.
  \<^item> Signatures and channel authentication (\<^verbatim>\<open>crypto\<close>, \<^verbatim>\<open>network\<close>), sockets, the worker, metrics, the node binary
    and the benchmark client: I/O and third-party cryptography.
  \<^item> The other protocols of the testbed: the Autobahn core under \<^verbatim>\<open>primary/src\<close> and \<^verbatim>\<open>primary/src/simpleit\<close>.
\<close>

end
